(* ===== verification/TS_Prelude.thy ===== *)
theory TS_Prelude
  imports Main "HOL-Library.Word"
begin

text \<open>
  Shared vocabulary of the development: the byte and byte-array types, the
  computation type in which a method of a mutable TypeScript object is modelled
  (state in, a thrown error or a value together with the new state out), the
  invariant calculus for such computations, little-endian byte codecs of naturals, and
  the list lemmas that several components use.
\<close>

named_theorems act_simps \<open>evaluation rules of state-and-error computations\<close>
named_theorems keeps_intros \<open>invariant rules, one per primitive computation\<close>
named_theorems codec_simps \<open>rewriting rules about byte codecs\<close>

subsection \<open>Bytes and JavaScript constants\<close>

type_synonym byte = "8 word"
type_synonym bytes = "byte list"

abbreviation max_safe_integer :: nat where
  "max_safe_integer \<equiv> 9007199254740991"

text \<open>\<open>Number.isSafeInteger\<close> of an integer.\<close>

definition is_safe_integer :: "int \<Rightarrow> bool" where
  "is_safe_integer n \<longleftrightarrow> \<bar>n\<bar> \<le> int max_safe_integer"

text \<open>Adding to a set or a record keeps the keys in the order of their first insertion.\<close>

definition add_key :: "'a list \<Rightarrow> 'a \<Rightarrow> 'a list" where
  "add_key ks k = (if k \<in> set ks then ks else ks @ [k])"

lemma set_add_key [simp]: "set (add_key ks k) = insert k (set ks)"
  by (auto simp: add_key_def)

lemma set_foldl_add_key [simp]: "set (foldl add_key ks xs) = set ks \<union> set xs"
  by (induction xs arbitrary: ks) auto

text \<open>The errors the code throws with \<open>Error\<close>, \<open>RangeError\<close> and \<open>TypeError\<close>, with their message.\<close>

datatype js_error = JsError string | JsRangeError string | JsTypeError string

text \<open>Decimal rendering, as template literals do it.\<close>

fun decimal_digits :: "nat \<Rightarrow> string" where
  "decimal_digits n =
     (if n < 10 then [char_of (48 + n)] else decimal_digits (n div 10) @ [char_of (48 + n mod 10)])"

declare decimal_digits.simps [simp del]

definition decimal :: "int \<Rightarrow> string" where
  "decimal i = (if i < 0 then CHR ''-'' # decimal_digits (nat (- i)) else decimal_digits (nat i))"

subsection \<open>Computations over a mutable object that may throw\<close>

text \<open>
  A method of a mutable object maps the object's state to an outcome (\<open>Inl\<close> a thrown
  error, \<open>Inr\<close> the returned value) and the state it leaves behind. The state is returned
  on both branches, because a JavaScript exception does not undo assignments.
\<close>

type_synonym ('s, 'e, 'a) action = "'s \<Rightarrow> ('e + 'a) \<times> 's"

definition ret :: "'a \<Rightarrow> ('s, 'e, 'a) action" where
  "ret x = (\<lambda>s. (Inr x, s))"

definition throw :: "'e \<Rightarrow> ('s, 'e, 'a) action" where
  "throw e = (\<lambda>s. (Inl e, s))"

definition bnd :: "('s, 'e, 'a) action \<Rightarrow> ('a \<Rightarrow> ('s, 'e, 'b) action) \<Rightarrow> ('s, 'e, 'b) action" where
  "bnd m k = (\<lambda>s. case m s of (Inl e, t) \<Rightarrow> (Inl e, t) | (Inr x, t) \<Rightarrow> k x t)"

definition thn :: "('s, 'e, 'a) action \<Rightarrow> ('s, 'e, 'b) action \<Rightarrow> ('s, 'e, 'b) action" where
  "thn m n = bnd m (\<lambda>_. n)"

definition get :: "('s \<Rightarrow> 'a) \<Rightarrow> ('s, 'e, 'a) action" where
  "get f = (\<lambda>s. (Inr (f s), s))"

definition modify :: "('s \<Rightarrow> 's) \<Rightarrow> ('s, 'e, unit) action" where
  "modify f = (\<lambda>s. (Inr (), f s))"

definition throw_if :: "bool \<Rightarrow> 'e \<Rightarrow> ('s, 'e, unit) action" where
  "throw_if b e = (if b then throw e else ret ())"

definition do_when :: "bool \<Rightarrow> ('s, 'e, unit) action \<Rightarrow> ('s, 'e, unit) action" where
  "do_when b m = (if b then m else ret ())"

text \<open>A pure fallible function used inside a computation.\<close>

definition lift_result :: "'e + 'a \<Rightarrow> ('s, 'e, 'a) action" where
  "lift_result r = (\<lambda>s. (r, s))"

lemma ret_apply [simp, act_simps]: "ret x s = (Inr x, s)"
  by (simp add: ret_def)

lemma throw_apply [simp, act_simps]: "throw e s = (Inl e, s)"
  by (simp add: throw_def)

lemma get_apply [simp, act_simps]: "get f s = (Inr (f s), s)"
  by (simp add: get_def)

lemma modify_apply [simp, act_simps]: "modify f s = (Inr (), f s)"
  by (simp add: modify_def)

lemma throw_if_apply [simp, act_simps]:
  "throw_if b e s = (if b then (Inl e, s) else (Inr (), s))"
  by (simp add: throw_if_def)

lemma do_when_apply [simp, act_simps]: "do_when b m s = (if b then m s else (Inr (), s))"
  by (simp add: do_when_def)

lemma lift_result_apply [simp, act_simps]: "lift_result r s = (r, s)"
  by (simp add: lift_result_def)

lemma bnd_apply [act_simps]:
  "bnd m k s = (case m s of (Inl e, t) \<Rightarrow> (Inl e, t) | (Inr x, t) \<Rightarrow> k x t)"
  by (simp add: bnd_def)

lemma thn_apply [act_simps]:
  "thn m n s = (case m s of (Inl e, t) \<Rightarrow> (Inl e, t) | (Inr _, t) \<Rightarrow> n t)"
  by (simp add: thn_def bnd_def)

lemma bnd_ok [simp]: "m s = (Inr x, t) \<Longrightarrow> bnd m k s = k x t"
  by (simp add: bnd_def)

lemma bnd_err [simp]: "m s = (Inl e, t) \<Longrightarrow> bnd m k s = (Inl e, t)"
  by (simp add: bnd_def)

lemma thn_ok [simp]: "m s = (Inr x, t) \<Longrightarrow> thn m n s = n t"
  by (simp add: thn_def)

lemma thn_err [simp]: "m s = (Inl e, t) \<Longrightarrow> thn m n s = (Inl e, t)"
  by (simp add: thn_def)

lemma bnd_ret [simp]: "bnd (ret x) k = k x"
  by (rule ext) simp

lemma bnd_assoc: "bnd (bnd m k) h = bnd m (\<lambda>x. bnd (k x) h)"
  by (rule ext) (simp add: bnd_def split: prod.split sum.split)

text \<open>Sequencing of pure fallible functions, and one over a list, from left to right.\<close>

definition and_then :: "'e + 'a \<Rightarrow> ('a \<Rightarrow> 'e + 'b) \<Rightarrow> 'e + 'b" where
  "and_then r k = (case r of Inl e \<Rightarrow> Inl e | Inr x \<Rightarrow> k x)"

lemma and_then_simps [simp]: "and_then (Inl e) k = Inl e" "and_then (Inr x) k = k x"
  by (simp_all add: and_then_def)

lemma and_then_cong [fundef_cong]:
  "r = r' \<Longrightarrow> (\<And>x. r' = Inr x \<Longrightarrow> k x = k' x) \<Longrightarrow> and_then r k = and_then r' k'"
  by (cases r') simp_all

lemma and_then_eq_Inr: "and_then r k = Inr y \<longleftrightarrow> (\<exists>x. r = Inr x \<and> k x = Inr y)"
  by (cases r) simp_all

subsection \<open>Invariants of computations\<close>

text \<open>
  \<open>keeps I m\<close>: whatever the outcome of \<open>m\<close>, it leaves the state satisfying \<open>I\<close>
  if it found it so. One rule per combinator; the primitives add theirs to
  \<open>keeps_intros\<close>.
\<close>

definition keeps :: "('s \<Rightarrow> bool) \<Rightarrow> ('s, 'e, 'a) action \<Rightarrow> bool" where
  "keeps I m \<longleftrightarrow> (\<forall>s. I s \<longrightarrow> I (snd (m s)))"

lemma keepsI: "(\<And>s. I s \<Longrightarrow> I (snd (m s))) \<Longrightarrow> keeps I m"
  by (simp add: keeps_def)

lemma keepsD: "keeps I m \<Longrightarrow> I s \<Longrightarrow> m s = (r, t) \<Longrightarrow> I t"
  by (metis keeps_def snd_conv)

lemma keeps_snd: "keeps I m \<Longrightarrow> I s \<Longrightarrow> I (snd (m s))"
  by (simp add: keeps_def)

lemma keeps_ret [keeps_intros]: "keeps I (ret x)"
  by (simp add: keeps_def)

lemma keeps_throw [keeps_intros]: "keeps I (throw e)"
  by (simp add: keeps_def)

lemma keeps_get [keeps_intros]: "keeps I (get f)"
  by (simp add: keeps_def)

lemma keeps_throw_if [keeps_intros]: "keeps I (throw_if b e)"
  by (simp add: keeps_def)

lemma keeps_lift_result [keeps_intros]: "keeps I (lift_result r)"
  by (simp add: keeps_def)

lemma keeps_bnd [keeps_intros]:
  assumes "keeps I m" and "\<And>x. keeps I (k x)"
  shows "keeps I (bnd m k)"
proof (rule keepsI)
  fix s
  assume I: "I s"
  obtain r t where m: "m s = (r, t)" by (cases "m s")
  have t: "I t" by (rule keepsD[OF assms(1) I m])
  show "I (snd (bnd m k s))"
  proof (cases r)
    case (Inl e)
    with m t show ?thesis by simp
  next
    case (Inr x)
    with m t assms(2)[of x] show ?thesis by (simp add: keeps_def)
  qed
qed

lemma keeps_thn [keeps_intros]:
  "keeps I m \<Longrightarrow> keeps I n \<Longrightarrow> keeps I (thn m n)"
  unfolding thn_def by (rule keeps_bnd)

lemma keeps_do_when [keeps_intros]: "keeps I m \<Longrightarrow> keeps I (do_when b m)"
  by (simp add: keeps_def)

lemma keeps_if [keeps_intros]:
  "(b \<Longrightarrow> keeps I m) \<Longrightarrow> (\<not> b \<Longrightarrow> keeps I n) \<Longrightarrow> keeps I (if b then m else n)"
  by simp

lemma keeps_modify: "(\<And>s. I s \<Longrightarrow> I (f s)) \<Longrightarrow> keeps I (modify f)"
  by (simp add: keeps_def)

subsection \<open>Little-endian bytes of a natural number\<close>

fun le_bytes :: "nat \<Rightarrow> nat \<Rightarrow> bytes" where
  "le_bytes 0 n = []"
| "le_bytes (Suc k) n = word_of_nat n # le_bytes k (n div 256)"

fun le_nat :: "bytes \<Rightarrow> nat" where
  "le_nat [] = 0"
| "le_nat (b # bs) = unat b + 256 * le_nat bs"

lemma unat_byte_lt [simp]: "unat (b :: byte) < 256"
  using unsigned_less[of b] by simp

lemma unat_byte_le [simp]: "unat (b :: byte) \<le> 255"
  using unat_byte_lt[of b] by linarith

lemma unat_byte_of_nat [simp]: "unat (word_of_nat n :: byte) = n mod 256"
  by (simp add: unat_of_nat)

lemma byte_256_times [simp]: "(256 :: byte) * x = 0"
proof -
  have "(256 :: byte) = 0" by simp
  then show ?thesis by (metis mult_zero_left)
qed

lemma length_le_bytes [simp]: "length (le_bytes k n) = k"
  by (induction k arbitrary: n) auto

lemma le_nat_le_bytes: "le_nat (le_bytes k n) = n mod 256 ^ k"
proof (induction k arbitrary: n)
  case 0
  show ?case by simp
next
  case (Suc k)
  have "n mod 256 ^ Suc k = n mod 256 + 256 * (n div 256 mod 256 ^ k)"
    using mod_mult2_eq[of n 256 "256 ^ k"] by simp
  with Suc show ?case by simp
qed

lemma le_nat_le_bytes_small [simp]: "n < 256 ^ k \<Longrightarrow> le_nat (le_bytes k n) = n"
  by (simp add: le_nat_le_bytes)

lemma le_nat_lt: "le_nat bs < 256 ^ length bs"
proof (induction bs)
  case Nil
  show ?case by simp
next
  case (Cons b bs)
  have "unat b + 256 * le_nat bs < 256 + 256 * le_nat bs" by simp
  also have "\<dots> = 256 * Suc (le_nat bs)" by simp
  also have "\<dots> \<le> 256 * 256 ^ length bs" using Cons by (simp only: mult_le_mono2 Suc_leI)
  finally show ?case by simp
qed

lemma le_bytes_le_nat [simp]: "le_bytes (length bs) (le_nat bs) = bs"
  by (induction bs) auto

lemma le_nat_append: "le_nat (xs @ ys) = le_nat xs + 256 ^ length xs * le_nat ys"
  by (induction xs) (auto simp: algebra_simps)

lemma le_nat_inject: "length xs = length ys \<Longrightarrow> le_nat xs = le_nat ys \<longleftrightarrow> xs = ys"
  by (metis le_bytes_le_nat)

lemma le_bytes_eq_iff:
  "m < 256 ^ k \<Longrightarrow> n < 256 ^ k \<Longrightarrow> le_bytes k m = le_bytes k n \<longleftrightarrow> m = n"
  by (metis le_nat_le_bytes_small)

lemma le_nat_replicate_zero [simp]: "le_nat (replicate k 0) = 0"
  by (induction k) auto

lemma le_nat_snoc_zero [simp]: "le_nat (xs @ [0]) = le_nat xs"
  by (simp add: le_nat_append)

lemma le_nat_eq_0_iff: "le_nat bs = 0 \<longleftrightarrow> (\<forall>b \<in> set bs. b = 0)"
  by (induction bs) (auto simp: unat_eq_0)

lemma le_bytes_zero [simp]: "le_bytes k 0 = replicate k 0"
  by (induction k) auto

subsection \<open>The sign bit of a byte\<close>

lemma unat_eqI: "unat (v :: byte) = unat w \<Longrightarrow> v = w"
  by (simp add: unsigned_word_eqI)

lemma byte_and_7f: "unat (and (x :: byte) 0x7f) = unat x mod 128"
proof -
  have "(0x7f :: byte) = mask 7" by (simp add: mask_eq_exp_minus_1)
  then have "and x 0x7f = take_bit 7 x" by (simp add: take_bit_eq_mask)
  moreover have "unat (take_bit 7 x) = take_bit 7 (unat x)"
    by (simp add: unsigned_take_bit_eq)
  ultimately show ?thesis by (simp add: take_bit_nat_def)
qed

lemma byte_bit7: "bit (x :: byte) 7 \<longleftrightarrow> 128 \<le> unat x"
proof -
  have "bit x 7 \<longleftrightarrow> bit (unat x) 7" by (simp add: bit_unsigned_iff)
  also have "\<dots> \<longleftrightarrow> odd (unat x div 128)" by (simp add: bit_iff_odd)
  also have "unat x div 128 < 2" using unat_byte_lt[of x] by linarith
  then have "odd (unat x div 128) \<longleftrightarrow> unat x div 128 = 1"
    by (metis One_nat_def even_zero less_2_cases odd_one)
  also have "\<dots> \<longleftrightarrow> 128 \<le> unat x" using unat_byte_lt[of x] by linarith
  finally show ?thesis .
qed

lemma byte_and_80: "and (x :: byte) 0x80 = 0 \<longleftrightarrow> unat x < 128"
proof -
  have "(0x80 :: byte) = 2 ^ 7" by simp
  then have "and x 0x80 = 0 \<longleftrightarrow> \<not> bit x 7" by (metis and_exp_eq_0_iff_not_bit)
  then show ?thesis by (simp add: byte_bit7 not_le)
qed

lemma byte_or_80: "unat (x :: byte) < 128 \<Longrightarrow> unat (or x 0x80) = unat x + 128"
proof -
  assume x: "unat x < 128"
  then have "x + 0x80 = or x 0x80"
    by (intro disjunctive_add_eq_or) (simp add: byte_and_80)
  moreover have "unat (x + 0x80) = unat x + 128"
    using x by (simp add: unat_word_ariths)
  ultimately show ?thesis by simp
qed

lemma byte_and_7f_small: "unat (x :: byte) < 128 \<Longrightarrow> and x 0x7f = x"
  by (rule unat_eqI) (simp add: byte_and_7f)

lemma byte_and_7f_or_80: "unat (x :: byte) < 128 \<Longrightarrow> and (or x 0x80) 0x7f = x"
  by (rule unat_eqI) (simp add: byte_and_7f byte_or_80)

lemma byte_or_80_and_7f: "128 \<le> unat (x :: byte) \<Longrightarrow> or (and x 0x7f) 0x80 = x"
proof (rule unat_eqI)
  assume x: "128 \<le> unat x"
  have "unat x - 128 < 128" using unat_byte_lt[of x] by linarith
  with x have "unat x mod 128 = unat x - 128" by (simp add: le_mod_geq [of 128 "unat x"])
  with x show "unat (or (and x 0x7f) 0x80) = unat x"
    by (simp add: byte_or_80 byte_and_7f)
qed

lemma byte_eq_0_iff: "(x :: byte) = 0 \<longleftrightarrow> unat x = 0"
  by (simp add: unat_eq_0)

subsection \<open>Lists\<close>

lemma take_drop_slice: "xs = take n xs @ take k (drop n xs) @ drop (n + k) xs"
  by (metis add.commute append_take_drop_id drop_drop)

lemma drop_eq_append_length: "drop n xs = ys @ zs \<Longrightarrow> n \<le> length xs \<Longrightarrow> n + length ys \<le> length xs"
  by (metis add.commute diff_add_inverse2 drop_eq_Nil le_add1 le_add_diff_inverse length_append length_drop nat_add_left_cancel_le)

lemma drop_append_take: "drop n xs = ys @ zs \<Longrightarrow> take (length ys) (drop n xs) = ys"
  by simp

lemma drop_append_drop: "drop n xs = ys @ zs \<Longrightarrow> drop (n + length ys) xs = zs"
  by (metis add.commute append_eq_conv_conj drop_drop)

lemma last_conv_rev: "xs \<noteq> [] \<Longrightarrow> last xs = hd (rev xs)"
  by (simp add: hd_rev)

end
