(* ===== verification/Big_Number.thy ===== *)
theory Big_Number
  imports TS_Prelude "HOL-Library.Signed_Division"
begin

text \<open>
  The arbitrary-precision integers of \<open>packages/sdk/src/primitives/BigNumber.ts\<close>: a
  magnitude and a sign flag, the arithmetic on them, the byte-array, signed-magnitude,
  script-number and compact-bits encodings. The refinement lemmas show that every
  operation computes the integer operation its name promises (\<open>getSignedValue\<close> is the
  abstraction function) and keeps the representation invariant \<open>bn_wf\<close> (no negative zero).
  The nominal word length, which only the legacy \<open>words\<close> accessor reads, is not modelled.
\<close>

named_theorems bn_value \<open>the integer an operation computes\<close>
named_theorems bn_wf_intros \<open>preservation of the representation invariant\<close>

subsection \<open>State and representation\<close>

record big_number =
  magnitude :: nat
  is_negative :: bool

definition bn_wf :: "big_number \<Rightarrow> bool" where
  "bn_wf b \<longleftrightarrow> (magnitude b = 0 \<longrightarrow> \<not> is_negative b)"

definition initializeState :: "nat \<Rightarrow> bool \<Rightarrow> big_number" where
  "initializeState m s = \<lparr>magnitude = m, is_negative = (if m = 0 then False else s)\<rparr>"

definition normSign :: "big_number \<Rightarrow> big_number" where
  "normSign b = (if magnitude b = 0 then b\<lparr>is_negative := False\<rparr> else b)"

definition getSignedValue :: "big_number \<Rightarrow> int" where
  "getSignedValue b = (if is_negative b then - int (magnitude b) else int (magnitude b))"

definition setValueFromSigned :: "int \<Rightarrow> big_number" where
  "setValueFromSigned v =
     normSign (if v < 0 then \<lparr>magnitude = nat (- v), is_negative = True\<rparr>
               else \<lparr>magnitude = nat v, is_negative = False\<rparr>)"

text \<open>The constructor on a \<open>bigint\<close>, a \<open>number\<close> and a byte array.\<close>

definition bn_of_bigint :: "int \<Rightarrow> big_number" where
  "bn_of_bigint v = normSign (initializeState (nat \<bar>v\<bar>) (v < 0))"

definition bn_of_number :: "int \<Rightarrow> js_error + big_number" where
  "bn_of_number v =
     (if \<bar>v\<bar> \<le> int max_safe_integer then Inr (initializeState (nat \<bar>v\<bar>) (v < 0))
      else Inl (JsError ''The number is larger than 2 ^ 53 (unsafe)''))"

definition initArray_be :: "bytes \<Rightarrow> big_number" where
  "initArray_be bs = initializeState (foldl (\<lambda>m b. 256 * m + unat b) 0 bs) False"

definition initArray_le :: "bytes \<Rightarrow> big_number" where
  "initArray_le bs = initializeState (foldl (\<lambda>m b. 256 * m + unat b) 0 (rev bs)) False"

subsection \<open>Sizes and byte arrays\<close>

fun bit_length :: "nat \<Rightarrow> nat" where
  "bit_length n = (if n = 0 then 0 else Suc (bit_length (n div 2)))"

declare bit_length.simps [simp del]

definition bitLength :: "big_number \<Rightarrow> nat" where
  "bitLength b = (if magnitude b = 0 then 0 else bit_length (magnitude b))"

definition byteLength :: "big_number \<Rightarrow> nat" where
  "byteLength b = (if magnitude b = 0 then 0 else (bitLength b + 7) div 8)"

definition bn_toArray :: "bool \<Rightarrow> nat option \<Rightarrow> big_number \<Rightarrow> js_error + bytes" where
  "bn_toArray isLE len b =
     (let actual = byteLength b;
          req = (case len of None \<Rightarrow> max 1 actual | Some n \<Rightarrow> n)
      in if \<not> actual \<le> req then Inl (JsError ''byte array longer than desired length'')
         else if \<not> 0 < req then Inl (JsError ''Requested array length <= 0'')
         else Inr (if isLE then le_bytes req (magnitude b) else rev (le_bytes req (magnitude b))))"

fun zero_bits :: "nat \<Rightarrow> nat" where
  "zero_bits t = (if t \<noteq> 0 \<and> even t then Suc (zero_bits (t div 2)) else 0)"

declare zero_bits.simps [simp del]

definition zeroBits :: "big_number \<Rightarrow> nat" where
  "zeroBits b = (if magnitude b = 0 then 0 else zero_bits (magnitude b))"

definition bn_toNumber :: "big_number \<Rightarrow> js_error + int" where
  "bn_toNumber b =
     (let v = getSignedValue b
      in if v > int max_safe_integer \<or> v < - int max_safe_integer
         then Inl (JsError ''Number can only safely store up to 53 bits'') else Inr v)"

subsection \<open>Sign, bit operations and shifts\<close>

definition isNeg :: "big_number \<Rightarrow> bool" where
  "isNeg b \<longleftrightarrow> is_negative b \<and> magnitude b \<noteq> 0"

definition bn_neg :: "big_number \<Rightarrow> big_number" where
  "bn_neg b = (if magnitude b \<noteq> 0 then b\<lparr>is_negative := \<not> is_negative b\<rparr> else b)"

definition bn_abs :: "big_number \<Rightarrow> big_number" where
  "bn_abs b = b\<lparr>is_negative := False\<rparr>"

definition bn_toTwos :: "nat \<Rightarrow> big_number \<Rightarrow> big_number" where
  "bn_toTwos width b =
     (let v = getSignedValue b;
          v' = (if is_negative b \<and> magnitude b \<noteq> 0 then 2 ^ width + v else v)
      in initializeState (nat (take_bit width v')) False)"

definition bn_fromTwos :: "nat \<Rightarrow> big_number \<Rightarrow> big_number" where
  "bn_fromTwos width b =
     (let m = magnitude b
      in if width > 0 \<and> bit m (width - 1) \<and> \<not> is_negative b
         then setValueFromSigned (int m - 2 ^ width) else b)"

definition bn_iuop :: "(nat \<Rightarrow> nat \<Rightarrow> nat) \<Rightarrow> big_number \<Rightarrow> big_number \<Rightarrow> big_number" where
  "bn_iuop f a b = normSign (a\<lparr>magnitude := f (magnitude a) (magnitude b)\<rparr>)"

definition bn_iop :: "(nat \<Rightarrow> nat \<Rightarrow> nat) \<Rightarrow> big_number \<Rightarrow> big_number \<Rightarrow> js_error + big_number" where
  "bn_iop f a b =
     (if \<not> is_negative a \<and> \<not> is_negative b then Inr (bn_iuop f a b)
      else Inl (JsError ''Assertion failed''))"

definition bn_iand :: "big_number \<Rightarrow> big_number \<Rightarrow> js_error + big_number" where
  "bn_iand = bn_iop and"

definition bn_ior :: "big_number \<Rightarrow> big_number \<Rightarrow> js_error + big_number" where
  "bn_ior = bn_iop or"

definition bn_ixor :: "big_number \<Rightarrow> big_number \<Rightarrow> js_error + big_number" where
  "bn_ixor = bn_iop xor"

definition bn_inotn :: "nat \<Rightarrow> big_number \<Rightarrow> big_number" where
  "bn_inotn width b =
     normSign (b\<lparr>magnitude := nat (take_bit width (not (int (magnitude b))))\<rparr>)"

definition bn_setn :: "nat \<Rightarrow> bool \<Rightarrow> big_number \<Rightarrow> big_number" where
  "bn_setn i val b =
     normSign (b\<lparr>magnitude := (if val then or (magnitude b) (2 ^ i)
                                else unset_bit i (magnitude b))\<rparr>)"

definition bn_ushln :: "nat \<Rightarrow> big_number \<Rightarrow> big_number" where
  "bn_ushln n b = (if n = 0 then b else normSign (b\<lparr>magnitude := push_bit n (magnitude b)\<rparr>))"

definition bn_ushrn :: "nat \<Rightarrow> big_number \<Rightarrow> big_number" where
  "bn_ushrn n b = (if n = 0 then b else normSign (b\<lparr>magnitude := drop_bit n (magnitude b)\<rparr>))"

definition bn_shln :: "nat \<Rightarrow> big_number \<Rightarrow> js_error + big_number" where
  "bn_shln n b = (if \<not> is_negative b then Inr (bn_ushln n b)
                  else Inl (JsError ''ishln requires positive number''))"

definition bn_shrn :: "nat \<Rightarrow> big_number \<Rightarrow> js_error + big_number" where
  "bn_shrn n b = (if \<not> is_negative b then Inr (bn_ushrn n b)
                  else Inl (JsError ''ishrn requires positive number''))"

definition bn_testn :: "nat \<Rightarrow> big_number \<Rightarrow> bool" where
  "bn_testn i b \<longleftrightarrow> and (drop_bit i (magnitude b)) 1 \<noteq> 0"

definition bn_maskn :: "nat \<Rightarrow> big_number \<Rightarrow> js_error + big_number" where
  "bn_maskn n b =
     (if \<not> is_negative b then Inr (normSign (b\<lparr>magnitude := and (magnitude b) (2 ^ n - 1)\<rparr>))
      else Inl (JsError ''imaskn works only with positive numbers''))"

subsection \<open>Addition, multiplication, powers\<close>

definition bn_add :: "big_number \<Rightarrow> big_number \<Rightarrow> big_number" where
  "bn_add a b = setValueFromSigned (getSignedValue a + getSignedValue b)"

definition bn_sub :: "big_number \<Rightarrow> big_number \<Rightarrow> big_number" where
  "bn_sub a b = setValueFromSigned (getSignedValue a - getSignedValue b)"

definition bn_mul :: "big_number \<Rightarrow> big_number \<Rightarrow> big_number" where
  "bn_mul a b =
     (let m = magnitude a * magnitude b
      in normSign \<lparr>magnitude = m,
                   is_negative = (if m = 0 then False else is_negative a \<noteq> is_negative b)\<rparr>)"

abbreviation max_imuln_arg :: int where
  "max_imuln_arg \<equiv> 0x3ffffff"

definition bn_muln :: "int \<Rightarrow> big_number \<Rightarrow> js_error + big_number" where
  "bn_muln n b = (if \<bar>n\<bar> \<le> max_imuln_arg then Inr (setValueFromSigned (getSignedValue b * n))
                  else Inl (JsError ''Assertion failed''))"

definition bn_addn :: "int \<Rightarrow> big_number \<Rightarrow> js_error + big_number" where
  "bn_addn n b = (if \<bar>n\<bar> \<le> max_imuln_arg then Inr (setValueFromSigned (getSignedValue b + n))
                  else Inl (JsError ''num is too large''))"

definition bn_subn :: "int \<Rightarrow> big_number \<Rightarrow> js_error + big_number" where
  "bn_subn n b = (if \<bar>n\<bar> \<le> max_imuln_arg then Inr (setValueFromSigned (getSignedValue b - n))
                  else Inl (JsError ''Assertion failed''))"

definition bn_sqr :: "big_number \<Rightarrow> big_number" where
  "bn_sqr a = \<lparr>magnitude = magnitude a * magnitude a, is_negative = False\<rparr>"

definition bn_isZero :: "big_number \<Rightarrow> bool" where
  "bn_isZero b \<longleftrightarrow> magnitude b = 0"

definition bn_isOdd :: "big_number \<Rightarrow> bool" where
  "bn_isOdd b \<longleftrightarrow> magnitude b mod 2 = 1"

definition bn_isEven :: "big_number \<Rightarrow> bool" where
  "bn_isEven b \<longleftrightarrow> magnitude b mod 2 = 0"

text \<open>The square-and-multiply loop of \<open>pow\<close>: \<open>exp\<close> is shifted right once per round.\<close>

function pow_loop :: "big_number \<Rightarrow> big_number \<Rightarrow> big_number \<Rightarrow> big_number" where
  "pow_loop res base exp =
     (if bn_isZero exp then res
      else pow_loop (if bn_isOdd exp then bn_mul res base else res) (bn_sqr base) (bn_ushrn 1 exp))"
  by pat_completeness auto
termination
  by (relation "measure (\<lambda>(res, base, exp). magnitude exp)")
     (auto simp: bn_isZero_def bn_ushrn_def normSign_def drop_bit_nat_def)

declare pow_loop.simps [simp del]

definition bn_pow :: "big_number \<Rightarrow> big_number \<Rightarrow> js_error + big_number" where
  "bn_pow b e =
     (if is_negative e then Inl (JsError ''Exponent for pow must be non-negative'')
      else if bn_isZero e then Inr (bn_of_bigint 1)
      else let r = pow_loop (bn_of_bigint 1) (if isNeg b then bn_neg b else b) e
           in Inr (if isNeg b \<and> bn_isOdd e then bn_neg r else r))"

subsection \<open>Division, remainders, greatest common divisors, inverses\<close>

text \<open>\<open>bigint\<close> division truncates towards zero: \<open>sdiv\<close> and \<open>smod\<close> of the library.\<close>

definition computeMod :: "int \<Rightarrow> int \<Rightarrow> bool \<Rightarrow> int" where
  "computeMod tV nV positive =
     (let mV = tV smod nV
      in if positive \<and> mV < 0 then mV + (if nV < 0 then - nV else nV) else mV)"

definition bn_div :: "big_number \<Rightarrow> big_number \<Rightarrow> js_error + big_number" where
  "bn_div a b =
     (if bn_isZero b then Inl (JsError ''Division by zero'')
      else if bn_isZero a then Inr (bn_of_bigint 0)
      else Inr (setValueFromSigned (getSignedValue a sdiv getSignedValue b)))"

definition bn_mod :: "big_number \<Rightarrow> big_number \<Rightarrow> js_error + big_number" where
  "bn_mod a b =
     (if bn_isZero b then Inl (JsError ''Division by zero'')
      else if bn_isZero a then Inr (bn_of_bigint 0)
      else Inr (setValueFromSigned (computeMod (getSignedValue a) (getSignedValue b) False)))"

definition bn_umod :: "big_number \<Rightarrow> big_number \<Rightarrow> js_error + big_number" where
  "bn_umod a b =
     (if bn_isZero b then Inl (JsError ''Division by zero'')
      else if bn_isZero a then Inr (bn_of_bigint 0)
      else Inr (setValueFromSigned (computeMod (getSignedValue a) (getSignedValue b) True)))"

definition bn_divRound :: "big_number \<Rightarrow> big_number \<Rightarrow> js_error + big_number" where
  "bn_divRound a b =
     (if bn_isZero b then Inl (JsError ''Assertion failed'')
      else let tV = getSignedValue a; nV = getSignedValue b;
               d = tV sdiv nV; m = tV smod nV
           in if m = 0 then Inr (setValueFromSigned d)
              else Inr (setValueFromSigned
                (if \<bar>m\<bar> * 2 \<ge> \<bar>nV\<bar>
                 then (if (tV > 0 \<and> nV > 0) \<or> (tV < 0 \<and> nV < 0) then d + 1 else d - 1)
                 else d)))"

definition bn_modrn :: "int \<Rightarrow> big_number \<Rightarrow> js_error + int" where
  "bn_modrn n b =
     (if n = 0 then Inl (JsError ''Division by zero in modrn'')
      else let r = int (magnitude b mod nat \<bar>n\<bar>) in Inr (if n < 0 then - r else r))"

definition bn_divn :: "int \<Rightarrow> big_number \<Rightarrow> js_error + big_number" where
  "bn_divn n b =
     (if n = 0 then Inl (JsError ''Assertion failed'')
      else if \<not> \<bar>n\<bar> \<le> max_imuln_arg then Inl (JsError ''num is too large'')
      else Inr (setValueFromSigned (getSignedValue b sdiv n)))"

lemma abs_smod_less: "(v :: int) \<noteq> 0 \<Longrightarrow> \<bar>u smod v\<bar> < \<bar>v\<bar>"
  by (simp add: signed_modulo_int_def abs_mult sgn_if)

text \<open>The loop of \<open>egcd\<close> on its eight local variables' six live values.\<close>

function egcd_loop :: "int \<Rightarrow> int \<Rightarrow> int \<Rightarrow> int \<Rightarrow> int \<Rightarrow> int \<Rightarrow> int \<times> int \<times> int" where
  "egcd_loop uV vV a pa b pb =
     (if vV \<noteq> 0
      then let q = uV sdiv vV
           in egcd_loop vV (uV smod vV) pa (a - q * pa) pb (b - q * pb)
      else (a, b, uV))"
  by pat_completeness auto
termination
  by (relation "measure (\<lambda>(uV, vV, a, pa, b, pb). nat \<bar>vV\<bar>)")
     (auto simp: abs_smod_less)

declare egcd_loop.simps [simp del]

definition bn_egcd :: "big_number \<Rightarrow> big_number \<Rightarrow> js_error + (big_number \<times> big_number \<times> big_number)"
where
  "bn_egcd x p =
     (if is_negative p then Inl (JsError ''p must not be negative'')
      else if bn_isZero p then Inl (JsError ''p must not be zero'')
      else case egcd_loop (getSignedValue x) (int (magnitude p)) 1 0 0 1 of
             (a, b, u) \<Rightarrow> Inr (setValueFromSigned a, setValueFromSigned b,
                              initializeState (nat \<bar>u\<bar>) False))"

fun gcd_loop :: "nat \<Rightarrow> nat \<Rightarrow> nat" where
  "gcd_loop u v = (if v \<noteq> 0 then gcd_loop v (u mod v) else u)"

declare gcd_loop.simps [simp del]

definition bn_gcd :: "big_number \<Rightarrow> big_number \<Rightarrow> big_number" where
  "bn_gcd a b =
     (if magnitude a = 0 then bn_abs (setValueFromSigned (int (magnitude b)))
      else if magnitude b = 0 then bn_abs (setValueFromSigned (int (magnitude a)))
      else initializeState (gcd_loop (magnitude a) (magnitude b)) False)"

definition bn_invm :: "big_number \<Rightarrow> big_number \<Rightarrow> js_error + big_number" where
  "bn_invm x num =
     (if bn_isZero num \<or> is_negative num
      then Inl (JsError ''Modulus for invm must be positive and non-zero'')
      else case bn_egcd x num of Inl e \<Rightarrow> Inl e
           | Inr (a, b, g) \<Rightarrow>
               if getSignedValue g \<noteq> 1
               then Inl (JsError ''Inverse does not exist (numbers are not coprime).'')
               else bn_umod a num)"

text \<open>Fermat inversion by square-and-multiply, the path outside a reduction context.\<close>

function invmp_loop :: "big_number \<Rightarrow> big_number \<Rightarrow> big_number \<Rightarrow> big_number \<Rightarrow> js_error + big_number"
where
  "invmp_loop p result base e =
     (if bn_isZero e then Inr result
      else case (if bn_isOdd e then bn_umod (bn_mul result base) p else Inr result) of
             Inl err \<Rightarrow> Inl err
           | Inr result' \<Rightarrow>
               (case bn_umod (bn_sqr base) p of Inl err \<Rightarrow> Inl err
                | Inr base' \<Rightarrow> invmp_loop p result' base' (bn_ushrn 1 e)))"
  by pat_completeness auto
termination
  by (relation "measure (\<lambda>(p, result, base, e). magnitude e)")
     (auto simp: bn_isZero_def bn_ushrn_def normSign_def drop_bit_nat_def)

declare invmp_loop.simps [simp del]

definition bn_invmp :: "big_number \<Rightarrow> big_number \<Rightarrow> js_error + big_number" where
  "bn_invmp x p =
     (if is_negative p then Inl (JsError ''p must not be negative for _invmp'')
      else if bn_isZero p then Inl (JsError ''p must not be zero for _invmp'')
      else case bn_umod x p of Inl e \<Rightarrow> Inl e
           | Inr a \<Rightarrow>
               (case bn_subn 2 p of Inl e \<Rightarrow> Inl e
                | Inr ex \<Rightarrow> invmp_loop p (bn_of_bigint 1) a ex))"

subsection \<open>Comparison\<close>

definition bn_cmp :: "big_number \<Rightarrow> big_number \<Rightarrow> int" where
  "bn_cmp a b =
     (if getSignedValue a < getSignedValue b then -1
      else if getSignedValue a > getSignedValue b then 1 else 0)"

definition bn_cmpn :: "big_number \<Rightarrow> int \<Rightarrow> js_error + int" where
  "bn_cmpn a n =
     (if \<bar>n\<bar> \<le> max_imuln_arg
      then Inr (if getSignedValue a < n then -1 else if getSignedValue a > n then 1 else 0)
      else Inl (JsError ''Number is too big''))"

definition bn_ucmp :: "big_number \<Rightarrow> big_number \<Rightarrow> int" where
  "bn_ucmp a b =
     (if magnitude a < magnitude b then -1 else if magnitude a > magnitude b then 1 else 0)"

subsection \<open>Signed-magnitude bytes and script numbers\<close>

text \<open>
  \<open>fromSm\<close> and \<open>toSm\<close> work on big-endian bytes and reverse for \<open>'little'\<close>; the detour
  over a hexadecimal string is the base-256 digits of the magnitude.
\<close>

definition fromSm_be :: "bytes \<Rightarrow> big_number" where
  "fromSm_be beBytes =
     (case beBytes of [] \<Rightarrow> bn_of_bigint 0
      | b # bs \<Rightarrow>
          (if and b 0x80 \<noteq> 0
           then initializeState (le_nat (rev (and b 0x7f # bs))) True
           else initializeState (le_nat (rev (b # bs))) False))"

definition fromSm :: "bool \<Rightarrow> bytes \<Rightarrow> big_number" where
  "fromSm little bs = fromSm_be (if little then rev bs else bs)"

definition mag_bytes_be :: "nat \<Rightarrow> bytes" where
  "mag_bytes_be m = rev (le_bytes ((bit_length m + 7) div 8) m)"

definition toSm_be :: "big_number \<Rightarrow> bytes" where
  "toSm_be b =
     (if magnitude b = 0 then (if is_negative b then [0x80] else [])
      else case mag_bytes_be (magnitude b) of
             [] \<Rightarrow> []
           | x # xs \<Rightarrow>
               if is_negative b
               then (if and x 0x80 = 0 then or x 0x80 # xs else 0x80 # x # xs)
               else (if and x 0x80 = 0 then x # xs else 0 # x # xs))"

definition toSm :: "bool \<Rightarrow> big_number \<Rightarrow> bytes" where
  "toSm little b = (if little then rev (toSm_be b) else toSm_be b)"

definition toScriptNum :: "big_number \<Rightarrow> bytes" where
  "toScriptNum b = toSm True b"

text \<open>The minimality test of \<open>fromScriptNum\<close> on a non-empty buffer.\<close>

definition non_minimal :: "bytes \<Rightarrow> bool" where
  "non_minimal num \<longleftrightarrow>
     and (last num) 0x7f = 0 \<and> (length num \<le> 1 \<or> and (last (butlast num)) 0x80 = 0)"

definition fromScriptNum :: "bool \<Rightarrow> nat option \<Rightarrow> bytes \<Rightarrow> js_error + big_number" where
  "fromScriptNum requireMinimal maxNumSize num =
     (if (case maxNumSize of None \<Rightarrow> False | Some n \<Rightarrow> length num > n)
      then Inl (JsError ''script number overflow'')
      else if num = [] then Inr (bn_of_bigint 0)
      else if requireMinimal \<and> non_minimal num
      then Inl (JsError ''non-minimally encoded script number'')
      else Inr (fromSm True num))"

subsection \<open>The compact bits of a block header\<close>

definition fromBits :: "bool \<Rightarrow> nat \<Rightarrow> js_error + big_number" where
  "fromBits strict bits =
     (let nSize = drop_bit 24 (take_bit 32 bits);
          nWordCompact = and bits 0x007fffff;
          neg = and bits 0x00800000 \<noteq> 0
      in if strict \<and> neg then Inl (JsError ''negative bit set'')
         else if nSize = 0 \<and> nWordCompact = 0 then Inr (bn_of_bigint 0)
         else let bn = initializeState nWordCompact False;
                  bn' = (if nSize \<le> 3 then bn_ushrn ((3 - nSize) * 8) bn
                         else bn_ushln ((nSize - 3) * 8) bn)
              in Inr (if neg then bn_neg bn' else bn'))"

definition toBits :: "big_number \<Rightarrow> nat" where
  "toBits b =
     (if bn_isZero b \<and> \<not> isNeg b then 0
      else let mB = mag_bytes_be (magnitude b);
               nSize = length mB;
               nWord = (if nSize \<le> 3 then le_nat (rev mB) else le_nat (rev (take 3 mB)));
               carry = (and nWord 0x00800000 \<noteq> 0 \<and> nSize \<le> 0xff);
               nWord' = (if carry then drop_bit 8 nWord else nWord);
               nSize' = (if carry then nSize + 1 else nSize);
               r = or (take_bit 32 (push_bit 24 nSize')) nWord'
           in if isNeg b then or r 0x00800000 else r)"

subsection \<open>The invariant\<close>

lemma bn_wf_initializeState [simp, bn_wf_intros]: "bn_wf (initializeState m s)"
  by (simp add: bn_wf_def initializeState_def)

lemma bn_wf_normSign [simp, bn_wf_intros]: "bn_wf (normSign b)"
  by (simp add: bn_wf_def normSign_def)

lemma bn_wf_setValueFromSigned [simp, bn_wf_intros]: "bn_wf (setValueFromSigned v)"
  by (simp add: setValueFromSigned_def)

lemma bn_wf_of_bigint [simp, bn_wf_intros]: "bn_wf (bn_of_bigint v)"
  by (simp add: bn_of_bigint_def)

lemma bn_wf_neg [bn_wf_intros]: "bn_wf b \<Longrightarrow> bn_wf (bn_neg b)"
  by (auto simp: bn_wf_def bn_neg_def)

lemma bn_wf_abs [simp, bn_wf_intros]: "bn_wf (bn_abs b)"
  by (simp add: bn_wf_def bn_abs_def)

lemma bn_wf_mul [simp, bn_wf_intros]: "bn_wf (bn_mul a b)"
  by (simp add: bn_mul_def Let_def)

lemma bn_wf_sqr [simp, bn_wf_intros]: "bn_wf (bn_sqr a)"
  by (simp add: bn_wf_def bn_sqr_def)

lemma bn_wf_add [simp, bn_wf_intros]: "bn_wf (bn_add a b)"
  by (simp add: bn_add_def)

lemma bn_wf_sub [simp, bn_wf_intros]: "bn_wf (bn_sub a b)"
  by (simp add: bn_sub_def)

lemma bn_wf_ushln [bn_wf_intros]: "bn_wf b \<Longrightarrow> bn_wf (bn_ushln n b)"
  by (simp add: bn_ushln_def)

lemma bn_wf_ushrn [bn_wf_intros]: "bn_wf b \<Longrightarrow> bn_wf (bn_ushrn n b)"
  by (simp add: bn_ushrn_def)

lemma bn_wf_fromSm_be [simp, bn_wf_intros]: "bn_wf (fromSm_be bs)"
  by (simp add: fromSm_be_def split: list.split)

lemma bn_wf_fromSm [simp, bn_wf_intros]: "bn_wf (fromSm little bs)"
  by (simp add: fromSm_def)

subsection \<open>The integer each operation computes\<close>

lemma value_initializeState [simp, bn_value]:
  "getSignedValue (initializeState m s) = (if s then - int m else int m)"
  by (simp add: getSignedValue_def initializeState_def)

lemma value_setValueFromSigned [simp, bn_value]: "getSignedValue (setValueFromSigned v) = v"
  by (simp add: getSignedValue_def setValueFromSigned_def normSign_def)

lemma value_of_bigint [simp, bn_value]: "getSignedValue (bn_of_bigint v) = v"
  by (simp add: bn_of_bigint_def normSign_def initializeState_def getSignedValue_def)

lemma value_inject: "bn_wf a \<Longrightarrow> bn_wf b \<Longrightarrow> getSignedValue a = getSignedValue b \<longleftrightarrow> a = b"
  by (cases a; cases b) (auto simp: getSignedValue_def bn_wf_def split: if_splits)

lemma setValue_getSigned: "bn_wf b \<Longrightarrow> setValueFromSigned (getSignedValue b) = b"
  by (simp add: value_inject [symmetric])

lemma magnitude_value: "magnitude b = nat \<bar>getSignedValue b\<bar>"
  by (simp add: getSignedValue_def)

lemma value_zero_iff: "getSignedValue b = 0 \<longleftrightarrow> magnitude b = 0"
  by (simp add: getSignedValue_def)

lemma value_neg [simp, bn_value]: "getSignedValue (bn_neg b) = - getSignedValue b"
  by (simp add: getSignedValue_def bn_neg_def)

lemma value_abs [simp, bn_value]: "getSignedValue (bn_abs b) = \<bar>getSignedValue b\<bar>"
  by (simp add: getSignedValue_def bn_abs_def)

lemma isNeg_iff [simp]: "isNeg b \<longleftrightarrow> getSignedValue b < 0"
  by (auto simp: isNeg_def getSignedValue_def)

lemma isZero_iff: "bn_isZero b \<longleftrightarrow> getSignedValue b = 0"
  by (simp add: bn_isZero_def value_zero_iff)

lemma value_add [simp, bn_value]: "getSignedValue (bn_add a b) = getSignedValue a + getSignedValue b"
  by (simp add: bn_add_def)

lemma value_sub [simp, bn_value]: "getSignedValue (bn_sub a b) = getSignedValue a - getSignedValue b"
  by (simp add: bn_sub_def)

lemma value_mul [simp, bn_value]: "getSignedValue (bn_mul a b) = getSignedValue a * getSignedValue b"
  by (auto simp: bn_mul_def Let_def normSign_def getSignedValue_def)

lemma value_sqr [simp, bn_value]: "getSignedValue (bn_sqr a) = (getSignedValue a)\<^sup>2"
  by (simp add: bn_sqr_def getSignedValue_def power2_eq_square)

lemma value_ushln [simp, bn_value]: "getSignedValue (bn_ushln n b) = getSignedValue b * 2 ^ n"
  by (auto simp: bn_ushln_def normSign_def getSignedValue_def push_bit_nat_def)

lemma value_ushrn [bn_value]:
  "getSignedValue (bn_ushrn n b) = sgn (getSignedValue b) * (\<bar>getSignedValue b\<bar> div 2 ^ n)"
proof -
  have "int (magnitude b div 2 ^ n) = int (magnitude b) div 2 ^ n"
    by (simp add: zdiv_int)
  then show ?thesis
    by (auto simp: bn_ushrn_def normSign_def getSignedValue_def drop_bit_nat_def sgn_if
        simp flip: of_nat_0_eq_iff)
qed

text \<open>Square-and-multiply computes the power.\<close>

lemma pow_loop_value:
  assumes "bn_wf e" and "\<not> is_negative e"
  shows "getSignedValue (pow_loop res base e)
         = getSignedValue res * getSignedValue base ^ magnitude e"
  using assms
proof (induction res base e rule: pow_loop.induct)
  case (1 res base e)
  show ?case
  proof (cases "bn_isZero e")
    case True
    then show ?thesis by (simp add: pow_loop.simps [of res base e] bn_isZero_def)
  next
    case False
    let ?m = "magnitude e"
    have m: "magnitude (bn_ushrn 1 e) = ?m div 2"
      by (simp add: bn_ushrn_def normSign_def drop_bit_nat_def)
    have neg: "\<not> is_negative (bn_ushrn 1 e)"
      using "1.prems" by (simp add: bn_ushrn_def normSign_def)
    have split: "(x :: int) ^ ?m = (if odd ?m then x else 1) * (x\<^sup>2) ^ (?m div 2)" for x
    proof -
      have "x ^ ?m = x ^ (?m mod 2 + 2 * (?m div 2))" by simp
      also have "\<dots> = x ^ (?m mod 2) * (x\<^sup>2) ^ (?m div 2)"
        by (simp only: power_add power_mult)
      finally show ?thesis by (simp add: odd_iff_mod_2_eq_one even_iff_mod_2_eq_zero)
    qed
    have "getSignedValue (pow_loop (if bn_isOdd e then bn_mul res base else res)
            (bn_sqr base) (bn_ushrn 1 e))
          = getSignedValue (if bn_isOdd e then bn_mul res base else res)
            * getSignedValue (bn_sqr base) ^ (?m div 2)"
      using "1.IH"[OF False] "1.prems" neg m by (simp add: bn_wf_ushrn)
    with False show ?thesis
      by (simp add: pow_loop.simps [of res base e] split [of "getSignedValue base"]
          bn_isOdd_def odd_iff_mod_2_eq_one)
  qed
qed

lemma bn_pow_value:
  assumes "bn_wf e" and "\<not> is_negative e"
  shows "\<exists>r. bn_pow b e = Inr r \<and> getSignedValue r = getSignedValue b ^ magnitude e"
proof (cases "bn_isZero e")
  case True
  with assms show ?thesis by (simp add: bn_pow_def bn_isZero_def)
next
  case False
  with assms show ?thesis
    by (auto simp: bn_pow_def Let_def pow_loop_value bn_isOdd_def odd_iff_mod_2_eq_one
        power_minus_odd power_minus_even even_iff_mod_2_eq_zero)
qed

text \<open>Division, remainder and the unsigned remainder.\<close>

lemma smod_pos_value: "(n :: int) > 0 \<Longrightarrow> computeMod v n True = v mod n"
proof -
  assume n: "n > 0"
  have "v smod n = v - n * (v sdiv n)"
    by (simp add: minus_smod_eq_mult_sdiv [symmetric] mult.commute)
  then have cong: "(v smod n) mod n = v mod n"
    by (simp add: mod_diff_right_eq [symmetric])
  have "\<bar>v smod n\<bar> < n" using abs_smod_less [of n v] n by simp
  then have bounds: "- n < v smod n" "v smod n < n" by linarith+
  show ?thesis
  proof (cases "v smod n < 0")
    case True
    then have "(v smod n + n) mod n = v smod n + n"
      using bounds by (intro mod_pos_pos_trivial) simp_all
    with True n cong show ?thesis by (simp add: computeMod_def)
  next
    case False
    then have "(v smod n) mod n = v smod n"
      using bounds by (intro mod_pos_pos_trivial) simp_all
    with False n cong show ?thesis by (simp add: computeMod_def)
  qed
qed

lemma bn_div_value:
  "getSignedValue b \<noteq> 0 \<Longrightarrow>
   \<exists>r. bn_div a b = Inr r \<and> bn_wf r \<and> getSignedValue r = getSignedValue a sdiv getSignedValue b"
  by (auto simp: bn_div_def isZero_iff)

lemma bn_mod_value:
  "getSignedValue b \<noteq> 0 \<Longrightarrow>
   \<exists>r. bn_mod a b = Inr r \<and> bn_wf r \<and> getSignedValue r = getSignedValue a smod getSignedValue b"
  by (auto simp: bn_mod_def isZero_iff computeMod_def)

lemma bn_umod_value:
  "getSignedValue b > 0 \<Longrightarrow>
   \<exists>r. bn_umod a b = Inr r \<and> bn_wf r \<and> getSignedValue r = getSignedValue a mod getSignedValue b"
  by (auto simp: bn_umod_def isZero_iff smod_pos_value)

text \<open>Greatest common divisors and inverses.\<close>

lemma gcd_loop_gcd: "gcd_loop u v = gcd u v"
proof (induction u v rule: gcd_loop.induct)
  case (1 u v)
  then show ?case
    by (cases "v = 0") (simp_all add: gcd_loop.simps [of u v] gcd_loop.simps [of u 0] gcd_red_nat [of u v])
qed

lemma bn_gcd_value: "getSignedValue (bn_gcd a b) = gcd (getSignedValue a) (getSignedValue b)"
  by (auto simp: bn_gcd_def gcd_loop_gcd getSignedValue_def [of a] getSignedValue_def [of b]
      simp flip: gcd_int_int_eq)

lemma gcd_smod: "v \<noteq> 0 \<Longrightarrow> gcd v (u smod v) = gcd u (v :: int)"
proof -
  have "u = v * (u sdiv v) + u smod v"
    by (metis minus_mult_sdiv_eq_smod add_diff_cancel_left' diff_eq_eq add.commute)
  then have "gcd u v = gcd (v * (u sdiv v) + u smod v) v" by simp
  also have "\<dots> = gcd (u smod v) v"
    by (metis gcd.commute gcd_add_mult mult.commute add.commute)
  finally show ?thesis by (simp add: gcd.commute)
qed

text \<open>The loop invariant of the extended algorithm: both rows are combinations of the inputs.\<close>

lemma egcd_loop_bezout:
  assumes "egcd_loop u v a pa b pb = (x, y, g)"
    and "a * m + b * n = u" and "pa * m + pb * n = v"
  shows "x * m + y * n = g \<and> \<bar>g\<bar> = gcd u v"
  using assms
proof (induction u v a pa b pb rule: egcd_loop.induct)
  case (1 u v a pa b pb)
  show ?case
  proof (cases "v = 0")
    case True
    with "1.prems" show ?thesis by (auto simp: egcd_loop.simps [of u 0])
  next
    case False
    let ?q = "u sdiv v"
    have "egcd_loop v (u smod v) pa (a - ?q * pa) pb (b - ?q * pb) = (x, y, g)"
      using "1.prems"(1) False by (simp add: egcd_loop.simps [of u v] Let_def)
    moreover have "(a - ?q * pa) * m + (b - ?q * pb) * n = u smod v"
    proof -
      have "(a - ?q * pa) * m + (b - ?q * pb) * n = u - ?q * v"
        using "1.prems"(2,3) by (simp add: algebra_simps flip: "1.prems"(2) "1.prems"(3))
      then show ?thesis by (simp add: minus_sdiv_mult_eq_smod)
    qed
    ultimately have "x * m + y * n = g \<and> \<bar>g\<bar> = gcd v (u smod v)"
      using "1.IH"[OF False refl] "1.prems"(3) by blast
    with False show ?thesis by (simp add: gcd_smod)
  qed
qed

lemma positive_not_neg:
  "getSignedValue p > 0 \<Longrightarrow> \<not> is_negative p \<and> \<not> bn_isZero p \<and> int (magnitude p) = getSignedValue p"
  by (auto simp: getSignedValue_def bn_isZero_def split: if_splits)

lemma egcd_loop_nonneg:
  "u \<ge> 0 \<Longrightarrow> v \<ge> 0 \<Longrightarrow> egcd_loop u v a pa b pb = (x, y, g) \<Longrightarrow> g \<ge> 0"
proof (induction u v a pa b pb rule: egcd_loop.induct)
  case (1 u v a pa b pb)
  have "u smod v \<ge> 0" if "v \<noteq> 0"
    using "1.prems"(1) that by (simp add: signed_modulo_int_def sgn_if pos_mod_sign)
  with 1 show ?case
    by (cases "v = 0") (auto simp: egcd_loop.simps [of u v] egcd_loop.simps [of u 0] Let_def)
qed

lemma bn_egcd_bezout:
  assumes "getSignedValue p > 0"
  shows "\<exists>a b g. bn_egcd x p = Inr (a, b, g) \<and> bn_wf a
          \<and> getSignedValue g = gcd (getSignedValue x) (getSignedValue p)
          \<and> \<bar>getSignedValue a * getSignedValue x + getSignedValue b * getSignedValue p\<bar>
            = getSignedValue g
          \<and> (getSignedValue x \<ge> 0 \<longrightarrow>
             getSignedValue a * getSignedValue x + getSignedValue b * getSignedValue p
            = getSignedValue g)"
proof -
  have p: "\<not> is_negative p" "\<not> bn_isZero p" "int (magnitude p) = getSignedValue p"
    using positive_not_neg[OF assms] by simp_all
  obtain a b u where loop:
    "egcd_loop (getSignedValue x) (getSignedValue p) 1 0 0 1 = (a, b, u)"
    by (metis prod_cases3)
  have bezout: "a * getSignedValue x + b * getSignedValue p = u
        \<and> \<bar>u\<bar> = gcd (getSignedValue x) (getSignedValue p)"
    by (rule egcd_loop_bezout [OF loop]) simp_all
  have "getSignedValue x \<ge> 0 \<Longrightarrow> u \<ge> 0"
    by (rule egcd_loop_nonneg [OF _ _ loop]) (use assms in simp_all)
  with bezout have "getSignedValue x \<ge> 0 \<Longrightarrow> u = gcd (getSignedValue x) (getSignedValue p)"
    by (metis abs_of_nonneg)
  with bezout p loop show ?thesis by (simp add: bn_egcd_def)
qed

lemma bn_invm_inverse:
  assumes num: "getSignedValue num > 1" and x: "getSignedValue x \<ge> 0"
    and cop: "coprime (getSignedValue x) (getSignedValue num)"
  shows "\<exists>r. bn_invm x num = Inr r \<and> 0 \<le> getSignedValue r \<and> getSignedValue r < getSignedValue num
             \<and> (getSignedValue x * getSignedValue r) mod getSignedValue num = 1"
proof -
  let ?n = "getSignedValue num" and ?x = "getSignedValue x"
  obtain a b g where e: "bn_egcd x num = Inr (a, b, g)"
    and g: "getSignedValue g = gcd ?x ?n"
    and bez: "getSignedValue a * ?x + getSignedValue b * ?n = getSignedValue g"
    using bn_egcd_bezout[of num x] num x by auto
  obtain r where r: "bn_umod a num = Inr r" "getSignedValue r = getSignedValue a mod ?n"
    using bn_umod_value[of num a] num by auto
  have "(?x * getSignedValue r) mod ?n = (getSignedValue a * ?x + getSignedValue b * ?n) mod ?n"
    by (simp add: r(2) mod_mult_right_eq mult.commute)
  also have "\<dots> = 1" using bez g cop num by (simp add: coprime_iff_gcd_eq_1)
  finally have inv: "(?x * getSignedValue r) mod ?n = 1" .
  have "getSignedValue g = 1" using g cop by (simp add: coprime_iff_gcd_eq_1)
  with e r(1) positive_not_neg[of num] num have "bn_invm x num = Inr r"
    by (simp add: bn_invm_def)
  with inv r(2) num show ?thesis by (simp add: pos_mod_bound)
qed

lemma bn_invm_not_coprime:
  assumes "getSignedValue num > 0" and "\<not> coprime (getSignedValue x) (getSignedValue num)"
  shows "bn_invm x num = Inl (JsError ''Inverse does not exist (numbers are not coprime).'')"
proof -
  obtain a b g where e: "bn_egcd x num = Inr (a, b, g)"
    and g: "getSignedValue g = gcd (getSignedValue x) (getSignedValue num)"
    using bn_egcd_bezout[OF assms(1)] by blast
  have "getSignedValue g \<noteq> 1"
    using assms(2) g by (simp add: coprime_iff_gcd_eq_1)
  moreover have "\<not> (bn_isZero num \<or> is_negative num)"
    using positive_not_neg[OF assms(1)] by simp
  ultimately show ?thesis using e by (simp add: bn_invm_def)
qed

text \<open>
  Outside that range the loop can end on \<open>-1\<close>: the code then returns the inverse of \<open>-x\<close>.
\<close>

lemma bn_invm_negative_one: "bn_invm (bn_of_bigint (-1)) (bn_of_bigint 5) = Inr (bn_of_bigint 1)"
  by code_simp

subsection \<open>Comparison\<close>

lemma bn_cmp_spec:
  "(bn_cmp a b < 0 \<longleftrightarrow> getSignedValue a < getSignedValue b)
   \<and> (bn_cmp a b = 0 \<longleftrightarrow> getSignedValue a = getSignedValue b)
   \<and> (bn_cmp a b > 0 \<longleftrightarrow> getSignedValue a > getSignedValue b)"
  by (simp add: bn_cmp_def)

lemma bn_cmp_simps [simp]:
  "bn_cmp a b < 0 \<longleftrightarrow> getSignedValue a < getSignedValue b"
  "bn_cmp a b = 0 \<longleftrightarrow> getSignedValue a = getSignedValue b"
  "bn_cmp a b > 0 \<longleftrightarrow> getSignedValue a > getSignedValue b"
  "bn_cmp a b \<le> 0 \<longleftrightarrow> getSignedValue a \<le> getSignedValue b"
  "bn_cmp a b \<ge> 0 \<longleftrightarrow> getSignedValue a \<ge> getSignedValue b"
  by (simp_all add: bn_cmp_def)

subsection \<open>Byte counts\<close>

lemma bit_length_bounds:
  "n < 2 ^ bit_length n \<and> (n \<noteq> 0 \<longrightarrow> 2 ^ bit_length n \<le> 2 * n)"
proof (induction n rule: bit_length.induct)
  case (1 n)
  show ?case
  proof (cases "n = 0")
    case True
    then show ?thesis by simp
  next
    case False
    with "1.IH" have lt: "n div 2 < 2 ^ bit_length (n div 2)"
      and ge: "n div 2 \<noteq> 0 \<longrightarrow> 2 ^ bit_length (n div 2) \<le> 2 * (n div 2)" by blast+
    have eq: "2 ^ bit_length n = 2 * 2 ^ bit_length (n div 2)"
      using False by (simp add: bit_length.simps [of n])
    have "n < 2 * 2 ^ bit_length (n div 2)" using lt by linarith
    moreover have "2 * 2 ^ bit_length (n div 2) \<le> 2 * n"
    proof (cases "n div 2 = 0")
      case True
      with False show ?thesis by (simp add: bit_length.simps [of 0])
    next
      case False
      with ge show ?thesis by linarith
    qed
    ultimately show ?thesis by (simp add: eq)
  qed
qed

definition byte_count :: "nat \<Rightarrow> nat" where
  "byte_count n = (bit_length n + 7) div 8"

lemma byte_count_0 [simp]: "byte_count 0 = 0"
  by (simp add: byte_count_def bit_length.simps [of 0])

lemma lt_byte_count: "n < 256 ^ byte_count n"
proof -
  have "bit_length n \<le> 8 * byte_count n" by (simp add: byte_count_def)
  then have "(2 :: nat) ^ bit_length n \<le> 2 ^ (8 * byte_count n)"
    by (intro power_increasing) simp_all
  also have "\<dots> = 256 ^ byte_count n" by (simp add: power_mult)
  finally show ?thesis using bit_length_bounds[of n] by linarith
qed

lemma byte_count_unique: "256 ^ k \<le> n \<Longrightarrow> n < 256 ^ Suc k \<Longrightarrow> byte_count n = Suc k"
proof -
  assume lo: "256 ^ k \<le> n" and hi: "n < 256 ^ Suc k"
  have n: "n \<noteq> 0" using lo by (metis le_zero_eq power_not_zero zero_neq_numeral)
  have p: "(2 :: nat) ^ (8 * j) = 256 ^ j" for j by (simp add: power_mult)
  have "(2 :: nat) ^ (8 * k) < 2 ^ bit_length n"
    using lo bit_length_bounds[of n] by (simp add: p)
  then have a: "8 * k < bit_length n" by simp
  have "(2 :: nat) ^ bit_length n < 2 * 2 ^ (8 * Suc k)"
    using hi bit_length_bounds[of n] n unfolding p by linarith
  then have "(2 :: nat) ^ bit_length n < 2 ^ Suc (8 * Suc k)" by (simp only: power_Suc)
  then have b: "bit_length n < Suc (8 * Suc k)"
    by (rule power_less_imp_less_exp [OF one_less_numeral_iff [THEN iffD2], rotated]) simp
  from a b show ?thesis by (simp add: byte_count_def)
qed

lemma mag_bytes_be_eq: "mag_bytes_be m = rev (le_bytes (byte_count m) m)"
  by (simp add: mag_bytes_be_def byte_count_def)

lemma le_nat_rev_mag_bytes [simp]: "le_nat (rev (mag_bytes_be m)) = m"
  by (simp add: mag_bytes_be_eq lt_byte_count)

lemma le_nat_rev_Cons:
  "le_nat (rev (x # xs)) = le_nat (rev xs) + 256 ^ length xs * unat x"
  by (simp add: le_nat_append)

lemma mag_bytes_be_of_digits:
  assumes "x \<noteq> 0"
  shows "mag_bytes_be (le_nat (rev (x # xs))) = x # xs"
proof -
  let ?n = "le_nat (rev (x # xs))"
  have "unat x \<noteq> 0" using assms by (simp add: byte_eq_0_iff)
  then have "256 ^ length xs * 1 \<le> 256 ^ length xs * unat x"
    by (intro mult_le_mono2) simp
  then have lo: "256 ^ length xs \<le> ?n" unfolding le_nat_rev_Cons by linarith
  have hi: "?n < 256 ^ Suc (length xs)"
    using le_nat_lt[of "rev (x # xs)"] by simp
  have "byte_count ?n = length (rev (x # xs))"
    using byte_count_unique[OF lo hi] by simp
  then show ?thesis
    unfolding mag_bytes_be_eq by (metis le_bytes_le_nat rev_rev_ident)
qed

lemma mag_bytes_be_Cons:
  assumes "m \<noteq> 0"
  obtains x xs where "mag_bytes_be m = x # xs" "x \<noteq> 0" "le_nat (rev (x # xs)) = m"
proof -
  obtain x xs where c: "mag_bytes_be m = x # xs"
    using assms le_nat_rev_mag_bytes[of m] by (cases "mag_bytes_be m") auto
  have v: "le_nat (rev (x # xs)) = m"
    using c le_nat_rev_mag_bytes[of m] by simp
  have "x \<noteq> 0"
  proof
    assume "x = 0"
    then have "m = le_nat (rev xs)" using v by (simp add: le_nat_append)
    moreover have "length (x # xs) = byte_count m"
      by (metis c length_le_bytes length_rev mag_bytes_be_eq)
    ultimately have "m < 256 ^ length xs" and len: "byte_count m = Suc (length xs)"
      using le_nat_lt[of "rev xs"] by simp_all
    then have "2 ^ bit_length m \<le> 2 * m" and "m < 2 ^ (8 * length xs)"
      using bit_length_bounds[of m] assms by (simp_all add: power_mult)
    then have "(2 :: nat) ^ bit_length m < 2 ^ Suc (8 * length xs)" by simp
    then have "bit_length m < Suc (8 * length xs)"
      by (rule power_less_imp_less_exp [rotated]) simp
    with len show False by (simp add: byte_count_def)
  qed
  with c v that show ?thesis by blast
qed

subsection \<open>Script numbers\<close>

lemma fromSm_be_Cons:
  "fromSm_be (b # bs) =
     initializeState (le_nat (rev (and b 0x7f # bs))) (128 \<le> unat b)"
proof (cases "unat b < 128")
  case True
  then show ?thesis
    by (simp add: fromSm_be_def byte_and_80 byte_and_7f_small)
next
  case False
  then show ?thesis by (simp add: fromSm_be_def byte_and_80)
qed

lemma fromSm_toSm_be: "bn_wf b \<Longrightarrow> fromSm_be (toSm_be b) = b"
proof (cases "magnitude b = 0")
  case True
  moreover assume "bn_wf b"
  ultimately show ?thesis
    by (simp add: toSm_be_def fromSm_be_def bn_wf_def bn_of_bigint_def normSign_def initializeState_def)
next
  case False
  obtain x xs where m: "mag_bytes_be (magnitude b) = x # xs" "x \<noteq> 0"
    "le_nat (rev (x # xs)) = magnitude b"
    using mag_bytes_be_Cons[OF False] .
  have init: "initializeState (magnitude b) (is_negative b) = b"
    using False by (simp add: initializeState_def)
  have z: "and (0x80 :: byte) 0x7f = 0" "and (0 :: byte) 0x7f = 0" by simp_all
  have v: "le_nat (rev xs) + 256 ^ length xs * unat x = magnitude b"
    using m(3) unfolding le_nat_rev_Cons .
  show ?thesis
    using False m(1) init v
    by (auto simp: toSm_be_def fromSm_be_Cons byte_and_80 byte_and_7f_or_80 byte_or_80
        byte_and_7f_small z le_nat_append split: if_splits)
qed

lemma fromSm_toSm: "bn_wf b \<Longrightarrow> fromSm little (toSm little b) = b"
  by (simp add: fromSm_def toSm_def fromSm_toSm_be)

lemma toSm_fromSm_be:
  assumes "unat b mod 128 \<noteq> 0 \<or> (\<exists>y ys. bs = y # ys \<and> 128 \<le> unat y)"
  shows "toSm_be (fromSm_be (b # bs)) = b # bs"
proof (cases "unat b mod 128 = 0")
  case False
  let ?x = "and b 0x7f"
  have x0: "?x \<noteq> 0" using False by (simp add: byte_eq_0_iff byte_and_7f)
  have xs: "unat ?x < 128" by (simp add: byte_and_7f)
  note digits = mag_bytes_be_of_digits[OF x0, of bs]
  then have mag: "le_nat (rev (?x # bs)) \<noteq> 0"
    by (metis le_bytes.simps(1) list.distinct(1) byte_count_0 mag_bytes_be_eq rev.simps(1))
  show ?thesis
    using mag xs digits
    by (auto simp: fromSm_be_Cons toSm_be_def initializeState_def byte_and_80 byte_or_80_and_7f
        byte_and_7f_small simp del: rev.simps)
next
  case True
  then obtain y ys where bs: "bs = y # ys" and y: "128 \<le> unat y" using assms by auto
  have b: "and b 0x7f = 0" using True by (simp add: byte_eq_0_iff byte_and_7f)
  have "y \<noteq> 0" using y by auto
  note digits = mag_bytes_be_of_digits[OF this, of ys]
  have v: "le_nat (rev (and b 0x7f # y # ys)) = le_nat (rev (y # ys))"
    unfolding b by (simp add: le_nat_append)
  have mag: "le_nat (rev (y # ys)) \<noteq> 0"
    using digits by (metis le_bytes.simps(1) list.distinct(1) byte_count_0 mag_bytes_be_eq rev.simps(1))
  have c: "b = (if 128 \<le> unat b then 0x80 else 0)"
  proof (cases "128 \<le> unat b")
    case True
    then show ?thesis using byte_or_80_and_7f[of b] b by simp
  next
    case False
    then show ?thesis using byte_and_7f_small[of b] b by simp
  qed
  have dec: "fromSm_be (b # bs) = \<lparr>magnitude = le_nat (rev (y # ys)), is_negative = 128 \<le> unat b\<rparr>"
    unfolding bs fromSm_be_Cons v using mag by (simp add: initializeState_def del: rev.simps)
  have "and y 0x80 \<noteq> 0" using y by (simp add: byte_and_80)
  then have "toSm_be (fromSm_be (b # bs)) = (if 128 \<le> unat b then 0x80 else 0) # y # ys"
    unfolding dec toSm_be_def using mag digits by (simp del: rev.simps)
  then show ?thesis using c bs by simp
qed

lemma byte_and_7f_zero: "and (b :: byte) 0x7f = 0 \<longleftrightarrow> unat b mod 128 = 0"
  by (simp add: byte_eq_0_iff byte_and_7f)

lemma non_minimal_rev_Cons:
  "non_minimal (rev (b # bs)) \<longleftrightarrow>
     \<not> (unat b mod 128 \<noteq> 0 \<or> (\<exists>y ys. bs = y # ys \<and> 128 \<le> unat y))"
proof -
  have "last (butlast (rev (b # bs))) = hd bs" if "bs \<noteq> []"
    using that by (simp add: butlast_append last_rev)
  then show ?thesis
    by (cases bs) (auto simp: non_minimal_def byte_and_7f_zero byte_and_80 not_le)
qed

lemma toSm_be_minimal:
  assumes "magnitude b \<noteq> 0"
  shows "\<exists>c cs. toSm_be b = c # cs \<and> (unat c mod 128 \<noteq> 0 \<or> (\<exists>y ys. cs = y # ys \<and> 128 \<le> unat y))"
proof -
  obtain x xs where m: "mag_bytes_be (magnitude b) = x # xs" "x \<noteq> 0"
    using mag_bytes_be_Cons[OF assms] .
  have "unat x < 128 \<Longrightarrow> unat x mod 128 \<noteq> 0" using m(2) by (simp add: byte_eq_0_iff)
  moreover have "unat x < 128 \<Longrightarrow> unat (or x 0x80) mod 128 \<noteq> 0"
    using m(2) by (simp add: byte_or_80 byte_eq_0_iff)
  ultimately show ?thesis
    using assms m(1) by (auto simp: toSm_be_def byte_and_80 not_less)
qed

text \<open>Strict decoding accepts exactly the canonical encodings.\<close>

lemma fromScriptNum_canonical:
  "fromScriptNum True None num = Inr b \<longleftrightarrow> bn_wf b \<and> num = toScriptNum b"
proof (cases num rule: rev_cases)
  case Nil
  show ?thesis
  proof
    assume "fromScriptNum True None num = Inr b"
    with Nil show "bn_wf b \<and> num = toScriptNum b"
      by (auto simp: fromScriptNum_def toScriptNum_def toSm_def toSm_be_def bn_of_bigint_def
          initializeState_def normSign_def bn_wf_def)
  next
    assume a: "bn_wf b \<and> num = toScriptNum b"
    then have "magnitude b = 0"
      using Nil toSm_be_minimal[of b] by (auto simp: toScriptNum_def toSm_def)
    with a Nil show "fromScriptNum True None num = Inr b"
      by (cases b) (auto simp: fromScriptNum_def bn_of_bigint_def initializeState_def
          normSign_def bn_wf_def)
  qed
next
  case (snoc cs c)
  then have num: "num = rev (c # rev cs)" by simp
  show ?thesis
  proof
    assume f: "fromScriptNum True None num = Inr b"
    then have nm: "\<not> non_minimal num" and b: "b = fromSm True num"
      using snoc by (auto simp: fromScriptNum_def split: if_splits)
    then have "toSm_be (fromSm_be (c # rev cs)) = c # rev cs"
      using toSm_fromSm_be[of c "rev cs"] non_minimal_rev_Cons[of c "rev cs"] num by simp
    with b snoc show "bn_wf b \<and> num = toScriptNum b"
      by (simp add: fromSm_def toScriptNum_def toSm_def)
  next
    assume a: "bn_wf b \<and> num = toScriptNum b"
    then have be: "toSm_be b = c # rev cs"
      using snoc by (metis num rev_rev_ident rev_swap toScriptNum_def toSm_def)
    have "magnitude b = 0 \<Longrightarrow> toSm_be b = []"
      using a by (simp add: toSm_be_def bn_wf_def)
    then have "magnitude b \<noteq> 0" using be by auto
    then have "\<not> non_minimal num"
      using toSm_be_minimal[of b] be num non_minimal_rev_Cons[of c "rev cs"] by auto
    moreover have "fromSm True num = b"
      using a fromSm_toSm[of b True] by (simp add: toScriptNum_def)
    ultimately show "fromScriptNum True None num = Inr b"
      using snoc by (simp add: fromScriptNum_def)
  qed
qed

subsection \<open>Compact bits\<close>

lemma nat_or_push:
  assumes "w < 2 ^ n" shows "or (push_bit n s) w = s * 2 ^ n + (w :: nat)"
proof -
  have w: "take_bit n w = w" using assms by (simp add: take_bit_nat_eq_self)
  have "push_bit n s + w = or (push_bit n s) w"
  proof (rule disjunctive_add_eq_or, rule bit_eqI)
    fix i
    show "bit (and (push_bit n s) w) i = bit (0 :: nat) i"
      using w by (cases "i < n") (auto simp: bit_and_iff bit_push_bit_iff, metis bit_take_bit_iff)
  qed
  then show ?thesis by (simp add: push_bit_nat_def)
qed

lemma le_nat_drop_le_bytes:
  "le_nat (drop j (le_bytes k m)) = (m div 256 ^ j) mod 256 ^ (k - j)"
proof (induction j arbitrary: k m)
  case 0
  show ?case by (simp add: le_nat_le_bytes)
next
  case (Suc j)
  show ?case
    by (cases k) (simp_all add: Suc div_mult2_eq)
qed

lemma top_digits:
  assumes "n \<le> byte_count m"
  shows "le_nat (rev (take n (mag_bytes_be m))) = m div 256 ^ (byte_count m - n)"
proof -
  have "rev (take n (mag_bytes_be m)) = drop (byte_count m - n) (le_bytes (byte_count m) m)"
    by (simp add: mag_bytes_be_eq rev_take)
  moreover have "m div 256 ^ (byte_count m - n) < 256 ^ n"
    using lt_byte_count[of m] assms
    by (metis le_add_diff_inverse2 less_mult_imp_div_less power_add mult.commute)
  ultimately show ?thesis
    using assms by (simp add: le_nat_drop_le_bytes)
qed

lemma nat_and_mask23: "and (x :: nat) 0x7fffff = x mod 2 ^ 23"
proof -
  have "(0x7fffff :: nat) = mask 23" by (simp add: mask_eq_exp_minus_1)
  then show ?thesis by (simp only: take_bit_eq_mask [symmetric] take_bit_nat_def)
qed

lemma nat_and_bit23: "and (x :: nat) 0x800000 = 0 \<longleftrightarrow> x mod 2 ^ 24 < 2 ^ 23"
proof -
  have "(0x800000 :: nat) = 2 ^ 23" by simp
  then have "and x 0x800000 = 0 \<longleftrightarrow> \<not> bit x 23" by (metis and_exp_eq_0_iff_not_bit)
  moreover have "bit x 23 \<longleftrightarrow> odd (x div 2 ^ 23)" by (simp add: bit_iff_odd)
  moreover have "x mod 2 ^ 24 = 2 ^ 23 * (x div 2 ^ 23 mod 2) + x mod 2 ^ 23"
    using mod_mult2_eq[of x "2 ^ 23" 2] by simp
  moreover have "x mod 2 ^ 23 < 2 ^ 23" by simp
  moreover have "odd (x div 2 ^ 23) \<longleftrightarrow> x div 2 ^ 23 mod 2 = 1" by (rule odd_iff_mod_2_eq_one)
  ultimately show ?thesis by (cases "odd (x div 2 ^ 23)") simp_all
qed

lemma compact_of_parts:
  assumes "w < 2 ^ 23" "s < 256" "w \<noteq> 0 \<or> s \<noteq> 0"
  shows "fromBits strict (or (take_bit 32 (push_bit 24 s)) w) =
    Inr (initializeState (if s \<le> 3 then w div 256 ^ (3 - s) else w * 256 ^ (s - 3)) False)"
proof -
  have t: "take_bit 32 (push_bit 24 s) = push_bit 24 s"
    using assms(2) by (simp add: take_bit_nat_eq_self push_bit_nat_def)
  let ?r = "s * 2 ^ 24 + w"
  have r: "or (take_bit 32 (push_bit 24 s)) w = ?r"
    unfolding t by (rule nat_or_push) (use assms(1) in simp)
  have b: "?r < 2 ^ 32" using assms by simp
  have size: "drop_bit 24 (take_bit 32 ?r) = s"
    using b assms(1) by (simp add: take_bit_nat_eq_self drop_bit_nat_def)
  have sign: "and ?r 0x800000 = 0" unfolding nat_and_bit23 using assms(1) by simp
  have "?r = 2 ^ 23 * (2 * s) + w" by simp
  then have word: "and ?r 0x7fffff = w" unfolding nat_and_mask23 using assms(1) 
    by (metis mod_mult_self4 mod_less mult.commute)
  have p: "(2 :: nat) ^ (j * 8) = 256 ^ j" for j by (simp add: mult.commute[of j] power_mult)
  show ?thesis
    unfolding r fromBits_def size sign word Let_def using assms(3)
    by (auto simp: bn_ushrn_def bn_ushln_def initializeState_def normSign_def push_bit_nat_def
        drop_bit_nat_def p)
qed

lemma toBits_compact:
  assumes pos: "getSignedValue b > 0"
    and size: "byte_count (magnitude b) \<le> 254"
  shows "toBits b =
    (let m = magnitude b; k = byte_count m; t = (if k \<le> 3 then m else m div 256 ^ (k - 3))
     in if t < 2 ^ 23 then or (take_bit 32 (push_bit 24 k)) t
        else or (take_bit 32 (push_bit 24 (k + 1))) (t div 256))"
proof -
  let ?m = "magnitude b"
  have sg: "\<not> isNeg b" "\<not> bn_isZero b" using pos by (auto simp: getSignedValue_def isNeg_def bn_isZero_def split: if_splits)
  have len: "length (mag_bytes_be ?m) = byte_count ?m" by (simp add: mag_bytes_be_eq)
  define t where "t = (if byte_count ?m \<le> 3 then ?m else ?m div 256 ^ (byte_count ?m - 3))"
  have tw: "(if byte_count ?m \<le> 3 then le_nat (rev (mag_bytes_be ?m)) else le_nat (rev (take 3 (mag_bytes_be ?m)))) = t"
    by (simp add: t_def top_digits)
  have "t < 256 ^ 3"
  proof (cases "byte_count ?m \<le> 3")
    case True
    have "?m < 256 ^ byte_count ?m" by (rule lt_byte_count)
    also have "\<dots> \<le> 256 ^ 3" using True by (intro power_increasing) simp_all
    finally show ?thesis using True by (simp add: t_def)
  next
    case False
    have "le_nat (rev (take 3 (mag_bytes_be ?m))) < 256 ^ length (rev (take 3 (mag_bytes_be ?m)))"
      by (rule le_nat_lt)
    then show ?thesis using False by (simp add: t_def top_digits len)
  qed
  then have "and t 0x00800000 \<noteq> 0 \<longleftrightarrow> \<not> t < 2 ^ 23" by (simp add: nat_and_bit23)
  then show ?thesis
    unfolding toBits_def Let_def len tw using sg size
    by (simp add: t_def [symmetric] drop_bit_nat_def)
qed

lemma fromBits_toBits:
  assumes pos: "getSignedValue b > 0" and size: "byte_count (magnitude b) \<le> 254"
  defines "m \<equiv> magnitude b" and "k \<equiv> byte_count (magnitude b)"
  shows "fromBits strict (toBits b) = Inr (initializeState
     (if k < 3 then m div 256 ^ (3 - k)
      else if m div 256 ^ (k - 3) < 2 ^ 23 then m div 256 ^ (k - 3) * 256 ^ (k - 3)
      else m div 256 ^ (k - 2) * 256 ^ (k - 2)) False)"
proof -
  have m: "m \<noteq> 0" using pos unfolding m_def by (auto simp: getSignedValue_def split: if_splits)
  have mk: "m < 256 ^ k" unfolding m_def k_def by (rule lt_byte_count)
  then have k0: "k \<noteq> 0" using m by (cases k) auto
  define t where "t = (if k \<le> 3 then m else m div 256 ^ (k - 3))"
  have bits: "toBits b = (if t < 2 ^ 23 then or (take_bit 32 (push_bit 24 k)) t
        else or (take_bit 32 (push_bit 24 (k + 1))) (t div 256))"
    using toBits_compact[OF pos size] unfolding t_def m_def k_def Let_def .
  have t3: "t < 256 ^ 3"
  proof (cases "k \<le> 3")
    case True
    then have "(256 :: nat) ^ k \<le> 256 ^ 3" by (intro power_increasing) simp_all
    with mk True show ?thesis by (simp add: t_def)
  next
    case False
    then have "(256 :: nat) ^ k = 256 ^ (k - 3) * 256 ^ 3" by (simp only: flip: power_add) simp
    with mk have "m < 256 ^ (k - 3) * 256 ^ 3" by (simp only:)
    with False show ?thesis by (simp add: t_def less_mult_imp_div_less mult.commute)
  qed
  show ?thesis
  proof (cases "t < 2 ^ 23")
    case True
    have "fromBits strict (toBits b) = Inr (initializeState (if k \<le> 3 then t div 256 ^ (3 - k) else t * 256 ^ (k - 3)) False)"
      unfolding bits using True k0 size by (simp only: if_True) (rule compact_of_parts, auto simp: k_def)
    then show ?thesis using True by (cases "k = 3") (auto simp: t_def)
  next
    case False
    have k3: "3 \<le> k"
    proof (rule ccontr)
      assume "\<not> 3 \<le> k"
      then have "(256 :: nat) ^ k \<le> 256 ^ 2" by (intro power_increasing) simp_all
      with mk False \<open>\<not> 3 \<le> k\<close> show False by (simp add: t_def)
    qed
    have "fromBits strict (toBits b) =
        Inr (initializeState (if k + 1 \<le> 3 then t div 256 div 256 ^ (3 - (k + 1)) else t div 256 * 256 ^ (k + 1 - 3)) False)"
      unfolding bits using False t3 size by (simp only: if_False) (rule compact_of_parts, auto simp: k_def)
    moreover have "t div 256 = m div 256 ^ (k - 2)"
    proof -
      have "k - 2 = Suc (k - 3)" using k3 by simp
      then show ?thesis using k3 by (auto simp: t_def mult.commute[of 256] simp flip: div_mult2_eq)
    qed
    moreover have "\<not> m div 256 ^ (k - 3) < 2 ^ 23" using False k3 by (auto simp: t_def split: if_splits)
    moreover have "k + 1 - 3 = k - 2" using k3 by simp
    ultimately show ?thesis using k3 by simp
  qed
qed

subsection \<open>Inversion by a power\<close>

lemma invmp_loop_value:
  assumes "getSignedValue p > 0"
    and "0 \<le> getSignedValue res" "getSignedValue res < getSignedValue p" "0 \<le> getSignedValue base"
  shows "\<exists>r. invmp_loop p res base e = Inr r
           \<and> getSignedValue r = (getSignedValue res * getSignedValue base ^ magnitude e) mod getSignedValue p"
  using assms
proof (induction p res base e rule: invmp_loop.induct)
  case (1 p res base e)
  let ?p = "getSignedValue p" and ?res = "getSignedValue res" and ?b = "getSignedValue base"
  show ?case
  proof (cases "bn_isZero e")
    case True
    with "1.prems" show ?thesis by (simp add: invmp_loop.simps [of p res base e] bn_isZero_def)
  next
    case False
    obtain res' where res': "(if bn_isOdd e then bn_umod (bn_mul res base) p else Inr res) = Inr res'"
      and res'v: "getSignedValue res' = (if bn_isOdd e then (?res * ?b) mod ?p else ?res)"
    proof (cases "bn_isOdd e")
      case True
      then show ?thesis
        using bn_umod_value[of p "bn_mul res base"] "1.prems"(1) that by (auto simp: bn_value)
    next
      case False
      then show ?thesis using that[of res] by simp
    qed
    obtain base' where base': "bn_umod (bn_sqr base) p = Inr base'"
      and base'v: "getSignedValue base' = (?b * ?b) mod ?p"
      using bn_umod_value[of p "bn_sqr base"] "1.prems"(1)
      by (auto simp: bn_value power2_eq_square)
    have e': "magnitude (bn_ushrn 1 e) = magnitude e div 2"
      by (simp add: bn_ushrn_def normSign_def drop_bit_nat_def)
    have rng: "0 \<le> getSignedValue res'" "getSignedValue res' < ?p" "0 \<le> getSignedValue base'"
      unfolding res'v base'v using "1.prems" by (simp_all add: pos_mod_bound)
    have step: "invmp_loop p res base e = invmp_loop p res' base' (bn_ushrn 1 e)"
      using False res' base' by (simp add: invmp_loop.simps [of p res base e])
    obtain r where r: "invmp_loop p res' base' (bn_ushrn 1 e) = Inr r"
      and rv: "getSignedValue r = (getSignedValue res' * getSignedValue base' ^ (magnitude e div 2)) mod ?p"
      using "1.IH"[OF False res' base' "1.prems"(1) rng] unfolding e' by blast
    have "magnitude e = (if bn_isOdd e then 1 else 0) + 2 * (magnitude e div 2)"
      unfolding bn_isOdd_def by presburger
    then have "?res * ?b ^ magnitude e = (if bn_isOdd e then ?res * ?b else ?res) * (?b * ?b) ^ (magnitude e div 2)"
    proof -
      assume m: "magnitude e = (if bn_isOdd e then 1 else 0) + 2 * (magnitude e div 2)"
      have "?b ^ magnitude e = ?b ^ (if bn_isOdd e then 1 else 0) * (?b * ?b) ^ (magnitude e div 2)"
        by (subst m) (simp only: power_add power_mult power2_eq_square)
      then show ?thesis by (simp add: mult.assoc)
    qed
    then have "(?res * ?b ^ magnitude e) mod ?p
       = ((if bn_isOdd e then ?res * ?b else ?res) * (?b * ?b) ^ (magnitude e div 2)) mod ?p" by simp
    also have "\<dots> = getSignedValue r"
      unfolding rv res'v base'v by (auto simp: mod_mult_left_eq power_mod mod_mult_right_eq intro!: mod_mult_cong)
    finally show ?thesis using step r by simp
  qed
qed

lemma bn_invmp_value:
  assumes "getSignedValue p \<ge> 2"
  shows "\<exists>r. bn_invmp x p = Inr r
           \<and> getSignedValue r = (getSignedValue x ^ nat (getSignedValue p - 2)) mod getSignedValue p"
proof -
  have p: "\<not> is_negative p" "\<not> bn_isZero p" using positive_not_neg[of p] assms by simp_all
  obtain a where a: "bn_umod x p = Inr a" "getSignedValue a = getSignedValue x mod getSignedValue p"
    using bn_umod_value[of p x] assms by auto
  have s: "bn_subn 2 p = Inr (setValueFromSigned (getSignedValue p - 2))" by (simp add: bn_subn_def)
  have m: "magnitude (setValueFromSigned (getSignedValue p - 2)) = nat (getSignedValue p - 2)"
    using assms by (simp add: setValueFromSigned_def normSign_def)
  show ?thesis
    using invmp_loop_value[of p "bn_of_bigint 1" a "setValueFromSigned (getSignedValue p - 2)"] assms p a s m
    by (auto simp: bn_invmp_def power_mod)
qed

subsection \<open>Properties\<close>

text \<open>Decoding a script number with the minimality check accepts exactly the canonical encodings:
  it returns the well-formed number \<open>b\<close> on the bytes \<open>num\<close> if and only if \<open>num\<close> is the encoding of
  \<open>b\<close>.\<close>

theorem script_number_roundtrip:
  "fromScriptNum True None num = Inr b \<longleftrightarrow> bn_wf b \<and> num = toScriptNum b"
  by (rule fromScriptNum_canonical)

text \<open>Modular inversion of a number coprime to the modulus returns a reduced \<open>r\<close> with
  \<open>x * r = 1\<close> modulo the modulus when \<open>x\<close> is not negative, and otherwise one that is the
  inverse of \<open>x\<close> or of \<open>- x\<close>; of any other number it throws.\<close>

theorem invm_inverse:
  assumes num: "getSignedValue num > 1"
  shows "if coprime (getSignedValue x) (getSignedValue num)
         then \<exists>r. bn_invm x num = Inr r \<and> 0 \<le> getSignedValue r \<and> getSignedValue r < getSignedValue num
             \<and> (\<exists>s. (getSignedValue x * getSignedValue r) mod getSignedValue num = s mod getSignedValue num
                  \<and> (s = 1 \<or> s = -1 \<and> getSignedValue x < 0))
         else bn_invm x num = Inl (JsError ''Inverse does not exist (numbers are not coprime).'')"
proof (cases "coprime (getSignedValue x) (getSignedValue num)")
  case True
  let ?n = "getSignedValue num" and ?x = "getSignedValue x"
  obtain a b g where e: "bn_egcd x num = Inr (a, b, g)" and g: "getSignedValue g = 1"
    and bez: "\<bar>getSignedValue a * ?x + getSignedValue b * ?n\<bar> = 1"
      "0 \<le> ?x \<Longrightarrow> getSignedValue a * ?x + getSignedValue b * ?n = 1"
    using bn_egcd_bezout[of num x] num True by (auto simp: coprime_iff_gcd_eq_1)
  obtain r where r: "bn_umod a num = Inr r" "getSignedValue r = getSignedValue a mod ?n"
    using bn_umod_value[of num a] num by auto
  have "(?x * getSignedValue r) mod ?n = (getSignedValue a * ?x + getSignedValue b * ?n) mod ?n"
    by (simp add: r(2) mod_mult_right_eq mult.commute)
  moreover have "bn_invm x num = Inr r"
    using e g r(1) positive_not_neg[of num] num by (simp add: bn_invm_def)
  moreover define s where "s = getSignedValue a * ?x + getSignedValue b * ?n"
  moreover have "s = 1 \<or> s = -1 \<and> ?x < 0" using bez unfolding s_def by linarith
  ultimately show ?thesis using True r(2) num
    unfolding s_def [symmetric] by (auto simp: pos_mod_bound intro!: exI[of _ r] exI[of _ s])
next
  case False
  then show ?thesis using bn_invm_not_coprime[of num x] num by simp
qed

lemma invm_inverse_witness:
  "1 < getSignedValue (bn_of_bigint 7) \<and>
   (\<exists>r. bn_invm (bn_of_bigint 3) (bn_of_bigint 7) = Inr r \<and> (3 * getSignedValue r) mod 7 = 1)"
proof -
  have "coprime (3 :: int) 7" by (simp add: coprime_iff_gcd_eq_1 gcd_non_0_int)
  with invm_inverse[of "bn_of_bigint 7" "bn_of_bigint 3"] show ?thesis by auto
qed

text \<open>The inverse of \<open>-1\<close> modulo 5 is returned as 1, which is the inverse of 1: for a negative
  argument the extended Euclidean loop can end on \<open>-1\<close>, and its sign is dropped.\<close>

theorem invm_of_minus_one:
  "bn_invm (bn_of_bigint (-1)) (bn_of_bigint 5) = Inr (bn_of_bigint 1) \<and> (-1 * 1) mod (5 :: int) \<noteq> 1"
  using bn_invm_negative_one by simp

text \<open>C40: A positive number of \<open>k\<close> bytes, encoded as compact bits and decoded, keeps its three
  highest digits (its two highest when the third would be taken for the sign), as the format
  intends, when \<open>k\<close> is at least 3; a shorter number is not shifted up by the encoder and comes back
  divided by \<open>256 ^ (3 - k)\<close>.\<close>

theorem compact_bits_roundtrip:
  assumes "getSignedValue b > 0" "byte_count (magnitude b) \<le> 254"
  shows "\<exists>r. fromBits strict (toBits b) = Inr r \<and> \<not> is_negative r
    \<and> (let m = magnitude b; k = byte_count m
       in magnitude r = (if k < 3 then m div 256 ^ (3 - k)
            else if m div 256 ^ (k - 3) < 2 ^ 23 then m div 256 ^ (k - 3) * 256 ^ (k - 3)
            else m div 256 ^ (k - 2) * 256 ^ (k - 2)))"
  using fromBits_toBits[OF assms, of strict] by (simp add: initializeState_def Let_def)

lemma compact_bits_roundtrip_witness:
  "0 < getSignedValue (bn_of_bigint 0x1234) \<and> byte_count (magnitude (bn_of_bigint 0x1234)) \<le> 254
   \<and> (\<exists>r. fromBits True (toBits (bn_of_bigint 0x1234)) = Inr r \<and> magnitude r = 0x12)"
proof -
  have k: "byte_count 0x1234 = 2" using byte_count_unique[of 1 "0x1234"] by simp
  have m: "magnitude (bn_of_bigint 0x1234) = 0x1234"
    by (simp add: bn_of_bigint_def normSign_def initializeState_def)
  obtain r where "fromBits True (toBits (bn_of_bigint 0x1234)) = Inr r" "magnitude r = 0x1234 div 256 ^ (3 - 2)"
    using compact_bits_roundtrip[of "bn_of_bigint 0x1234" True] unfolding m k Let_def by auto
  then show ?thesis unfolding m k by simp
qed

end
