(* ===== verification/Reader_Writer.thy ===== *)
theory Reader_Writer
  imports Big_Number
begin

text \<open>
  The byte cursor and the byte builder of \<open>packages/sdk/src/primitives/utils.ts\<close>
  (classes \<open>Reader\<close> and \<open>Writer\<close>) and the canonical CompactSize decoder of
  \<open>readVarIntNumStrict.ts\<close>. A reader is the byte array with a position, a writer the list
  of the chunks written so far with their total length; their methods are computations on
  that state. JavaScript's 32-bit operators are operations on \<open>32 word\<close>.

  The second half is the interface the wire formats are built on: \<open>parses m x bs\<close> says that
  the reading computation \<open>m\<close> consumes exactly \<open>bs\<close> and returns \<open>x\<close>, \<open>appends m bs\<close>
  that the writing computation \<open>m\<close> adds exactly \<open>bs\<close>, and the locale \<open>field_codec\<close>
  states the round-trip contract between the two and derives it for lists of fields.
\<close>

named_theorems parses_intros \<open>what each reading primitive consumes\<close>
named_theorems appends_intros \<open>what each writing primitive appends\<close>

subsection \<open>The reader\<close>

record reader =
  bin :: bytes
  pos :: nat

type_synonym 'a rd = "(reader, js_error, 'a) action"

definition new_reader :: "bytes \<Rightarrow> int \<Rightarrow> js_error + reader" where
  "new_reader bs p =
     (if \<bar>p\<bar> > int max_safe_integer \<or> p < 0 \<or> p > int (length bs)
      then Inl (JsRangeError ''Reader position exceeds available data'')
      else Inr \<lparr>bin = bs, pos = nat p\<rparr>)"

definition ensureAvailable :: "int \<Rightarrow> unit rd" where
  "ensureAvailable len = (\<lambda>r.
     if \<bar>len\<bar> > int max_safe_integer \<or> len < 0 \<or> pos r > max_safe_integer
        \<or> int (pos r) + len > int (length (bin r))
     then (Inl (JsRangeError ''Reader read exceeds available data''), r)
     else (Inr (), r))"

definition eof :: "reader \<Rightarrow> bool" where
  "eof r \<longleftrightarrow> pos r \<ge> length (bin r)"

definition remaining :: "reader \<Rightarrow> int" where
  "remaining r = int (length (bin r)) - int (pos r)"

definition advance :: "nat \<Rightarrow> reader \<Rightarrow> reader" where
  "advance n r = r\<lparr>pos := pos r + n\<rparr>"

definition rd_read :: "int \<Rightarrow> bytes rd" where
  "rd_read len = thn (ensureAvailable len)
     (\<lambda>r. (Inr (take (nat len) (drop (pos r) (bin r))), advance (nat len) r))"

text \<open>\<open>read()\<close> with its default argument, the rest of the array.\<close>

definition rd_read_rest :: "bytes rd" where
  "rd_read_rest = bnd (get remaining) rd_read"

definition readReverse :: "int \<Rightarrow> bytes rd" where
  "readReverse len = thn (ensureAvailable len)
     (\<lambda>r. (Inr (map (\<lambda>i. bin r ! (pos r + nat len - 1 - i)) [0..<nat len]), advance (nat len) r))"

definition readUInt8 :: "byte rd" where
  "readUInt8 = thn (ensureAvailable 1) (\<lambda>r. (Inr (bin r ! pos r), advance 1 r))"

definition readInt8 :: "int rd" where
  "readInt8 = bnd readUInt8 (\<lambda>val.
     ret (if and val 0x80 = 0 then int (unat val) else int (unat val) - 0x100))"

text \<open>\<open>|\<close>, \<open><<\<close>, \<open>&\<close> and \<open>>>> 0\<close> on numbers: 32-bit words, read back signed or unsigned.\<close>

abbreviation w32 :: "byte \<Rightarrow> 32 word" where
  "w32 b \<equiv> ucast b"

definition readUInt16BE :: "int rd" where
  "readUInt16BE = thn (ensureAvailable 2)
     (\<lambda>r. (Inr (sint (or (push_bit 8 (w32 (bin r ! pos r))) (w32 (bin r ! (pos r + 1))))),
           advance 2 r))"

definition readUInt16LE :: "int rd" where
  "readUInt16LE = thn (ensureAvailable 2)
     (\<lambda>r. (Inr (sint (or (w32 (bin r ! pos r)) (push_bit 8 (w32 (bin r ! (pos r + 1)))))),
           advance 2 r))"

definition readInt16BE :: "int rd" where
  "readInt16BE = bnd readUInt16BE (\<lambda>val.
     ret (if and (word_of_int val :: 32 word) 0x8000 = 0 then val else val - 0x10000))"

definition readInt16LE :: "int rd" where
  "readInt16LE = bnd readUInt16LE (\<lambda>val.
     ret (if and (word_of_int val :: 32 word) 0x8000 = 0 then val else val - 0x10000))"

definition readUInt32BE :: "int rd" where
  "readUInt32BE = thn (ensureAvailable 4)
     (\<lambda>r. (Inr (int (unat (bin r ! pos r)) * 0x1000000 +
                sint (or (or (push_bit 16 (w32 (bin r ! (pos r + 1))))
                             (push_bit 8 (w32 (bin r ! (pos r + 2)))))
                         (w32 (bin r ! (pos r + 3))))),
           advance 4 r))"

definition readUInt32LE :: "int rd" where
  "readUInt32LE = thn (ensureAvailable 4)
     (\<lambda>r. (Inr (uint (or (or (or (w32 (bin r ! pos r))
                                 (push_bit 8 (w32 (bin r ! (pos r + 1)))))
                             (push_bit 16 (w32 (bin r ! (pos r + 2)))))
                         (push_bit 24 (w32 (bin r ! (pos r + 3)))))),
           advance 4 r))"

definition readInt32BE :: "int rd" where
  "readInt32BE = bnd readUInt32BE (\<lambda>val.
     ret (if and (word_of_int val :: 32 word) 0x80000000 = 0 then val else val - 0x100000000))"

definition readInt32LE :: "int rd" where
  "readInt32LE = bnd readUInt32LE (\<lambda>val.
     ret (if and (word_of_int val :: 32 word) 0x80000000 = 0 then val else val - 0x100000000))"

definition readUInt64BEBn :: "big_number rd" where
  "readUInt64BEBn = bnd (rd_read 8) (\<lambda>bs. ret (initArray_be bs))"

definition readUInt64LEBn :: "big_number rd" where
  "readUInt64LEBn = bnd (readReverse 8) (\<lambda>bs. ret (initArray_be bs))"

definition OverflowInt64 :: big_number where
  "OverflowInt64 = bn_of_bigint (2 ^ 63)"

definition OverflowUint64 :: big_number where
  "OverflowUint64 = bn_of_bigint (2 ^ 64)"

definition readInt64LEBn :: "big_number rd" where
  "readInt64LEBn = bnd (readReverse 8) (\<lambda>bs.
     let bn = initArray_be bs
     in ret (if bn_cmp bn OverflowInt64 \<ge> 0 then bn_sub bn OverflowUint64 else bn))"

definition readVarIntNum :: "bool \<Rightarrow> int rd" where
  "readVarIntNum sgnd = bnd readUInt8 (\<lambda>first.
     if first = 0xfd then readUInt16LE
     else if first = 0xfe then readUInt32LE
     else if first = 0xff then
       bnd (if sgnd then readInt64LEBn else readUInt64LEBn) (\<lambda>bn.
         if bn_cmp bn (bn_of_bigint (2 ^ 53)) \<le> 0 then lift_result (bn_toNumber bn)
         else throw (JsError ''number too large to retain precision - use readVarIntBn''))
     else ret (int (unat first)))"

definition readVarInt :: "bytes rd" where
  "readVarInt = (\<lambda>r.
     let first = (if pos r < length (bin r) then Some (bin r ! pos r) else None)
     in if first = Some 0xfd then rd_read (1 + 2) r
        else if first = Some 0xfe then rd_read (1 + 4) r
        else if first = Some 0xff then rd_read (1 + 8) r
        else rd_read 1 r)"

definition readVarIntBn :: "big_number rd" where
  "readVarIntBn = bnd readUInt8 (\<lambda>first.
     if first = 0xfd then bnd readUInt16LE (\<lambda>v. lift_result (bn_of_number v))
     else if first = 0xfe then bnd readUInt32LE (\<lambda>v. lift_result (bn_of_number v))
     else if first = 0xff then readUInt64LEBn
     else lift_result (bn_of_number (int (unat first))))"

text \<open>The canonical CompactSize decoders shared by both reader classes.\<close>

definition readVarIntNumStrict :: "bool \<Rightarrow> int rd" where
  "readVarIntNumStrict sgnd = bnd readUInt8 (\<lambda>first.
     if unat first < 0xfd then ret (int (unat first))
     else if first = 0xfd then
       bnd readUInt16LE (\<lambda>value.
         if value < 0xfd then throw (JsError ''non-canonical varInt'') else ret value)
     else if first = 0xfe then
       bnd readUInt32LE (\<lambda>value.
         if value \<le> 0xffff then throw (JsError ''non-canonical varInt'') else ret value)
     else
       bnd readUInt64LEBn (\<lambda>value.
         if bn_cmp value (bn_of_bigint 0xffffffff) \<le> 0
         then throw (JsError ''non-canonical varInt'')
         else if sgnd \<and> bn_cmp value (bn_of_bigint (2 ^ 64 - 1)) = 0 then ret (- 1)
         else if bn_cmp value (bn_of_bigint (int max_safe_integer)) > 0
         then throw (JsError ''number too large to retain precision - use readVarIntBn'')
         else lift_result (bn_toNumber value)))"

definition readVarIntBnStrict :: "big_number rd" where
  "readVarIntBnStrict = bnd readUInt8 (\<lambda>first.
     if unat first < 0xfd then lift_result (bn_of_number (int (unat first)))
     else if first = 0xfd then
       bnd readUInt16LE (\<lambda>value.
         if value < 0xfd then throw (JsError ''non-canonical varInt'')
         else lift_result (bn_of_number value))
     else if first = 0xfe then
       bnd readUInt32LE (\<lambda>value.
         if value \<le> 0xffff then throw (JsError ''non-canonical varInt'')
         else lift_result (bn_of_number value))
     else
       bnd readUInt64LEBn (\<lambda>value.
         if bn_cmp value (bn_of_bigint 0xffffffff) \<le> 0
         then throw (JsError ''non-canonical varInt'')
         else ret value))"

subsection \<open>The writer\<close>

record writer =
  bufs :: "bytes list"
  wlength :: nat

type_synonym wr = "(writer, js_error, unit) action"

definition new_writer :: "bytes list \<Rightarrow> writer" where
  "new_writer bs = \<lparr>bufs = bs, wlength = foldl (\<lambda>n b. n + length b) 0 bs\<rparr>"

definition getLength :: "writer \<Rightarrow> nat" where
  "getLength w = wlength w"

text \<open>\<open>toUint8Array\<close> copies every chunk into a zeroed array of the recorded length.\<close>

fun set_chunks :: "bytes \<Rightarrow> nat \<Rightarrow> bytes list \<Rightarrow> js_error + bytes" where
  "set_chunks out offset [] = Inr out"
| "set_chunks out offset (b # bs) =
     (if offset + length b > length out then Inl (JsRangeError ''offset is out of bounds'')
      else set_chunks (take offset out @ b @ drop (offset + length b) out) (offset + length b) bs)"

definition wr_toUint8Array :: "writer \<Rightarrow> js_error + bytes" where
  "wr_toUint8Array w = set_chunks (replicate (wlength w) 0) 0 (bufs w)"

text \<open>\<open>toArray\<close> assigns index after index; \<open>length\<close> only presizes the array.\<close>

definition wr_toArray :: "writer \<Rightarrow> bytes" where
  "wr_toArray w = foldl (\<lambda>acc b. acc @ b) [] (bufs w)"

definition wr_write :: "bytes \<Rightarrow> wr" where
  "wr_write buf = modify (\<lambda>w. w\<lparr>bufs := bufs w @ [buf], wlength := wlength w + length buf\<rparr>)"

definition writeReverse :: "bytes \<Rightarrow> wr" where
  "writeReverse buf = wr_write (map (\<lambda>i. buf ! (length buf - 1 - i)) [0..<length buf])"

text \<open>\<open>(n >> k) & 0xff\<close>: the number is converted to a signed 32-bit integer and shifted.\<close>

definition js_byte :: "int \<Rightarrow> nat \<Rightarrow> byte" where
  "js_byte n k = ucast (signed_drop_bit k (word_of_int n :: 32 word))"

definition writeUInt8 :: "int \<Rightarrow> wr" where
  "writeUInt8 n = wr_write [js_byte n 0]"

definition writeInt8 :: "int \<Rightarrow> wr" where
  "writeInt8 n = writeUInt8 n"

definition writeUInt16BE :: "int \<Rightarrow> wr" where
  "writeUInt16BE n = wr_write [js_byte n 8, js_byte n 0]"

definition writeInt16BE :: "int \<Rightarrow> wr" where
  "writeInt16BE n = writeUInt16BE (uint (and (word_of_int n :: 32 word) 0xffff))"

definition writeUInt16LE :: "int \<Rightarrow> wr" where
  "writeUInt16LE n = wr_write [js_byte n 0, js_byte n 8]"

definition writeInt16LE :: "int \<Rightarrow> wr" where
  "writeInt16LE n = writeUInt16LE (uint (and (word_of_int n :: 32 word) 0xffff))"

definition writeUInt32BE :: "int \<Rightarrow> wr" where
  "writeUInt32BE n = wr_write [js_byte n 24, js_byte n 16, js_byte n 8, js_byte n 0]"

definition writeInt32BE :: "int \<Rightarrow> wr" where
  "writeInt32BE n = writeUInt32BE (uint (word_of_int n :: 32 word))"

definition writeUInt32LE :: "int \<Rightarrow> wr" where
  "writeUInt32LE n = wr_write [js_byte n 0, js_byte n 8, js_byte n 16, js_byte n 24]"

definition writeInt32LE :: "int \<Rightarrow> wr" where
  "writeInt32LE n = writeUInt32LE (uint (word_of_int n :: 32 word))"

definition writeUInt64BEBn :: "big_number \<Rightarrow> wr" where
  "writeUInt64BEBn bn = bnd (lift_result (bn_toArray False (Some 8) bn)) wr_write"

definition writeUInt64LEBn :: "big_number \<Rightarrow> wr" where
  "writeUInt64LEBn bn = bnd (lift_result (bn_toArray False (Some 8) bn)) writeReverse"

definition writeUInt64LE :: "int \<Rightarrow> wr" where
  "writeUInt64LE n =
     (if n = -1 then wr_write (replicate 8 0xff)
      else bnd (lift_result (bn_of_number n)) (\<lambda>bn.
             bnd (lift_result (bn_toArray False (Some 8) bn)) writeReverse))"

text \<open>
  \<open>varIntBn\<close>: negative values are read modulo \<open>2^64\<close>. The single-byte branch stores the
  number itself, which is a byte unless the value was below \<open>-2^64\<close>.
\<close>

definition varIntBn :: "big_number \<Rightarrow> js_error + bytes" where
  "varIntBn bn0 =
     (let bn = (if isNeg bn0 then bn_add bn0 OverflowUint64 else bn0)
      in if getSignedValue bn < 253 then
           (case bn_toNumber bn of Inl e \<Rightarrow> Inl e | Inr n \<Rightarrow> Inr [word_of_int n])
         else if getSignedValue bn < 0x10000 then
           (case bn_toNumber bn of Inl e \<Rightarrow> Inl e
            | Inr n \<Rightarrow> Inr [253, js_byte n 0, js_byte n 8])
         else if bn_cmp bn (bn_of_bigint 0x100000000) < 0 then
           (case bn_toNumber bn of Inl e \<Rightarrow> Inl e
            | Inr n \<Rightarrow> Inr [254, js_byte n 0, js_byte n 8, js_byte n 16, js_byte n 24])
         else
           (case thn (writeUInt8 255) (writeUInt64LEBn bn) (new_writer []) of
              (Inl e, bw) \<Rightarrow> Inl e | (Inr u, bw) \<Rightarrow> Inr (wr_toArray bw)))"

text \<open>\<open>varIntNum\<close> on integers (it refuses \<open>NaN\<close>, infinities and fractions).\<close>

definition varIntNum :: "int \<Rightarrow> js_error + bytes" where
  "varIntNum n =
     (if n < 0 then (case bn_of_number n of Inl e \<Rightarrow> Inl e | Inr bn \<Rightarrow> varIntBn bn)
      else if n < 253 then Inr [word_of_int n]
      else if n < 0x10000 then Inr [253, js_byte n 0, js_byte n 8]
      else if n < 0x100000000 then
        Inr [254, js_byte n 0, js_byte n 8, js_byte n 16, js_byte n 24]
      else
        let low = n; high = n div 0x100000000
        in Inr [255, js_byte low 0, js_byte low 8, js_byte low 16, js_byte low 24,
                js_byte high 0, js_byte high 8, js_byte high 16, js_byte high 24])"

definition writeVarIntNum :: "int \<Rightarrow> wr" where
  "writeVarIntNum n = bnd (lift_result (varIntNum n)) wr_write"

definition writeVarIntBn :: "big_number \<Rightarrow> wr" where
  "writeVarIntBn bn = bnd (lift_result (varIntBn bn)) wr_write"

subsection \<open>JavaScript's 32-bit operators on bytes\<close>

lemma unat_w32 [simp]: "unat (w32 b) = unat b"
proof -
  have "unat b < 2 ^ 32" by (rule less_trans[OF unat_byte_lt]) simp
  then show ?thesis by (simp add: unsigned_ucast_eq take_bit_nat_eq_self)
qed

lemma unat_push_w32: "k \<le> 24 \<Longrightarrow> unat (push_bit k (w32 b)) = push_bit k (unat b)"
proof -
  assume k: "k \<le> 24"
  have "unat b * 2 ^ k < 256 * 2 ^ k" by simp
  also have "\<dots> \<le> 2 ^ (8 + 24)" using k power_increasing[of k 24 "2 :: nat"] by (simp add: power_add)
  finally have "unat b * 2 ^ k < 2 ^ 32" by simp
  then show ?thesis
    by (simp add: unsigned_push_bit_eq take_bit_nat_eq_self push_bit_nat_def)
qed

lemma unat_or_push:
  "unat x < 2 ^ k \<Longrightarrow> k \<le> 24 \<Longrightarrow> unat (or x (push_bit k (w32 b))) = unat x + 2 ^ k * unat b"
  using nat_or_push[of "unat x" k "unat b"]
  by (simp add: unsigned_or_eq unat_push_w32 or.commute)

lemma or16: "unat (or (w32 a) (push_bit 8 (w32 b))) = le_nat [a, b]"
  by (subst unat_or_push) simp_all

lemma or24: "unat (or (or (w32 a) (push_bit 8 (w32 b))) (push_bit 16 (w32 c))) = le_nat [a, b, c]"
  using le_nat_lt[of "[a, b]"] by (subst unat_or_push) (simp_all add: or16)

lemma or32:
  "unat (or (or (or (w32 a) (push_bit 8 (w32 b))) (push_bit 16 (w32 c))) (push_bit 24 (w32 d)))
   = le_nat [a, b, c, d]"
  using le_nat_lt[of "[a, b, c]"] by (subst unat_or_push) (simp_all add: or24)

lemma sint_small: "unat (w :: 32 word) < 2 ^ 31 \<Longrightarrow> sint w = int (unat w)"
proof -
  assume w: "unat w < 2 ^ 31"
  have u: "uint w = int (unat w)" by (rule uint_nat)
  have "uint w < 2147483648" unfolding u using w by (simp del: of_nat_unat)
  then have "signed_take_bit 31 (uint w) = uint w"
    by (intro signed_take_bit_int_eq_self) (auto intro: order_trans[OF _ uint_ge_0])
  then have "sint w = uint w" by (simp add: sint_uint)
  then show ?thesis by (rule trans[OF _ u])
qed

lemma sint_or16: "sint (or (w32 a) (push_bit 8 (w32 b))) = int (le_nat [a, b])"
  unfolding or16 [symmetric]
  by (rule sint_small) (use le_nat_lt[of "[a, b]"] in \<open>simp only: or16\<close>, simp)

lemma sint_or24:
  "sint (or (or (push_bit 16 (w32 c)) (push_bit 8 (w32 b))) (w32 a)) = int (le_nat [a, b, c])"
proof -
  have c: "or (or (push_bit 16 (w32 c)) (push_bit 8 (w32 b))) (w32 a)
      = or (or (w32 a) (push_bit 8 (w32 b))) (push_bit 16 (w32 c))"
    by (simp only: or.assoc or.commute or.left_commute)
  show ?thesis
    unfolding c or24 [symmetric]
    by (rule sint_small) (use le_nat_lt[of "[a, b, c]"] in \<open>simp only: or24\<close>, simp)
qed

lemma uint_or32:
  "uint (or (or (or (w32 a) (push_bit 8 (w32 b))) (push_bit 16 (w32 c))) (push_bit 24 (w32 d)))
   = int (le_nat [a, b, c, d])"
  by (metis or32 uint_nat)

lemma js_byte_eq: "k \<le> 24 \<Longrightarrow> js_byte n k = word_of_int (n div 2 ^ k)"
proof (rule bit_word_eqI)
  fix i
  assume k: "k \<le> 24" and i: "i < LENGTH(8)"
  then have "bit (js_byte n k) i \<longleftrightarrow> bit (word_of_int n :: 32 word) (k + i)"
    by (auto simp: js_byte_def bit_ucast_iff bit_signed_drop_bit_iff)
  also have "\<dots> \<longleftrightarrow> bit (drop_bit k n) i"
    using k i by (simp add: bit_word_of_int_iff bit_drop_bit_eq)
  finally show "bit (js_byte n k) i = bit (word_of_int (n div 2 ^ k) :: byte) i"
    using i by (simp add: bit_word_of_int_iff drop_bit_int_def)
qed

lemma js_byte_nat: "k \<le> 24 \<Longrightarrow> js_byte (int n) k = word_of_nat (n div 2 ^ k)"
proof -
  have "int n div 2 ^ k = int (n div 2 ^ k)" by (simp add: zdiv_int)
  then show "k \<le> 24 \<Longrightarrow> ?thesis" by (simp only: js_byte_eq of_int_of_nat_eq)
qed

lemma le_bytes_unfold:
  "le_bytes 1 n = [word_of_nat n]"
  "le_bytes 2 n = [word_of_nat n, word_of_nat (n div 2 ^ 8)]"
  "le_bytes 4 n = [word_of_nat n, word_of_nat (n div 2 ^ 8), word_of_nat (n div 2 ^ 16), word_of_nat (n div 2 ^ 24)]"
proof -
  have *: "(1 :: nat) = Suc 0" "(2 :: nat) = Suc (Suc 0)" "(4 :: nat) = Suc (Suc (Suc (Suc 0)))" by simp_all
  have d: "n div 256 div 256 = n div 65536" "n div 65536 div 256 = n div 16777216"
    by (simp_all flip: div_mult2_eq)
  show "le_bytes 1 n = [word_of_nat n]" by (simp add: *(1))
  show "le_bytes 2 n = [word_of_nat n, word_of_nat (n div 2 ^ 8)]"
    by (subst *(2)) simp
  show "le_bytes 4 n = [word_of_nat n, word_of_nat (n div 2 ^ 8), word_of_nat (n div 2 ^ 16), word_of_nat (n div 2 ^ 24)]"
    by (subst *(3)) (simp add: d)
qed

lemma js_byte_list [codec_simps]:
  "[js_byte (int n) 0] = le_bytes 1 n"
  "[js_byte (int n) 0, js_byte (int n) 8] = le_bytes 2 n"
  "[js_byte (int n) 0, js_byte (int n) 8, js_byte (int n) 16, js_byte (int n) 24] = le_bytes 4 n"
  by (simp_all add: js_byte_nat le_bytes_unfold)

subsection \<open>Well-formed readers and what a primitive consumes\<close>

definition wf_reader :: "reader \<Rightarrow> bool" where
  "wf_reader r \<longleftrightarrow> pos r \<le> length (bin r) \<and> length (bin r) \<le> max_safe_integer"

lemma advance_simps [simp]:
  "bin (advance n r) = bin r" "pos (advance n r) = pos r + n"
  "advance m (advance n r) = advance (n + m) r" "advance 0 r = r"
  by (simp_all add: advance_def)

lemma new_reader_ok:
  "length bs \<le> max_safe_integer \<Longrightarrow>
   new_reader bs 0 = Inr \<lparr>bin = bs, pos = 0\<rparr> \<and> wf_reader \<lparr>bin = bs, pos = 0\<rparr>"
  by (simp add: new_reader_def wf_reader_def)

lemma new_reader_wf:
  "new_reader bs p = Inr r \<Longrightarrow> length bs \<le> max_safe_integer \<Longrightarrow> wf_reader r"
  by (auto simp: new_reader_def wf_reader_def split: if_splits)

lemma ensureAvailable_nat:
  "wf_reader r \<Longrightarrow> ensureAvailable (int n) r =
     (if pos r + n \<le> length (bin r) then (Inr (), r)
      else (Inl (JsRangeError ''Reader read exceeds available data''), r))"
  by (auto simp: ensureAvailable_def wf_reader_def)

lemma ensureAvailable_neg:
  "len < 0 \<Longrightarrow> ensureAvailable len r = (Inl (JsRangeError ''Reader read exceeds available data''), r)"
  by (simp add: ensureAvailable_def)

lemma ensureAvailable_okD: "ensureAvailable len r = (Inr u, t) \<Longrightarrow>
   t = r \<and> 0 \<le> len \<and> pos r + nat len \<le> length (bin r)"
  by (auto simp: ensureAvailable_def split: if_splits)

definition within :: "bytes \<Rightarrow> nat \<Rightarrow> reader \<Rightarrow> bool" where
  "within bs n r \<longleftrightarrow> wf_reader r \<and> bin r = bs \<and> n \<le> pos r"

text \<open>Every read leaves the array alone and moves the position forward, never past the end.\<close>

lemma keeps_ensure_advance:
  "keeps (within bs n) (thn (ensureAvailable len) (\<lambda>r. (Inr (f r), advance (nat len) r)))"
proof (rule keepsI)
  fix r
  assume w: "within bs n r"
  show "within bs n (snd (thn (ensureAvailable len) (\<lambda>r. (Inr (f r), advance (nat len) r)) r))"
  proof (cases "ensureAvailable len r")
    case (Pair a t)
    then have t: "t = r" by (auto simp: ensureAvailable_def split: if_splits)
    show ?thesis
    proof (cases a)
      case (Inl e)
      with Pair t w show ?thesis by simp
    next
      case (Inr u)
      with Pair t have "pos r + nat len \<le> length (bin r)" by (auto dest: ensureAvailable_okD)
      with Pair Inr t w show ?thesis by (auto simp: within_def wf_reader_def)
    qed
  qed
qed

lemma keeps_rd_read [keeps_intros]: "keeps (within bs n) (rd_read len)"
  unfolding rd_read_def by (rule keeps_ensure_advance)

lemma keeps_readReverse [keeps_intros]: "keeps (within bs n) (readReverse len)"
  unfolding readReverse_def by (rule keeps_ensure_advance)

lemma keeps_readUInt8 [keeps_intros]: "keeps (within bs n) readUInt8"
  unfolding readUInt8_def using keeps_ensure_advance[of bs n 1] by simp

lemma keeps_readUInt16LE [keeps_intros]: "keeps (within bs n) readUInt16LE"
  unfolding readUInt16LE_def using keeps_ensure_advance[of bs n 2] by simp

lemma keeps_readUInt16BE [keeps_intros]: "keeps (within bs n) readUInt16BE"
  unfolding readUInt16BE_def using keeps_ensure_advance[of bs n 2] by simp

lemma keeps_readUInt32LE [keeps_intros]: "keeps (within bs n) readUInt32LE"
  unfolding readUInt32LE_def using keeps_ensure_advance[of bs n 4] by simp

lemma keeps_readUInt32BE [keeps_intros]: "keeps (within bs n) readUInt32BE"
  unfolding readUInt32BE_def using keeps_ensure_advance[of bs n 4] by simp

lemma keeps_readUInt64LEBn [keeps_intros]: "keeps (within bs n) readUInt64LEBn"
  unfolding readUInt64LEBn_def by (intro keeps_intros)

lemma keeps_readUInt64BEBn [keeps_intros]: "keeps (within bs n) readUInt64BEBn"
  unfolding readUInt64BEBn_def by (intro keeps_intros)

lemma keeps_readInt64LEBn [keeps_intros]: "keeps (within bs n) readInt64LEBn"
  unfolding readInt64LEBn_def Let_def by (intro keeps_intros)

lemma keeps_readVarIntNum [keeps_intros]: "keeps (within bs n) (readVarIntNum sgnd)"
  unfolding readVarIntNum_def by (intro keeps_intros)

lemma keeps_readVarIntBn [keeps_intros]: "keeps (within bs n) readVarIntBn"
  unfolding readVarIntBn_def by (intro keeps_intros)

lemma keeps_readVarIntNumStrict [keeps_intros]: "keeps (within bs n) (readVarIntNumStrict sgnd)"
  unfolding readVarIntNumStrict_def by (intro keeps_intros)

lemma keeps_readVarIntBnStrict [keeps_intros]: "keeps (within bs n) readVarIntBnStrict"
  unfolding readVarIntBnStrict_def by (intro keeps_intros)

text \<open>\<open>parses m x bs\<close>: in front of the bytes \<open>bs\<close> the computation consumes them and returns \<open>x\<close>.\<close>

definition parses :: "'a rd \<Rightarrow> 'a \<Rightarrow> bytes \<Rightarrow> bool" where
  "parses m x bs \<longleftrightarrow>
     (\<forall>r rest. wf_reader r \<and> drop (pos r) (bin r) = bs @ rest
        \<longrightarrow> m r = (Inr x, advance (length bs) r))"

lemma parsesI:
  "(\<And>r rest. wf_reader r \<Longrightarrow> drop (pos r) (bin r) = bs @ rest
      \<Longrightarrow> pos r + length bs \<le> length (bin r) \<Longrightarrow> m r = (Inr x, advance (length bs) r))
   \<Longrightarrow> parses m x bs"
  using drop_eq_append_length by (fastforce simp: parses_def wf_reader_def)

lemma parsesD:
  "parses m x bs \<Longrightarrow> wf_reader r \<Longrightarrow> drop (pos r) (bin r) = bs @ rest
   \<Longrightarrow> m r = (Inr x, advance (length bs) r)"
  by (auto simp: parses_def)

lemma wf_advance:
  "wf_reader r \<Longrightarrow> drop (pos r) (bin r) = bs @ rest \<Longrightarrow> wf_reader (advance (length bs) r)"
  using drop_eq_append_length[of "pos r" "bin r" bs rest] by (simp add: wf_reader_def)

lemma parses_ret [parses_intros]: "parses (ret x) x []"
  by (rule parsesI) simp

lemma parses_lift [parses_intros]: "f = Inr x \<Longrightarrow> parses (lift_result f) x []"
  by (rule parsesI) simp

lemma parses_bnd:
  assumes "parses m x bs" "parses (k x) y cs"
  shows "parses (bnd m k) y (bs @ cs)"
proof (rule parsesI)
  fix r rest
  assume r: "wf_reader r" "drop (pos r) (bin r) = (bs @ cs) @ rest"
  then have r': "drop (pos r) (bin r) = bs @ (cs @ rest)" by simp
  have m: "m r = (Inr x, advance (length bs) r)" by (rule parsesD[OF assms(1) r(1) r'])
  have "drop (pos (advance (length bs) r)) (bin (advance (length bs) r)) = cs @ rest"
    using drop_append_drop[OF r'] by simp
  from parsesD[OF assms(2) wf_advance[OF r(1) r'] this] m
  show "bnd m k r = (Inr y, advance (length (bs @ cs)) r)" by simp
qed

lemma parses_bnd_eq: "parses m x bs \<Longrightarrow> parses (k x) y cs \<Longrightarrow> ds = bs @ cs \<Longrightarrow> parses (bnd m k) y ds"
  by (simp add: parses_bnd)

lemma parses_bnd_ret: "parses m x bs \<Longrightarrow> parses (bnd m (\<lambda>x. ret (f x))) (f x) bs"
  using parses_bnd[of m x bs "\<lambda>x. ret (f x)" "f x" "[]"] by (simp add: parses_ret)

lemma parses_thn: "parses m x bs \<Longrightarrow> parses n y cs \<Longrightarrow> parses (thn m n) y (bs @ cs)"
  unfolding thn_def by (rule parses_bnd)

lemma parses_fixed:
  assumes "length bs = k" "x = f bs"
    and "\<And>r. wf_reader r \<Longrightarrow> pos r + k \<le> length (bin r)
           \<Longrightarrow> g r = f (take k (drop (pos r) (bin r)))"
  shows "parses (thn (ensureAvailable (int k)) (\<lambda>r. (Inr (g r), advance k r))) x bs"
proof (rule parsesI)
  fix r rest
  assume r: "wf_reader r" "drop (pos r) (bin r) = bs @ rest"
    and n: "pos r + length bs \<le> length (bin r)"
  have "take k (drop (pos r) (bin r)) = bs" using r(2) assms(1) by simp
  moreover have "ensureAvailable (int k) r = (Inr (), r)"
    using ensureAvailable_nat[OF r(1)] n assms(1) by simp
  ultimately show "thn (ensureAvailable (int k)) (\<lambda>r. (Inr (g r), advance k r)) r
      = (Inr x, advance (length bs) r)"
    using assms(1,2) assms(3)[OF r(1)] n by simp
qed

lemma nth_take_drop:
  "p + k \<le> length xs \<Longrightarrow> i < k \<Longrightarrow> xs ! (p + i) = take k (drop p xs) ! i"
  by simp

lemma parses_read [parses_intros]:
  "len = int (length bs) \<Longrightarrow> parses (rd_read len) bs bs"
  unfolding rd_read_def by (simp, rule parses_fixed[where f = "\<lambda>x. x"]) simp_all

lemma rev_as_map: "map (\<lambda>i. xs ! (length xs - 1 - i)) [0..<length xs] = rev xs"
  by (rule nth_equalityI) (simp_all add: rev_nth)

lemma parses_readReverse [parses_intros]:
  "len = int (length bs) \<Longrightarrow> parses (readReverse len) (rev bs) bs"
proof -
  assume len: "len = int (length bs)"
  have "map (\<lambda>i. bin r ! (pos r + k - 1 - i)) [0..<k] = rev (take k (drop (pos r) (bin r)))"
    if "pos r + k \<le> length (bin r)" for r k
  proof -
    have "map (\<lambda>i. bin r ! (pos r + k - 1 - i)) [0..<k]
        = map (\<lambda>i. take k (drop (pos r) (bin r)) ! (k - 1 - i)) [0..<k]"
      using that by (intro map_cong) auto
    also have "\<dots> = rev (take k (drop (pos r) (bin r)))"
      using that rev_as_map[of "take k (drop (pos r) (bin r))"] by (simp add: min_absorb2)
    finally show ?thesis .
  qed
  then show ?thesis
    unfolding readReverse_def len by (simp, intro parses_fixed[where f = rev]) simp_all
qed

lemma parses_readUInt8 [parses_intros]: "parses readUInt8 b [b]"
  unfolding readUInt8_def
  using parses_fixed[of "[b]" 1 b "\<lambda>xs. xs ! 0" "\<lambda>r. bin r ! pos r"] by simp

lemma nth_slice:
  "pos r + k \<le> length (bin r) \<Longrightarrow> 0 < k \<Longrightarrow> bin r ! pos r = take k (drop (pos r) (bin r)) ! 0"
  "pos r + k \<le> length (bin r) \<Longrightarrow> i < k \<Longrightarrow> bin r ! (pos r + i) = take k (drop (pos r) (bin r)) ! i"
  by simp_all

lemma parses_readUInt16LE_bytes: "parses readUInt16LE (int (le_nat [a, b])) [a, b]"
  unfolding readUInt16LE_def
  using parses_fixed[of "[a, b]" 2 "int (le_nat [a, b])" "\<lambda>xs. int (le_nat [xs ! 0, xs ! 1])"
      "\<lambda>r. sint (or (w32 (bin r ! pos r)) (push_bit 8 (w32 (bin r ! (pos r + 1)))))"]
  by (simp add: sint_or16 del: le_nat.simps)

lemma parses_readUInt16BE_bytes: "parses readUInt16BE (int (le_nat [a, b])) [b, a]"
  unfolding readUInt16BE_def
  using parses_fixed[of "[b, a]" 2 "int (le_nat [a, b])" "\<lambda>xs. int (le_nat [xs ! 1, xs ! 0])"
      "\<lambda>r. sint (or (push_bit 8 (w32 (bin r ! pos r))) (w32 (bin r ! (pos r + 1))))"]
  by (simp add: sint_or16 or.commute[of "push_bit 8 _"] del: le_nat.simps)

lemma parses_readUInt32LE_bytes: "parses readUInt32LE (int (le_nat [a, b, c, d])) [a, b, c, d]"
  unfolding readUInt32LE_def
  using parses_fixed[of "[a, b, c, d]" 4 "int (le_nat [a, b, c, d])"
      "\<lambda>xs. int (le_nat [xs ! 0, xs ! 1, xs ! 2, xs ! 3])"
      "\<lambda>r. uint (or (or (or (w32 (bin r ! pos r)) (push_bit 8 (w32 (bin r ! (pos r + 1)))))
                             (push_bit 16 (w32 (bin r ! (pos r + 2)))))
                         (push_bit 24 (w32 (bin r ! (pos r + 3)))))"]
  by (simp add: uint_or32 del: le_nat.simps)

lemma parses_readUInt32BE_bytes: "parses readUInt32BE (int (le_nat [a, b, c, d])) [d, c, b, a]"
  unfolding readUInt32BE_def
  using parses_fixed[of "[d, c, b, a]" 4 "int (le_nat [a, b, c, d])"
      "\<lambda>xs. int (unat (xs ! 0)) * 16777216 + int (le_nat [xs ! 3, xs ! 2, xs ! 1])"
      "\<lambda>r. int (unat (bin r ! pos r)) * 0x1000000 +
                sint (or (or (push_bit 16 (w32 (bin r ! (pos r + 1))))
                             (push_bit 8 (w32 (bin r ! (pos r + 2)))))
                         (w32 (bin r ! (pos r + 3))))"]
  by (simp add: sint_or24)

lemma parses_u16LE [parses_intros]:
  "n < 2 ^ 16 \<Longrightarrow> parses readUInt16LE (int n) (le_bytes 2 n)"
  using parses_readUInt16LE_bytes[of "word_of_nat n" "word_of_nat (n div 2 ^ 8)"]
  unfolding le_bytes_unfold(2) [symmetric] by simp

lemma parses_u32LE [parses_intros]:
  "n < 2 ^ 32 \<Longrightarrow> parses readUInt32LE (int n) (le_bytes 4 n)"
  using parses_readUInt32LE_bytes[of "word_of_nat n" "word_of_nat (n div 2 ^ 8)"
      "word_of_nat (n div 2 ^ 16)" "word_of_nat (n div 2 ^ 24)"]
  unfolding le_bytes_unfold(3) [symmetric] by simp

lemma foldl_be: "foldl (\<lambda>m b. 256 * m + unat b) m xs = le_nat (rev xs) + 256 ^ length xs * m"
  by (induction xs arbitrary: m) (auto simp: le_nat_append algebra_simps)

lemma initArray_be_rev [simp]: "initArray_be xs = initializeState (le_nat (rev xs)) False"
  by (simp add: initArray_be_def foldl_be)

lemma parses_u64LEBn [parses_intros]:
  "n < 2 ^ 64 \<Longrightarrow> parses readUInt64LEBn (initializeState n False) (le_bytes 8 n)"
  unfolding readUInt64LEBn_def
  using parses_bnd_ret[of "readReverse 8" "rev (le_bytes 8 n)" "le_bytes 8 n" initArray_be]
  by (simp add: parses_readReverse)

subsection \<open>CompactSize integers\<close>

text \<open>The encoding the format prescribes: the shortest of the four forms.\<close>

definition compact_size :: "nat \<Rightarrow> bytes" where
  "compact_size n =
     (if n < 253 then [word_of_nat n]
      else if n < 2 ^ 16 then 0xfd # le_bytes 2 n
      else if n < 2 ^ 32 then 0xfe # le_bytes 4 n
      else 0xff # le_bytes 8 n)"

lemma compact_size_nonempty [simp]: "compact_size n \<noteq> []"
  by (simp add: compact_size_def)

lemma length_compact_size: "1 \<le> length (compact_size n) \<and> length (compact_size n) \<le> 9"
  by (simp add: compact_size_def)

lemma le_bytes_add: "le_bytes (j + k) n = le_bytes j n @ le_bytes k (n div 256 ^ j)"
  by (induction j arbitrary: n) (simp_all add: div_mult2_eq)

lemma le_bytes_8_split: "le_bytes 8 n = le_bytes 4 n @ le_bytes 4 (n div 2 ^ 32)"
  using le_bytes_add[of 4 4 n] by simp

lemma js_bytes_8:
  "[js_byte (int n) 0, js_byte (int n) 8, js_byte (int n) 16, js_byte (int n) 24,
    js_byte (int (n div 2 ^ 32)) 0, js_byte (int (n div 2 ^ 32)) 8,
    js_byte (int (n div 2 ^ 32)) 16, js_byte (int (n div 2 ^ 32)) 24] = le_bytes 8 n"
  unfolding le_bytes_8_split js_byte_list(3) [symmetric] by simp

lemma varIntNum_compact:
  assumes "n < 2 ^ 64"
  shows "varIntNum (int n) = Inr (compact_size n)"
proof -
  have hi: "int n div 4294967296 = int (n div 2 ^ 32)" by (simp add: zdiv_int)
  consider "n < 253" | "\<not> n < 253" "n < 2 ^ 16" | "\<not> n < 2 ^ 16" "n < 2 ^ 32" | "\<not> n < 2 ^ 32"
    by linarith
  then show ?thesis
  proof cases
    case 4
    then have "varIntNum (int n) = Inr (255 # le_bytes 8 n)"
      unfolding varIntNum_def hi Let_def js_bytes_8 [symmetric] by simp
    with 4 show ?thesis by (simp add: compact_size_def)
  qed (simp_all add: varIntNum_def compact_size_def js_byte_list(2,3))
qed

lemma writeReverse_eq: "writeReverse xs = wr_write (rev xs)"
  by (simp add: writeReverse_def rev_as_map [symmetric])

lemma wr_toArray_concat: "wr_toArray w = concat (bufs w)"
proof -
  have "foldl (\<lambda>acc b. acc @ b) acc bs = acc @ concat bs" for acc :: bytes and bs
    by (induction bs arbitrary: acc) auto
  then show ?thesis by (simp add: wr_toArray_def)
qed

lemma bn_toArray_be_8:
  assumes "magnitude b < 2 ^ 64"
  shows "bn_toArray False (Some 8) b = Inr (rev (le_bytes 8 (magnitude b)))"
proof -
  have "byteLength b \<le> 8"
  proof (cases "magnitude b = 0")
    case False
    have "(2 :: nat) ^ bit_length (magnitude b) < 2 ^ Suc 64"
      using bit_length_bounds[of "magnitude b"] False assms by simp
    then have "bit_length (magnitude b) < Suc 64" by (rule power_less_imp_less_exp [rotated]) simp
    then have "(bit_length (magnitude b) + 7) div 8 \<le> 8" by presburger
    then show ?thesis by (simp add: byteLength_def bitLength_def)
  qed (simp add: byteLength_def)
  then show ?thesis by (simp add: bn_toArray_def)
qed

lemma varIntBn_compact:
  assumes "0 \<le> getSignedValue b" "getSignedValue b < 2 ^ 64"
  shows "varIntBn b = Inr (compact_size (nat (getSignedValue b)))"
proof -
  have neg: "\<not> isNeg b" using assms(1) by (auto simp: isNeg_def getSignedValue_def)
  obtain n where n: "getSignedValue b = int n" using assms(1) nonneg_int_cases by blast
  then have m: "magnitude b = n" by (auto simp: getSignedValue_def split: if_splits)
  have n64: "n < 2 ^ 64" using assms(2) n by simp
  have num: "n < 4294967296 \<Longrightarrow> bn_toNumber b = Inr (int n)" by (simp add: bn_toNumber_def n)
  have w: "thn (writeUInt8 255) (writeUInt64LEBn b) (new_writer [])
      = (Inr (), \<lparr>bufs = [[255], le_bytes 8 n], wlength = 9\<rparr>)"
    using n64 by (simp add: writeUInt8_def writeUInt64LEBn_def writeReverse_eq wr_write_def thn_apply
        bnd_apply bn_toArray_be_8 m new_writer_def js_byte_eq)
  consider "n < 253" | "\<not> n < 253" "n < 2 ^ 16" | "\<not> n < 2 ^ 16" "n < 2 ^ 32" | "\<not> n < 2 ^ 32"
    by linarith
  then show ?thesis
  proof cases
    case 4
    then show ?thesis
      by (simp add: varIntBn_def neg n w compact_size_def wr_toArray_concat)
  qed (simp_all add: varIntBn_def neg n num compact_size_def js_byte_list(2,3))
qed

text \<open>The dummy value \<open>-1\<close> is written as the largest 64-bit value.\<close>

lemma varIntBn_wraps:
  assumes "getSignedValue b < 0" "- (2 ^ 64) \<le> getSignedValue b"
  shows "varIntBn b = Inr (compact_size (nat (getSignedValue b + 2 ^ 64)))"
proof -
  let ?c = "bn_add b OverflowUint64"
  have neg: "isNeg b" using assms(1) by (auto simp: isNeg_def getSignedValue_def split: if_splits)
  have c: "getSignedValue ?c = getSignedValue b + 2 ^ 64"
    by (simp add: bn_value OverflowUint64_def)
  then have "\<not> isNeg ?c" using assms(2) by (auto simp: isNeg_def getSignedValue_def split: if_splits)
  then have "varIntBn b = varIntBn ?c" using neg by (simp add: varIntBn_def Let_def)
  then show ?thesis using varIntBn_compact[of ?c] c assms by simp
qed

lemma varIntNum_minus_one: "varIntNum (- 1) = Inr (compact_size (2 ^ 64 - 1))"
proof -
  have "varIntNum (- 1) = varIntBn (initializeState 1 True)"
    by (simp add: varIntNum_def bn_of_number_def)
  then show ?thesis using varIntBn_wraps[of "initializeState 1 True"] by simp
qed

lemma compact_size_cases:
  obtains (byte) "n < 253" "compact_size n = [word_of_nat n]" "unat (word_of_nat n :: byte) = n"
  | (u16) "253 \<le> n" "n < 2 ^ 16" "compact_size n = 0xfd # le_bytes 2 n"
  | (u32) "2 ^ 16 \<le> n" "n < 2 ^ 32" "compact_size n = 0xfe # le_bytes 4 n"
  | (u64) "2 ^ 32 \<le> n" "compact_size n = 0xff # le_bytes 8 n"
proof (cases "n < 253")
  case True
  then have "compact_size n = [word_of_nat n]" "unat (word_of_nat n :: byte) = n"
    by (simp_all add: compact_size_def)
  with True show ?thesis by (rule byte)
next
  case False
  then show ?thesis
    by (cases "n < 2 ^ 16"; cases "n < 2 ^ 32") (auto simp: compact_size_def intro: u16 u32 u64)
qed

lemma byte_ne_of_lt: "unat b < 253 \<Longrightarrow> b \<noteq> 0xfd \<and> b \<noteq> 0xfe \<and> b \<noteq> (0xff :: byte)"
  by auto

lemma parses_bnd_Cons:
  "parses m b [b] \<Longrightarrow> parses (k b) y cs \<Longrightarrow> parses (bnd m k) y (b # cs)"
  using parses_bnd[of m b "[b]" k y cs] by simp

lemma u64_bound: "n \<le> max_safe_integer \<Longrightarrow> n < 2 ^ 64"
  by simp

lemma parses_bnd_nil: "parses m x bs \<Longrightarrow> parses (k x) y [] \<Longrightarrow> parses (bnd m k) y bs"
  using parses_bnd[of m x bs k y "[]"] by simp

lemma parses_readVarIntNum [parses_intros]:
  assumes "n \<le> max_safe_integer"
  shows "parses (readVarIntNum sgnd) (int n) (compact_size n)"
proof (cases n rule: compact_size_cases)
  case byte
  then show ?thesis
    unfolding readVarIntNum_def byte(2)
    by (intro parses_bnd_Cons parses_readUInt8) (simp add: parses_ret byte_ne_of_lt)
next
  case u16
  then show ?thesis
    unfolding readVarIntNum_def u16(3)
    by (intro parses_bnd_Cons parses_readUInt8) (simp add: parses_u16LE)
next
  case u32
  then show ?thesis
    unfolding readVarIntNum_def u32(3)
    by (intro parses_bnd_Cons parses_readUInt8) (simp add: parses_u32LE)
next
  case u64
  have n64: "n < 2 ^ 64" using assms by simp
  have s: "parses readInt64LEBn (initializeState n False) (le_bytes 8 n)"
    using parses_bnd_ret[of "readReverse 8" "rev (le_bytes 8 n)" "le_bytes 8 n"
        "\<lambda>bs. let bn = initArray_be bs in if bn_cmp bn OverflowInt64 \<ge> 0 then bn_sub bn OverflowUint64 else bn"]
      n64 assms
    by (simp add: readInt64LEBn_def parses_readReverse OverflowInt64_def Let_def)
  have r: "parses (if sgnd then readInt64LEBn else readUInt64LEBn) (initializeState n False) (le_bytes 8 n)"
    using s parses_u64LEBn[OF n64] by simp
  have "parses (bnd (if sgnd then readInt64LEBn else readUInt64LEBn) (\<lambda>bn.
         if bn_cmp bn (bn_of_bigint (2 ^ 53)) \<le> 0 then lift_result (bn_toNumber bn)
         else throw (JsError ''number too large to retain precision - use readVarIntBn'')))
      (int n) (le_bytes 8 n)"
    using assms by (intro parses_bnd_nil[OF r]) (auto intro!: parses_lift simp: bn_toNumber_def)
  then show ?thesis
    unfolding readVarIntNum_def u64(2)
    by (intro parses_bnd_Cons parses_readUInt8) simp
qed

lemma parses_readVarIntNumStrict [parses_intros]:
  assumes "n \<le> max_safe_integer"
  shows "parses (readVarIntNumStrict sgnd) (int n) (compact_size n)"
proof (cases n rule: compact_size_cases)
  case byte
  then show ?thesis
    unfolding readVarIntNumStrict_def byte(2)
    by (intro parses_bnd_Cons parses_readUInt8) (simp add: parses_ret)
next
  case u16
  then show ?thesis
    unfolding readVarIntNumStrict_def u16(3)
    by (intro parses_bnd_Cons parses_readUInt8)
       (simp, rule parses_bnd_nil[OF parses_u16LE], auto intro: parses_ret)
next
  case u32
  then show ?thesis
    unfolding readVarIntNumStrict_def u32(3)
    by (intro parses_bnd_Cons parses_readUInt8)
       (simp, rule parses_bnd_nil[OF parses_u32LE], auto intro: parses_ret)
next
  case u64
  then show ?thesis
    unfolding readVarIntNumStrict_def u64(2)
    using assms u64_bound[OF assms]
    by (intro parses_bnd_Cons parses_readUInt8)
       (simp, rule parses_bnd_nil[OF parses_u64LEBn[of n]], simp, auto intro!: parses_lift simp: bn_toNumber_def)
qed

lemma parses_readVarIntBn [parses_intros]:
  assumes "n < 2 ^ 64"
  shows "parses readVarIntBn (initializeState n False) (compact_size n)"
proof (cases n rule: compact_size_cases)
  case byte
  then show ?thesis
    unfolding readVarIntBn_def byte(2)
    by (intro parses_bnd_Cons parses_readUInt8)
       (simp add: byte_ne_of_lt parses_lift bn_of_number_def)
next
  case u16
  then show ?thesis
    unfolding readVarIntBn_def u16(3)
    by (intro parses_bnd_Cons parses_readUInt8)
       (simp, rule parses_bnd_nil[OF parses_u16LE], auto intro!: parses_lift simp: bn_of_number_def)
next
  case u32
  then show ?thesis
    unfolding readVarIntBn_def u32(3)
    by (intro parses_bnd_Cons parses_readUInt8)
       (simp, rule parses_bnd_nil[OF parses_u32LE], auto intro!: parses_lift simp: bn_of_number_def)
next
  case u64
  then show ?thesis
    unfolding readVarIntBn_def u64(2)
    by (intro parses_bnd_Cons parses_readUInt8) (use parses_u64LEBn[OF assms] in simp)
qed

subsection \<open>What a successful read has consumed\<close>

text \<open>
  \<open>consumes m P\<close>: when \<open>m\<close> returns \<open>x\<close>, the bytes it read, as a list \<open>bs\<close>, satisfy
  \<open>P x bs\<close>, and nothing else of the reader changed.
\<close>

definition consumes :: "'a rd \<Rightarrow> ('a \<Rightarrow> bytes \<Rightarrow> bool) \<Rightarrow> bool" where
  "consumes m P \<longleftrightarrow>
     (\<forall>r x t. wf_reader r \<and> m r = (Inr x, t) \<longrightarrow>
        (\<exists>bs rest. P x bs \<and> drop (pos r) (bin r) = bs @ rest \<and> t = advance (length bs) r))"

lemma consumesD:
  "consumes m P \<Longrightarrow> wf_reader r \<Longrightarrow> m r = (Inr x, t) \<Longrightarrow>
   \<exists>bs rest. P x bs \<and> drop (pos r) (bin r) = bs @ rest \<and> t = advance (length bs) r"
  by (auto simp: consumes_def)

lemma consumes_weaken: "consumes m P \<Longrightarrow> (\<And>x bs. P x bs \<Longrightarrow> Q x bs) \<Longrightarrow> consumes m Q"
  unfolding consumes_def by meson

lemma consumes_ret: "consumes (ret y) (\<lambda>x bs. x = y \<and> bs = [])"
  by (auto simp: consumes_def)

lemma consumes_throw: "consumes (throw e) P"
  by (auto simp: consumes_def)

lemma consumes_lift: "consumes (lift_result f) (\<lambda>x bs. f = Inr x \<and> bs = [])"
  by (auto simp: consumes_def)

lemma consumes_bnd:
  assumes "consumes m P" "\<And>x. consumes (k x) (Q x)"
  shows "consumes (bnd m k) (\<lambda>y cs. \<exists>x as bs. P x as \<and> Q x y bs \<and> cs = as @ bs)"
  unfolding consumes_def
proof (intro allI impI)
  fix r y t
  assume a: "wf_reader r \<and> bnd m k r = (Inr y, t)"
  then obtain x s where m: "m r = (Inr x, s)" and k: "k x s = (Inr y, t)"
    by (auto simp: bnd_apply split: prod.splits sum.splits)
  obtain as rest where as: "P x as" "drop (pos r) (bin r) = as @ rest" "s = advance (length as) r"
    using consumesD[OF assms(1) _ m] a by blast
  have "wf_reader s" using wf_advance[OF _ as(2)] a as(3) by simp
  then obtain bs rest' where bs: "Q x y bs" "drop (pos s) (bin s) = bs @ rest'" "t = advance (length bs) s"
    using consumesD[OF assms(2) _ k] by blast
  have "drop (pos s) (bin s) = rest" using as by (simp add: drop_append_drop)
  with as bs have "drop (pos r) (bin r) = (as @ bs) @ rest'" "t = advance (length (as @ bs)) r"
    by simp_all
  with as(1) bs(1) show "\<exists>cs rest. (\<exists>x as bs. P x as \<and> Q x y bs \<and> cs = as @ bs)
      \<and> drop (pos r) (bin r) = cs @ rest \<and> t = advance (length cs) r"
    by blast
qed

lemma consumes_fixed:
  assumes "\<And>bs. length bs = k \<Longrightarrow> parses m (f bs) bs"
    and "\<And>r x t. m r = (Inr x, t) \<Longrightarrow> pos r + k \<le> length (bin r)"
  shows "consumes m (\<lambda>x bs. length bs = k \<and> x = f bs)"
  unfolding consumes_def
proof (intro allI impI)
  fix r x t
  assume a: "wf_reader r \<and> m r = (Inr x, t)"
  let ?bs = "take k (drop (pos r) (bin r))"
  have len: "length ?bs = k" using assms(2)[of r x t] a by simp
  have d: "drop (pos r) (bin r) = ?bs @ drop (pos r + k) (bin r)"
    by (metis add.commute append_take_drop_id drop_drop)
  have "m r = (Inr (f ?bs), advance (length ?bs) r)"
    by (rule parsesD[OF assms(1)[OF len] _ d]) (use a in simp)
  then have "x = f ?bs" "t = advance (length ?bs) r" using a by auto
  with d len show "\<exists>bs rest. (length bs = k \<and> x = f bs)
      \<and> drop (pos r) (bin r) = bs @ rest \<and> t = advance (length bs) r"
    by blast
qed

lemma ensure_thn_ok:
  "thn (ensureAvailable len) n r = (Inr x, t) \<Longrightarrow> pos r + nat len \<le> length (bin r)"
  by (auto simp: thn_apply ensureAvailable_def split: if_splits)

lemma consumes_readUInt8: "consumes readUInt8 (\<lambda>b bs. bs = [b])"
proof (rule consumes_weaken, rule consumes_fixed[where k = 1 and f = hd])
  fix bs :: bytes
  assume "length bs = 1"
  then show "parses readUInt8 (hd bs) bs" by (auto simp: length_Suc_conv parses_readUInt8)
qed (auto simp: length_Suc_conv readUInt8_def dest: ensure_thn_ok)

lemma consumes_rd_read: "consumes (rd_read len) (\<lambda>x bs. x = bs \<and> len = int (length bs))"
proof (cases "len < 0")
  case True
  then show ?thesis
    by (auto simp: consumes_def rd_read_def thn_apply ensureAvailable_neg)
next
  case False
  show ?thesis
  proof (rule consumes_weaken, rule consumes_fixed[where k = "nat len" and f = "\<lambda>x. x"])
    fix bs :: bytes
    assume "length bs = nat len"
    with False show "parses (rd_read len) bs bs" by (intro parses_read) simp
  next
    fix x and bs :: bytes
    assume "length bs = nat len \<and> x = bs"
    with False show "x = bs \<and> len = int (length bs)" by simp
  qed (auto simp: rd_read_def dest: ensure_thn_ok)
qed

lemma list_2E: "length xs = 2 \<Longrightarrow> (\<And>a b. xs = [a, b] \<Longrightarrow> thesis) \<Longrightarrow> thesis"
  by (auto simp: numeral_2_eq_2 length_Suc_conv)

lemma list_4E: "length xs = 4 \<Longrightarrow> (\<And>a b c d. xs = [a, b, c, d] \<Longrightarrow> thesis) \<Longrightarrow> thesis"
  by (auto simp: numeral_eq_Suc length_Suc_conv)

lemma consumes_u16LE:
  "consumes readUInt16LE (\<lambda>x bs. x = int (le_nat bs) \<and> bs = le_bytes 2 (le_nat bs) \<and> le_nat bs < 2 ^ 16)"
proof (rule consumes_weaken, rule consumes_fixed[where k = 2 and f = "\<lambda>bs. int (le_nat bs)"])
  fix bs :: bytes
  assume "length bs = 2"
  then show "parses readUInt16LE (int (le_nat bs)) bs"
    by (elim list_2E) (simp only: parses_readUInt16LE_bytes)
next
  fix x and bs :: bytes
  assume a: "length bs = 2 \<and> x = int (le_nat bs)"
  then show "x = int (le_nat bs) \<and> bs = le_bytes 2 (le_nat bs) \<and> le_nat bs < 2 ^ 16"
    using le_bytes_le_nat[of bs] le_nat_lt[of bs] by simp
qed (auto simp: readUInt16LE_def dest: ensure_thn_ok)

lemma consumes_u32LE:
  "consumes readUInt32LE (\<lambda>x bs. x = int (le_nat bs) \<and> bs = le_bytes 4 (le_nat bs) \<and> le_nat bs < 2 ^ 32)"
proof (rule consumes_weaken, rule consumes_fixed[where k = 4 and f = "\<lambda>bs. int (le_nat bs)"])
  fix bs :: bytes
  assume "length bs = 4"
  then show "parses readUInt32LE (int (le_nat bs)) bs"
    by (elim list_4E) (simp only: parses_readUInt32LE_bytes)
next
  fix x and bs :: bytes
  assume a: "length bs = 4 \<and> x = int (le_nat bs)"
  then show "x = int (le_nat bs) \<and> bs = le_bytes 4 (le_nat bs) \<and> le_nat bs < 2 ^ 32"
    using le_bytes_le_nat[of bs] le_nat_lt[of bs] by simp
qed (auto simp: readUInt32LE_def dest: ensure_thn_ok)

lemma consumes_u64LEBn:
  "consumes readUInt64LEBn (\<lambda>x bs. x = initializeState (le_nat bs) False
      \<and> bs = le_bytes 8 (le_nat bs) \<and> le_nat bs < 2 ^ 64)"
proof (rule consumes_weaken, rule consumes_fixed[where k = 8 and f = "\<lambda>bs. initializeState (le_nat bs) False"])
  fix bs :: bytes
  assume l: "length bs = 8"
  then have "bs = le_bytes 8 (le_nat bs)" "le_nat bs < 2 ^ 64"
    using le_bytes_le_nat[of bs] le_nat_lt[of bs] by simp_all
  then show "parses readUInt64LEBn (initializeState (le_nat bs) False) bs"
    using parses_u64LEBn[of "le_nat bs"] by simp
next
  fix x and bs :: bytes
  assume a: "length bs = 8 \<and> x = initializeState (le_nat bs) False"
  then show "x = initializeState (le_nat bs) False
      \<and> bs = le_bytes 8 (le_nat bs) \<and> le_nat bs < 2 ^ 64"
    using le_bytes_le_nat[of bs] le_nat_lt[of bs] by simp
next
  fix r x t
  assume "readUInt64LEBn r = (Inr x, t)"
  then show "pos r + 8 \<le> length (bin r)"
    by (auto simp: readUInt64LEBn_def bnd_apply readReverse_def split: prod.splits sum.splits
        dest: ensure_thn_ok)
qed

subsection \<open>The strict decoder accepts only canonical encodings\<close>

definition canonical_read :: "bool \<Rightarrow> int \<Rightarrow> bytes \<Rightarrow> bool" where
  "canonical_read sgnd n bs \<longleftrightarrow>
     varIntNum n = Inr bs \<and> (0 \<le> n \<or> (sgnd \<and> n = -1)) \<and> n \<le> int max_safe_integer"

lemma canonical_readI:
  "compact_size n = bs \<Longrightarrow> n \<le> max_safe_integer \<Longrightarrow> canonical_read sgnd (int n) bs"
  using varIntNum_compact[of n] by (simp add: canonical_read_def)

lemma consumes_if:
  "(b \<Longrightarrow> consumes m P) \<Longrightarrow> (\<not> b \<Longrightarrow> consumes n P) \<Longrightarrow> consumes (if b then m else n) P"
  by simp

lemma consumes_strict_u16:
  "consumes (bnd readUInt16LE (\<lambda>value.
      if value < 0xfd then throw (JsError ''non-canonical varInt'') else ret value))
    (\<lambda>n bs. canonical_read sgnd n (0xfd # bs))"
proof (rule consumes_weaken, rule consumes_bnd[OF consumes_u16LE])
  fix v :: int
  show "consumes (if v < 0xfd then throw (JsError ''non-canonical varInt'') else ret v)
    (\<lambda>n bs. n = v \<and> bs = [] \<and> 0xfd \<le> v)"
    by (intro consumes_if consumes_throw consumes_weaken[OF consumes_ret]) auto
next
  fix n :: int and bs
  assume "\<exists>x as cs. (x = int (le_nat as) \<and> as = le_bytes 2 (le_nat as) \<and> le_nat as < 2 ^ 16)
      \<and> (n = x \<and> cs = [] \<and> 0xfd \<le> x) \<and> bs = as @ cs"
  then have n: "n = int (le_nat bs)" "bs = le_bytes 2 (le_nat bs)" "le_nat bs < 2 ^ 16" "253 \<le> le_nat bs"
    by auto
  then show "canonical_read sgnd n (0xfd # bs)"
    by (simp add: canonical_readI compact_size_def)
qed

lemma consumes_strict_u32:
  "consumes (bnd readUInt32LE (\<lambda>value.
      if value \<le> 0xffff then throw (JsError ''non-canonical varInt'') else ret value))
    (\<lambda>n bs. canonical_read sgnd n (0xfe # bs))"
proof (rule consumes_weaken, rule consumes_bnd[OF consumes_u32LE])
  fix v :: int
  show "consumes (if v \<le> 0xffff then throw (JsError ''non-canonical varInt'') else ret v)
    (\<lambda>n bs. n = v \<and> bs = [] \<and> 0xffff < v)"
    by (intro consumes_if consumes_throw consumes_weaken[OF consumes_ret]) auto
next
  fix n :: int and bs
  assume "\<exists>x as cs. (x = int (le_nat as) \<and> as = le_bytes 4 (le_nat as) \<and> le_nat as < 2 ^ 32)
      \<and> (n = x \<and> cs = [] \<and> 0xffff < x) \<and> bs = as @ cs"
  then have n: "n = int (le_nat bs)" "bs = le_bytes 4 (le_nat bs)" "le_nat bs < 2 ^ 32" "65535 < le_nat bs"
    by auto
  then show "canonical_read sgnd n (0xfe # bs)"
    by (simp add: canonical_readI compact_size_def)
qed

lemma consumes_strict_u64:
  "consumes (bnd readUInt64LEBn (\<lambda>value.
       if bn_cmp value (bn_of_bigint 0xffffffff) \<le> 0
       then throw (JsError ''non-canonical varInt'')
       else if sgnd \<and> bn_cmp value (bn_of_bigint (2 ^ 64 - 1)) = 0 then ret (- 1)
       else if bn_cmp value (bn_of_bigint (int max_safe_integer)) > 0
       then throw (JsError ''number too large to retain precision - use readVarIntBn'')
       else lift_result (bn_toNumber value)))
    (\<lambda>n bs. canonical_read sgnd n (0xff # bs))"
  (is "consumes (bnd _ ?k) _")
proof (rule consumes_weaken)
  let ?Q = "\<lambda>value n bs. bs = [] \<and> 0xffffffff < getSignedValue value
    \<and> (if n = -1 then sgnd \<and> getSignedValue value = 2 ^ 64 - 1
       else n = getSignedValue value \<and> n \<le> int max_safe_integer)"
  have "consumes (?k v) (?Q v)" for v
    by (intro consumes_if consumes_throw consumes_weaken[OF consumes_ret]
        consumes_weaken[OF consumes_lift])
       (auto simp: bn_toNumber_def split: if_splits)
  then show "consumes (bnd readUInt64LEBn ?k)
      (\<lambda>n bs. \<exists>x as cs. (x = initializeState (le_nat as) False \<and> as = le_bytes 8 (le_nat as)
        \<and> le_nat as < 2 ^ 64) \<and> ?Q x n cs \<and> bs = as @ cs)"
    by (rule consumes_bnd[OF consumes_u64LEBn])
  fix n :: int and bs
  assume "\<exists>x as cs. (x = initializeState (le_nat as) False \<and> as = le_bytes 8 (le_nat as)
      \<and> le_nat as < 2 ^ 64) \<and> ?Q x n cs \<and> bs = as @ cs"
  then have n: "bs = le_bytes 8 (le_nat bs)" "0xffffffff < int (le_nat bs)"
    "if n = -1 then sgnd \<and> int (le_nat bs) = 2 ^ 64 - 1
     else n = int (le_nat bs) \<and> n \<le> int max_safe_integer"
    by auto
  have c: "compact_size (le_nat bs) = 0xff # bs"
    using n(1,2) by (simp add: compact_size_def)
  show "canonical_read sgnd n (0xff # bs)"
  proof (cases "n = -1")
    case True
    with n(3) have "sgnd" "le_nat bs = 2 ^ 64 - 1" by auto
    with True c show ?thesis using varIntNum_minus_one by (simp add: canonical_read_def)
  next
    case False
    with n(3) have "n = int (le_nat bs)" "le_nat bs \<le> max_safe_integer" by auto
    with c show ?thesis by (simp add: canonical_readI)
  qed
qed

lemma byte_ff: "\<not> unat (b :: byte) < 0xfd \<Longrightarrow> b \<noteq> 0xfd \<Longrightarrow> b \<noteq> 0xfe \<Longrightarrow> b = 0xff"
proof (rule unat_eqI)
  assume b: "\<not> unat b < 0xfd" "b \<noteq> 0xfd" "b \<noteq> 0xfe"
  then have "unat b \<noteq> unat (0xfd :: byte)" "unat b \<noteq> unat (0xfe :: byte)"
    using unat_eqI by blast+
  then have "unat b \<noteq> 253" "unat b \<noteq> 254" by simp_all
  moreover have "unat b < 256" by simp
  ultimately have "unat b = 255" using b(1) by linarith
  then show "unat b = unat (0xff :: byte)" by simp
qed

lemma consumes_readVarIntNumStrict:
  "consumes (readVarIntNumStrict sgnd) (canonical_read sgnd)"
proof -
  have byte: "canonical_read sgnd (int (unat b)) [b]" if "unat b < 253" for b
    using that canonical_readI[of "unat b" "[b]"] by (simp add: compact_size_def)
  have "consumes (readVarIntNumStrict sgnd)
      (\<lambda>n bs. \<exists>b as cs. as = [b] \<and> canonical_read sgnd n (b # cs) \<and> bs = as @ cs)"
    unfolding readVarIntNumStrict_def
  proof (rule consumes_bnd[OF consumes_readUInt8], intro consumes_if)
    fix b :: byte
    show "unat b < 0xfd \<Longrightarrow> consumes (ret (int (unat b))) (\<lambda>n bs. canonical_read sgnd n (b # bs))"
      using byte[of b] by (intro consumes_weaken[OF consumes_ret]) blast
  next
    fix b :: byte
    assume "\<not> unat b < 0xfd" "b \<noteq> 0xfd" "b \<noteq> 0xfe"
    then have b: "b = 0xff" by (rule byte_ff)
    show "consumes (bnd readUInt64LEBn (\<lambda>value.
         if bn_cmp value (bn_of_bigint 0xffffffff) \<le> 0
         then throw (JsError ''non-canonical varInt'')
         else if sgnd \<and> bn_cmp value (bn_of_bigint (2 ^ 64 - 1)) = 0 then ret (- 1)
         else if bn_cmp value (bn_of_bigint (int max_safe_integer)) > 0
         then throw (JsError ''number too large to retain precision - use readVarIntBn'')
         else lift_result (bn_toNumber value))) (\<lambda>n bs. canonical_read sgnd n (b # bs))"
      unfolding b by (rule consumes_strict_u64)
  qed (simp_all only: consumes_strict_u16 consumes_strict_u32)
  then show ?thesis by (rule consumes_weaken) auto
qed

subsection \<open>The builder\<close>

definition wf_writer :: "writer \<Rightarrow> bool" where
  "wf_writer w \<longleftrightarrow> wlength w = length (concat (bufs w))"

lemma wf_new_writer [simp]: "wf_writer (new_writer bs)"
proof -
  have "foldl (\<lambda>n b. n + length b) n bs = n + length (concat bs)" for n and bs :: "bytes list"
    by (induction bs arbitrary: n) auto
  then show ?thesis by (simp add: wf_writer_def new_writer_def)
qed

lemma set_chunks_concat:
  "length out = offset + length (concat bs) \<Longrightarrow>
   set_chunks out offset bs = Inr (take offset out @ concat bs)"
proof (induction bs arbitrary: out offset)
  case Nil
  then show ?case by simp
next
  case (Cons b bs)
  let ?out = "take offset out @ b @ drop (offset + length b) out"
  have "length ?out = offset + length b + length (concat bs)" using Cons.prems by simp
  from Cons.IH[OF this] Cons.prems show ?case by simp
qed

lemma wr_toUint8Array_eq: "wf_writer w \<Longrightarrow> wr_toUint8Array w = Inr (wr_toArray w)"
  using set_chunks_concat[of "replicate (wlength w) 0" 0 "bufs w"]
  by (simp add: wr_toUint8Array_def wr_toArray_concat wf_writer_def)

definition appends :: "wr \<Rightarrow> bytes \<Rightarrow> bool" where
  "appends m bs \<longleftrightarrow> (\<forall>w. wf_writer w \<longrightarrow>
     (\<exists>w'. m w = (Inr (), w') \<and> wf_writer w' \<and> wr_toArray w' = wr_toArray w @ bs))"

lemma appends_write [appends_intros]: "appends (wr_write bs) bs"
  by (simp add: appends_def wr_write_def wf_writer_def wr_toArray_concat)

lemma appends_ret [appends_intros]: "appends (ret ()) []"
  by (simp add: appends_def)

lemma appends_thn [appends_intros]:
  "appends m bs \<Longrightarrow> appends n cs \<Longrightarrow> appends (thn m n) (bs @ cs)"
  unfolding appends_def by (metis append.assoc thn_ok)

lemma appends_lift [appends_intros]:
  "r = Inr x \<Longrightarrow> appends (k x) bs \<Longrightarrow> appends (bnd (lift_result r) k) bs"
  by (simp add: appends_def bnd_def)

lemma appendsD:
  "appends m bs \<Longrightarrow> wf_writer w \<Longrightarrow> m w = (r, w') \<Longrightarrow>
   r = Inr () \<and> wf_writer w' \<and> wr_toArray w' = wr_toArray w @ bs"
  by (auto simp: appends_def)

lemma appends_new: "appends m bs \<Longrightarrow> m (new_writer []) = (r, w) \<Longrightarrow> r = Inr () \<and> wr_toArray w = bs"
  using appendsD[of m bs "new_writer []" r w] wf_new_writer[of "[]"]
  by (auto simp: wr_toArray_concat new_writer_def)

lemma appends_writeReverse [appends_intros]: "appends (writeReverse bs) (rev bs)"
  by (simp add: writeReverse_eq appends_write)

lemma appends_writeUInt8 [appends_intros]: "appends (writeUInt8 (int n)) (le_bytes 1 n)"
  unfolding writeUInt8_def js_byte_list(1) by (rule appends_write)

lemma appends_writeUInt16LE [appends_intros]: "appends (writeUInt16LE (int n)) (le_bytes 2 n)"
  unfolding writeUInt16LE_def js_byte_list(2) by (rule appends_write)

lemma appends_writeUInt32LE [appends_intros]: "appends (writeUInt32LE (int n)) (le_bytes 4 n)"
  unfolding writeUInt32LE_def js_byte_list(3) by (rule appends_write)

lemma appends_writeUInt64LEBn:
  "magnitude b < 2 ^ 64 \<Longrightarrow> appends (writeUInt64LEBn b) (le_bytes 8 (magnitude b))"
  unfolding writeUInt64LEBn_def
  using appends_lift[OF bn_toArray_be_8, of b writeReverse] appends_writeReverse[of "rev _"] by simp

lemma appends_writeUInt64LE [appends_intros]:
  assumes "n \<le> max_safe_integer"
  shows "appends (writeUInt64LE (int n)) (le_bytes 8 n)"
proof -
  let ?b = "initializeState n False"
  have b: "bn_of_number (int n) = Inr ?b" "magnitude ?b = n"
    using assms by (simp_all add: bn_of_number_def initializeState_def)
  have "n < 2 ^ 64" using assms by simp
  then show ?thesis
    unfolding writeUInt64LE_def
    using appends_lift[OF b(1), of "\<lambda>bn. bnd (lift_result (bn_toArray False (Some 8) bn)) writeReverse"]
      appends_writeUInt64LEBn[of ?b] b(2)
    by (simp add: writeUInt64LEBn_def)
qed

lemma appends_writeUInt64LE_minus_one: "appends (writeUInt64LE (- 1)) (replicate 8 0xff)"
  unfolding writeUInt64LE_def by (simp del: replicate.simps add: appends_write)

lemma appends_writeVarIntNum [appends_intros]:
  "n < 2 ^ 64 \<Longrightarrow> appends (writeVarIntNum (int n)) (compact_size n)"
  unfolding writeVarIntNum_def by (rule appends_lift[OF varIntNum_compact appends_write])

subsection \<open>The contract of a field\<close>

text \<open>\<open>for (let i = 0; i < n; i++) items.push(read(...))\<close>, the loop of every list parser.\<close>

fun rd_times :: "nat \<Rightarrow> 'a rd \<Rightarrow> 'a list rd" where
  "rd_times 0 m = ret []"
| "rd_times (Suc n) m = bnd m (\<lambda>x. bnd (rd_times n m) (\<lambda>xs. ret (x # xs)))"

lemma keeps_rd_times [keeps_intros]:
  "keeps (within bs k) m \<Longrightarrow> keeps (within bs k) (rd_times n m)"
  by (induction n) (auto intro!: keeps_intros)

lemma consumes_rd_times:
  assumes "consumes m P"
  shows "consumes (rd_times n m)
    (\<lambda>xs bs. length xs = n \<and> (\<exists>bss. list_all2 P xs bss \<and> bs = concat bss))"
proof (induction n)
  case 0
  show ?case
    unfolding rd_times.simps by (rule consumes_weaken[OF consumes_ret]) auto
next
  case (Suc n)
  show ?case
    unfolding rd_times.simps
  proof (rule consumes_weaken, rule consumes_bnd[OF assms], rule consumes_bnd[OF Suc], rule consumes_ret)
    fix ys bs
    assume "\<exists>x as bs'. P x as \<and> (\<exists>xs as' bs''. (length xs = n \<and> (\<exists>bss. list_all2 P xs bss \<and> as' = concat bss))
      \<and> (ys = x # xs \<and> bs'' = []) \<and> bs' = as' @ bs'') \<and> bs = as @ bs'"
    then obtain x as xs bss where "P x as" "length xs = n" "list_all2 P xs bss" "ys = x # xs"
      "bs = concat (as # bss)"
      by auto
    then show "length ys = Suc n \<and> (\<exists>bss. list_all2 P ys bss \<and> bs = concat bss)"
      by (intro conjI exI[of _ "as # bss"]) simp_all
  qed
qed

locale field_codec =
  fixes put :: "'a \<Rightarrow> bytes"
    and getf :: "'a rd"
    and valid :: "'a \<Rightarrow> bool"
  assumes get_put: "valid x \<Longrightarrow> parses getf x (put x)"
begin

lemma get_put_list:
  "list_all valid xs \<Longrightarrow> parses (rd_times (length xs) getf) xs (concat (map put xs))"
proof (induction xs)
  case Nil
  show ?case
    unfolding list.size rd_times.simps list.map concat.simps by (rule parses_ret)
next
  case (Cons x xs)
  then have "valid x" and xs: "parses (rd_times (length xs) getf) xs (concat (map put xs))" by simp_all
  show ?case
    unfolding list.size add_0_right add_Suc_right rd_times.simps list.map concat.simps
    by (rule parses_bnd[OF get_put[OF \<open>valid x\<close>]]) (rule parses_bnd_ret[OF xs])
qed

lemma put_prefix_free:
  assumes "valid x" "valid y" and eq: "put x @ r = put y @ s"
    and len: "length (put x @ r) \<le> max_safe_integer"
  shows "x = y \<and> r = s"
proof -
  let ?r = "\<lparr>bin = put x @ r, pos = 0\<rparr>"
  have wf: "wf_reader ?r" using len by (simp add: wf_reader_def)
  have "getf ?r = (Inr x, advance (length (put x)) ?r)"
    by (rule parsesD[OF get_put[OF assms(1)] wf]) simp
  moreover have "getf ?r = (Inr y, advance (length (put y)) ?r)"
    by (rule parsesD[OF get_put[OF assms(2)] wf]) (simp add: eq)
  ultimately have "x = y" by simp
  with eq show ?thesis by simp
qed

lemma put_inject:
  "valid x \<Longrightarrow> valid y \<Longrightarrow> put x = put y \<Longrightarrow> length (put x) \<le> max_safe_integer \<Longrightarrow> x = y"
  using put_prefix_free[of x y "[]" "[]"] by simp

end

text \<open>A field with a writer method: what is written to a fresh writer reads back.\<close>

locale stream_codec = field_codec +
  fixes writef :: "'a \<Rightarrow> wr"
  assumes write_put: "valid x \<Longrightarrow> appends (writef x) (put x)"
begin

lemma write_then_read:
  assumes "valid x" "length (put x) \<le> max_safe_integer" "writef x (new_writer []) = (res, w)"
  shows "res = Inr () \<and> getf \<lparr>bin = wr_toArray w, pos = 0\<rparr>
       = (Inr x, \<lparr>bin = wr_toArray w, pos = length (wr_toArray w)\<rparr>)"
proof -
  have w: "res = Inr ()" "wr_toArray w = put x"
    using appends_new[OF write_put[OF assms(1)] assms(3)] by simp_all
  have "wf_reader \<lparr>bin = put x, pos = 0\<rparr>" using assms(2) by (simp add: wf_reader_def)
  from parsesD[OF get_put[OF assms(1)] this, of "[]"] w show ?thesis
    by (simp add: advance_def)
qed

fun write_all :: "'a list \<Rightarrow> wr" where
  "write_all [] = ret ()"
| "write_all (x # xs) = thn (writef x) (write_all xs)"

lemma write_all_put: "list_all valid xs \<Longrightarrow> appends (write_all xs) (concat (map put xs))"
  by (induction xs) (auto intro!: appends_intros write_put)

end

text \<open>The methods of \<open>Writer\<close> and \<open>Reader\<close> are codecs of their ranges.\<close>

interpretation u16: stream_codec "\<lambda>n. le_bytes 2 (nat n)" readUInt16LE "\<lambda>n. 0 \<le> n \<and> n < 2 ^ 16"
  writeUInt16LE
proof
  fix n :: int
  assume n: "0 \<le> n \<and> n < 2 ^ 16"
  then show "parses readUInt16LE n (le_bytes 2 (nat n))"
    using parses_u16LE[of "nat n"] by (simp add: nat_less_iff)
  show "appends (writeUInt16LE n) (le_bytes 2 (nat n))"
    using appends_writeUInt16LE[of "nat n"] n by simp
qed

interpretation u32: stream_codec "\<lambda>n. le_bytes 4 (nat n)" readUInt32LE "\<lambda>n. 0 \<le> n \<and> n < 2 ^ 32"
  writeUInt32LE
proof
  fix n :: int
  assume n: "0 \<le> n \<and> n < 2 ^ 32"
  then show "parses readUInt32LE n (le_bytes 4 (nat n))"
    using parses_u32LE[of "nat n"] by (simp add: nat_less_iff)
  show "appends (writeUInt32LE n) (le_bytes 4 (nat n))"
    using appends_writeUInt32LE[of "nat n"] n by simp
qed

interpretation varint: stream_codec "\<lambda>n. compact_size (nat n)" "readVarIntNum sgnd"
  "\<lambda>n. 0 \<le> n \<and> n \<le> int max_safe_integer" writeVarIntNum for sgnd
proof
  fix n :: int
  assume n: "0 \<le> n \<and> n \<le> int max_safe_integer"
  then show "parses (readVarIntNum sgnd) n (compact_size (nat n))"
    using parses_readVarIntNum[of "nat n" sgnd] by (simp add: nat_le_iff)
  show "appends (writeVarIntNum n) (compact_size (nat n))"
    using appends_writeVarIntNum[of "nat n"] n by (simp add: nat_less_iff)
qed

interpretation strict_varint: stream_codec "\<lambda>n. compact_size (nat n)" "readVarIntNumStrict sgnd"
  "\<lambda>n. 0 \<le> n \<and> n \<le> int max_safe_integer" writeVarIntNum for sgnd
proof
  fix n :: int
  assume n: "0 \<le> n \<and> n \<le> int max_safe_integer"
  then show "parses (readVarIntNumStrict sgnd) n (compact_size (nat n))"
    using parses_readVarIntNumStrict[of "nat n" sgnd] by (simp add: nat_le_iff)
  show "appends (writeVarIntNum n) (compact_size (nat n))"
    by (rule varint.write_put[OF n])
qed

interpretation u64bn: stream_codec "\<lambda>b. le_bytes 8 (magnitude b)" readUInt64LEBn
  "\<lambda>b. \<not> is_negative b \<and> magnitude b < 2 ^ 64" writeUInt64LEBn
proof
  fix b :: big_number
  assume b: "\<not> is_negative b \<and> magnitude b < 2 ^ 64"
  then have "initializeState (magnitude b) False = b" by (cases b) (simp add: initializeState_def)
  then show "parses readUInt64LEBn b (le_bytes 8 (magnitude b))"
    using parses_u64LEBn[of "magnitude b"] b by simp
  show "appends (writeUInt64LEBn b) (le_bytes 8 (magnitude b))"
    using b by (intro appends_writeUInt64LEBn) simp
qed

text \<open>A byte string with its length in front, as scripts are stored.\<close>

definition readVarBytes :: "bool \<Rightarrow> bytes rd" where
  "readVarBytes sgnd = bnd (readVarIntNum sgnd) rd_read"

definition writeVarBytes :: "bytes \<Rightarrow> wr" where
  "writeVarBytes bs = thn (writeVarIntNum (int (length bs))) (wr_write bs)"

interpretation var_bytes: stream_codec "\<lambda>bs. compact_size (length bs) @ bs" "readVarBytes sgnd"
  "\<lambda>bs. length bs \<le> max_safe_integer" writeVarBytes for sgnd
proof
  fix bs :: bytes
  assume len: "length bs \<le> max_safe_integer"
  show "parses (readVarBytes sgnd) bs (compact_size (length bs) @ bs)"
    unfolding readVarBytes_def
    by (rule parses_bnd[OF parses_readVarIntNum[OF len] parses_read]) simp
  show "appends (writeVarBytes bs) (compact_size (length bs) @ bs)"
    unfolding writeVarBytes_def using len by (intro appends_intros) simp
qed

text \<open>
  A parser that accepts nothing but the encodings it inverts: a successful read has consumed
  the encoding of the valid value it returns.
\<close>

locale canonical_codec = field_codec +
  assumes get_only: "consumes getf (\<lambda>x bs. valid x \<and> bs = put x)"
begin

lemma list_all2_put:
  "list_all2 (\<lambda>x bs. valid x \<and> bs = put x) xs bss \<Longrightarrow> list_all valid xs \<and> bss = map put xs"
  by (induction rule: list_all2_induct) simp_all

lemma get_only_list:
  "consumes (rd_times n getf) (\<lambda>xs bs. length xs = n \<and> list_all valid xs \<and> bs = concat (map put xs))"
  by (rule consumes_weaken[OF consumes_rd_times[OF get_only]]) (auto dest!: list_all2_put)

lemma get_iff:
  assumes "wf_reader r"
  shows "getf r = (Inr x, t) \<longleftrightarrow>
    valid x \<and> (\<exists>rest. drop (pos r) (bin r) = put x @ rest) \<and> t = advance (length (put x)) r"
proof
  assume "getf r = (Inr x, t)"
  then show "valid x \<and> (\<exists>rest. drop (pos r) (bin r) = put x @ rest) \<and> t = advance (length (put x)) r"
    using consumesD[OF get_only assms] by blast
next
  assume "valid x \<and> (\<exists>rest. drop (pos r) (bin r) = put x @ rest) \<and> t = advance (length (put x)) r"
  then show "getf r = (Inr x, t)" using parsesD[OF get_put assms] by blast
qed

end

interpretation u32_exact: canonical_codec "\<lambda>n. le_bytes 4 (nat n)" readUInt32LE "\<lambda>n. 0 \<le> n \<and> n < 2 ^ 32"
  by unfold_locales (rule consumes_weaken[OF consumes_u32LE], auto)

interpretation u64bn_exact: canonical_codec "\<lambda>b. le_bytes 8 (magnitude b)" readUInt64LEBn
  "\<lambda>b. \<not> is_negative b \<and> magnitude b < 2 ^ 64"
  by unfold_locales (rule consumes_weaken[OF consumes_u64LEBn], auto simp: initializeState_def)

lemma canonical_read_unsigned:
  "canonical_read False n bs \<Longrightarrow> 0 \<le> n \<and> n \<le> int max_safe_integer \<and> bs = compact_size (nat n)"
  using varIntNum_compact[of "nat n"] by (auto simp: canonical_read_def)

interpretation length_exact: canonical_codec "\<lambda>n. compact_size (nat n)" "readVarIntNumStrict False"
  "\<lambda>n. 0 \<le> n \<and> n \<le> int max_safe_integer"
  by unfold_locales (rule consumes_weaken[OF consumes_readVarIntNumStrict], auto dest: canonical_read_unsigned)

subsection \<open>Properties\<close>

text \<open>A safe integer written by \<open>writeVarIntNum\<close> to a fresh writer is read back, together with
  the end of the buffer, by the lenient and by the strict reader, signed or not.\<close>

theorem varint_write_read:
  assumes "0 \<le> n" "n \<le> int max_safe_integer" "writeVarIntNum n (new_writer []) = (res, w)"
  shows "res = Inr ()
    \<and> readVarIntNum sgnd \<lparr>bin = wr_toArray w, pos = 0\<rparr> = (Inr n, \<lparr>bin = wr_toArray w, pos = length (wr_toArray w)\<rparr>)
    \<and> readVarIntNumStrict sgnd \<lparr>bin = wr_toArray w, pos = 0\<rparr>
      = (Inr n, \<lparr>bin = wr_toArray w, pos = length (wr_toArray w)\<rparr>)"
proof -
  have "length (compact_size (nat n)) \<le> max_safe_integer" by (simp add: compact_size_def)
  with assms show ?thesis
    using varint.write_then_read[of n res w sgnd] strict_varint.write_then_read[of n res w sgnd] by simp
qed

lemma varint_write_read_witness:
  "\<exists>w. writeVarIntNum 300 (new_writer []) = (Inr (), w)
     \<and> fst (readVarIntNumStrict True \<lparr>bin = wr_toArray w, pos = 0\<rparr>) = Inr 300"
proof -
  obtain res w where w: "writeVarIntNum 300 (new_writer []) = (res, w)" by (cases "writeVarIntNum 300 (new_writer [])")
  with varint_write_read[of 300 res w True] show ?thesis by simp
qed

text \<open>C39: The strict unsigned reader accepts exactly the shortest encodings of safe integers: it
  returns \<open>n\<close> and the reader \<open>t\<close> if and only if the bytes at its position begin with the compact
  size of \<open>n\<close> and \<open>t\<close> stands after them.\<close>

theorem strict_varint_exact:
  assumes "wf_reader r"
  shows "readVarIntNumStrict False r = (Inr n, t) \<longleftrightarrow>
    0 \<le> n \<and> n \<le> int max_safe_integer
    \<and> (\<exists>rest. drop (pos r) (bin r) = compact_size (nat n) @ rest)
    \<and> t = advance (length (compact_size (nat n))) r"
  using length_exact.get_iff[OF assms, of n t] by simp

lemma strict_varint_exact_witness:
  "wf_reader \<lparr>bin = [0xfd, 0x05, 0x00], pos = 0\<rparr>
   \<and> \<not> (\<exists>t. readVarIntNumStrict False \<lparr>bin = [0xfd, 0x05, 0x00], pos = 0\<rparr> = (Inr 5, t))"
proof -
  have wf: "wf_reader \<lparr>bin = [0xfd, 0x05, 0x00], pos = 0\<rparr>" by (simp add: wf_reader_def)
  with strict_varint_exact[OF wf, of 5] show ?thesis by (auto simp: compact_size_def)
qed

end
