(* ===== verification/Writer_Uint8.thy ===== *)
theory Writer_Uint8
  imports Reader_Writer
begin

text \<open>
  The growing byte buffer of \<open>packages/sdk/src/primitives/WriterUint8Array.ts\<close>: the backing
  array, the write position and the capacity. The refinement lemmas show that every method
  appends to the written bytes (\<open>wb_bytes\<close>, the abstraction function) exactly what the
  chunk-list \<open>Writer\<close> appends, keeps the buffer invariant, and that growing terminates.
\<close>

subsection \<open>The buffer\<close>

record wbuf =
  wb_buffer :: bytes
  wb_pos :: nat
  wb_capacity :: nat

type_synonym wb = "(wbuf, js_error, unit) action"

text \<open>
  The doubling loop of \<open>ensureCapacity\<close>. It would not end on a capacity of 0, which the
  constructor excludes (\<open>Math.max(1, ...)\<close>) and \<open>wf_wbuf\<close> keeps excluded; the model stops there.
\<close>

function grow_capacity :: "nat \<Rightarrow> nat \<Rightarrow> nat" where
  "grow_capacity needed c = (if c \<noteq> 0 \<and> needed > c then grow_capacity needed (c * 2) else c)"
  by pat_completeness auto
termination
  by (relation "measure (\<lambda>(needed, c). needed - c)") auto

declare grow_capacity.simps [simp del]

definition ensureCapacity :: "nat \<Rightarrow> wb" where
  "ensureCapacity needed = modify (\<lambda>w.
     if wb_pos w + needed > wb_capacity w
     then let c = grow_capacity (wb_pos w + needed) (wb_capacity w * 2)
          in w\<lparr>wb_buffer := wb_buffer w @ replicate (c - length (wb_buffer w)) 0, wb_capacity := c\<rparr>
     else w)"

text \<open>\<open>buffer[pos + i] = bytes[i]\<close> and the move of the position behind them.\<close>

definition put_bytes :: "bytes \<Rightarrow> wb" where
  "put_bytes bs = modify (\<lambda>w.
     w\<lparr>wb_buffer := take (wb_pos w) (wb_buffer w) @ bs @ drop (wb_pos w + length bs) (wb_buffer w),
       wb_pos := wb_pos w + length bs\<rparr>)"

definition wb_write :: "bytes \<Rightarrow> wb" where
  "wb_write bs = thn (ensureCapacity (length bs)) (put_bytes bs)"

fun wb_write_all :: "bytes list \<Rightarrow> wb" where
  "wb_write_all [] = ret ()"
| "wb_write_all (b # bs) = thn (wb_write b) (wb_write_all bs)"

definition new_wbuf :: "bytes list \<Rightarrow> int \<Rightarrow> js_error + wbuf" where
  "new_wbuf bss initialCapacity =
     (if \<bar>initialCapacity\<bar> > int max_safe_integer \<or> initialCapacity < 0
      then Inl (JsRangeError ''WriterUint8Array initial capacity must be a non-negative safe integer'')
      else
        let c0 = (if bss \<noteq> [] then max (nat initialCapacity) (foldl (\<lambda>n b. n + length b) 0 bss)
                  else nat initialCapacity);
            c = max 1 c0
        in case wb_write_all bss \<lparr>wb_buffer = replicate c 0, wb_pos = 0, wb_capacity = c\<rparr> of
             (Inl e, w) \<Rightarrow> Inl e | (Inr u, w) \<Rightarrow> Inr w)"

definition wb_getLength :: "wbuf \<Rightarrow> nat" where
  "wb_getLength w = wb_pos w"

definition wb_toUint8Array :: "wbuf \<Rightarrow> bytes" where
  "wb_toUint8Array w = take (wb_pos w) (wb_buffer w)"

definition wb_reserve :: "int \<Rightarrow> wb" where
  "wb_reserve n =
     (if \<bar>n\<bar> > int max_safe_integer \<or> n < 0
      then throw (JsRangeError ''WriterUint8Array reserve requires a non-negative safe integer'')
      else ensureCapacity (nat n))"

text \<open>\<open>writeReverse\<close> stores from the last byte of the argument to its first.\<close>

definition wb_writeReverse :: "bytes \<Rightarrow> wb" where
  "wb_writeReverse bs = thn (ensureCapacity (length bs)) (put_bytes (rev bs))"

definition wb_writeUInt8 :: "int \<Rightarrow> wb" where
  "wb_writeUInt8 n = thn (ensureCapacity 1) (put_bytes [js_byte n 0])"

definition wb_writeUInt16LE :: "int \<Rightarrow> wb" where
  "wb_writeUInt16LE n = thn (ensureCapacity 2) (put_bytes [js_byte n 0, js_byte n 8])"

definition wb_writeUInt16BE :: "int \<Rightarrow> wb" where
  "wb_writeUInt16BE n = thn (ensureCapacity 2) (put_bytes [js_byte n 8, js_byte n 0])"

definition wb_writeInt16LE :: "int \<Rightarrow> wb" where
  "wb_writeInt16LE n = wb_writeUInt16LE (uint (and (word_of_int n :: 32 word) 0xffff))"

definition wb_writeInt16BE :: "int \<Rightarrow> wb" where
  "wb_writeInt16BE n = wb_writeUInt16BE (uint (and (word_of_int n :: 32 word) 0xffff))"

definition wb_writeUInt32LE :: "int \<Rightarrow> wb" where
  "wb_writeUInt32LE n =
     thn (ensureCapacity 4) (put_bytes [js_byte n 0, js_byte n 8, js_byte n 16, js_byte n 24])"

definition wb_writeUInt32BE :: "int \<Rightarrow> wb" where
  "wb_writeUInt32BE n =
     thn (ensureCapacity 4) (put_bytes [js_byte n 24, js_byte n 16, js_byte n 8, js_byte n 0])"

definition wb_writeInt32LE :: "int \<Rightarrow> wb" where
  "wb_writeInt32LE n = wb_writeUInt32LE (uint (word_of_int n :: 32 word))"

definition wb_writeInt32BE :: "int \<Rightarrow> wb" where
  "wb_writeInt32BE n = wb_writeUInt32BE (uint (word_of_int n :: 32 word))"

definition wb_writeUInt64BEBn :: "big_number \<Rightarrow> wb" where
  "wb_writeUInt64BEBn bn = bnd (lift_result (bn_toArray False (Some 8) bn)) wb_write"

definition wb_writeUInt64LEBn :: "big_number \<Rightarrow> wb" where
  "wb_writeUInt64LEBn bn = bnd (lift_result (bn_toArray False (Some 8) bn)) wb_writeReverse"

definition wb_writeUInt64LE :: "int \<Rightarrow> wb" where
  "wb_writeUInt64LE n = bnd (lift_result (bn_of_number n)) (\<lambda>bn.
     bnd (lift_result (bn_toArray False (Some 8) bn)) wb_writeReverse)"

definition wb_writeVarIntNum :: "int \<Rightarrow> wb" where
  "wb_writeVarIntNum n = bnd (lift_result (varIntNum n)) wb_write"

definition wb_writeVarIntBn :: "big_number \<Rightarrow> wb" where
  "wb_writeVarIntBn bn = bnd (lift_result (varIntBn bn)) wb_write"

definition wb_reset :: wb where
  "wb_reset = modify (\<lambda>w. w\<lparr>wb_pos := 0\<rparr>)"

subsection \<open>Invariant and abstraction\<close>

definition wf_wbuf :: "wbuf \<Rightarrow> bool" where
  "wf_wbuf w \<longleftrightarrow> wb_pos w \<le> wb_capacity w \<and> length (wb_buffer w) = wb_capacity w \<and> 0 < wb_capacity w"

abbreviation wb_bytes :: "wbuf \<Rightarrow> bytes" where
  "wb_bytes \<equiv> wb_toUint8Array"

lemma grow_capacity_ge: "0 < c \<Longrightarrow> needed \<le> grow_capacity needed c \<and> c \<le> grow_capacity needed c"
proof (induction needed c rule: grow_capacity.induct)
  case (1 needed c)
  show ?case
  proof (cases "needed > c")
    case True
    have "needed \<le> grow_capacity needed (c * 2) \<and> c * 2 \<le> grow_capacity needed (c * 2)"
      using "1.IH" "1.prems" True by simp
    then show ?thesis using True "1.prems" by (simp add: grow_capacity.simps [of needed c])
  next
    case False
    then show ?thesis by (simp add: grow_capacity.simps [of needed c])
  qed
qed

text \<open>The capacity stays within a factor of two of what was asked for.\<close>

lemma grow_capacity_lt: "c \<le> 2 * needed \<Longrightarrow> 0 < needed \<Longrightarrow> grow_capacity needed c \<le> 2 * needed"
proof (induction needed c rule: grow_capacity.induct)
  case (1 needed c)
  then show ?case by (cases "c \<noteq> 0 \<and> needed > c") (simp_all add: grow_capacity.simps [of needed c])
qed

lemma ensureCapacity_spec:
  assumes "wf_wbuf w"
  obtains v where "ensureCapacity n w = (Inr (), v)" "wf_wbuf v" "wb_bytes v = wb_bytes w"
    "wb_pos v = wb_pos w" "wb_pos v + n \<le> wb_capacity v"
proof (cases "wb_pos w + n > wb_capacity w")
  case True
  let ?c = "grow_capacity (wb_pos w + n) (wb_capacity w * 2)"
  have c: "wb_pos w + n \<le> ?c" "wb_capacity w * 2 \<le> ?c"
    using grow_capacity_ge[of "wb_capacity w * 2" "wb_pos w + n"] assms by (auto simp: wf_wbuf_def)
  let ?v = "w\<lparr>wb_buffer := wb_buffer w @ replicate (?c - length (wb_buffer w)) 0, wb_capacity := ?c\<rparr>"
  have "ensureCapacity n w = (Inr (), ?v)" using True by (simp add: ensureCapacity_def Let_def)
  moreover have "wf_wbuf ?v" "wb_bytes ?v = wb_bytes w" "wb_pos ?v + n \<le> wb_capacity ?v"
    using assms c by (auto simp: wf_wbuf_def wb_toUint8Array_def)
  ultimately show ?thesis using that[of ?v] by simp
next
  case False
  then show ?thesis using that[of w] assms by (simp add: ensureCapacity_def)
qed

definition wb_appends :: "wb \<Rightarrow> bytes \<Rightarrow> bool" where
  "wb_appends m bs \<longleftrightarrow> (\<forall>w. wf_wbuf w \<longrightarrow>
     (\<exists>w'. m w = (Inr (), w') \<and> wf_wbuf w' \<and> wb_bytes w' = wb_bytes w @ bs))"

lemma wb_appends_put: "n = length bs \<Longrightarrow> wb_appends (thn (ensureCapacity n) (put_bytes bs)) bs"
  unfolding wb_appends_def
proof (intro allI impI)
  fix w
  assume n: "n = length bs" and w: "wf_wbuf w"
  obtain v where v: "ensureCapacity n w = (Inr (), v)" "wf_wbuf v" "wb_bytes v = wb_bytes w"
    "wb_pos v = wb_pos w" "wb_pos v + n \<le> wb_capacity v"
    by (rule ensureCapacity_spec[OF w])
  let ?u = "snd (put_bytes bs v)"
  have "thn (ensureCapacity n) (put_bytes bs) w = (Inr (), ?u)"
    using v(1) by (simp add: put_bytes_def)
  moreover have "wf_wbuf ?u" "wb_bytes ?u = wb_bytes v @ bs"
    using v(2,5) n by (auto simp: put_bytes_def wf_wbuf_def wb_toUint8Array_def min_absorb2)
  moreover have "wb_bytes v @ bs = wb_bytes w @ bs" by (simp only: v(3))
  ultimately show "\<exists>w'. thn (ensureCapacity n) (put_bytes bs) w = (Inr (), w')
      \<and> wf_wbuf w' \<and> wb_bytes w' = wb_bytes w @ bs" by metis
qed

lemma wb_appends_write: "wb_appends (wb_write bs) bs"
  unfolding wb_write_def by (rule wb_appends_put) simp

lemma wb_appends_ret: "wb_appends (ret ()) []"
  by (simp add: wb_appends_def)

lemma wb_appends_thn: "wb_appends m bs \<Longrightarrow> wb_appends n cs \<Longrightarrow> wb_appends (thn m n) (bs @ cs)"
  unfolding wb_appends_def by (metis append.assoc thn_ok)

lemma wb_appends_lift: "r = Inr x \<Longrightarrow> wb_appends (k x) bs \<Longrightarrow> wb_appends (bnd (lift_result r) k) bs"
  by (simp add: wb_appends_def bnd_def)

lemma wb_appends_write_all: "wb_appends (wb_write_all bss) (concat bss)"
proof (induction bss)
  case Nil
  show ?case unfolding wb_write_all.simps concat.simps by (rule wb_appends_ret)
next
  case (Cons bs bss)
  then show ?case by (simp add: wb_appends_thn wb_appends_write)
qed

lemma wb_appends_writeReverse: "wb_appends (wb_writeReverse bs) (rev bs)"
  unfolding wb_writeReverse_def by (rule wb_appends_put) simp

text \<open>
  The refinement: a method of the buffer and the corresponding method of \<open>Writer\<close> fail with
  the same error or append the same bytes. \<open>same_effect\<close> states it for a pair of methods.
\<close>

definition same_effect :: "wb \<Rightarrow> wr \<Rightarrow> bool" where
  "same_effect m n \<longleftrightarrow>
     (\<exists>bs. wb_appends m bs \<and> appends n bs)
     \<or> (\<exists>e. (\<forall>w. m w = (Inl e, w)) \<and> (\<forall>w. n w = (Inl e, w)))"

lemma same_effect_appends: "wb_appends m bs \<Longrightarrow> appends n bs \<Longrightarrow> same_effect m n"
  by (auto simp: same_effect_def)

lemma same_effect_lift:
  assumes "\<And>x. r = Inr x \<Longrightarrow> same_effect (k x) (l x)"
  shows "same_effect (bnd (lift_result r) k) (bnd (lift_result r) l)"
proof (cases r)
  case (Inl e)
  then show ?thesis by (auto simp: same_effect_def bnd_def)
next
  case (Inr x)
  then have "bnd (lift_result r) k = k x" "bnd (lift_result r) l = l x" by (auto simp: bnd_def)
  then show ?thesis using assms[OF Inr] by simp
qed

lemma same_effect_write: "same_effect (wb_write bs) (wr_write bs)"
  by (rule same_effect_appends[OF wb_appends_write appends_write])

lemma same_effect_writeReverse: "same_effect (wb_writeReverse bs) (writeReverse bs)"
  by (rule same_effect_appends[OF wb_appends_writeReverse appends_writeReverse])

lemma same_effect_put: "n = length bs \<Longrightarrow> same_effect (thn (ensureCapacity n) (put_bytes bs)) (wr_write bs)"
  by (rule same_effect_appends[OF wb_appends_put appends_write])

lemma same_effect_fixed:
  "same_effect (wb_writeUInt8 n) (writeUInt8 n)"
  "same_effect (wb_writeUInt16LE n) (writeUInt16LE n)"
  "same_effect (wb_writeUInt16BE n) (writeUInt16BE n)"
  "same_effect (wb_writeUInt32LE n) (writeUInt32LE n)"
  "same_effect (wb_writeUInt32BE n) (writeUInt32BE n)"
  unfolding wb_writeUInt8_def writeUInt8_def wb_writeUInt16LE_def writeUInt16LE_def
    wb_writeUInt16BE_def writeUInt16BE_def wb_writeUInt32LE_def writeUInt32LE_def
    wb_writeUInt32BE_def writeUInt32BE_def
  by (rule same_effect_put, simp)+

lemma same_effect_signed:
  "same_effect (wb_writeInt16LE n) (writeInt16LE n)"
  "same_effect (wb_writeInt16BE n) (writeInt16BE n)"
  "same_effect (wb_writeInt32LE n) (writeInt32LE n)"
  "same_effect (wb_writeInt32BE n) (writeInt32BE n)"
  by (simp_all add: same_effect_fixed wb_writeInt16LE_def writeInt16LE_def wb_writeInt16BE_def
      writeInt16BE_def wb_writeInt32LE_def writeInt32LE_def wb_writeInt32BE_def writeInt32BE_def)

lemma same_effect_64:
  "same_effect (wb_writeUInt64BEBn bn) (writeUInt64BEBn bn)"
  "same_effect (wb_writeUInt64LEBn bn) (writeUInt64LEBn bn)"
  unfolding wb_writeUInt64BEBn_def writeUInt64BEBn_def wb_writeUInt64LEBn_def writeUInt64LEBn_def
  by (rule same_effect_lift, rule same_effect_write same_effect_writeReverse)+

lemma same_effect_varint:
  "same_effect (wb_writeVarIntNum n) (writeVarIntNum n)"
  "same_effect (wb_writeVarIntBn bn) (writeVarIntBn bn)"
  unfolding wb_writeVarIntNum_def writeVarIntNum_def wb_writeVarIntBn_def writeVarIntBn_def
  by (rule same_effect_lift, rule same_effect_write)+

lemma same_effect_writeUInt64LE: "n \<noteq> -1 \<Longrightarrow> same_effect (wb_writeUInt64LE n) (writeUInt64LE n)"
  unfolding wb_writeUInt64LE_def writeUInt64LE_def
  by (simp, intro same_effect_lift same_effect_writeReverse)

text \<open>On \<open>-1\<close> the two writers disagree: the buffer drops the sign.\<close>

lemma bn_of_minus_one: "bn_of_number (- 1) = Inr (initializeState 1 True)"
  by (simp add: bn_of_number_def)

lemma writeUInt64LE_minus_one:
  "wb_appends (wb_writeUInt64LE (- 1)) (le_bytes 8 1)"
proof -
  have "bn_toArray False (Some 8) (initializeState 1 True) = Inr (rev (le_bytes 8 1))"
    using bn_toArray_be_8[of "initializeState 1 True"] by (simp add: initializeState_def)
  then show ?thesis
    unfolding wb_writeUInt64LE_def
    using wb_appends_writeReverse[of "rev (le_bytes 8 1)"]
    by (intro wb_appends_lift[OF bn_of_minus_one] wb_appends_lift) (simp_all only: rev_rev_ident)
qed

subsection \<open>Properties\<close>


text \<open>On \<open>writeUInt64LE(-1)\<close> the two writers part: \<open>Writer\<close> appends eight bytes \<open>0xff\<close>, the growable
  buffer the encoding of 1.\<close>

theorem writeUInt64LE_diverges:
  "appends (writeUInt64LE (- 1)) (replicate 8 0xff) \<and> wb_appends (wb_writeUInt64LE (- 1)) (le_bytes 8 1)"
  using appends_writeUInt64LE_minus_one writeUInt64LE_minus_one by simp

end
