(* ===== verification/Utils_Encoding.thy ===== *)
theory Utils_Encoding
  imports Reader_Writer
begin

text \<open>
  The text encodings of byte arrays in \<open>packages/sdk/src/primitives/utils.ts\<close> and
  \<open>hex.ts\<close>: hexadecimal, base64, base58 and base58check, with their error paths. Strings are
  lists of 8-bit characters. The lemmas show that every decoder inverts its encoder, and
  what the encoders do to the value of the byte array.
\<close>

subsection \<open>Hexadecimal\<close>

definition HEX_DIGITS :: string where
  "HEX_DIGITS = ''0123456789abcdef''"

definition hex_byte :: "byte \<Rightarrow> string" where
  "hex_byte b = [HEX_DIGITS ! unat (and (drop_bit 4 b) 0xf), HEX_DIGITS ! unat (and b 0xf)]"

definition toHex :: "bytes \<Rightarrow> string" where
  "toHex msg = concat (map hex_byte msg)"

definition zero2 :: "string \<Rightarrow> string" where
  "zero2 w = (if length w mod 2 = 1 then CHR ''0'' # w else w)"

text \<open>The lookup table \<open>HEX_CHAR_TO_VALUE\<close>; \<open>-1\<close> marks every other character.\<close>

definition hex_char_value :: "char \<Rightarrow> int" where
  "hex_char_value c =
     (let n = of_char c :: int
      in if 48 \<le> n \<and> n < 58 then n - 48
         else if 65 \<le> n \<and> n < 71 then 10 + (n - 65)
         else if 97 \<le> n \<and> n < 103 then 10 + (n - 97) else - 1)"

definition is_hex_char :: "char \<Rightarrow> bool" where
  "is_hex_char c \<longleftrightarrow>
     (let n = of_char c :: nat
      in (48 \<le> n \<and> n \<le> 57) \<or> (97 \<le> n \<and> n \<le> 102) \<or> (65 \<le> n \<and> n \<le> 70))"

definition assertValidHex :: "string \<Rightarrow> js_error + unit" where
  "assertValidHex msg =
     (if length msg = 0 then Inr ()
      else if \<not> list_all is_hex_char msg then Inl (JsError ''Invalid hex string'')
      else Inr ())"

definition lower_char :: "char \<Rightarrow> char" where
  "lower_char c =
     (let n = of_char c :: nat in if 65 \<le> n \<and> n \<le> 90 then char_of (n + 32) else c)"

definition normalizeHex :: "string \<Rightarrow> js_error + string" where
  "normalizeHex msg =
     (case assertValidHex msg of Inl e \<Rightarrow> Inl e
      | Inr _ \<Rightarrow>
          if length msg = 0 then Inr []
          else let normalized = map lower_char msg
               in Inr (if length normalized mod 2 \<noteq> 0 then CHR ''0'' # normalized else normalized))"

fun hex_pairs :: "string \<Rightarrow> bytes" where
  "hex_pairs (a # b # rest) =
     or (push_bit 4 (word_of_int (hex_char_value a))) (word_of_int (hex_char_value b)) # hex_pairs rest"
| "hex_pairs _ = []"

definition hexToUint8Array :: "string \<Rightarrow> js_error + bytes" where
  "hexToUint8Array msg =
     (case assertValidHex msg of Inl e \<Rightarrow> Inl e
      | Inr _ \<Rightarrow> Inr (hex_pairs (if length msg mod 2 = 0 then msg else CHR ''0'' # msg)))"

definition hexToArray :: "string \<Rightarrow> js_error + bytes" where
  "hexToArray msg = hexToUint8Array msg"

subsection \<open>Base64\<close>

definition base64Chars :: string where
  "base64Chars = ''ABCDEFGHIJKLMNOPQRSTUVWXYZabcdefghijklmnopqrstuvwxyz0123456789+/''"

definition b64_char :: "byte \<Rightarrow> char" where
  "b64_char v = base64Chars ! unat v"

text \<open>One round of the loop takes up to three bytes; a missing byte reads as 0.\<close>

fun toBase64 :: "bytes \<Rightarrow> string" where
  "toBase64 [] = []"
| "toBase64 [b1] =
     [b64_char (drop_bit 2 b1), b64_char (or (push_bit 4 (and b1 0x03)) (drop_bit 4 0)),
      CHR ''='', CHR ''='']"
| "toBase64 [b1, b2] =
     [b64_char (drop_bit 2 b1), b64_char (or (push_bit 4 (and b1 0x03)) (drop_bit 4 b2)),
      b64_char (or (push_bit 2 (and b2 0x0f)) (drop_bit 6 0)), CHR ''='']"
| "toBase64 (b1 # b2 # b3 # bs) =
     [b64_char (drop_bit 2 b1), b64_char (or (push_bit 4 (and b1 0x03)) (drop_bit 4 b2)),
      b64_char (or (push_bit 2 (and b2 0x0f)) (drop_bit 6 b3)), b64_char (and b3 0x3f)]
     @ toBase64 bs"

text \<open>\<open>trim()\<close> on 8-bit characters and the class \<open>[\r\n\t\f\v ]\<close>.\<close>

definition js_trim_char :: "char \<Rightarrow> bool" where
  "js_trim_char c \<longleftrightarrow> (let n = of_char c :: nat in (9 \<le> n \<and> n \<le> 13) \<or> n = 32 \<or> n = 160)"

definition js_trim :: "string \<Rightarrow> string" where
  "js_trim s = rev (dropWhile js_trim_char (rev (dropWhile js_trim_char s)))"

definition b64_space :: "char \<Rightarrow> bool" where
  "b64_space c \<longleftrightarrow> (let n = of_char c :: nat in (9 \<le> n \<and> n \<le> 13) \<or> n = 32)"

definition normalizeBase64 :: "string \<Rightarrow> js_error + string" where
  "normalizeBase64 msg =
     (let s = map (\<lambda>c. if c = CHR ''-'' then CHR ''+'' else if c = CHR ''_'' then CHR ''/'' else c)
                (filter (\<lambda>c. \<not> b64_space c) (js_trim msg));
          pad = dropWhile (\<lambda>c. c \<noteq> CHR ''='') s
      in if pad = [] then Inr s
         else if pad \<noteq> ''='' \<and> pad \<noteq> ''=='' then Inl (JsError ''Invalid base64 padding'')
         else Inr (takeWhile (\<lambda>c. c \<noteq> CHR ''='') s))"

definition base64CharacterValue :: "char \<Rightarrow> nat \<Rightarrow> js_error + nat" where
  "base64CharacterValue c index =
     (let n = of_char c :: nat
      in if n \<ge> 65 \<and> n \<le> 90 then Inr (n - 65)
         else if n \<ge> 97 \<and> n \<le> 122 then Inr (n - 97 + 26)
         else if n \<ge> 48 \<and> n \<le> 57 then Inr (n - 48 + 52)
         else if n = 43 then Inr 62
         else if n = 47 then Inr 63
         else Inl (JsError (''Invalid base64 character at index '' @ decimal (int index))))"

text \<open>
  The bit buffer holds fewer than eight pending bits, so the inner \<open>while\<close> loop runs at
  most once per character.
\<close>

fun base64_loop :: "nat \<Rightarrow> nat \<Rightarrow> nat \<Rightarrow> string \<Rightarrow> js_error + bytes" where
  "base64_loop i bitBuffer bitCount [] = Inr []"
| "base64_loop i bitBuffer bitCount (c # cs) =
     (case base64CharacterValue c i of Inl e \<Rightarrow> Inl e
      | Inr v \<Rightarrow>
          let buf = or (push_bit 6 bitBuffer) v; cnt = bitCount + 6
          in if cnt \<ge> 8
             then (let cnt' = cnt - 8
                   in case base64_loop (i + 1) (and buf (2 ^ cnt' - 1)) cnt' cs of Inl e \<Rightarrow> Inl e
                      | Inr bs \<Rightarrow> Inr (word_of_nat (and (drop_bit cnt' buf) 0xff) # bs))
             else base64_loop (i + 1) buf cnt cs)"

definition base64ToArray :: "string \<Rightarrow> js_error + bytes" where
  "base64ToArray msg =
     (case normalizeBase64 msg of Inl e \<Rightarrow> Inl e | Inr s \<Rightarrow> base64_loop 0 0 0 s)"

subsection \<open>Base58\<close>

definition base58chars :: string where
  "base58chars = ''123456789ABCDEFGHJKLMNPQRSTUVWXYZabcdefghijkmnopqrstuvwxyz''"

text \<open>\<open>base58Map\<close> and \<open>base58chars.indexOf\<close>: the position of a character, \<open>-1\<close> elsewhere.\<close>

fun index_of :: "char \<Rightarrow> string \<Rightarrow> nat \<Rightarrow> int" where
  "index_of c [] i = - 1"
| "index_of c (d # ds) i = (if c = d then int i else index_of c ds (i + 1))"

definition base58_index :: "char \<Rightarrow> int" where
  "base58_index c = index_of c base58chars 0"

definition base58_char :: "nat \<Rightarrow> char" where
  "base58_char d = base58chars ! d"

text \<open>
  \<open>toBase58\<close> keeps its digits as character codes, least significant first; one round
  multiplies them by 256 and adds the next byte.
\<close>

fun base58_carry :: "string \<Rightarrow> nat \<Rightarrow> string \<times> nat" where
  "base58_carry [] carry = ([], carry)"
| "base58_carry (c # cs) carry =
     (let x = 256 * nat (base58_index c) + carry;
          (ds, carry') = base58_carry cs (x div 58)
      in (base58_char (x mod 58) # ds, carry'))"

fun base58_push :: "nat \<Rightarrow> string" where
  "base58_push carry =
     (if carry \<noteq> 0 then base58_char (carry mod 58) # base58_push (carry div 58) else [])"

declare base58_push.simps [simp del]

definition base58_byte :: "string \<Rightarrow> byte \<Rightarrow> string" where
  "base58_byte result b =
     (let (ds, carry) = base58_carry result (unat b) in ds @ base58_push carry)"

definition toBase58 :: "bytes \<Rightarrow> string" where
  "toBase58 bs =
     rev (foldl base58_byte [] bs @ map (\<lambda>_. CHR ''1'') (takeWhile (\<lambda>b. b = 0) bs))"

text \<open>
  \<open>fromBase58\<close>: the accumulator is a little-endian byte array of a fixed size that each
  character multiplies by 58, dropping the carry out of the last byte. The size
  \<open>floor(n * ln 58 / ln 256 + 1)\<close> is the number of base-256 digits of \<open>58 ^ n\<close>, which is how it
  is computed here (in exact arithmetic).
\<close>

fun base58_mul :: "bytes \<Rightarrow> nat \<Rightarrow> bytes" where
  "base58_mul [] i = []"
| "base58_mul (j # js) i =
     (let x = unat j * 58 + i in word_of_nat x # base58_mul js (x div 256))"

definition base58_size :: "nat \<Rightarrow> nat" where
  "base58_size n = byte_count (58 ^ n)"

definition fromBase58 :: "string \<Rightarrow> js_error + bytes" where
  "fromBase58 str =
     (if str = [] then Inl (JsError ''Expected base58 string but got an empty string'')
      else
        let bad = filter (\<lambda>c. base58_index c = - 1) str;
            psz = length (takeWhile (\<lambda>c. c = CHR ''1'') str);
            size = base58_size (length str - psz)
        in if bad \<noteq> [] then Inl (JsError (''Invalid base58 character '' @ bad))
           else Inr (replicate psz 0 @
                     dropWhile (\<lambda>b. b = 0)
                       (rev (foldl (\<lambda>acc c. base58_mul acc (nat (base58_index c)))
                               (replicate size 0) str))))"

subsection \<open>Base58Check\<close>

text \<open>The double SHA-256 is a parameter here; \<open>Hash_Functions\<close> supplies it.\<close>

definition toBase58Check :: "(bytes \<Rightarrow> bytes) \<Rightarrow> bytes \<Rightarrow> bytes \<Rightarrow> string" where
  "toBase58Check hash256 bs prefix =
     (let hash = hash256 (prefix @ bs) in toBase58 (prefix @ bs @ take 4 hash))"

definition slice_end :: "nat \<Rightarrow> nat \<Rightarrow> 'a list \<Rightarrow> 'a list" where
  "slice_end a k xs = drop a (take (length xs - k) xs)"

definition last_n :: "nat \<Rightarrow> 'a list \<Rightarrow> 'a list" where
  "last_n k xs = drop (length xs - k) xs"

definition fromBase58Check ::
  "(bytes \<Rightarrow> bytes) \<Rightarrow> nat \<Rightarrow> string \<Rightarrow> js_error + (bytes \<times> bytes)" where
  "fromBase58Check hash256 prefixLength str =
     (case fromBase58 str of Inl e \<Rightarrow> Inl e
      | Inr bs \<Rightarrow>
          let prefix = take prefixLength bs;
              dat = slice_end prefixLength 4 bs;
              hash = hash256 (prefix @ dat);
              check = last_n 4 bs
          in if list_all (\<lambda>i. i < length hash \<and> check ! i = hash ! i) [0..<length check]
             then Inr (dat, prefix) else Inl (JsError ''Invalid checksum''))"

subsection \<open>Splitting and joining the bits of a byte\<close>

lemma unat_byte_drop: "unat (drop_bit k (b :: byte)) = unat b div 2 ^ k"
  by (simp add: unsigned_drop_bit_eq drop_bit_nat_def take_bit_nat_eq_self
      less_le_trans[OF unat_byte_lt])

lemma unat_byte_mask: "unat (and (b :: byte) (mask k)) = unat b mod 2 ^ k"
proof -
  have "and b (mask k) = take_bit k b" by (simp only: take_bit_eq_mask)
  then show ?thesis by (simp only: unsigned_take_bit_eq take_bit_nat_def)
qed

lemma byte_masks:
  "(0x03 :: byte) = mask 2" "(0x0f :: byte) = mask 4" "(0x3f :: byte) = mask 6"
  by (simp_all add: mask_eq_exp_minus_1)

lemma unat_byte_or_push:
  assumes "unat x < 2 ^ k" "unat h * 2 ^ k < 256"
  shows "unat (or (push_bit k h) (x :: byte)) = unat h * 2 ^ k + unat x"
proof -
  have "unat (push_bit k h) = push_bit k (unat h)"
    using assms(2) by (simp add: unsigned_push_bit_eq push_bit_nat_def take_bit_nat_eq_self)
  then show ?thesis
    using nat_or_push[OF assms(1), of "unat h"] by (simp add: unsigned_or_eq)
qed

subsection \<open>Hexadecimal round trips\<close>

lemma hex_byte_digits: "hex_byte b = [HEX_DIGITS ! (unat b div 16), HEX_DIGITS ! (unat b mod 16)]"
proof -
  have "unat b div 16 < 16" by (simp add: less_mult_imp_div_less)
  then show ?thesis by (simp add: hex_byte_def byte_masks(2) unat_byte_mask unat_byte_drop)
qed

lemma hex_digit_chars:
  "list_all (\<lambda>d. is_hex_char (HEX_DIGITS ! d) \<and> hex_char_value (HEX_DIGITS ! d) = int d
      \<and> lower_char (HEX_DIGITS ! d) = HEX_DIGITS ! d) [0..<16]"
  by code_simp

lemma hex_digit:
  assumes "d < 16"
  shows "is_hex_char (HEX_DIGITS ! d)" "hex_char_value (HEX_DIGITS ! d) = int d"
    "lower_char (HEX_DIGITS ! d) = HEX_DIGITS ! d"
  using hex_digit_chars assms by (simp_all add: list_all_iff)

lemma hex_join:
  assumes "h < 16" "l < 16"
  shows "unat (or (push_bit 4 (word_of_int (int h))) (word_of_int (int l)) :: byte) = 16 * h + l"
  using assms unat_byte_or_push[of "word_of_nat l" 4 "word_of_nat h"] by simp

lemma hex_byte_decode:
  "or (push_bit 4 (word_of_int (hex_char_value (HEX_DIGITS ! (unat b div 16)))))
      (word_of_int (hex_char_value (HEX_DIGITS ! (unat b mod 16)))) = (b :: byte)"
proof (rule unat_eqI)
  have d: "unat b div 16 < 16" "unat b mod 16 < 16" by (simp_all add: less_mult_imp_div_less)
  show "unat (or (push_bit 4 (word_of_int (hex_char_value (HEX_DIGITS ! (unat b div 16)))))
      (word_of_int (hex_char_value (HEX_DIGITS ! (unat b mod 16)))) :: byte) = unat b"
    unfolding hex_digit(2)[OF d(1)] hex_digit(2)[OF d(2)] hex_join[OF d] by simp
qed

lemma hex_pairs_toHex: "hex_pairs (toHex bs) = bs"
  by (induction bs) (simp_all add: toHex_def hex_byte_digits hex_byte_decode)

lemma toHex_chars: "list_all is_hex_char (toHex bs) \<and> map lower_char (toHex bs) = toHex bs"
  by (induction bs) (simp_all add: toHex_def hex_byte_digits hex_digit less_mult_imp_div_less)

lemma length_toHex [simp]: "length (toHex bs) = 2 * length bs"
  by (induction bs) (simp_all add: toHex_def hex_byte_def)

lemma hexToArray_toHex: "hexToArray (toHex bs) = Inr bs"
  using toHex_chars[of bs]
  by (simp add: hexToArray_def hexToUint8Array_def assertValidHex_def hex_pairs_toHex)

text \<open>Decoding and printing a valid string normalises it.\<close>

definition hex_digit_ok :: "char \<Rightarrow> bool" where
  "hex_digit_ok c \<longleftrightarrow> (is_hex_char c \<longrightarrow>
     0 \<le> hex_char_value c \<and> hex_char_value c < 16 \<and> HEX_DIGITS ! nat (hex_char_value c) = lower_char c)"

lemma hex_chars_ok: "list_all hex_digit_ok ''0123456789abcdefABCDEF''"
  by code_simp

lemma hex_char_codes:
  "set [48..<58] \<union> set [97..<103] \<union> set [65..<71] = set (map of_char ''0123456789abcdefABCDEF'' :: nat list)"
  by code_simp

lemma of_char_image: "(of_char c :: nat) \<in> of_char ` A \<Longrightarrow> c \<in> A"
  by auto

lemma hex_digit_ok: "hex_digit_ok c"
proof (cases "is_hex_char c")
  case True
  then have "(of_char c :: nat) \<in> set [48..<58] \<union> set [97..<103] \<union> set [65..<71]"
    by (simp only: is_hex_char_def Let_def set_upt) (simp, linarith)
  then have "(of_char c :: nat) \<in> of_char ` set ''0123456789abcdefABCDEF''"
    unfolding hex_char_codes by (simp only: set_map)
  then have "c \<in> set ''0123456789abcdefABCDEF''"
    by (rule of_char_image)
  with hex_chars_ok show ?thesis by (simp only: list_all_iff)
qed (simp add: hex_digit_ok_def)

lemma hex_digit_okD:
  assumes "is_hex_char c"
  obtains d where "hex_char_value c = int d" "d < 16" "HEX_DIGITS ! d = lower_char c"
proof -
  have "0 \<le> hex_char_value c" "hex_char_value c < 16" "HEX_DIGITS ! nat (hex_char_value c) = lower_char c"
    using hex_digit_ok[of c] assms by (simp_all add: hex_digit_ok_def)
  then show ?thesis using that[of "nat (hex_char_value c)"] by simp
qed

lemma toHex_hex_pairs:
  "list_all is_hex_char s \<Longrightarrow> even (length s) \<Longrightarrow> toHex (hex_pairs s) = map lower_char s"
proof (induction s rule: hex_pairs.induct)
  case (1 a b rest)
  obtain h where h: "hex_char_value a = int h" "h < 16" "HEX_DIGITS ! h = lower_char a"
    using hex_digit_okD[of a] "1.prems"(1) by auto
  obtain l where l: "hex_char_value b = int l" "l < 16" "HEX_DIGITS ! l = lower_char b"
    using hex_digit_okD[of b] "1.prems"(1) by auto
  have "hex_byte (or (push_bit 4 (word_of_int (hex_char_value a))) (word_of_int (hex_char_value b)))
      = [lower_char a, lower_char b]"
    unfolding hex_byte_digits h(1) l(1) hex_join[OF h(2) l(2)] using h l by simp
  moreover have "toHex (hex_pairs rest) = map lower_char rest"
    using "1.IH" "1.prems" by simp
  ultimately show ?case by (simp add: toHex_def)
qed (simp_all add: toHex_def)

lemma toHex_hexToArray:
  assumes "hexToArray s = Inr bs"
  shows "normalizeHex s = Inr (toHex bs)"
proof -
  have hex: "list_all is_hex_char s"
    and bs: "bs = hex_pairs (if length s mod 2 = 0 then s else CHR ''0'' # s)"
    using assms by (auto simp: hexToArray_def hexToUint8Array_def assertValidHex_def split: if_splits)
  have z: "is_hex_char CHR ''0''" "lower_char CHR ''0'' = CHR ''0''" by code_simp+
  show ?thesis
  proof (cases "even (length s)")
    case True
    with hex bs toHex_hex_pairs[of s] show ?thesis
      by (auto simp: normalizeHex_def assertValidHex_def even_iff_mod_2_eq_zero)
  next
    case False
    with hex z toHex_hex_pairs[of "CHR ''0'' # s"] have "toHex (hex_pairs (CHR ''0'' # s)) = CHR ''0'' # map lower_char s"
      by simp
    with False hex bs show ?thesis
      by (auto simp: normalizeHex_def assertValidHex_def odd_iff_mod_2_eq_one)
  qed
qed

subsection \<open>Base64 round trip\<close>

fun sextets :: "bytes \<Rightarrow> nat list" where
  "sextets [] = []"
| "sextets [a] = [unat a div 4, unat a mod 4 * 16]"
| "sextets [a, b] = [unat a div 4, unat a mod 4 * 16 + unat b div 16, unat b mod 16 * 4]"
| "sextets (a # b # c # bs) =
     [unat a div 4, unat a mod 4 * 16 + unat b div 16, unat b mod 16 * 4 + unat c div 64, unat c mod 64]
     @ sextets bs"

definition b64_padding :: "bytes \<Rightarrow> string" where
  "b64_padding bs = (if length bs mod 3 = 1 then ''=='' else if length bs mod 3 = 2 then ''='' else [])"

lemma byte_div_bounds [simp]:
  "unat (b :: byte) div 4 < 64" "unat b div 16 < 16" "unat b div 64 < 4"
  by (simp_all add: less_mult_imp_div_less)

lemma sextet_bounds:
  "unat (a :: byte) mod 4 * 16 + unat (b :: byte) div 16 < 64"
  "unat b mod 16 * 4 + unat (c :: byte) div 64 < 64"
  "unat a mod 4 * 16 < 64" "unat b mod 16 * 4 < 64"
proof -
  have "unat a mod 4 < 4" "unat b div 16 < 16" "unat b mod 16 < 16" "unat c div 64 < 4" by simp_all
  then show "unat a mod 4 * 16 + unat b div 16 < 64" "unat b mod 16 * 4 + unat c div 64 < 64"
    "unat a mod 4 * 16 < 64" "unat b mod 16 * 4 < 64" by linarith+
qed

lemma sextets_bound: "list_all (\<lambda>d. d < 64) (sextets bs)"
  by (induction bs rule: sextets.induct) (simp_all add: sextet_bounds)

lemma b64_joins:
  "unat (or (push_bit 4 (and a 0x03)) (drop_bit 4 b) :: byte) = unat a mod 4 * 16 + unat b div 16"
  "unat (or (push_bit 2 (and b 0x0f)) (drop_bit 6 c) :: byte) = unat b mod 16 * 4 + unat c div 64"
proof -
  have "unat a mod 4 * 16 < 256" "unat b mod 16 * 4 < 256"
    using sextet_bounds(3)[of a] sextet_bounds(4)[of b] by linarith+
  then show "unat (or (push_bit 4 (and a 0x03)) (drop_bit 4 b)) = unat a mod 4 * 16 + unat b div 16"
    and "unat (or (push_bit 2 (and b 0x0f)) (drop_bit 6 c)) = unat b mod 16 * 4 + unat c div 64"
    unfolding byte_masks by (subst unat_byte_or_push; simp add: unat_byte_mask unat_byte_drop)+
qed

lemma toBase64_sextets:
  "toBase64 bs = map (\<lambda>d. base64Chars ! d) (sextets bs) @ b64_padding bs"
proof (induction bs rule: sextets.induct)
  case (2 a)
  show ?case
    unfolding toBase64.simps b64_char_def b64_joins by (simp add: b64_padding_def unat_byte_drop)
next
  case (3 a b)
  show ?case
    unfolding toBase64.simps b64_char_def b64_joins by (simp add: b64_padding_def unat_byte_drop)
next
  case (4 a b c bs)
  have "length (a # b # c # bs) = length bs + 3" by simp
  then have "length (a # b # c # bs) mod 3 = length bs mod 3" by (simp only: mod_add_self2)
  then have p: "b64_padding (a # b # c # bs) = b64_padding bs"
    by (simp only: b64_padding_def)
  show ?case
    unfolding toBase64.simps b64_char_def b64_joins p 4 byte_masks(3) unat_byte_mask
    by (simp add: unat_byte_drop)
qed (simp add: b64_padding_def)

lemma b64_alphabet:
  "map (\<lambda>c. base64CharacterValue c 0) base64Chars = map Inr [0..<64]"
  by code_simp

lemma b64_value_index:
  "base64CharacterValue c i = Inr d \<longleftrightarrow> base64CharacterValue c j = Inr d"
  by (simp add: base64CharacterValue_def Let_def)

lemma b64_value: "d < 64 \<Longrightarrow> base64CharacterValue (base64Chars ! d) i = Inr d"
proof -
  assume d: "d < 64"
  have "length (map (\<lambda>c. base64CharacterValue c 0) base64Chars) = 64" unfolding b64_alphabet by simp
  then have "base64CharacterValue (base64Chars ! d) 0 = map (\<lambda>c. base64CharacterValue c 0) base64Chars ! d"
    using d by (intro nth_map [symmetric]) simp
  also have "\<dots> = Inr d" unfolding b64_alphabet using d by (simp add: nth_map)
  finally show ?thesis using b64_value_index by blast
qed

lemma b64_plain_chars:
  "list_all (\<lambda>c. \<not> js_trim_char c \<and> \<not> b64_space c \<and> c \<noteq> CHR ''-'' \<and> c \<noteq> CHR ''_'' \<and> c \<noteq> CHR ''='')
     base64Chars \<and> \<not> js_trim_char CHR ''='' \<and> \<not> b64_space CHR ''='' \<and> length base64Chars = 64"
  by code_simp

lemma b64_step:
  assumes d: "d < 64" and b: "buf < 2 ^ cnt"
  shows "base64_loop i buf cnt (base64Chars ! d # cs) =
    (let x = buf * 64 + d
     in if cnt + 6 \<ge> 8
        then (case base64_loop (i + 1) (x mod 2 ^ (cnt - 2)) (cnt - 2) cs of Inl e \<Rightarrow> Inl e
              | Inr bs \<Rightarrow> Inr (word_of_nat (x div 2 ^ (cnt - 2)) # bs))
        else base64_loop (i + 1) x (cnt + 6) cs)"
proof -
  have x: "or (push_bit 6 buf) d = buf * 64 + d" using nat_or_push[of d 6 buf] d by simp
  have m: "and n (2 ^ k - 1) = n mod 2 ^ k" for n k :: nat
    by (metis mask_eq_exp_minus_1 take_bit_eq_mask take_bit_nat_def)
  have ff: "(word_of_nat (and n 0xff) :: byte) = word_of_nat n" for n :: nat
    using m[of n 8] by (intro unat_eqI) simp
  have c: "cnt + 6 - 8 = cnt - 2" by simp
  show ?thesis
    unfolding base64_loop.simps b64_value[OF d] sum.case x Let_def m ff c drop_bit_nat_def by simp
qed



declare base64_loop.simps(2) [simp del]

lemma b64_digit:
  assumes "d < 64"
  shows "base64_loop i 0 0 (base64Chars ! d # cs) = base64_loop (Suc i) d 6 cs"
    and "buf < 64 \<Longrightarrow> base64_loop i buf 6 (base64Chars ! d # cs) =
      (case base64_loop (Suc i) ((buf * 64 + d) mod 16) 4 cs of Inl e \<Rightarrow> Inl e
       | Inr bs \<Rightarrow> Inr (word_of_nat ((buf * 64 + d) div 16) # bs))"
    and "buf < 16 \<Longrightarrow> base64_loop i buf 4 (base64Chars ! d # cs) =
      (case base64_loop (Suc i) ((buf * 64 + d) mod 4) 2 cs of Inl e \<Rightarrow> Inl e
       | Inr bs \<Rightarrow> Inr (word_of_nat ((buf * 64 + d) div 4) # bs))"
    and "buf < 4 \<Longrightarrow> base64_loop i buf 2 (base64Chars ! d # cs) =
      (case base64_loop (Suc i) 0 0 cs of Inl e \<Rightarrow> Inl e
       | Inr bs \<Rightarrow> Inr (word_of_nat (buf * 64 + d) # bs))"
  using assms by (simp_all add: b64_step Let_def cong: sum.case_cong)

lemma byte_parts:
  "(unat a div 4 * 64 + (unat a mod 4 * 16 + y)) div 16 = unat (a :: byte) + y div 16"
  "(unat a div 4 * 64 + (unat a mod 4 * 16 + y)) mod 16 = y mod 16"
  "(unat b div 16 * 64 + (unat b mod 16 * 4 + z)) div 4 = unat (b :: byte) + z div 4"
  "(unat b div 16 * 64 + (unat b mod 16 * 4 + z)) mod 4 = z mod 4"
proof -
  have a: "unat a div 4 * 64 + (unat a mod 4 * 16 + y) = y + unat a * 16"
    and b: "unat b div 16 * 64 + (unat b mod 16 * 4 + z) = z + unat b * 4"
    using div_mult_mod_eq[of "unat a" 4] div_mult_mod_eq[of "unat b" 16] by linarith+
  show "(unat a div 4 * 64 + (unat a mod 4 * 16 + y)) div 16 = unat a + y div 16"
    "(unat a div 4 * 64 + (unat a mod 4 * 16 + y)) mod 16 = y mod 16"
    "(unat b div 16 * 64 + (unat b mod 16 * 4 + z)) div 4 = unat b + z div 4"
    "(unat b div 16 * 64 + (unat b mod 16 * 4 + z)) mod 4 = z mod 4"
    unfolding a b by (simp_all add: add.commute)
qed

lemma byte_sextets:
  "base64_loop i 0 0 (map ((!) base64Chars)
     ([unat a div 4, unat a mod 4 * 16 + unat b div 16, unat b mod 16 * 4 + unat c div 64, unat c mod 64] @ ds))
   = (case base64_loop (i + 4) 0 0 (map ((!) base64Chars) ds) of Inl e \<Rightarrow> Inl e
      | Inr bs \<Rightarrow> Inr (a # b # c # bs))"
proof -
  have c: "unat c div 64 * 64 + unat c mod 64 = unat c" by (simp add: div_mult_mod_eq)
  have i4: "i + 4 = Suc (Suc (Suc (Suc i)))" by simp
  show ?thesis
    unfolding i4
    by (simp add: b64_digit sextet_bounds byte_parts c split: sum.splits)
qed

lemma base64_loop_sextets:
  "base64_loop i 0 0 (map ((!) base64Chars) (sextets bs)) = Inr bs"
proof (induction bs arbitrary: i rule: sextets.induct)
  case (2 a)
  show ?case using byte_parts(1)[of a 0] by (simp add: b64_digit sextet_bounds)
next
  case (3 a b)
  show ?case
    using byte_parts(3)[of b 0] by (simp add: b64_digit sextet_bounds byte_parts)
next
  case (4 a b c bs)
  then show ?case unfolding sextets.simps byte_sextets by simp
qed simp

lemma dropWhile_none: "list_all (\<lambda>x. \<not> P x) xs \<Longrightarrow> dropWhile P xs = xs"
  by (cases xs) simp_all

lemma js_trim_none: "list_all (\<lambda>x. \<not> js_trim_char x) s \<Longrightarrow> js_trim s = s"
  by (simp add: js_trim_def dropWhile_none list_all_rev)

lemma normalizeBase64_plain:
  assumes "list_all (\<lambda>d. d < 64) ds" "p \<in> {[], ''='', ''==''}"
  shows "normalizeBase64 (map ((!) base64Chars) ds @ p) = Inr (map ((!) base64Chars) ds)"
proof -
  let ?s = "map ((!) base64Chars) ds"
  have len: "length base64Chars = 64" using b64_plain_chars by (elim conjE)
  have "\<And>d. d \<in> set ds \<Longrightarrow> d < 64" using assms(1) by (simp only: list_all_iff)
  then have s: "set ?s \<subseteq> set base64Chars"
    unfolding set_map by (intro image_subsetI nth_mem) (simp only: len)
  have p: "set p \<subseteq> {CHR ''=''}" using assms(2) by auto
  have plain: "c \<in> set base64Chars \<Longrightarrow> \<not> js_trim_char c \<and> \<not> b64_space c \<and> c \<noteq> CHR ''-'' \<and> c \<noteq> CHR ''_'' \<and> c \<noteq> CHR ''=''"
    and eq: "\<not> js_trim_char CHR ''=''" "\<not> b64_space CHR ''=''" for c
    using b64_plain_chars by (auto simp only: list_all_iff)
  have "js_trim (?s @ p) = ?s @ p"
    by (rule js_trim_none) (use s p plain eq in \<open>auto simp only: list_all_iff set_append\<close>)
  moreover have "filter (\<lambda>c. \<not> b64_space c) (?s @ p) = ?s @ p"
    by (rule filter_True) (use s p plain eq in \<open>auto simp only: set_append\<close>)
  moreover have "map (\<lambda>c. if c = CHR ''-'' then CHR ''+'' else if c = CHR ''_'' then CHR ''/'' else c) (?s @ p) = ?s @ p"
    by (rule map_idI) (use s p plain in \<open>auto simp only: set_append split: if_splits\<close>)
  moreover have "takeWhile (\<lambda>c. c \<noteq> CHR ''='') (?s @ p) = ?s @ takeWhile (\<lambda>c. c \<noteq> CHR ''='') p"
    by (rule takeWhile_append2) (use s plain in blast)
  moreover have "dropWhile (\<lambda>c. c \<noteq> CHR ''='') (?s @ p) = dropWhile (\<lambda>c. c \<noteq> CHR ''='') p"
    by (rule dropWhile_append2) (use s plain in blast)
  moreover have "takeWhile (\<lambda>c. c \<noteq> CHR ''='') p = []" "dropWhile (\<lambda>c. c \<noteq> CHR ''='') p = p"
    using assms(2) by auto
  ultimately show ?thesis
    unfolding normalizeBase64_def Let_def using assms(2) by (simp del: map_map) auto
qed

theorem base64ToArray_toBase64: "base64ToArray (toBase64 bs) = Inr bs"
proof -
  have "b64_padding bs \<in> {[], ''='', ''==''}" by (simp add: b64_padding_def)
  then show ?thesis
    using normalizeBase64_plain[OF sextets_bound, of "b64_padding bs"] base64_loop_sextets[of 0 bs]
    by (simp add: base64ToArray_def toBase64_sextets)
qed


subsection \<open>Base58 round trip\<close>

lemma base58_alphabet:
  "map base58_index base58chars = map int [0..<58] \<and> distinct base58chars \<and> length base58chars = 58"
  by code_simp

lemma base58_index_char [simp]: "d < 58 \<Longrightarrow> base58_index (base58_char d) = int d"
proof -
  assume d: "d < 58"
  have "map base58_index base58chars ! d = base58_index (base58chars ! d)"
    using d base58_alphabet by (intro nth_map) simp
  moreover have "map base58_index base58chars ! d = int d"
    using d base58_alphabet by simp
  ultimately show ?thesis by (simp add: base58_char_def)
qed

lemma base58_char_zero: "base58_char 0 = CHR ''1''"
  by code_simp

lemma base58_char_eq_one: "d < 58 \<Longrightarrow> base58_char d = CHR ''1'' \<longleftrightarrow> d = 0"
proof -
  assume d: "d < 58"
  have "base58_char d = CHR ''1'' \<Longrightarrow> int d = base58_index (base58_char 0)"
    using base58_index_char[OF d] by (simp only: base58_char_zero)
  then have "base58_char d = CHR ''1'' \<Longrightarrow> d = 0" using base58_index_char[of 0] by simp
  then show ?thesis using base58_char_zero by auto
qed

text \<open>Digit lists in base 58, least significant first, behind the characters.\<close>

fun digits_value :: "nat list \<Rightarrow> nat" where
  "digits_value [] = 0"
| "digits_value (d # ds) = d + 58 * digits_value ds"

definition canonical58 :: "nat list \<Rightarrow> bool" where
  "canonical58 ds \<longleftrightarrow> list_all (\<lambda>d. d < 58) ds \<and> (ds \<noteq> [] \<longrightarrow> last ds \<noteq> 0)"

fun nat_digits58 :: "nat \<Rightarrow> nat list" where
  "nat_digits58 n = (if n \<noteq> 0 then n mod 58 # nat_digits58 (n div 58) else [])"

declare nat_digits58.simps [simp del]

lemma nat_digits58_0 [simp]: "nat_digits58 0 = []"
  by (simp add: nat_digits58.simps)

lemma nat_digits58_value [simp]: "digits_value (nat_digits58 n) = n"
proof (induction n rule: nat_digits58.induct)
  case (1 n)
  then show ?case by (cases "n = 0") (simp_all add: nat_digits58.simps [of n])
qed

lemma nat_digits58_canonical: "canonical58 (nat_digits58 n)"
proof (induction n rule: nat_digits58.induct)
  case (1 n)
  show ?case
  proof (cases "n = 0")
    case False
    have "nat_digits58 (n div 58) = [] \<Longrightarrow> n mod 58 \<noteq> 0"
      using nat_digits58_value[of "n div 58"] False div_mult_mod_eq[of n 58] by auto
    with 1 False show ?thesis
      by (auto simp: canonical58_def nat_digits58.simps [of n])
  qed (simp add: canonical58_def)
qed

lemma canonical58_value_0: "canonical58 ds \<Longrightarrow> digits_value ds = 0 \<longleftrightarrow> ds = []"
proof (induction ds)
  case (Cons d ds)
  then show ?case by (cases ds) (auto simp: canonical58_def)
qed simp

lemma canonical58_unique: "canonical58 ds \<Longrightarrow> nat_digits58 (digits_value ds) = ds"
proof (induction ds)
  case (Cons d ds)
  then have d: "d < 58" and c: "canonical58 ds" by (auto simp: canonical58_def split: if_splits)
  have "digits_value (d # ds) \<noteq> 0" using canonical58_value_0[OF Cons.prems] by simp
  with d Cons.IH[OF c] show ?case
    by (simp add: nat_digits58.simps [of "d + 58 * digits_value ds"])
qed simp

lemma base58_push_0 [simp]: "base58_push 0 = []"
  by (simp add: base58_push.simps)

lemma base58_push_digits: "base58_push n = map base58_char (nat_digits58 n)"
proof (induction n rule: base58_push.induct)
  case (1 n)
  then show ?case
    by (cases "n = 0") (simp_all add: base58_push.simps [of n] nat_digits58.simps [of n])
qed

lemma base58_carry_digits:
  "list_all (\<lambda>d. d < 58) ds \<Longrightarrow> base58_carry (map base58_char ds) c = (cs, c') \<Longrightarrow>
   \<exists>es. cs = map base58_char es \<and> length es = length ds \<and> list_all (\<lambda>d. d < 58) es
     \<and> digits_value es + 58 ^ length ds * c' = 256 * digits_value ds + c"
proof (induction ds arbitrary: c cs c')
  case Nil
  then show ?case by simp
next
  case (Cons d ds)
  let ?x = "256 * d + c"
  obtain cs1 where rec: "base58_carry (map base58_char ds) (?x div 58) = (cs1, c')"
    and cs: "cs = base58_char (?x mod 58) # cs1"
    using Cons.prems by (auto simp: Let_def split: prod.splits)
  obtain es where es: "cs1 = map base58_char es" "length es = length ds" "list_all (\<lambda>d. d < 58) es"
    "digits_value es + 58 ^ length ds * c' = 256 * digits_value ds + ?x div 58"
    using Cons.IH[OF _ rec] Cons.prems(1) by auto
  have "digits_value (?x mod 58 # es) + 58 ^ length (d # ds) * c'
      = ?x mod 58 + 58 * (digits_value es + 58 ^ length ds * c')" by (simp add: algebra_simps)
  also have "\<dots> = ?x + 58 * (256 * digits_value ds)" unfolding es(4) by simp
  finally show ?case using es cs by (intro exI[of _ "?x mod 58 # es"]) simp
qed


lemma digits_value_append: "digits_value (xs @ ys) = digits_value xs + 58 ^ length xs * digits_value ys"
  by (induction xs) (simp_all add: algebra_simps)

lemma digits_value_lt: "list_all (\<lambda>d. d < 58) ds \<Longrightarrow> digits_value ds < 58 ^ length ds"
proof (induction ds)
  case (Cons d ds)
  then have "d < 58" "digits_value ds + 1 \<le> 58 ^ length ds" by simp_all
  then have "d + 58 * digits_value ds < 58 * (digits_value ds + 1)"
    and "58 * (digits_value ds + 1) \<le> 58 * 58 ^ length ds" by (simp, intro mult_le_mono2)
  then show ?case by simp
qed simp

lemma canonical58_ge:
  assumes "canonical58 ds" "ds \<noteq> []"
  shows "58 ^ length ds \<le> 58 * digits_value ds"
proof -
  have "ds = butlast ds @ [last ds]" "last ds \<noteq> 0" using assms by (simp_all add: canonical58_def)
  then have "digits_value ds = digits_value (butlast ds) + 58 ^ (length ds - 1) * last ds"
    by (metis digits_value.simps add.right_neutral digits_value_append length_butlast mult_0_right)
  moreover have "58 ^ (length ds - 1) * 1 \<le> 58 ^ (length ds - 1) * last ds"
    using \<open>last ds \<noteq> 0\<close> by (intro mult_le_mono2) simp
  ultimately have "58 ^ (length ds - 1) \<le> digits_value ds" by linarith
  then have "58 * 58 ^ (length ds - 1) \<le> 58 * digits_value ds" by (rule mult_le_mono2)
  then show ?thesis using assms(2) by (cases ds) simp_all
qed

lemma base58_byte_digits:
  assumes "canonical58 ds"
  shows "base58_byte (map base58_char ds) b = map base58_char (nat_digits58 (256 * digits_value ds + unat b))"
proof -
  obtain cs c' where c: "base58_carry (map base58_char ds) (unat b) = (cs, c')" by fastforce
  have lt: "list_all (\<lambda>d. d < 58) ds" using assms by (simp add: canonical58_def)
  obtain es where es: "cs = map base58_char es" "length es = length ds" "list_all (\<lambda>d. d < 58) es"
    "digits_value es + 58 ^ length ds * c' = 256 * digits_value ds + unat b"
    using base58_carry_digits[OF lt c] by blast
  let ?r = "es @ nat_digits58 c'"
  have v: "digits_value ?r = 256 * digits_value ds + unat b"
    using es by (simp add: digits_value_append)
  have "c' \<noteq> 0" if "ds \<noteq> []"
  proof
    assume "c' = 0"
    with es have "256 * digits_value ds + unat b < 58 ^ length ds" using digits_value_lt[OF es(3)] by simp
    with canonical58_ge[OF assms that] show False by linarith
  qed
  then have "nat_digits58 c' = [] \<Longrightarrow> es = []"
    using es(2) by (metis digits_value.simps(1) length_0_conv nat_digits58_value)
  then have "canonical58 ?r"
    using es(3) nat_digits58_canonical[of c']
    by (cases "nat_digits58 c' = []") (simp_all add: canonical58_def)
  then have "nat_digits58 (256 * digits_value ds + unat b) = ?r"
    using canonical58_unique[of ?r] v by simp
  then show ?thesis using c es(1) by (simp add: base58_byte_def base58_push_digits)
qed

definition be_nat :: "bytes \<Rightarrow> nat" where
  "be_nat bs = le_nat (rev bs)"

lemma be_nat_simps [simp]:
  "be_nat [] = 0" "be_nat (bs @ [b]) = 256 * be_nat bs + unat b" "be_nat (0 # bs) = be_nat bs"
  by (simp_all add: be_nat_def)

lemma base58_digits_of: "foldl base58_byte [] bs = map base58_char (nat_digits58 (be_nat bs))"
proof (induction bs rule: rev_induct)
  case (snoc b bs)
  then show ?case using base58_byte_digits[OF nat_digits58_canonical] by simp
qed simp

text \<open>The decoder's accumulator multiplies modulo its size.\<close>

lemma base58_mul_value:
  "length (base58_mul js i) = length js \<and>
   le_nat (base58_mul js i) = (58 * le_nat js + i) mod 256 ^ length js"
proof (induction js arbitrary: i)
  case (Cons j js)
  let ?x = "unat j * 58 + i"
  let ?y = "58 * le_nat js"
  have "58 * le_nat (j # js) + i = ?x + 256 * ?y" by (simp add: algebra_simps)
  then have "(58 * le_nat (j # js) + i) mod 256 ^ length (j # js) = (?x + 256 * ?y) mod (256 * 256 ^ length js)"
    by (simp only: list.size power_Suc add_0_right add_Suc_right)
  also have "\<dots> = 256 * ((?x + 256 * ?y) div 256 mod 256 ^ length js) + (?x + 256 * ?y) mod 256"
    by (rule mod_mult2_eq)
  also have "\<dots> = ?x mod 256 + 256 * ((?x div 256 + ?y) mod 256 ^ length js)"
    by (simp only: div_mult_self2 mod_mult_self2 add.commute)
  finally have v: "(58 * le_nat (j # js) + i) mod 256 ^ length (j # js)
      = ?x mod 256 + 256 * ((?x div 256 + ?y) mod 256 ^ length js)" .
  have w: "unat (word_of_nat ?x :: byte) = ?x mod 256" by (rule unat_byte_of_nat)
  have IH: "length (base58_mul js (?x div 256)) = length js"
    "le_nat (base58_mul js (?x div 256)) = (?y + ?x div 256) mod 256 ^ length js"
    using Cons[of "?x div 256"] by blast+
  have "le_nat (base58_mul (j # js) i) = ?x mod 256 + 256 * ((?y + ?x div 256) mod 256 ^ length js)"
    unfolding base58_mul.simps Let_def le_nat.simps w IH(2) ..
  then show ?case using IH(1) unfolding v by (simp add: Let_def add.commute del: of_nat_add of_nat_mult)
qed simp

lemma base58_fold_value:
  "length (foldl base58_mul acc is) = length acc \<and>
   le_nat (foldl base58_mul acc is) = (58 ^ length is * le_nat acc + digits_value (rev is)) mod 256 ^ length acc"
proof (induction "is" rule: rev_induct)
  case Nil
  then show ?case by (simp add: le_nat_lt)
next
  case (snoc i "is")
  then have l: "length (foldl base58_mul acc is) = length acc" by simp
  have "le_nat (foldl base58_mul acc (is @ [i]))
      = (58 * ((58 ^ length is * le_nat acc + digits_value (rev is)) mod 256 ^ length acc) + i) mod 256 ^ length acc"
    using base58_mul_value[of "foldl base58_mul acc is" i] snoc by simp
  also have "\<dots> = (58 * (58 ^ length is * le_nat acc + digits_value (rev is)) + i) mod 256 ^ length acc"
    by (metis mod_add_left_eq mod_mult_right_eq)
  finally show ?case using l base58_mul_value[of "foldl base58_mul acc is" i]
    by (simp add: algebra_simps)
qed

lemma strip_zeros:
  "dropWhile (\<lambda>b. b = 0) (rev (le_bytes k n)) = mag_bytes_be n" if "n < 256 ^ k"
proof (cases "n = 0")
  case True
  then show ?thesis by (simp add: mag_bytes_be_eq)
next
  case False
  obtain x xs where m: "mag_bytes_be n = x # xs" "x \<noteq> 0" "le_nat (rev (x # xs)) = n"
    using mag_bytes_be_Cons[OF False] .
  have len: "length (x # xs) \<le> k"
  proof (rule ccontr)
    assume "\<not> length (x # xs) \<le> k"
    then have "(256 :: nat) ^ k \<le> 256 ^ length xs" by (intro power_increasing) simp_all
    moreover have "256 ^ length xs * 1 \<le> 256 ^ length xs * unat x"
      using m(2) by (intro mult_le_mono2) (simp add: byte_eq_0_iff Suc_le_eq)
    ultimately show False using m(3) that unfolding le_nat_rev_Cons by linarith
  qed
  let ?z = "replicate (k - length (x # xs)) (0 :: byte)"
  have "le_nat (rev (x # xs) @ ?z) = n" using m(3) unfolding le_nat_append by simp
  moreover have "length (rev (x # xs) @ ?z) = k" using len by simp
  ultimately have "le_bytes k n = rev (x # xs) @ ?z" by (metis le_bytes_le_nat)
  then have "rev (le_bytes k n) = ?z @ x # xs" by simp
  then show ?thesis using m by (simp add: dropWhile_append)
qed

lemma leading_zeros_split:
  "bs = replicate (length (takeWhile (\<lambda>b. b = 0) bs)) 0 @ mag_bytes_be (be_nat bs)"
proof -
  let ?z = "takeWhile (\<lambda>b. b = 0) bs" and ?r = "dropWhile (\<lambda>b. b = 0) bs"
  have z: "?z = replicate (length ?z) 0"
    by (rule replicate_length_same [symmetric]) (auto dest: set_takeWhileD)
  have v: "be_nat (replicate n 0 @ xs) = be_nat xs" for n xs by (induction n) simp_all
  have "mag_bytes_be (be_nat ?r) = ?r"
  proof (cases ?r)
    case Nil
    then show ?thesis unfolding Nil by (simp add: mag_bytes_be_eq)
  next
    case (Cons x xs)
    then have "x \<noteq> 0" using hd_dropWhile[of "\<lambda>b. b = 0" bs] by simp
    from mag_bytes_be_of_digits[OF this] Cons show ?thesis by (simp only: be_nat_def)
  qed
  moreover have "bs = replicate (length ?z) 0 @ ?r" using z takeWhile_dropWhile_id[of "\<lambda>b. b = 0" bs] by simp
  ultimately show ?thesis using v[of "length ?z" ?r] by simp
qed

lemma digits_value_zeros: "digits_value (replicate z 0) = 0"
  by (induction z) simp_all

lemma toBase58_chars:
  "toBase58 bs = map base58_char (replicate (length (takeWhile (\<lambda>b. b = 0) bs)) 0
     @ rev (nat_digits58 (be_nat bs)))"
  by (simp add: toBase58_def base58_digits_of rev_map map_replicate_const base58_char_zero)

lemma base58_leading_ones:
  assumes "canonical58 ds"
  shows "takeWhile (\<lambda>c. c = CHR ''1'') (map base58_char (replicate z 0 @ rev ds)) = replicate z CHR ''1''"
proof -
  have "takeWhile (\<lambda>c. c = CHR ''1'') (map base58_char (rev ds)) = []"
  proof (cases "ds = []")
    case False
    then obtain d es where ds: "rev ds = d # es" by (cases "rev ds") auto
    then have "d = last ds" by (metis hd_rev list.sel(1))
    then have "d < 58" "d \<noteq> 0" using assms False by (auto simp: canonical58_def list_all_iff)
    with ds show ?thesis by (simp add: base58_char_eq_one)
  qed simp
  then show ?thesis
    by (subst map_append, subst takeWhile_append2) (auto simp: base58_char_zero map_replicate_const)
qed

lemma fromBase58_toBase58:
  assumes "bs \<noteq> []"
  shows "fromBase58 (toBase58 bs) = Inr bs"
proof -
  define z where "z = length (takeWhile (\<lambda>b. b = 0) bs)"
  define ds where "ds = nat_digits58 (be_nat bs)"
  define idx where "idx = replicate z 0 @ rev ds"
  define str where "str = map base58_char idx"
  have c: "canonical58 ds" and v: "digits_value ds = be_nat bs"
    by (simp_all add: ds_def nat_digits58_canonical)
  then have lt: "\<And>d. d \<in> set idx \<Longrightarrow> d < 58" by (auto simp: idx_def canonical58_def list_all_iff)
  have str: "toBase58 bs = str" by (simp add: str_def idx_def z_def ds_def toBase58_chars)
  have split: "bs = replicate z 0 @ mag_bytes_be (be_nat bs)" unfolding z_def by (rule leading_zeros_split)
  have "str \<noteq> []"
  proof
    assume "str = []"
    then have "z = 0" "be_nat bs = 0" using v by (auto simp: str_def idx_def)
    with split assms show False by (simp add: mag_bytes_be_eq)
  qed
  have ok: "filter (\<lambda>c. base58_index c = - 1) str = []"
    using lt by (auto simp: str_def filter_empty_conv)
  have ones: "length (takeWhile (\<lambda>c. c = CHR ''1'') str) = z"
    unfolding str_def idx_def base58_leading_ones[OF c] by simp
  have len: "length str - z = length ds" by (simp add: str_def idx_def)
  let ?size = "base58_size (length ds)" and ?acc = "foldl base58_mul (replicate (base58_size (length ds)) 0) idx"
  have fold: "foldl (\<lambda>acc c. base58_mul acc (nat (base58_index c))) a str = foldl base58_mul a idx" for a
    using lt unfolding str_def by (induction idx arbitrary: a) auto
  have "digits_value (rev idx) = be_nat bs"
    using v by (simp add: idx_def digits_value_append digits_value_zeros)
  moreover have "be_nat bs < 256 ^ ?size"
    using digits_value_lt[of ds] c lt_byte_count[of "58 ^ length ds"] v
    by (simp add: canonical58_def base58_size_def)
  ultimately have "le_nat ?acc = be_nat bs" "length ?acc = ?size"
    using base58_fold_value[of "replicate ?size 0" idx] by simp_all
  then have "?acc = le_bytes ?size (be_nat bs)" by (metis le_bytes_le_nat)
  then have "dropWhile (\<lambda>b. b = 0) (rev ?acc) = mag_bytes_be (be_nat bs)"
    using strip_zeros \<open>be_nat bs < 256 ^ ?size\<close> by simp
  then show ?thesis
    using split \<open>str \<noteq> []\<close> ok ones len fold by (simp add: fromBase58_def str Let_def)
qed

lemma fromBase58Check_toBase58Check:
  assumes "\<And>x. 4 \<le> length (hash256 x)"
  shows "fromBase58Check hash256 (length prefix) (toBase58Check hash256 payload prefix) = Inr (payload, prefix)"
proof -
  let ?c = "take 4 (hash256 (prefix @ payload))"
  have c: "length ?c = 4" using assms by simp
  have "fromBase58 (toBase58 (prefix @ payload @ ?c)) = Inr (prefix @ payload @ ?c)"
    using c by (intro fromBase58_toBase58) auto
  moreover have "\<And>i. i < 4 \<Longrightarrow> i < length (hash256 (prefix @ payload))"
    using assms[of "prefix @ payload"] by simp
  ultimately show ?thesis
    using c by (simp add: toBase58Check_def fromBase58Check_def Let_def slice_end_def last_n_def list_all_iff)
qed

subsection \<open>Properties\<close>

text \<open>Hexadecimal rendering and parsing are inverse: every byte string is parsed back from its
  rendering, and every string the parser accepts renders back to its normal form.\<close>

theorem hex_roundtrip:
  "hexToArray (toHex bs) = Inr bs
   \<and> (case hexToArray s of Inl e \<Rightarrow> True | Inr cs \<Rightarrow> normalizeHex s = Inr (toHex cs))"
  using hexToArray_toHex[of bs] toHex_hexToArray[of s] by (auto split: sum.split)

text \<open>Base 64 rendering is parsed back to the bytes it was made from, for every length modulo 3
  and hence every padding.\<close>

theorem base64_roundtrip: "base64ToArray (toBase64 bs) = Inr bs"
  by (rule base64ToArray_toBase64)

text \<open>A non-empty byte string is parsed back from its base 58 rendering, leading zero bytes
  included.\<close>

theorem base58_roundtrip:
  assumes "bs \<noteq> []"
  shows "fromBase58 (toBase58 bs) = Inr bs"
  by (rule fromBase58_toBase58[OF assms])

lemma base58_roundtrip_witness: "fromBase58 (toBase58 [0, 0, 1, 0xff]) = Inr [0, 0, 1, 0xff]"
  by (rule base58_roundtrip) simp

text \<open>A payload with a version prefix is recovered, with its prefix, from its base 58 string with
  checksum, whatever double hash of at least four bytes makes the checksum.\<close>

theorem base58check_roundtrip:
  assumes "\<And>x. 4 \<le> length (hash256 x)"
  shows "fromBase58Check hash256 (length prefix) (toBase58Check hash256 payload prefix) = Inr (payload, prefix)"
  by (rule fromBase58Check_toBase58Check[OF assms])

lemma base58check_roundtrip_witness:
  "fromBase58Check (\<lambda>x. le_bytes 32 (le_nat x + length x)) 1
     (toBase58Check (\<lambda>x. le_bytes 32 (le_nat x + length x)) [1, 2, 3] [0x80]) = Inr ([1, 2, 3], [0x80])"
  using base58check_roundtrip[of "\<lambda>x. le_bytes 32 (le_nat x + length x)" "[0x80]" "[1, 2, 3]"] by simp

end
