(* ===== verification/Opcodes.thy ===== *)
theory Opcodes
  imports TS_Prelude
begin

text \<open>
  The opcode table of \<open>packages/sdk/src/script/OP.ts\<close>: the object \<open>namedOP\<close> as an
  association list in declaration order (one list per group of the source), the lookup of a
  name, and the reverse lookup, which gives the first name declared with a value. The
  abbreviations name the values the interpreter and the script parser use.
\<close>

subsection \<open>The table\<close>

definition push_value_ops :: "(string \<times> nat) list" where
  "push_value_ops =
    [(''OP_0'', 0x00), (''OP_FALSE'', 0x00), (''OP_PUSHDATA1'', 0x4c), (''OP_PUSHDATA2'', 0x4d),
    (''OP_PUSHDATA4'', 0x4e), (''OP_1NEGATE'', 0x4f), (''OP_RESERVED'', 0x50), (''OP_1'', 0x51),
    (''OP_TRUE'', 0x51), (''OP_2'', 0x52), (''OP_3'', 0x53), (''OP_4'', 0x54), (''OP_5'', 0x55),
    (''OP_6'', 0x56), (''OP_7'', 0x57), (''OP_8'', 0x58), (''OP_9'', 0x59), (''OP_10'', 0x5a),
    (''OP_11'', 0x5b), (''OP_12'', 0x5c), (''OP_13'', 0x5d), (''OP_14'', 0x5e), (''OP_15'', 0x5f),
    (''OP_16'', 0x60)]"

definition control_ops :: "(string \<times> nat) list" where
  "control_ops =
    [(''OP_NOP'', 0x61), (''OP_VER'', 0x62), (''OP_IF'', 0x63), (''OP_NOTIF'', 0x64),
    (''OP_VERIF'', 0x65), (''OP_VERNOTIF'', 0x66), (''OP_ELSE'', 0x67), (''OP_ENDIF'', 0x68),
    (''OP_VERIFY'', 0x69), (''OP_RETURN'', 0x6a)]"

definition stack_ops :: "(string \<times> nat) list" where
  "stack_ops =
    [(''OP_TOALTSTACK'', 0x6b), (''OP_FROMALTSTACK'', 0x6c), (''OP_2DROP'', 0x6d),
    (''OP_2DUP'', 0x6e), (''OP_3DUP'', 0x6f), (''OP_2OVER'', 0x70), (''OP_2ROT'', 0x71),
    (''OP_2SWAP'', 0x72), (''OP_IFDUP'', 0x73), (''OP_DEPTH'', 0x74), (''OP_DROP'', 0x75),
    (''OP_DUP'', 0x76), (''OP_NIP'', 0x77), (''OP_OVER'', 0x78), (''OP_PICK'', 0x79),
    (''OP_ROLL'', 0x7a), (''OP_ROT'', 0x7b), (''OP_SWAP'', 0x7c), (''OP_TUCK'', 0x7d)]"

definition data_ops :: "(string \<times> nat) list" where
  "data_ops =
    [(''OP_CAT'', 0x7e), (''OP_SPLIT'', 0x7f), (''OP_NUM2BIN'', 0x80), (''OP_BIN2NUM'', 0x81),
    (''OP_SIZE'', 0x82), (''OP_INVERT'', 0x83), (''OP_AND'', 0x84), (''OP_OR'', 0x85),
    (''OP_XOR'', 0x86), (''OP_EQUAL'', 0x87), (''OP_EQUALVERIFY'', 0x88),
    (''OP_RESERVED1'', 0x89), (''OP_RESERVED2'', 0x8a)]"

definition numeric_ops :: "(string \<times> nat) list" where
  "numeric_ops =
    [(''OP_1ADD'', 0x8b), (''OP_1SUB'', 0x8c), (''OP_2MUL'', 0x8d), (''OP_2DIV'', 0x8e),
    (''OP_NEGATE'', 0x8f), (''OP_ABS'', 0x90), (''OP_NOT'', 0x91), (''OP_0NOTEQUAL'', 0x92),
    (''OP_ADD'', 0x93), (''OP_SUB'', 0x94), (''OP_MUL'', 0x95), (''OP_DIV'', 0x96),
    (''OP_MOD'', 0x97), (''OP_LSHIFT'', 0x98), (''OP_RSHIFT'', 0x99), (''OP_BOOLAND'', 0x9a),
    (''OP_BOOLOR'', 0x9b), (''OP_NUMEQUAL'', 0x9c), (''OP_NUMEQUALVERIFY'', 0x9d),
    (''OP_NUMNOTEQUAL'', 0x9e), (''OP_LESSTHAN'', 0x9f), (''OP_GREATERTHAN'', 0xa0),
    (''OP_LESSTHANOREQUAL'', 0xa1), (''OP_GREATERTHANOREQUAL'', 0xa2), (''OP_MIN'', 0xa3),
    (''OP_MAX'', 0xa4), (''OP_WITHIN'', 0xa5)]"

definition crypto_ops :: "(string \<times> nat) list" where
  "crypto_ops =
    [(''OP_RIPEMD160'', 0xa6), (''OP_SHA1'', 0xa7), (''OP_SHA256'', 0xa8), (''OP_HASH160'', 0xa9),
    (''OP_HASH256'', 0xaa), (''OP_CODESEPARATOR'', 0xab), (''OP_CHECKSIG'', 0xac),
    (''OP_CHECKSIGVERIFY'', 0xad), (''OP_CHECKMULTISIG'', 0xae),
    (''OP_CHECKMULTISIGVERIFY'', 0xaf)]"

definition expansion_ops :: "(string \<times> nat) list" where
  "expansion_ops =
    [(''OP_NOP1'', 0xb0), (''OP_CHECKLOCKTIMEVERIFY'', 0xb1), (''OP_NOP2'', 0xb1),
    (''OP_CHECKSEQUENCEVERIFY'', 0xb2), (''OP_NOP3'', 0xb2), (''OP_SUBSTR'', 0xb3),
    (''OP_NOP4'', 0xb3), (''OP_LEFT'', 0xb4), (''OP_NOP5'', 0xb4), (''OP_RIGHT'', 0xb5),
    (''OP_NOP6'', 0xb5), (''OP_LSHIFTNUM'', 0xb6), (''OP_NOP7'', 0xb6), (''OP_RSHIFTNUM'', 0xb7),
    (''OP_NOP8'', 0xb7), (''OP_NOP9'', 0xb8), (''OP_NOP10'', 0xb9), (''OP_NOP11'', 0xba),
    (''OP_NOP12'', 0xbb), (''OP_NOP13'', 0xbc), (''OP_NOP14'', 0xbd), (''OP_NOP15'', 0xbe),
    (''OP_NOP16'', 0xbf), (''OP_NOP17'', 0xc0), (''OP_NOP18'', 0xc1), (''OP_NOP19'', 0xc2),
    (''OP_NOP20'', 0xc3), (''OP_NOP21'', 0xc4), (''OP_NOP22'', 0xc5), (''OP_NOP23'', 0xc6),
    (''OP_NOP24'', 0xc7), (''OP_NOP25'', 0xc8), (''OP_NOP26'', 0xc9), (''OP_NOP27'', 0xca),
    (''OP_NOP28'', 0xcb), (''OP_NOP29'', 0xcc), (''OP_NOP30'', 0xcd), (''OP_NOP31'', 0xce),
    (''OP_NOP32'', 0xcf), (''OP_NOP33'', 0xd0), (''OP_NOP34'', 0xd1), (''OP_NOP35'', 0xd2),
    (''OP_NOP36'', 0xd3), (''OP_NOP37'', 0xd4), (''OP_NOP38'', 0xd5), (''OP_NOP39'', 0xd6),
    (''OP_NOP40'', 0xd7), (''OP_NOP41'', 0xd8), (''OP_NOP42'', 0xd9), (''OP_NOP43'', 0xda),
    (''OP_NOP44'', 0xdb), (''OP_NOP45'', 0xdc), (''OP_NOP46'', 0xdd), (''OP_NOP47'', 0xde),
    (''OP_NOP48'', 0xdf), (''OP_NOP49'', 0xe0), (''OP_NOP50'', 0xe1), (''OP_NOP51'', 0xe2),
    (''OP_NOP52'', 0xe3), (''OP_NOP53'', 0xe4), (''OP_NOP54'', 0xe5), (''OP_NOP55'', 0xe6),
    (''OP_NOP56'', 0xe7), (''OP_NOP57'', 0xe8), (''OP_NOP58'', 0xe9), (''OP_NOP59'', 0xea),
    (''OP_NOP60'', 0xeb), (''OP_NOP61'', 0xec), (''OP_NOP62'', 0xed), (''OP_NOP63'', 0xee),
    (''OP_NOP64'', 0xef), (''OP_NOP65'', 0xf0), (''OP_NOP66'', 0xf1), (''OP_NOP67'', 0xf2),
    (''OP_NOP68'', 0xf3), (''OP_NOP69'', 0xf4), (''OP_NOP70'', 0xf5), (''OP_NOP71'', 0xf6),
    (''OP_NOP72'', 0xf7), (''OP_NOP73'', 0xf8), (''OP_NOP77'', 0xfc)]"

definition template_ops :: "(string \<times> nat) list" where
  "template_ops =
    [(''OP_SMALLDATA'', 0xf9), (''OP_SMALLINTEGER'', 0xfa), (''OP_PUBKEYS'', 0xfb),
    (''OP_PUBKEYHASH'', 0xfd), (''OP_PUBKEY'', 0xfe), (''OP_INVALIDOPCODE'', 0xff)]"

definition namedOP :: "(string \<times> nat) list" where
  "namedOP = push_value_ops @ control_ops @ stack_ops @ data_ops @ numeric_ops @ crypto_ops
     @ expansion_ops @ template_ops"

text \<open>\<open>OP[name]\<close> and, after the loop that fills in the numeric keys, \<open>OP[opcode]\<close>.\<close>

definition op_value :: "string \<Rightarrow> nat option" where
  "op_value name = map_of namedOP name"

fun first_name :: "(string \<times> nat) list \<Rightarrow> nat \<Rightarrow> string option" where
  "first_name [] n = None"
| "first_name ((name, v) # tbl) n = (if v = n then Some name else first_name tbl n)"

definition op_name :: "nat \<Rightarrow> string option" where
  "op_name opcode = first_name namedOP opcode"

subsection \<open>Names of values\<close>

abbreviation (input) OP_0 :: nat where "OP_0 \<equiv> 0x00"
abbreviation (input) OP_FALSE :: nat where "OP_FALSE \<equiv> 0x00"
abbreviation (input) OP_PUSHDATA1 :: nat where "OP_PUSHDATA1 \<equiv> 0x4c"
abbreviation (input) OP_PUSHDATA2 :: nat where "OP_PUSHDATA2 \<equiv> 0x4d"
abbreviation (input) OP_PUSHDATA4 :: nat where "OP_PUSHDATA4 \<equiv> 0x4e"
abbreviation (input) OP_1NEGATE :: nat where "OP_1NEGATE \<equiv> 0x4f"
abbreviation (input) OP_RESERVED :: nat where "OP_RESERVED \<equiv> 0x50"
abbreviation (input) OP_1 :: nat where "OP_1 \<equiv> 0x51"
abbreviation (input) OP_TRUE :: nat where "OP_TRUE \<equiv> 0x51"
abbreviation (input) OP_2 :: nat where "OP_2 \<equiv> 0x52"
abbreviation (input) OP_3 :: nat where "OP_3 \<equiv> 0x53"
abbreviation (input) OP_4 :: nat where "OP_4 \<equiv> 0x54"
abbreviation (input) OP_5 :: nat where "OP_5 \<equiv> 0x55"
abbreviation (input) OP_6 :: nat where "OP_6 \<equiv> 0x56"
abbreviation (input) OP_7 :: nat where "OP_7 \<equiv> 0x57"
abbreviation (input) OP_8 :: nat where "OP_8 \<equiv> 0x58"
abbreviation (input) OP_9 :: nat where "OP_9 \<equiv> 0x59"
abbreviation (input) OP_10 :: nat where "OP_10 \<equiv> 0x5a"
abbreviation (input) OP_11 :: nat where "OP_11 \<equiv> 0x5b"
abbreviation (input) OP_12 :: nat where "OP_12 \<equiv> 0x5c"
abbreviation (input) OP_13 :: nat where "OP_13 \<equiv> 0x5d"
abbreviation (input) OP_14 :: nat where "OP_14 \<equiv> 0x5e"
abbreviation (input) OP_15 :: nat where "OP_15 \<equiv> 0x5f"
abbreviation (input) OP_16 :: nat where "OP_16 \<equiv> 0x60"
abbreviation (input) OP_NOP :: nat where "OP_NOP \<equiv> 0x61"
abbreviation (input) OP_VER :: nat where "OP_VER \<equiv> 0x62"
abbreviation (input) OP_IF :: nat where "OP_IF \<equiv> 0x63"
abbreviation (input) OP_NOTIF :: nat where "OP_NOTIF \<equiv> 0x64"
abbreviation (input) OP_VERIF :: nat where "OP_VERIF \<equiv> 0x65"
abbreviation (input) OP_VERNOTIF :: nat where "OP_VERNOTIF \<equiv> 0x66"
abbreviation (input) OP_ELSE :: nat where "OP_ELSE \<equiv> 0x67"
abbreviation (input) OP_ENDIF :: nat where "OP_ENDIF \<equiv> 0x68"
abbreviation (input) OP_VERIFY :: nat where "OP_VERIFY \<equiv> 0x69"
abbreviation (input) OP_RETURN :: nat where "OP_RETURN \<equiv> 0x6a"
abbreviation (input) OP_TOALTSTACK :: nat where "OP_TOALTSTACK \<equiv> 0x6b"
abbreviation (input) OP_FROMALTSTACK :: nat where "OP_FROMALTSTACK \<equiv> 0x6c"
abbreviation (input) OP_2DROP :: nat where "OP_2DROP \<equiv> 0x6d"
abbreviation (input) OP_2DUP :: nat where "OP_2DUP \<equiv> 0x6e"
abbreviation (input) OP_3DUP :: nat where "OP_3DUP \<equiv> 0x6f"
abbreviation (input) OP_2OVER :: nat where "OP_2OVER \<equiv> 0x70"
abbreviation (input) OP_2ROT :: nat where "OP_2ROT \<equiv> 0x71"
abbreviation (input) OP_2SWAP :: nat where "OP_2SWAP \<equiv> 0x72"
abbreviation (input) OP_IFDUP :: nat where "OP_IFDUP \<equiv> 0x73"
abbreviation (input) OP_DEPTH :: nat where "OP_DEPTH \<equiv> 0x74"
abbreviation (input) OP_DROP :: nat where "OP_DROP \<equiv> 0x75"
abbreviation (input) OP_DUP :: nat where "OP_DUP \<equiv> 0x76"
abbreviation (input) OP_NIP :: nat where "OP_NIP \<equiv> 0x77"
abbreviation (input) OP_OVER :: nat where "OP_OVER \<equiv> 0x78"
abbreviation (input) OP_PICK :: nat where "OP_PICK \<equiv> 0x79"
abbreviation (input) OP_ROLL :: nat where "OP_ROLL \<equiv> 0x7a"
abbreviation (input) OP_ROT :: nat where "OP_ROT \<equiv> 0x7b"
abbreviation (input) OP_SWAP :: nat where "OP_SWAP \<equiv> 0x7c"
abbreviation (input) OP_TUCK :: nat where "OP_TUCK \<equiv> 0x7d"
abbreviation (input) OP_CAT :: nat where "OP_CAT \<equiv> 0x7e"
abbreviation (input) OP_SPLIT :: nat where "OP_SPLIT \<equiv> 0x7f"
abbreviation (input) OP_NUM2BIN :: nat where "OP_NUM2BIN \<equiv> 0x80"
abbreviation (input) OP_BIN2NUM :: nat where "OP_BIN2NUM \<equiv> 0x81"
abbreviation (input) OP_SIZE :: nat where "OP_SIZE \<equiv> 0x82"
abbreviation (input) OP_INVERT :: nat where "OP_INVERT \<equiv> 0x83"
abbreviation (input) OP_AND :: nat where "OP_AND \<equiv> 0x84"
abbreviation (input) OP_OR :: nat where "OP_OR \<equiv> 0x85"
abbreviation (input) OP_XOR :: nat where "OP_XOR \<equiv> 0x86"
abbreviation (input) OP_EQUAL :: nat where "OP_EQUAL \<equiv> 0x87"
abbreviation (input) OP_EQUALVERIFY :: nat where "OP_EQUALVERIFY \<equiv> 0x88"
abbreviation (input) OP_RESERVED1 :: nat where "OP_RESERVED1 \<equiv> 0x89"
abbreviation (input) OP_RESERVED2 :: nat where "OP_RESERVED2 \<equiv> 0x8a"
abbreviation (input) OP_1ADD :: nat where "OP_1ADD \<equiv> 0x8b"
abbreviation (input) OP_1SUB :: nat where "OP_1SUB \<equiv> 0x8c"
abbreviation (input) OP_2MUL :: nat where "OP_2MUL \<equiv> 0x8d"
abbreviation (input) OP_2DIV :: nat where "OP_2DIV \<equiv> 0x8e"
abbreviation (input) OP_NEGATE :: nat where "OP_NEGATE \<equiv> 0x8f"
abbreviation (input) OP_ABS :: nat where "OP_ABS \<equiv> 0x90"
abbreviation (input) OP_NOT :: nat where "OP_NOT \<equiv> 0x91"
abbreviation (input) OP_0NOTEQUAL :: nat where "OP_0NOTEQUAL \<equiv> 0x92"
abbreviation (input) OP_ADD :: nat where "OP_ADD \<equiv> 0x93"
abbreviation (input) OP_SUB :: nat where "OP_SUB \<equiv> 0x94"
abbreviation (input) OP_MUL :: nat where "OP_MUL \<equiv> 0x95"
abbreviation (input) OP_DIV :: nat where "OP_DIV \<equiv> 0x96"
abbreviation (input) OP_MOD :: nat where "OP_MOD \<equiv> 0x97"
abbreviation (input) OP_LSHIFT :: nat where "OP_LSHIFT \<equiv> 0x98"
abbreviation (input) OP_RSHIFT :: nat where "OP_RSHIFT \<equiv> 0x99"
abbreviation (input) OP_BOOLAND :: nat where "OP_BOOLAND \<equiv> 0x9a"
abbreviation (input) OP_BOOLOR :: nat where "OP_BOOLOR \<equiv> 0x9b"
abbreviation (input) OP_NUMEQUAL :: nat where "OP_NUMEQUAL \<equiv> 0x9c"
abbreviation (input) OP_NUMEQUALVERIFY :: nat where "OP_NUMEQUALVERIFY \<equiv> 0x9d"
abbreviation (input) OP_NUMNOTEQUAL :: nat where "OP_NUMNOTEQUAL \<equiv> 0x9e"
abbreviation (input) OP_LESSTHAN :: nat where "OP_LESSTHAN \<equiv> 0x9f"
abbreviation (input) OP_GREATERTHAN :: nat where "OP_GREATERTHAN \<equiv> 0xa0"
abbreviation (input) OP_LESSTHANOREQUAL :: nat where "OP_LESSTHANOREQUAL \<equiv> 0xa1"
abbreviation (input) OP_GREATERTHANOREQUAL :: nat where "OP_GREATERTHANOREQUAL \<equiv> 0xa2"
abbreviation (input) OP_MIN :: nat where "OP_MIN \<equiv> 0xa3"
abbreviation (input) OP_MAX :: nat where "OP_MAX \<equiv> 0xa4"
abbreviation (input) OP_WITHIN :: nat where "OP_WITHIN \<equiv> 0xa5"
abbreviation (input) OP_RIPEMD160 :: nat where "OP_RIPEMD160 \<equiv> 0xa6"
abbreviation (input) OP_SHA1 :: nat where "OP_SHA1 \<equiv> 0xa7"
abbreviation (input) OP_SHA256 :: nat where "OP_SHA256 \<equiv> 0xa8"
abbreviation (input) OP_HASH160 :: nat where "OP_HASH160 \<equiv> 0xa9"
abbreviation (input) OP_HASH256 :: nat where "OP_HASH256 \<equiv> 0xaa"
abbreviation (input) OP_CODESEPARATOR :: nat where "OP_CODESEPARATOR \<equiv> 0xab"
abbreviation (input) OP_CHECKSIG :: nat where "OP_CHECKSIG \<equiv> 0xac"
abbreviation (input) OP_CHECKSIGVERIFY :: nat where "OP_CHECKSIGVERIFY \<equiv> 0xad"
abbreviation (input) OP_CHECKMULTISIG :: nat where "OP_CHECKMULTISIG \<equiv> 0xae"
abbreviation (input) OP_CHECKMULTISIGVERIFY :: nat where "OP_CHECKMULTISIGVERIFY \<equiv> 0xaf"
abbreviation (input) OP_NOP1 :: nat where "OP_NOP1 \<equiv> 0xb0"
abbreviation (input) OP_CHECKLOCKTIMEVERIFY :: nat where "OP_CHECKLOCKTIMEVERIFY \<equiv> 0xb1"
abbreviation (input) OP_NOP2 :: nat where "OP_NOP2 \<equiv> 0xb1"
abbreviation (input) OP_CHECKSEQUENCEVERIFY :: nat where "OP_CHECKSEQUENCEVERIFY \<equiv> 0xb2"
abbreviation (input) OP_NOP3 :: nat where "OP_NOP3 \<equiv> 0xb2"
abbreviation (input) OP_SUBSTR :: nat where "OP_SUBSTR \<equiv> 0xb3"
abbreviation (input) OP_NOP4 :: nat where "OP_NOP4 \<equiv> 0xb3"
abbreviation (input) OP_LEFT :: nat where "OP_LEFT \<equiv> 0xb4"
abbreviation (input) OP_NOP5 :: nat where "OP_NOP5 \<equiv> 0xb4"
abbreviation (input) OP_RIGHT :: nat where "OP_RIGHT \<equiv> 0xb5"
abbreviation (input) OP_NOP6 :: nat where "OP_NOP6 \<equiv> 0xb5"
abbreviation (input) OP_LSHIFTNUM :: nat where "OP_LSHIFTNUM \<equiv> 0xb6"
abbreviation (input) OP_NOP7 :: nat where "OP_NOP7 \<equiv> 0xb6"
abbreviation (input) OP_RSHIFTNUM :: nat where "OP_RSHIFTNUM \<equiv> 0xb7"
abbreviation (input) OP_NOP8 :: nat where "OP_NOP8 \<equiv> 0xb7"
abbreviation (input) OP_NOP9 :: nat where "OP_NOP9 \<equiv> 0xb8"
abbreviation (input) OP_NOP10 :: nat where "OP_NOP10 \<equiv> 0xb9"
abbreviation (input) OP_SMALLDATA :: nat where "OP_SMALLDATA \<equiv> 0xf9"
abbreviation (input) OP_SMALLINTEGER :: nat where "OP_SMALLINTEGER \<equiv> 0xfa"
abbreviation (input) OP_PUBKEYS :: nat where "OP_PUBKEYS \<equiv> 0xfb"
abbreviation (input) OP_PUBKEYHASH :: nat where "OP_PUBKEYHASH \<equiv> 0xfd"
abbreviation (input) OP_PUBKEY :: nat where "OP_PUBKEY \<equiv> 0xfe"
abbreviation (input) OP_INVALIDOPCODE :: nat where "OP_INVALIDOPCODE \<equiv> 0xff"

end
