(* ===== verification/Script.thy ===== *)
theory Script
  imports Opcodes Utils_Encoding
begin

text \<open>
  Bitcoin scripts, \<open>packages/sdk/src/script/Script.ts\<close>: the chunk list, its lazy parsing
  from bytes, the serialiser with its caches, the write operations, ASM text, and the byte
  and chunk deletions that signature hashing uses.

  A script object is the record of its private fields. A cached chunk state compares the
  values of the chunks; the identity comparison of the source (\<open>state.ref !== chunk\<close>,
  \<open>state.dataRef !== chunk.data\<close>) is not represented, because chunks are values here: an
  edit from outside is a change of the list \<open>sc_chunks\<close>.
\<close>

subsection \<open>Chunks\<close>

record script_chunk =
  chunk_op :: nat
  chunk_data :: "bytes option"
  invalidLength :: bool

abbreviation op_chunk :: "nat \<Rightarrow> script_chunk" where
  "op_chunk n \<equiv> \<lparr>chunk_op = n, chunk_data = None, invalidLength = False\<rparr>"

abbreviation push_chunk :: "nat \<Rightarrow> bytes \<Rightarrow> script_chunk" where
  "push_chunk n d \<equiv> \<lparr>chunk_op = n, chunk_data = Some d, invalidLength = False\<rparr>"

text \<open>\<open>chunk.data ?? []\<close>\<close>

definition data_or_empty :: "script_chunk \<Rightarrow> bytes" where
  "data_or_empty c = (case chunk_data c of None \<Rightarrow> [] | Some d \<Rightarrow> d)"

definition serializedChunkPrefix :: "script_chunk \<Rightarrow> nat list option" where
  "serializedChunkPrefix c =
     (let n = length (data_or_empty c); opc = chunk_op c
      in if n = 0 \<or> opc = OP_RETURN \<or> opc < OP_PUSHDATA1 then Some [opc]
         else if opc = OP_PUSHDATA1 then Some [opc, unat (js_byte (int n) 0)]
         else if opc = OP_PUSHDATA2 then Some [opc, unat (js_byte (int n) 0), unat (js_byte (int n) 8)]
         else if opc = OP_PUSHDATA4 then
           Some [opc, unat (js_byte (int n) 0), unat (js_byte (int n) 8), unat (js_byte (int n) 16), unat (js_byte (int n) 24)]
         else None)"

definition chunkMatchesBytes :: "script_chunk \<Rightarrow> bytes \<Rightarrow> bool" where
  "chunkMatchesBytes c target =
     (case serializedChunkPrefix c of None \<Rightarrow> False
      | Some p \<Rightarrow> length target = length p + length (data_or_empty c)
                  \<and> map unat (take (length p) target) = p \<and> drop (length p) target = data_or_empty c)"

subsection \<open>Parsing\<close>

text \<open>\<open>bytes[i] ?? 0\<close>\<close>

definition byte_at :: "bytes \<Rightarrow> nat \<Rightarrow> byte" where
  "byte_at bs i = (if i < length bs then bs ! i else 0)"

definition copyRange :: "bytes \<Rightarrow> nat \<Rightarrow> nat \<Rightarrow> bytes" where
  "copyRange bs start en = map (\<lambda>i. byte_at bs (start + i)) [0..<en - start]"

text \<open>Result: the length, the position behind the length bytes, whether they were all there.\<close>

definition readPushdataLength :: "nat \<Rightarrow> bytes \<Rightarrow> nat \<Rightarrow> nat \<Rightarrow> nat \<times> nat \<times> bool" where
  "readPushdataLength opc bs p len =
     (if opc > 0 \<and> opc < OP_PUSHDATA1 then (opc, p, True)
      else if opc = OP_PUSHDATA1 then
        (if p < len then (unat (byte_at bs p), p + 1, True) else (0, p, False))
      else if opc = OP_PUSHDATA2 then
        (unat (or (w32 (byte_at bs p)) (push_bit 8 (w32 (byte_at bs (p + 1))))),
         min (p + 2) len, p + 1 < len)
      else
        (unat (or (or (or (w32 (byte_at bs p)) (push_bit 8 (w32 (byte_at bs (p + 1)))))
                      (push_bit 16 (w32 (byte_at bs (p + 2)))))
                  (push_bit 24 (w32 (byte_at bs (p + 3))))),
         min (p + 4) len, p + 3 < len))"

lemma readPushdataLength_ge:
  "readPushdataLength opc bs p len = (n, q, h) \<Longrightarrow> p \<le> len \<Longrightarrow> p \<le> q \<and> q \<le> len"
  by (auto simp: readPushdataLength_def split: if_splits)

definition conditional_depth :: "nat \<Rightarrow> int \<Rightarrow> int" where
  "conditional_depth opc depth =
     (if opc = OP_IF \<or> opc = OP_NOTIF \<or> opc = OP_VERIF \<or> opc = OP_VERNOTIF then depth + 1
      else if opc = OP_ENDIF then depth - 1 else depth)"

function parse_from :: "bytes \<Rightarrow> nat \<Rightarrow> int \<Rightarrow> script_chunk list" where
  "parse_from bs p depth =
     (if p < length bs then
        let opc = unat (byte_at bs p)
        in if opc = OP_RETURN \<and> depth = 0
           then [push_chunk opc (copyRange bs (p + 1) (length bs))]
           else if opc > 0 \<and> opc \<le> OP_PUSHDATA4 then
             (case readPushdataLength opc bs (p + 1) (length bs) of (len, q, hasLength) \<Rightarrow>
                let en = min (q + len) (length bs)
                in \<lparr>chunk_op = opc, chunk_data = Some (copyRange bs q en),
                    invalidLength = (\<not> hasLength \<or> en - q \<noteq> len)\<rparr>
                   # parse_from bs en (conditional_depth opc depth))
           else op_chunk opc # parse_from bs (p + 1) (conditional_depth opc depth)
      else [])"
  by pat_completeness auto
termination
  by (relation "measure (\<lambda>(bs, p, depth). length bs - p)")
     (auto dest!: readPushdataLength_ge [OF sym] simp: min_def)

declare parse_from.simps [simp del]

definition parseChunks :: "bytes \<Rightarrow> script_chunk list" where
  "parseChunks bs = parse_from bs 0 0"

text \<open>\<open>removeOpcodeBytes\<close> walks the bytes the same way, with no stop at \<open>OP_RETURN\<close>.\<close>

function remove_from :: "nat \<Rightarrow> bytes \<Rightarrow> nat \<Rightarrow> bytes" where
  "remove_from opcode bs p =
     (if p < length bs then
        let opc = unat (byte_at bs p)
        in if opc > 0 \<and> opc \<le> OP_PUSHDATA4 then
             (case readPushdataLength opc bs (p + 1) (length bs) of (len, q, hasLength) \<Rightarrow>
                let en = min (q + len) (length bs)
                in (if opc \<noteq> opcode then copyRange bs p en else []) @ remove_from opcode bs en)
           else (if opc \<noteq> opcode then [word_of_nat opc] else []) @ remove_from opcode bs (p + 1)
      else [])"
  by pat_completeness auto
termination
  by (relation "measure (\<lambda>(opcode, bs, p). length bs - p)")
     (auto dest!: readPushdataLength_ge [OF sym] simp: min_def)

declare remove_from.simps [simp del]

definition removeOpcodeBytes :: "bytes \<Rightarrow> nat \<Rightarrow> bytes" where
  "removeOpcodeBytes bs opcode = remove_from opcode bs 0"

subsection \<open>Serialising\<close>

text \<open>The bytes \<open>writeChunkData\<close> puts behind the opcode.\<close>

definition writeChunkData :: "nat \<Rightarrow> bytes \<Rightarrow> bytes" where
  "writeChunkData opc d =
     (let n = int (length d)
      in if opc < OP_PUSHDATA1 then d
         else if opc = OP_PUSHDATA1 then [js_byte n 0] @ d
         else if opc = OP_PUSHDATA2 then [js_byte n 0, js_byte n 8] @ d
         else if opc = OP_PUSHDATA4 then [js_byte n 0, js_byte n 8, js_byte n 16, js_byte n 24] @ d
         else [])"

fun computeSerializedLength :: "script_chunk list \<Rightarrow> nat" where
  "computeSerializedLength [] = 0"
| "computeSerializedLength (c # cs) =
     (case chunk_data c of None \<Rightarrow> 1 + computeSerializedLength cs
      | Some d \<Rightarrow>
          if chunk_op c = OP_RETURN then 1 + length d
          else if chunk_op c < OP_PUSHDATA1 then 1 + length d + computeSerializedLength cs
          else if chunk_op c = OP_PUSHDATA1 then 1 + (1 + length d) + computeSerializedLength cs
          else if chunk_op c = OP_PUSHDATA2 then 1 + (2 + length d) + computeSerializedLength cs
          else if chunk_op c = OP_PUSHDATA4 then 1 + (4 + length d) + computeSerializedLength cs
          else 1 + computeSerializedLength cs)"

fun serialize_chunks :: "script_chunk list \<Rightarrow> bytes" where
  "serialize_chunks [] = []"
| "serialize_chunks (c # cs) =
     word_of_nat (chunk_op c) #
     (case chunk_data c of None \<Rightarrow> serialize_chunks cs
      | Some d \<Rightarrow> if chunk_op c = OP_RETURN then d
                  else writeChunkData (chunk_op c) d @ serialize_chunks cs)"

subsection \<open>The script object\<close>

record script =
  sc_chunks :: "script_chunk list"
  sc_parsed :: bool
  sc_raw :: "bytes option"
  sc_hex :: "string option"
  sc_state :: "script_chunk list option"

type_synonym 'a sc = "(script, js_error, 'a) action"

definition new_script :: "script_chunk list \<Rightarrow> script" where
  "new_script cs = \<lparr>sc_chunks = cs, sc_parsed = True, sc_raw = None, sc_hex = None, sc_state = None\<rparr>"

definition script_fromBinary :: "bytes \<Rightarrow> script" where
  "script_fromBinary bs =
     \<lparr>sc_chunks = [], sc_parsed = False, sc_raw = Some bs, sc_hex = None, sc_state = None\<rparr>"

definition script_fromHex :: "string \<Rightarrow> js_error + script" where
  "script_fromHex hex =
     (if length hex = 0 then Inr (script_fromBinary [])
      else if length hex mod 2 \<noteq> 0 then
        Inl (JsError ''There is an uneven number of characters in the string which suggests it is not hex encoded.'')
      else case hexToUint8Array hex of
             Inl e \<Rightarrow> Inl (JsError ''Some elements in this string are not hex encoded.'')
           | Inr rawBytes \<Rightarrow>
               Inr \<lparr>sc_chunks = [], sc_parsed = False, sc_raw = Some rawBytes,
                    sc_hex = Some (map lower_char hex), sc_state = None\<rparr>)"

definition captureChunkCacheState :: "script \<Rightarrow> script" where
  "captureChunkCacheState s = s\<lparr>sc_state := Some (sc_chunks s)\<rparr>"

definition ensureParsed :: "script \<Rightarrow> script" where
  "ensureParsed s =
     (if sc_parsed s then s
      else captureChunkCacheState
        (s\<lparr>sc_chunks := (case sc_raw s of Some raw \<Rightarrow> parseChunks raw | None \<Rightarrow> []),
           sc_parsed := True\<rparr>))"

definition invalidateSerializationCaches :: "script \<Rightarrow> script" where
  "invalidateSerializationCaches s = s\<lparr>sc_raw := None, sc_hex := None, sc_state := None\<rparr>"

text \<open>The getter (it parses on demand) and the setter of \<open>chunks\<close>.\<close>

definition get_chunks :: "script_chunk list sc" where
  "get_chunks = thn (modify ensureParsed) (get sc_chunks)"

definition set_chunks_to :: "script_chunk list \<Rightarrow> unit sc" where
  "set_chunks_to cs =
     modify (\<lambda>s. invalidateSerializationCaches (s\<lparr>sc_chunks := cs, sc_parsed := True\<rparr>))"

text \<open>A change of the array \<open>this.chunks\<close> in place, through the getter.\<close>

definition update_chunks :: "(script_chunk list \<Rightarrow> script_chunk list) \<Rightarrow> unit sc" where
  "update_chunks f = thn (modify ensureParsed) (modify (\<lambda>s. s\<lparr>sc_chunks := f (sc_chunks s)\<rparr>))"

definition chunkCacheMatchesState :: "script \<Rightarrow> bool" where
  "chunkCacheMatchesState s \<longleftrightarrow> (case sc_state s of None \<Rightarrow> False
     | Some cs \<Rightarrow> map (\<lambda>c. (chunk_op c, chunk_data c)) cs
                  = map (\<lambda>c. (chunk_op c, chunk_data c)) (sc_chunks s))"

definition getSerializedBytes :: "bytes sc" where
  "getSerializedBytes = (\<lambda>s0.
     case (if sc_parsed s0 then None else sc_raw s0) of
       Some raw \<Rightarrow> (Inr raw, s0)
     | None \<Rightarrow>
         let s = ensureParsed s0
         in case (if chunkCacheMatchesState s then sc_raw s else None) of
              Some raw \<Rightarrow> (Inr raw, s)
            | None \<Rightarrow>
                let bs = serialize_chunks (sc_chunks s)
                in (Inr bs, captureChunkCacheState (s\<lparr>sc_raw := Some bs, sc_hex := None\<rparr>)))"

definition toUint8Array :: "bytes sc" where
  "toUint8Array = getSerializedBytes"

definition script_toBinary :: "bytes sc" where
  "script_toBinary = toUint8Array"

definition script_toHex :: "string sc" where
  "script_toHex = bnd getSerializedBytes (\<lambda>bs. \<lambda>s.
     case sc_hex s of Some h \<Rightarrow> (Inr h, s)
     | None \<Rightarrow> (Inr (toHex bs), s\<lparr>sc_hex := Some (toHex bs)\<rparr>))"

subsection \<open>Writing\<close>

definition writeScript :: "script_chunk list \<Rightarrow> unit sc" where
  "writeScript other = thn (modify invalidateSerializationCaches)
     (bnd get_chunks (\<lambda>cs. set_chunks_to (cs @ other)))"

definition writeOpCode :: "nat \<Rightarrow> unit sc" where
  "writeOpCode opc = thn (modify invalidateSerializationCaches)
     (update_chunks (\<lambda>cs. cs @ [op_chunk opc]))"

text \<open>
  \<open>this.chunks[i] = { op }\<close>. Assigning beyond the end leaves holes in the array, which the
  next access to a chunk turns into a \<open>TypeError\<close>; the model raises it at once.
\<close>

definition setChunkOpCode :: "nat \<Rightarrow> nat \<Rightarrow> unit sc" where
  "setChunkOpCode i opc = thn (modify invalidateSerializationCaches)
     (bnd get_chunks (\<lambda>cs.
        if i < length cs then update_chunks (\<lambda>cs. cs[i := op_chunk opc])
        else if i = length cs then update_chunks (\<lambda>cs. cs @ [op_chunk opc])
        else throw (JsTypeError ''Cannot read properties of undefined'')))"

definition writeBin :: "bytes \<Rightarrow> unit sc" where
  "writeBin b = thn (modify invalidateSerializationCaches)
     (let n = length b; d = (if n > 0 then Some b else None)
      in bnd (if n > 0 \<and> n < OP_PUSHDATA1 then ret n
              else if n = 0 then ret OP_0
              else if n < 2 ^ 8 then ret OP_PUSHDATA1
              else if n < 2 ^ 16 then ret OP_PUSHDATA2
              else if n < 2 ^ 32 then ret OP_PUSHDATA4
              else throw (JsError ''You can't push that much data''))
         (\<lambda>opc. update_chunks (\<lambda>cs. cs @ [\<lparr>chunk_op = opc, chunk_data = d, invalidLength = False\<rparr>])))"

definition writeBn :: "big_number \<Rightarrow> unit sc" where
  "writeBn bn = thn (modify invalidateSerializationCaches)
     (let v = getSignedValue bn
      in if v = 0 then update_chunks (\<lambda>cs. cs @ [op_chunk OP_0])
         else if v = - 1 then update_chunks (\<lambda>cs. cs @ [op_chunk OP_1NEGATE])
         else if v \<ge> 1 \<and> v \<le> 16 then
           bnd (lift_result (bn_toNumber bn))
             (\<lambda>n. update_chunks (\<lambda>cs. cs @ [op_chunk (nat n + OP_1 - 1)]))
         else writeBin (toSm True bn))"

definition writeNumber :: "int \<Rightarrow> unit sc" where
  "writeNumber num = thn (modify invalidateSerializationCaches)
     (bnd (lift_result (bn_of_number num)) writeBn)"

subsection \<open>Deleting\<close>

definition removeCodeseparators :: "unit sc" where
  "removeCodeseparators = bnd toUint8Array (\<lambda>bs. modify (\<lambda>s.
     s\<lparr>sc_raw := Some (removeOpcodeBytes bs OP_CODESEPARATOR), sc_hex := None,
       sc_chunks := [], sc_parsed := False\<rparr>))"

fun delete_matching :: "script_chunk list \<Rightarrow> bytes \<Rightarrow> script_chunk list" where
  "delete_matching [] target = []"
| "delete_matching (c # cs) target =
     (if chunkMatchesBytes c target then delete_matching cs target
      else c # delete_matching cs target)"

text \<open>The argument is the serialisation of the script to delete.\<close>

definition findAndDelete :: "bytes \<Rightarrow> unit sc" where
  "findAndDelete targetBytes = thn (modify invalidateSerializationCaches)
     (if length targetBytes = 0 then ret ()
      else update_chunks (\<lambda>cs. delete_matching cs targetBytes))"

definition isPushOnly :: "bool sc" where
  "isPushOnly = bnd get_chunks (\<lambda>cs. ret (list_all (\<lambda>c. chunk_op c \<le> OP_16) cs))"

subsection \<open>ASM\<close>

fun split_spaces :: "string \<Rightarrow> string list" where
  "split_spaces [] = [[]]"
| "split_spaces (c # cs) =
     (if c = CHR '' '' then [] # split_spaces cs
      else case split_spaces cs of [] \<Rightarrow> [[c]] | w # ws \<Rightarrow> (c # w) # ws)"

definition pushdataOpCodeNum :: "nat \<Rightarrow> nat" where
  "pushdataOpCodeNum len =
     (if len < OP_PUSHDATA1 then len
      else if len < 2 ^ 8 then OP_PUSHDATA1
      else if len < 2 ^ 16 then OP_PUSHDATA2 else OP_PUSHDATA4)"

text \<open>One token: the chunk and the number of tokens it takes; a missing token is \<open>undefined\<close>.\<close>

definition parseASMToken :: "string list \<Rightarrow> nat \<Rightarrow> js_error + (script_chunk \<times> nat)" where
  "parseASMToken tokens i =
     (let token = tokens ! i
      in if token = ''0'' then Inr (op_chunk 0, 1)
         else if token = ''-1'' then Inr (op_chunk OP_1NEGATE, 1)
         else
           let known = (take 3 token = ''OP_'' \<and> op_value token \<noteq> None);
               opc = (if known then the (op_value token) else 0)
           in if opc = OP_PUSHDATA1 \<or> opc = OP_PUSHDATA2 \<or> opc = OP_PUSHDATA4 then
                (case (if i + 2 < length tokens then hexToArray (tokens ! (i + 2)) else Inr []) of
                   Inl e \<Rightarrow> Inl e | Inr d \<Rightarrow> Inr (push_chunk opc d, 3))
              else if \<not> known then
                (let hex = (if length token mod 2 \<noteq> 0 then CHR ''0'' # token else token)
                 in case hexToArray hex of Inl e \<Rightarrow> Inl e
                    | Inr arr \<Rightarrow>
                        if toHex arr \<noteq> hex then Inl (JsError ''invalid hex string in script'')
                        else Inr (push_chunk (pushdataOpCodeNum (length arr)) arr, 1))
              else Inr (op_chunk opc, 1))"

lemma parseASMToken_advance: "parseASMToken tokens i = Inr (c, k) \<Longrightarrow> 0 < k"
  by (auto simp: parseASMToken_def Let_def split: if_splits sum.splits)

function asm_chunks :: "string list \<Rightarrow> nat \<Rightarrow> js_error + script_chunk list" where
  "asm_chunks tokens i =
     (if i < length tokens then
        (case parseASMToken tokens i of Inl e \<Rightarrow> Inl e
         | Inr (c, k) \<Rightarrow>
             (case asm_chunks tokens (i + k) of Inl e \<Rightarrow> Inl e | Inr cs \<Rightarrow> Inr (c # cs)))
      else Inr [])"
  by pat_completeness auto
termination
  by (relation "measure (\<lambda>(tokens, i). length tokens - i)") (auto dest!: parseASMToken_advance)

declare asm_chunks.simps [simp del]

definition fromASM :: "string \<Rightarrow> js_error + script" where
  "fromASM asm =
     (case asm_chunks (split_spaces asm) 0 of Inl e \<Rightarrow> Inl e | Inr cs \<Rightarrow> Inr (new_script cs))"

text \<open>An opcode without a name prints as \<open>undefined\<close>.\<close>

definition chunkToString :: "script_chunk \<Rightarrow> string" where
  "chunkToString c =
     CHR '' '' # (case chunk_data c of
       None \<Rightarrow> (case op_name (chunk_op c) of Some n \<Rightarrow> n | None \<Rightarrow> ''undefined'')
     | Some d \<Rightarrow> toHex d)"

definition toASM :: "string sc" where
  "toASM = bnd get_chunks (\<lambda>cs. ret (drop 1 (concat (map chunkToString cs))))"

subsection \<open>Serialisation\<close>

lemma writeChunkData_eq:
  "writeChunkData opc d =
     (if opc < OP_PUSHDATA1 then d else if opc = OP_PUSHDATA1 then le_bytes 1 (length d) @ d
      else if opc = OP_PUSHDATA2 then le_bytes 2 (length d) @ d
      else if opc = OP_PUSHDATA4 then le_bytes 4 (length d) @ d else [])"
  unfolding writeChunkData_def Let_def js_byte_list by simp

lemma length_writeChunkData:
  "length (writeChunkData opc d) =
     (if opc < OP_PUSHDATA1 then length d else if opc = OP_PUSHDATA1 then 1 + length d
      else if opc = OP_PUSHDATA2 then 2 + length d else if opc = OP_PUSHDATA4 then 4 + length d else 0)"
  by (simp add: writeChunkData_eq)

text \<open>The array the serialiser allocates has exactly the length it fills.\<close>

lemma length_serialize_chunks: "length (serialize_chunks cs) = computeSerializedLength cs"
  by (induction cs) (auto simp: length_writeChunkData split: option.split)

lemma serialize_append_plain:
  "list_all (\<lambda>c. chunk_op c = OP_RETURN \<longrightarrow> chunk_data c = None) cs \<Longrightarrow>
   serialize_chunks (cs @ ds) = serialize_chunks cs @ serialize_chunks ds"
  by (induction cs) (auto split: option.split)

subsection \<open>Parsing inverts serialising\<close>

lemma length_copyRange [simp]: "length (copyRange bs a b) = b - a"
  by (simp add: copyRange_def)

lemma copyRange_eq: "b \<le> length bs \<Longrightarrow> copyRange bs a b = take (b - a) (drop a bs)"
  by (rule nth_equalityI) (auto simp: copyRange_def byte_at_def)

lemma copyRange_self: "copyRange bs a (length bs) = drop a bs"
  by (simp add: copyRange_eq)

lemma copyRange_drop: "a \<le> b \<Longrightarrow> b \<le> length bs \<Longrightarrow> copyRange bs a b @ drop b bs = drop a bs"
  by (simp add: copyRange_eq) (metis append_take_drop_id drop_drop le_add_diff_inverse2)

lemma byte_at_drop: "p < length bs \<Longrightarrow> drop p bs = byte_at bs p # drop (p + 1) bs"
  by (simp add: byte_at_def Cons_nth_drop_Suc)

lemma pushdata_length_bytes:
  assumes r: "readPushdataLength opc bs p (length bs) = (len, q, True)"
    and opc: "0 < opc" "opc \<le> OP_PUSHDATA4" and d: "length d = len" and p: "p \<le> length bs"
  shows "writeChunkData opc d = copyRange bs p q @ d"
proof -
  have opcs: "opc < OP_PUSHDATA1 \<or> opc = OP_PUSHDATA1 \<or> opc = OP_PUSHDATA2 \<or> opc = OP_PUSHDATA4"
    using opc by linarith
  have range: "copyRange bs a b = map (\<lambda>i. byte_at bs (a + i)) [0..<b - a]" for a b
    by (simp add: copyRange_def)
  consider "opc < OP_PUSHDATA1" | "opc = OP_PUSHDATA1" | "opc = OP_PUSHDATA2" | "opc = OP_PUSHDATA4"
    using opcs by blast
  then show ?thesis
  proof cases
    case 1
    with r opc show ?thesis by (auto simp: readPushdataLength_def writeChunkData_eq copyRange_def)
  next
    case 2
    let ?l = "[byte_at bs p]"
    have "len = le_nat ?l" "q = p + 1" using 2 r
      by (auto simp: readPushdataLength_def split: if_splits)
    moreover have "le_bytes 1 (le_nat ?l) = ?l" by simp
    ultimately show ?thesis using 2 d by (simp add: writeChunkData_eq range del: le_nat.simps)
  next
    case 3
    let ?l = "[byte_at bs p, byte_at bs (p + 1)]"
    have "len = le_nat ?l" "q = p + 2" using 3 r
      by (auto simp: readPushdataLength_def or16 split: if_splits)
    moreover have "length ?l = 2" by simp
    then have "le_bytes 2 (le_nat ?l) = ?l" by (metis le_bytes_le_nat)
    moreover have "[0..<2] = [0, 1 :: nat]" by (simp add: upt_rec)
    ultimately show ?thesis using 3 d by (simp add: writeChunkData_eq range del: le_nat.simps)
  next
    case 4
    let ?l = "[byte_at bs p, byte_at bs (p + 1), byte_at bs (p + 2), byte_at bs (p + 3)]"
    have "len = le_nat ?l" "q = p + 4" using r 4
      by (auto simp: readPushdataLength_def or32 split: if_splits)
    moreover have "length ?l = 4" by simp
    then have "le_bytes 4 (le_nat ?l) = ?l" by (metis le_bytes_le_nat)
    moreover have "[0..<4] = [0, 1, 2, 3 :: nat]" by (simp add: upt_rec)
    ultimately show ?thesis using 4 d by (simp add: writeChunkData_eq range del: le_nat.simps)
  qed
qed

definition valid_pushes :: "script_chunk list \<Rightarrow> bool" where
  "valid_pushes cs \<longleftrightarrow> list_all (\<lambda>c. \<not> invalidLength c) cs"

lemma serialize_parse_from:
  "p \<le> length bs \<Longrightarrow> valid_pushes (parse_from bs p depth) \<Longrightarrow>
   serialize_chunks (parse_from bs p depth) = drop p bs"
proof (induction bs p depth rule: parse_from.induct)
  case (1 bs p depth)
  let ?op = "unat (byte_at bs p)"
  show ?case
  proof (cases "p < length bs")
    case False
    then have "parse_from bs p depth = []" by (simp add: parse_from.simps [of bs p depth])
    with False show ?thesis by simp
  next
    case lt: True
    have hd: "drop p bs = byte_at bs p # drop (p + 1) bs" using lt by (rule byte_at_drop)
    show ?thesis
    proof (cases "?op = OP_RETURN \<and> depth = 0")
      case True
      then have "parse_from bs p depth = [push_chunk ?op (drop (p + 1) bs)]"
        using lt by (subst parse_from.simps) (simp add: Let_def copyRange_self)
      moreover have "n = OP_RETURN \<Longrightarrow> serialize_chunks [push_chunk n d] = word_of_nat n # d" for n d
        by simp
      moreover have "word_of_nat ?op = byte_at bs p" by simp
      ultimately show ?thesis using hd True by metis
    next
      case nr: False
      show ?thesis
      proof (cases "0 < ?op \<and> ?op \<le> OP_PUSHDATA4")
        case True
        obtain len q h where r: "readPushdataLength ?op bs (p + 1) (length bs) = (len, q, h)"
          by (cases "readPushdataLength ?op bs (p + 1) (length bs)")
        let ?en = "min (q + len) (length bs)"
        let ?rest = "parse_from bs ?en (conditional_depth ?op depth)"
        have step: "parse_from bs p depth = \<lparr>chunk_op = ?op, chunk_data = Some (copyRange bs q ?en),
            invalidLength = (\<not> h \<or> ?en - q \<noteq> len)\<rparr> # ?rest"
          using lt nr True r by (simp add: parse_from.simps [of bs p depth] Let_def)
        have v: "h" "?en - q = len" "valid_pushes ?rest"
          using "1.prems"(2) unfolding step by (simp_all add: valid_pushes_def)
        have q: "p + 1 \<le> q" "q \<le> length bs" using readPushdataLength_ge[OF r] lt by simp_all
        have IH: "serialize_chunks ?rest = drop ?en bs"
          using "1.IH"(1)[OF lt refl nr True r [symmetric] refl refl] v(3) by simp
        have "writeChunkData ?op (copyRange bs q ?en) = copyRange bs (p + 1) q @ copyRange bs q ?en"
          by (rule pushdata_length_bytes[OF r [unfolded eqTrueI[OF v(1)]]]) (use True v lt in simp_all)
        then show ?thesis
          using True IH q hd by (auto simp: step copyRange_drop)
      next
        case False
        have step: "parse_from bs p depth = op_chunk ?op # parse_from bs (p + 1) (conditional_depth ?op depth)"
          using lt nr False by (subst parse_from.simps) (auto simp: Let_def)
        have "serialize_chunks (parse_from bs (p + 1) (conditional_depth ?op depth)) = drop (p + 1) bs"
          using "1.IH"(2)[OF lt refl nr False] lt "1.prems"(2) by (simp add: step valid_pushes_def)
        then show ?thesis using hd by (simp add: step)
      qed
    qed
  qed
qed

lemma serialize_parseChunks: "valid_pushes (parseChunks bs) \<Longrightarrow> serialize_chunks (parseChunks bs) = bs"
  using serialize_parse_from[of 0 bs 0] by (simp add: parseChunks_def)


text \<open>
  The other direction: the chunk lists that a parser can return (\<open>canonical_chunks\<close>) are
  recovered from their serialisation.
\<close>

definition push_ok :: "nat \<Rightarrow> nat \<Rightarrow> bool" where
  "push_ok opc n \<longleftrightarrow>
     (if opc < OP_PUSHDATA1 then n = opc
      else if opc = OP_PUSHDATA1 then n < 2 ^ 8
      else if opc = OP_PUSHDATA2 then n < 2 ^ 16 else n < 2 ^ 32)"

fun canonical_chunks :: "int \<Rightarrow> script_chunk list \<Rightarrow> bool" where
  "canonical_chunks depth [] \<longleftrightarrow> True"
| "canonical_chunks depth (c # cs) \<longleftrightarrow>
     chunk_op c < 256 \<and> \<not> invalidLength c \<and>
     (if chunk_op c = OP_RETURN \<and> depth = 0 then chunk_data c \<noteq> None \<and> cs = []
      else if 0 < chunk_op c \<and> chunk_op c \<le> OP_PUSHDATA4 then
        (case chunk_data c of None \<Rightarrow> False | Some d \<Rightarrow> push_ok (chunk_op c) (length d))
        \<and> canonical_chunks (conditional_depth (chunk_op c) depth) cs
      else chunk_data c = None \<and> canonical_chunks (conditional_depth (chunk_op c) depth) cs)"

lemma readPushdataLength_written:
  assumes opc: "0 < opc" "opc \<le> OP_PUSHDATA4" and ok: "push_ok opc (length d)"
    and bs: "bs = xs @ writeChunkData opc d @ ys"
  shows "readPushdataLength opc bs (length xs) (length bs)
    = (length d, length xs + (length (writeChunkData opc d) - length d), True)"
proof -
  have at: "byte_at bs (length xs + i) = writeChunkData opc d ! i" if "i < length (writeChunkData opc d)" for i
    using that by (simp add: bs byte_at_def nth_append)
  consider "opc < OP_PUSHDATA1" | "opc = OP_PUSHDATA1" | "opc = OP_PUSHDATA2" | "opc = OP_PUSHDATA4"
    using opc by linarith
  then show ?thesis
  proof cases
    case 1
    with ok opc show ?thesis by (simp add: readPushdataLength_def writeChunkData_eq push_ok_def)
  next
    case 2
    with ok have n: "length d < 256" by (simp add: push_ok_def)
    have "byte_at bs (length xs) = word_of_nat (length d)"
      using at[of 0] 2 by (simp add: writeChunkData_eq)
    with 2 n show ?thesis by (simp add: readPushdataLength_def writeChunkData_eq bs)
  next
    case 3
    with ok have n: "length d < 256 ^ 2" by (simp add: push_ok_def)
    have w: "writeChunkData opc d = le_bytes 2 (length d) @ d" using 3 by (simp add: writeChunkData_eq)
    have "[byte_at bs (length xs), byte_at bs (length xs + 1)] = le_bytes 2 (length d)"
      using at[of 0] at[of 1] by (simp add: w le_bytes_unfold)
    then have "le_nat [byte_at bs (length xs), byte_at bs (length xs + 1)] = length d"
      using le_nat_le_bytes_small[OF n] by metis
    then show ?thesis using 3 by (simp add: readPushdataLength_def or16 length_writeChunkData bs del: le_nat.simps)
  next
    case 4
    with ok have n: "length d < 256 ^ 4" by (simp add: push_ok_def)
    have w: "writeChunkData opc d = le_bytes 4 (length d) @ d" using 4 by (simp add: writeChunkData_eq)
    have "[byte_at bs (length xs), byte_at bs (length xs + 1), byte_at bs (length xs + 2),
        byte_at bs (length xs + 3)] = le_bytes 4 (length d)"
      using at[of 0] at[of 1] at[of 2] at[of 3] by (simp add: w le_bytes_unfold)
    then have "le_nat [byte_at bs (length xs), byte_at bs (length xs + 1), byte_at bs (length xs + 2),
        byte_at bs (length xs + 3)] = length d"
      using le_nat_le_bytes_small[OF n] by metis
    then show ?thesis using 4 by (simp add: readPushdataLength_def or32 length_writeChunkData bs del: le_nat.simps)
  qed
qed

lemma parse_from_serialize:
  "canonical_chunks depth cs \<Longrightarrow> bs = xs @ serialize_chunks cs \<Longrightarrow> parse_from bs (length xs) depth = cs"
proof (induction cs arbitrary: depth xs)
  case Nil
  then show ?case by (subst parse_from.simps) simp
next
  case (Cons c cs)
  define opc where "opc = chunk_op c"
  have op256: "opc < 256" and valid: "\<not> invalidLength c" using Cons.prems(1) by (simp_all add: opc_def)
  have at: "unat (byte_at bs (length xs)) = opc" and lt: "length xs < length bs"
    using Cons.prems(2) op256 by (simp_all add: opc_def byte_at_def nth_append)
  show ?case
  proof (cases "opc = OP_RETURN \<and> depth = 0")
    case True
    then obtain d where "c = push_chunk opc d" "cs = []"
      using Cons.prems(1) valid by (cases c) (auto simp: opc_def)
    then show ?thesis using True lt at Cons.prems(2)
      by (subst parse_from.simps) (simp add: Let_def copyRange_eq)
  next
    case nr: False
    show ?thesis
    proof (cases "0 < opc \<and> opc \<le> OP_PUSHDATA4")
      case True
      then obtain d where c: "c = push_chunk opc d" and ok: "push_ok opc (length d)"
        and rest: "canonical_chunks (conditional_depth opc depth) cs"
        using Cons.prems(1) nr valid by (cases c) (auto simp: opc_def split: option.splits)
      let ?w = "writeChunkData opc d"
      have bs: "bs = (xs @ [word_of_nat opc]) @ ?w @ serialize_chunks cs"
        using Cons.prems(2) True by (simp add: c)
      have r: "readPushdataLength opc bs (length xs + 1) (length bs)
          = (length d, length xs + 1 + (length ?w - length d), True)"
        using readPushdataLength_written[OF _ _ ok bs] True by simp
      have wlen: "length d \<le> length ?w" "drop (length ?w - length d) ?w = d"
        using True by (auto simp: writeChunkData_eq)
      let ?q = "length xs + 1 + (length ?w - length d)"
      have en: "min (?q + length d) (length bs) = length (xs @ word_of_nat opc # ?w)"
        using wlen(1) by (simp add: bs)
      have dat: "copyRange bs ?q (length (xs @ word_of_nat opc # ?w)) = d"
        using wlen by (simp add: copyRange_eq bs Suc_diff_le)
      have "parse_from bs (length (xs @ word_of_nat opc # ?w)) (conditional_depth opc depth) = cs"
        by (rule Cons.IH[OF rest]) (simp add: bs)
      then show ?thesis
        using lt at nr True r en dat wlen(1) c by (subst parse_from.simps) (simp add: Let_def)
    next
      case False
      then have c: "c = op_chunk opc" and rest: "canonical_chunks (conditional_depth opc depth) cs"
        using Cons.prems(1) nr valid by (cases c, auto simp: opc_def)+
      have bs: "bs = (xs @ [word_of_nat opc]) @ serialize_chunks cs"
        using Cons.prems(2) by (simp add: c)
      have "parse_from bs (length (xs @ [word_of_nat opc])) (conditional_depth opc depth) = cs"
        by (rule Cons.IH[OF rest bs])
      then show ?thesis
        using lt at nr False c by (subst parse_from.simps) (auto simp: Let_def)
    qed
  qed
qed

lemma parseChunks_serialize: "canonical_chunks 0 cs \<Longrightarrow> parseChunks (serialize_chunks cs) = cs"
  using parse_from_serialize[of 0 cs _ "[]"] by (simp add: parseChunks_def)

subsection \<open>Deleting\<close>

text \<open>
  A chunk matches a target exactly when it serialises to it, except for the empty \<open>PUSHDATA\<close>
  pushes, which the matcher takes for a bare opcode.
\<close>

lemma chunkMatchesBytes_iff:
  assumes "chunk_op c < 256" and "chunk_op c = OP_RETURN \<or> chunk_op c \<le> OP_PUSHDATA4 \<or> data_or_empty c = []"
    and "\<not> (OP_PUSHDATA1 \<le> chunk_op c \<and> chunk_op c \<le> OP_PUSHDATA4 \<and> data_or_empty c = [])"
  shows "chunkMatchesBytes c target \<longleftrightarrow> target = serialize_chunks [c]"
proof -
  define d where "d = data_or_empty c"
  have ser: "serialize_chunks [c] = word_of_nat (chunk_op c) #
      (if chunk_op c = OP_RETURN then d else writeChunkData (chunk_op c) d)"
    using assms(2,3) by (auto simp: d_def data_or_empty_def writeChunkData_eq split: option.splits)
  have m: "chunkMatchesBytes c target \<longleftrightarrow> target = map word_of_nat p @ d"
    if p: "serializedChunkPrefix c = Some p" "list_all (\<lambda>n. n < 256) p" for p
  proof -
    have id: "map unat (map word_of_nat p :: bytes) = p"
      unfolding map_map by (rule map_idI) (use p(2) in \<open>auto simp: list_all_iff\<close>)
    have "map unat xs = p \<Longrightarrow> xs = map word_of_nat p" for xs :: bytes
      by (auto simp: map_idI)
    then show ?thesis
      unfolding chunkMatchesBytes_def p(1) option.case d_def [symmetric]
      by (metis append_eq_conv_conj id length_append length_map)
  qed
  show ?thesis
  proof (cases "d = [] \<or> chunk_op c = OP_RETURN \<or> chunk_op c < OP_PUSHDATA1")
    case True
    then have "serializedChunkPrefix c = Some [chunk_op c]"
      by (auto simp: serializedChunkPrefix_def d_def Let_def)
    from m[OF this] assms True show ?thesis
      unfolding ser by (auto simp: writeChunkData_eq d_def)
  next
    case False
    then consider "chunk_op c = OP_PUSHDATA1" | "chunk_op c = OP_PUSHDATA2" | "chunk_op c = OP_PUSHDATA4"
      using assms(2) unfolding d_def by linarith
    then show ?thesis
    proof cases
      case 1
      then have "serializedChunkPrefix c = Some [chunk_op c, unat (js_byte (int (length d)) 0)]"
        using False by (simp add: serializedChunkPrefix_def d_def Let_def)
      from m[OF this] 1 False show ?thesis
        unfolding ser by (simp add: writeChunkData_def Let_def)
    next
      case 2
      then have "serializedChunkPrefix c = Some [chunk_op c, unat (js_byte (int (length d)) 0), unat (js_byte (int (length d)) 8)]"
        using False by (simp add: serializedChunkPrefix_def d_def Let_def)
      from m[OF this] 2 False show ?thesis
        unfolding ser by (simp add: writeChunkData_def Let_def)
    next
      case 3
      then have "serializedChunkPrefix c = Some [chunk_op c, unat (js_byte (int (length d)) 0), unat (js_byte (int (length d)) 8),
          unat (js_byte (int (length d)) 16), unat (js_byte (int (length d)) 24)]"
        using False by (simp add: serializedChunkPrefix_def d_def Let_def)
      from m[OF this] 3 False show ?thesis
        unfolding ser by (simp add: writeChunkData_def Let_def)
    qed
  qed
qed

lemma delete_matching_filter: "delete_matching cs target = filter (\<lambda>c. \<not> chunkMatchesBytes c target) cs"
  by (induction cs) simp_all

lemma copyRange_append: "a \<le> q \<Longrightarrow> q \<le> e \<Longrightarrow> copyRange bs a q @ copyRange bs q e = copyRange bs a e"
  by (rule nth_equalityI) (auto simp: copyRange_def nth_append add.commute)

lemma copyRange_one: "copyRange bs p (Suc p) = [byte_at bs p]"
  by (simp add: copyRange_def)

text \<open>Where no top-level \<open>OP_RETURN\<close> ends the script, byte deletion is chunk deletion.\<close>

lemma remove_from_filter:
  assumes "opcode > OP_PUSHDATA4 \<or> opcode = 0"
  shows "p \<le> length bs \<Longrightarrow> list_all (\<lambda>c. \<not> invalidLength c \<and> (chunk_op c = OP_RETURN \<longrightarrow> chunk_data c = None))
      (parse_from bs p depth) \<Longrightarrow>
    remove_from opcode bs p = serialize_chunks (filter (\<lambda>c. chunk_op c \<noteq> opcode) (parse_from bs p depth))"
proof (induction bs p depth rule: parse_from.induct)
  case (1 bs p depth)
  let ?op = "unat (byte_at bs p)"
  show ?case
  proof (cases "p < length bs")
    case False
    then have "parse_from bs p depth = []" "remove_from opcode bs p = []"
      by (simp_all add: parse_from.simps [of bs p depth] remove_from.simps [of opcode bs p])
    then show ?thesis by simp
  next
    case lt: True
    have nr: "\<not> (?op = OP_RETURN \<and> depth = 0)"
    proof
      assume "?op = OP_RETURN \<and> depth = 0"
      then have "parse_from bs p depth = [push_chunk ?op (drop (p + 1) bs)]"
        using lt by (subst parse_from.simps) (simp add: Let_def copyRange_self)
      with "1.prems"(2) \<open>?op = OP_RETURN \<and> depth = 0\<close> show False by simp
    qed
    show ?thesis
    proof (cases "0 < ?op \<and> ?op \<le> OP_PUSHDATA4")
      case True
      obtain len q h where r: "readPushdataLength ?op bs (p + 1) (length bs) = (len, q, h)"
        by (cases "readPushdataLength ?op bs (p + 1) (length bs)")
      let ?en = "min (q + len) (length bs)"
      let ?rest = "parse_from bs ?en (conditional_depth ?op depth)"
      have step: "parse_from bs p depth = \<lparr>chunk_op = ?op, chunk_data = Some (copyRange bs q ?en),
          invalidLength = (\<not> h \<or> ?en - q \<noteq> len)\<rparr> # ?rest"
        using lt nr True r by (simp add: parse_from.simps [of bs p depth] Let_def)
      have v: "h" "?en - q = len" using "1.prems"(2) unfolding step by simp_all
      have q: "p + 1 \<le> q" "q \<le> length bs" using readPushdataLength_ge[OF r] lt by simp_all
      have IH: "remove_from opcode bs ?en = serialize_chunks (filter (\<lambda>c. chunk_op c \<noteq> opcode) ?rest)"
        using "1.IH"(1)[OF lt refl nr True r [symmetric] refl refl] "1.prems"(2) unfolding step by simp
      have w: "writeChunkData ?op (copyRange bs q ?en) = copyRange bs (p + 1) q @ copyRange bs q ?en"
        by (rule pushdata_length_bytes[OF r [unfolded eqTrueI[OF v(1)]]]) (use True v lt in simp_all)
      have "copyRange bs (p + 1) q @ copyRange bs q ?en = copyRange bs (p + 1) ?en"
        using q by (simp add: copyRange_append)
      moreover have "byte_at bs p # copyRange bs (p + 1) ?en = copyRange bs p ?en"
        using copyRange_append[of p "p + 1" ?en bs] q lt by (simp add: copyRange_one)
      moreover have "remove_from opcode bs p = copyRange bs p ?en @ remove_from opcode bs ?en"
        using lt True r assms by (subst remove_from.simps) (auto simp: Let_def)
      moreover have "?op \<noteq> opcode" using assms True by auto
      ultimately show ?thesis using True IH w by (simp add: step)
    next
      case False
      have step: "parse_from bs p depth = op_chunk ?op # parse_from bs (p + 1) (conditional_depth ?op depth)"
        using lt nr False by (subst parse_from.simps) (auto simp: Let_def)
      have "remove_from opcode bs (p + 1)
          = serialize_chunks (filter (\<lambda>c. chunk_op c \<noteq> opcode) (parse_from bs (p + 1) (conditional_depth ?op depth)))"
        using "1.IH"(2)[OF lt refl nr False] lt "1.prems"(2) by (simp add: step)
      moreover have "remove_from opcode bs p = (if ?op \<noteq> opcode then [word_of_nat ?op] else []) @ remove_from opcode bs (p + 1)"
        using lt False by (subst remove_from.simps) (auto simp: Let_def)
      ultimately show ?thesis by (simp add: step)
    qed
  qed
qed


subsection \<open>The caches of a script object\<close>

text \<open>
  What a script object maintains between calls: a cached
  hexadecimal string belongs to the cached bytes; and cached bytes are what the recorded
  chunk state serialises to, or the bytes it was parsed from.
\<close>

definition bytes_of_chunks :: "bytes \<Rightarrow> script_chunk list \<Rightarrow> bool" where
  "bytes_of_chunks b cs \<longleftrightarrow> b = serialize_chunks cs \<or>
     map (\<lambda>c. (chunk_op c, chunk_data c)) cs = map (\<lambda>c. (chunk_op c, chunk_data c)) (parseChunks b)"

definition script_ok :: "script \<Rightarrow> bool" where
  "script_ok s \<longleftrightarrow>
     (\<forall>h. sc_hex s = Some h \<longrightarrow> (\<exists>b. sc_raw s = Some b \<and> h = toHex b))
     \<and> (sc_parsed s \<longrightarrow> (\<forall>b cs. sc_raw s = Some b \<and> sc_state s = Some cs \<longrightarrow> bytes_of_chunks b cs))"

lemma script_ok_new [simp]: "script_ok (new_script cs)"
  by (simp add: script_ok_def new_script_def)

lemma script_ok_fromBinary [simp]: "script_ok (script_fromBinary bs)"
  by (simp add: script_ok_def script_fromBinary_def)

lemma script_ok_fromHex: "script_fromHex hex = Inr s \<Longrightarrow> script_ok s"
  using toHex_hex_pairs[of hex]
  by (auto simp: script_fromHex_def script_ok_def hexToUint8Array_def assertValidHex_def
      script_fromBinary_def split: if_splits sum.splits)

lemma script_ok_invalidate: "script_ok (invalidateSerializationCaches s)"
  by (simp add: script_ok_def invalidateSerializationCaches_def)

lemma script_ok_ensureParsed: "script_ok s \<Longrightarrow> script_ok (ensureParsed s) \<and> sc_parsed (ensureParsed s)"
  by (auto simp: ensureParsed_def captureChunkCacheState_def script_ok_def bytes_of_chunks_def
      split: option.splits)

lemma script_ok_edit: "script_ok s \<Longrightarrow> script_ok (s\<lparr>sc_chunks := cs\<rparr>)"
  by (simp add: script_ok_def)

text \<open>
  Serialising never fails, keeps the invariant and the chunks, and returns bytes of the
  current chunks: no cached bytes survive an edit.
\<close>

lemma bytes_of_chunks_cong:
  assumes "map (\<lambda>c. (chunk_op c, chunk_data c)) cs = map (\<lambda>c. (chunk_op c, chunk_data c)) ds"
  shows "serialize_chunks cs = serialize_chunks ds"
  using assms
proof (induction cs arbitrary: ds)
  case (Cons c cs)
  then obtain d es where ds: "ds = d # es" by (cases ds) auto
  with Cons.prems have c: "chunk_op c = chunk_op d" "chunk_data c = chunk_data d"
    and m: "map (\<lambda>c. (chunk_op c, chunk_data c)) cs = map (\<lambda>c. (chunk_op c, chunk_data c)) es"
    by simp_all
  show ?case unfolding ds serialize_chunks.simps c Cons.IH[OF m] ..
qed simp

lemma getSerializedBytes_ok:
  assumes "script_ok s"
  obtains b t where "getSerializedBytes s = (Inr b, t)" "script_ok t" "sc_raw t = Some b"
    "sc_chunks (ensureParsed t) = sc_chunks (ensureParsed s)"
    "bytes_of_chunks b (sc_chunks (ensureParsed s))"
proof (cases "if sc_parsed s then None else sc_raw s")
  case (Some raw)
  then have "\<not> sc_parsed s" "sc_raw s = Some raw" by (auto split: if_splits)
  then show ?thesis
    using that[of raw s] assms
    by (simp add: getSerializedBytes_def ensureParsed_def captureChunkCacheState_def bytes_of_chunks_def)
next
  case None
  let ?s = "ensureParsed s"
  have ok: "script_ok ?s" "sc_parsed ?s" using script_ok_ensureParsed[OF assms] by blast+
  have same: "ensureParsed ?s = ?s" using ok(2) by (simp add: ensureParsed_def)
  show ?thesis
  proof (cases "if chunkCacheMatchesState ?s then sc_raw ?s else None")
    case (Some raw)
    then obtain cs where m: "sc_raw ?s = Some raw" "sc_state ?s = Some cs"
      "map (\<lambda>c. (chunk_op c, chunk_data c)) cs = map (\<lambda>c. (chunk_op c, chunk_data c)) (sc_chunks ?s)"
      by (auto simp: chunkCacheMatchesState_def split: if_splits option.splits)
    then have "bytes_of_chunks raw cs" using ok by (auto simp: script_ok_def)
    then have "bytes_of_chunks raw (sc_chunks ?s)"
      using m(3) bytes_of_chunks_cong[OF m(3)] by (auto simp: bytes_of_chunks_def)
    moreover have "getSerializedBytes s = (Inr raw, ?s)"
      unfolding getSerializedBytes_def Let_def None Some by simp
    ultimately show ?thesis using that[of raw ?s] ok m(1) same by simp
  next
    case none: None
    let ?b = "serialize_chunks (sc_chunks ?s)"
    let ?t = "captureChunkCacheState (?s\<lparr>sc_raw := Some ?b, sc_hex := None\<rparr>)"
    have "getSerializedBytes s = (Inr ?b, ?t)"
      unfolding getSerializedBytes_def Let_def None none by simp
    moreover have "script_ok ?t" "sc_raw ?t = Some ?b" "sc_parsed ?t"
      using ok(2) by (simp_all add: script_ok_def captureChunkCacheState_def bytes_of_chunks_def)
    moreover have "ensureParsed ?t = ?t" using \<open>sc_parsed ?t\<close> by (simp add: ensureParsed_def)
    moreover have "sc_chunks ?t = sc_chunks ?s" by (simp add: captureChunkCacheState_def)
    ultimately show ?thesis using that[of ?b ?t] by (simp add: bytes_of_chunks_def)
  qed
qed

text \<open>Every operation keeps the invariant.\<close>

lemma keeps_getSerializedBytes [keeps_intros]: "keeps script_ok getSerializedBytes"
proof (rule keepsI)
  fix s
  assume "script_ok s"
  then obtain b t where "getSerializedBytes s = (Inr b, t)" "script_ok t"
    by (rule getSerializedBytes_ok)
  then show "script_ok (snd (getSerializedBytes s))" by simp
qed

lemma keeps_get_chunks [keeps_intros]: "keeps script_ok get_chunks"
  unfolding get_chunks_def
  by (intro keeps_intros keeps_modify) (simp add: script_ok_ensureParsed)

lemma keeps_update_chunks [keeps_intros]: "keeps script_ok (update_chunks f)"
  unfolding update_chunks_def
  by (intro keeps_intros keeps_modify) (simp_all add: script_ok_ensureParsed script_ok_edit)


lemma keeps_invalidate [keeps_intros]: "keeps script_ok (modify invalidateSerializationCaches)"
  by (intro keeps_modify) (rule script_ok_invalidate)

lemma keeps_set_chunks_to [keeps_intros]: "keeps script_ok (set_chunks_to cs)"
  unfolding set_chunks_to_def by (intro keeps_modify) (rule script_ok_invalidate)

lemma keeps_writeScript [keeps_intros]: "keeps script_ok (writeScript cs)"
  unfolding writeScript_def by (intro keeps_intros)

lemma keeps_writeOpCode [keeps_intros]: "keeps script_ok (writeOpCode opc)"
  unfolding writeOpCode_def by (intro keeps_intros)

lemma keeps_setChunkOpCode [keeps_intros]: "keeps script_ok (setChunkOpCode i opc)"
  unfolding setChunkOpCode_def by (intro keeps_intros)

lemma keeps_writeBin [keeps_intros]: "keeps script_ok (writeBin b)"
  unfolding writeBin_def Let_def by (intro keeps_intros)

lemma keeps_writeBn [keeps_intros]: "keeps script_ok (writeBn bn)"
  unfolding writeBn_def Let_def by (intro keeps_intros)

lemma keeps_writeNumber [keeps_intros]: "keeps script_ok (writeNumber n)"
  unfolding writeNumber_def by (intro keeps_intros)

lemma keeps_removeCodeseparators [keeps_intros]: "keeps script_ok removeCodeseparators"
  unfolding removeCodeseparators_def toUint8Array_def
  by (intro keeps_intros keeps_modify) (simp add: script_ok_def)

lemma keeps_findAndDelete [keeps_intros]: "keeps script_ok (findAndDelete t)"
  unfolding findAndDelete_def by (intro keeps_intros)

lemma keeps_script_toHex [keeps_intros]: "keeps script_ok script_toHex"
proof (rule keepsI)
  fix s
  assume "script_ok s"
  then obtain b t where g: "getSerializedBytes s = (Inr b, t)" and t: "script_ok t" "sc_raw t = Some b"
    by (rule getSerializedBytes_ok)
  then show "script_ok (snd (script_toHex s))"
    by (auto simp: script_toHex_def script_ok_def split: option.split)
qed

text \<open>The text form is the text of the bytes.\<close>

lemma script_toHex_bytes:
  assumes "script_ok s" "getSerializedBytes s = (Inr b, t)"
  shows "fst (script_toHex s) = Inr (toHex b)"
proof -
  obtain b' t' where g: "getSerializedBytes s = (Inr b', t')" "script_ok t'" "sc_raw t' = Some b'"
    using getSerializedBytes_ok[OF assms(1)] by metis
  with assms(2) have "b' = b" "t' = t" by simp_all
  with g show ?thesis by (auto simp: script_toHex_def script_ok_def split: option.split)
qed

text \<open>What the write operations do to the chunks.\<close>

lemma writeOpCode_eager:
  "sc_parsed s \<Longrightarrow> writeOpCode opc s =
     (Inr (), s\<lparr>sc_chunks := sc_chunks s @ [op_chunk opc], sc_raw := None, sc_hex := None, sc_state := None\<rparr>)"
  by (simp add: writeOpCode_def update_chunks_def invalidateSerializationCaches_def ensureParsed_def
      act_simps)

text \<open>
  The cached bytes are dropped before the chunks are parsed from them, so a write to a
  script that was built from bytes and not parsed yet starts from an empty chunk list.
\<close>

lemma writeOpCode_lazy:
  "\<not> sc_parsed s \<Longrightarrow> sc_chunks (snd (writeOpCode opc s)) = [op_chunk opc]"
  by (simp add: writeOpCode_def update_chunks_def invalidateSerializationCaches_def ensureParsed_def
      captureChunkCacheState_def act_simps)

lemma writeOpCode_fromBinary:
  "fst (bnd (writeOpCode opc) (\<lambda>_. script_toBinary) (script_fromBinary bs)) = Inr [word_of_nat opc]"
  by (simp add: writeOpCode_def update_chunks_def invalidateSerializationCaches_def ensureParsed_def
      captureChunkCacheState_def act_simps script_fromBinary_def script_toBinary_def toUint8Array_def
      getSerializedBytes_def chunkCacheMatchesState_def Let_def)

lemma writeOpCode_new:
  "fst (bnd (writeOpCode opc) (\<lambda>_. script_toBinary) (new_script cs))
   = Inr (serialize_chunks (cs @ [op_chunk opc]))"
  by (simp add: writeOpCode_eager new_script_def act_simps script_toBinary_def toUint8Array_def
      getSerializedBytes_def chunkCacheMatchesState_def ensureParsed_def Let_def)

subsection \<open>ASM\<close>

text \<open>The text of a top-level \<open>OP_RETURN\<close> with data is the data alone.\<close>

lemma toASM_op_return:
  "fst (toASM (script_fromBinary (0x6a # d))) = Inr (toHex d)"
proof -
  have "parseChunks (0x6a # d) = [push_chunk OP_RETURN d]"
    unfolding parseChunks_def by (subst parse_from.simps) (simp add: byte_at_def copyRange_eq Let_def)
  then show ?thesis
    by (simp add: toASM_def get_chunks_def act_simps ensureParsed_def captureChunkCacheState_def
        script_fromBinary_def chunkToString_def)
qed

subsection \<open>Scripts a caller can reach\<close>

text \<open>
  The public methods that change a script, as one step: a script is reachable when it is built by a
  constructor and then edited or serialised by any sequence of them, and by writes to its chunk
  array that keep the cached state, which the getter hands out.
\<close>

datatype script_call =
    CallSetChunks "script_chunk list" | CallWriteScript "script_chunk list" | CallWriteOpCode nat
  | CallSetChunkOpCode nat nat | CallWriteBin bytes | CallWriteBn big_number | CallWriteNumber int
  | CallRemoveCodeseparators | CallFindAndDelete bytes | CallToHex | CallToBinary | CallGetChunks

fun run_call :: "script_call \<Rightarrow> script \<Rightarrow> script" where
  "run_call (CallSetChunks cs) s = snd (set_chunks_to cs s)"
| "run_call (CallWriteScript cs) s = snd (writeScript cs s)"
| "run_call (CallWriteOpCode opc) s = snd (writeOpCode opc s)"
| "run_call (CallSetChunkOpCode i opc) s = snd (setChunkOpCode i opc s)"
| "run_call (CallWriteBin b) s = snd (writeBin b s)"
| "run_call (CallWriteBn bn) s = snd (writeBn bn s)"
| "run_call (CallWriteNumber n) s = snd (writeNumber n s)"
| "run_call CallRemoveCodeseparators s = snd (removeCodeseparators s)"
| "run_call (CallFindAndDelete t) s = snd (findAndDelete t s)"
| "run_call CallToHex s = snd (script_toHex s)"
| "run_call CallToBinary s = snd (getSerializedBytes s)"
| "run_call CallGetChunks s = snd (get_chunks s)"

inductive reachable_script :: "script \<Rightarrow> bool" where
  built: "reachable_script (new_script cs)"
| binary: "reachable_script (script_fromBinary bs)"
| hex: "script_fromHex h = Inr s \<Longrightarrow> reachable_script s"
| asm: "fromASM a = Inr s \<Longrightarrow> reachable_script s"
| call: "reachable_script s \<Longrightarrow> reachable_script (run_call c s)"
| edit: "reachable_script s \<Longrightarrow> reachable_script (s\<lparr>sc_chunks := cs\<rparr>)"

lemma run_call_ok: "script_ok s \<Longrightarrow> script_ok (run_call c s)"
  by (cases c) (auto intro!: keeps_snd keeps_intros)

lemma fromASM_new: "fromASM a = Inr s \<Longrightarrow> \<exists>cs. s = new_script cs"
  by (auto simp: fromASM_def split: sum.splits)

lemma reachable_script_ok: "reachable_script s \<Longrightarrow> script_ok s"
  by (induction rule: reachable_script.induct)
     (auto simp: script_ok_fromHex run_call_ok script_ok_edit dest: fromASM_new)

subsection \<open>Properties\<close>

text \<open>C30: Parsing recovers every canonical chunk list from its serialisation: opcodes, pushed data with
  its length prefix, and the data after a top-level \<open>OP_RETURN\<close>.\<close>

theorem parse_after_serialize:
  assumes "canonical_chunks 0 cs"
  shows "parseChunks (serialize_chunks cs) = cs"
  by (rule parseChunks_serialize[OF assms])

lemma parse_after_serialize_witness:
  "parseChunks (serialize_chunks [op_chunk OP_DUP,
      \<lparr>chunk_op = 2, chunk_data = Some [1, 2], invalidLength = False\<rparr>, op_chunk OP_CHECKSIG])
   = [op_chunk OP_DUP, \<lparr>chunk_op = 2, chunk_data = Some [1, 2], invalidLength = False\<rparr>, op_chunk OP_CHECKSIG]"
  by (rule parse_after_serialize) (simp add: push_ok_def conditional_depth_def)

text \<open>C31: Serialising a parsed script gives its bytes back whenever no push of it runs past the end.\<close>

theorem serialize_after_parse:
  assumes "valid_pushes (parseChunks bs)"
  shows "serialize_chunks (parseChunks bs) = bs"
  by (rule serialize_parseChunks[OF assms])

lemma serialize_after_parse_witness:
  "valid_pushes (parseChunks [0x76, 0x02, 0xaa, 0xbb, 0xac]) \<and>
   serialize_chunks (parseChunks [0x76, 0x02, 0xaa, 0xbb, 0xac]) = [0x76, 0x02, 0xaa, 0xbb, 0xac]"
proof -
  have "valid_pushes (parseChunks [0x76, 0x02, 0xaa, 0xbb, 0xac])" by code_simp
  then show ?thesis using serialize_after_parse by blast
qed



text \<open>\<open>findAndDelete\<close> on a parsed script keeps, in order, exactly the chunks whose serialisation is
  not the target, for chunks as the parser makes them but empty \<open>PUSHDATA\<close> pushes.\<close>

theorem findAndDelete_filters:
  assumes "sc_parsed s" "target \<noteq> []"
    and "list_all (\<lambda>c. chunk_op c < 256 \<and> (chunk_op c = OP_RETURN \<or> chunk_op c \<le> OP_PUSHDATA4 \<or> data_or_empty c = [])
          \<and> \<not> (OP_PUSHDATA1 \<le> chunk_op c \<and> chunk_op c \<le> OP_PUSHDATA4 \<and> data_or_empty c = [])) (sc_chunks s)"
  shows "fst (findAndDelete target s) = Inr () \<and>
    sc_chunks (snd (findAndDelete target s)) = filter (\<lambda>c. serialize_chunks [c] \<noteq> target) (sc_chunks s)"
proof -
  have "filter (\<lambda>c. \<not> chunkMatchesBytes c target) (sc_chunks s)
      = filter (\<lambda>c. serialize_chunks [c] \<noteq> target) (sc_chunks s)"
    using assms(3) by (intro filter_cong refl) (auto simp: list_all_iff chunkMatchesBytes_iff)
  with assms(1,2) show ?thesis
    by (simp add: findAndDelete_def update_chunks_def invalidateSerializationCaches_def ensureParsed_def
        delete_matching_filter act_simps)
qed

lemma findAndDelete_filters_witness:
  "sc_chunks (snd (findAndDelete [0xab] (new_script [op_chunk OP_DUP, op_chunk OP_CODESEPARATOR])))
   = [op_chunk OP_DUP]"
proof -
  have "sc_chunks (snd (findAndDelete [0xab] (new_script [op_chunk OP_DUP, op_chunk OP_CODESEPARATOR])))
      = filter (\<lambda>c. serialize_chunks [c] \<noteq> [0xab]) [op_chunk OP_DUP, op_chunk OP_CODESEPARATOR]"
    using findAndDelete_filters[of "new_script [op_chunk OP_DUP, op_chunk OP_CODESEPARATOR]" "[0xab]"]
    by (simp add: new_script_def data_or_empty_def)
  also have "\<dots> = [op_chunk OP_DUP]" by simp
  finally show ?thesis .
qed

text \<open>An opcode appended to a script built from chunks is serialised after them, but appended to a
  script made by \<open>fromBinary\<close> and not yet parsed it replaces the whole content: invalidating the
  caches drops the raw bytes before they are parsed.\<close>

theorem write_to_lazy_script_loses_bytes:
  "fst (bnd (writeOpCode opc) (\<lambda>_. script_toBinary) (new_script cs)) = Inr (serialize_chunks (cs @ [op_chunk opc]))
   \<and> fst (bnd (writeOpCode opc) (\<lambda>_. script_toBinary) (script_fromBinary bs)) = Inr [word_of_nat opc]"
  using writeOpCode_new writeOpCode_fromBinary by blast

text \<open>The assembly of a script that is a top-level \<open>OP_RETURN\<close> followed by data is the data alone: the
  opcode is lost.\<close>

theorem asm_of_op_return_loses_opcode:
  "fst (toASM (script_fromBinary (0x6a # d))) = Inr (toHex d)"
  by (rule toASM_op_return)

end
