(* ===== verification/Transaction_Codec.thy ===== *)
theory Transaction_Codec
  imports Script Writer_Uint8
begin

text \<open>
  Transactions, \<open>packages/sdk/src/transaction/Transaction.ts\<close>: the value checks, the wire and
  extended formats (\<open>fromReader\<close>, \<open>fromBinary\<close>, \<open>toBinary\<close>, \<open>fromEF\<close>, \<open>toEF\<close>,
  \<open>parseScriptOffsets\<close>), the identifier, the mutators and the fee arithmetic.

  A script is its byte string here (its object is in \<open>Script\<close>); an output slot may be
  \<open>null\<close>, because \<open>fromEF\<close> fills the outputs of a source transaction that way. The double
  SHA-256 is the parameter \<open>h\<close>. The memoised bytes and their invalidation, metadata,
  unlocking templates and Merkle paths are not part of this model.
\<close>

subsection \<open>Data\<close>

record tx_output =
  satoshis :: "int option"
  lockingScript :: bytes
  change :: bool

datatype transaction =
  Transaction (tx_version: int) (tx_inputs: "tx_input list") (tx_outputs: "tx_output option list")
    (tx_lockTime: int)
and tx_input =
  TxInput (in_sourceTransaction: "transaction option") (in_sourceTXID: "string option")
    (in_sourceOutputIndex: int) (in_unlockingScript: "bytes option") (in_sequence: "int option")

subsection \<open>Value checks\<close>

abbreviation MAX_SATOSHIS :: int where
  "MAX_SATOSHIS \<equiv> 2100000000000000"

text \<open>\<open>None\<close> is \<open>undefined\<close>.\<close>

definition requireSatoshiAmount :: "int option \<Rightarrow> string \<Rightarrow> js_error + int" where
  "requireSatoshiAmount v label =
     (case v of Some n \<Rightarrow>
        if \<bar>n\<bar> > int max_safe_integer \<or> n < 0 \<or> n > MAX_SATOSHIS
        then Inl (JsRangeError (label @ '' must be a non-negative safe integer no greater than 21e14.''))
        else Inr n
      | None \<Rightarrow> Inl (JsRangeError (label @ '' must be a non-negative safe integer no greater than 21e14.'')))"

definition addSatoshiAmount :: "int \<Rightarrow> int \<Rightarrow> string \<Rightarrow> js_error + int" where
  "addSatoshiAmount acc v label =
     (let s = acc + v
      in if \<bar>s\<bar> > int max_safe_integer \<or> s > MAX_SATOSHIS
         then Inl (JsRangeError (label @ '' exceeds the maximum valid monetary range.'')) else Inr s)"

definition requireUInt32 :: "int \<Rightarrow> string \<Rightarrow> js_error + int" where
  "requireUInt32 v label =
     (if v < 0 \<or> v > 0xffffffff
      then Inl (JsRangeError (label @ '' must be an unsigned 32-bit integer.'')) else Inr v)"

definition requireTXID :: "string \<Rightarrow> string \<Rightarrow> js_error + string" where
  "requireTXID v label =
     (if \<not> (length v = 64 \<and> list_all is_hex_char v)
      then Inl (JsTypeError (label @ '' must be a 32-byte hexadecimal transaction ID.''))
      else Inr (map lower_char v))"

subsection \<open>Serialising\<close>

definition run_wb :: "wb \<Rightarrow> js_error + bytes" where
  "run_wb m = (case new_wbuf [] 256 of Inl e \<Rightarrow> Inl e
     | Inr w \<Rightarrow> (case m w of (Inl e, w') \<Rightarrow> Inl e | (Inr u, w') \<Rightarrow> Inr (wb_toUint8Array w')))"

definition write_script :: "bytes \<Rightarrow> wb" where
  "write_script scriptBin = thn (wb_writeVarIntNum (int (length scriptBin))) (wb_write scriptBin)"

fun write_outputs :: "tx_output option list \<Rightarrow> wb" where
  "write_outputs [] = ret ()"
| "write_outputs (None # os) = throw (JsTypeError ''Cannot read properties of null (reading 'satoshis')'')"
| "write_outputs (Some o1 # os) =
     thn (wb_writeUInt64LE (case satoshis o1 of None \<Rightarrow> 0 | Some n \<Rightarrow> n))
       (thn (write_script (lockingScript o1)) (write_outputs os))"

text \<open>\<open>writeTransactionBody\<close>; an input with no TXID hashes its source transaction.\<close>

fun write_body :: "(bytes \<Rightarrow> bytes) \<Rightarrow> transaction \<Rightarrow> wb"
  and write_inputs :: "(bytes \<Rightarrow> bytes) \<Rightarrow> tx_input list \<Rightarrow> wb"
  and write_source :: "(bytes \<Rightarrow> bytes) \<Rightarrow> transaction option \<Rightarrow> string option \<Rightarrow> wb" where
  "write_body h (Transaction v ins outs lt) =
     thn (wb_writeUInt32LE v)
       (thn (wb_writeVarIntNum (int (length ins)))
         (thn (write_inputs h ins)
           (thn (wb_writeVarIntNum (int (length outs)))
             (thn (write_outputs outs) (wb_writeUInt32LE lt)))))"
| "write_inputs h [] = ret ()"
| "write_inputs h (TxInput src txid idx unlocking sq # rest) =
     thn (write_source h src txid)
       (thn (bnd (lift_result (requireUInt32 idx ''sourceOutputIndex'')) wb_writeUInt32LE)
         (thn (case unlocking of None \<Rightarrow> throw (JsError ''unlockingScript is undefined'')
               | Some scriptBin \<Rightarrow> write_script scriptBin)
           (thn (bnd (lift_result (requireUInt32 (case sq of None \<Rightarrow> 0xffffffff | Some n \<Rightarrow> n) ''sequence''))
                   wb_writeUInt32LE)
             (write_inputs h rest))))"
| "write_source h src None =
     (case src of None \<Rightarrow> throw (JsError ''sourceTransaction is undefined'')
      | Some t \<Rightarrow> (case run_wb (write_body h t) of Inl e \<Rightarrow> throw e | Inr bs \<Rightarrow> wb_write (h bs)))"
| "write_source h src (Some txid) =
     bnd (lift_result (requireTXID txid ''sourceTXID'')) (\<lambda>lower.
       bnd (lift_result (hexToArray lower)) wb_writeReverse)"

definition tx_toBinary :: "(bytes \<Rightarrow> bytes) \<Rightarrow> transaction \<Rightarrow> js_error + bytes" where
  "tx_toBinary h t = run_wb (write_body h t)"

definition tx_hash :: "(bytes \<Rightarrow> bytes) \<Rightarrow> transaction \<Rightarrow> js_error + bytes" where
  "tx_hash h t = (case tx_toBinary h t of Inl e \<Rightarrow> Inl e | Inr bs \<Rightarrow> Inr (h bs))"

definition tx_id :: "(bytes \<Rightarrow> bytes) \<Rightarrow> transaction \<Rightarrow> js_error + bytes" where
  "tx_id h t = (case tx_hash h t of Inl e \<Rightarrow> Inl e | Inr d \<Rightarrow> Inr (rev d))"

definition tx_id_hex :: "(bytes \<Rightarrow> bytes) \<Rightarrow> transaction \<Rightarrow> js_error + string" where
  "tx_id_hex h t = (case tx_id h t of Inl e \<Rightarrow> Inl e | Inr d \<Rightarrow> Inr (toHex d))"

subsection \<open>Parsing\<close>

definition read_script :: "bytes rd" where
  "read_script = bnd (readVarIntNumStrict False) rd_read"

definition read_input :: "tx_input rd" where
  "read_input = bnd (readReverse 32) (\<lambda>d. bnd readUInt32LE (\<lambda>idx. bnd read_script (\<lambda>scriptBin.
     bnd readUInt32LE (\<lambda>sq. ret (TxInput None (Some (toHex d)) idx (Some scriptBin) (Some sq))))))"

definition read_output :: "tx_output rd" where
  "read_output = bnd readUInt64LEBn (\<lambda>bn. bnd (lift_result (bn_toNumber bn)) (\<lambda>n.
     bnd read_script (\<lambda>scriptBin.
       ret \<lparr>satoshis = Some n, lockingScript = scriptBin, change = False\<rparr>)))"

definition tx_fromReader :: "transaction rd" where
  "tx_fromReader = bnd readUInt32LE (\<lambda>v.
     bnd (readVarIntNumStrict False) (\<lambda>n. bnd (rd_times (nat n) read_input) (\<lambda>ins.
       bnd (readVarIntNumStrict False) (\<lambda>m. bnd (rd_times (nat m) read_output) (\<lambda>outs.
         bnd readUInt32LE (\<lambda>lt. ret (Transaction v ins (map Some outs) lt)))))))"

definition tx_fromBinary :: "bytes \<Rightarrow> js_error + transaction" where
  "tx_fromBinary bs =
     (case new_reader bs 0 of Inl e \<Rightarrow> Inl e
      | Inr r \<Rightarrow> (case tx_fromReader r of (Inl e, r') \<Rightarrow> Inl e
         | (Inr t, r') \<Rightarrow> if eof r' then Inr t
                          else Inl (JsError ''Serialized transaction contains trailing data'')))"

definition tx_fromHex :: "string \<Rightarrow> js_error + transaction" where
  "tx_fromHex hex = (case hexToUint8Array hex of Inl e \<Rightarrow> Inl e | Inr bs \<Rightarrow> tx_fromBinary bs)"

text \<open>\<open>parseScriptOffsets\<close>: index, offset and length of every script, without building the scripts.\<close>

fun input_offsets :: "nat \<Rightarrow> nat \<Rightarrow> (nat \<times> nat \<times> int) list rd" where
  "input_offsets 0 i = ret []"
| "input_offsets (Suc n) i =
     thn (rd_read 36) (bnd (readVarIntNumStrict False) (\<lambda>len. bnd (get pos) (\<lambda>p.
       thn (rd_read (len + 4)) (bnd (input_offsets n (i + 1)) (\<lambda>xs. ret ((i, p, len) # xs))))))"

fun output_offsets :: "nat \<Rightarrow> nat \<Rightarrow> (nat \<times> nat \<times> int) list rd" where
  "output_offsets 0 i = ret []"
| "output_offsets (Suc n) i =
     thn (rd_read 8) (bnd (readVarIntNumStrict False) (\<lambda>len. bnd (get pos) (\<lambda>p.
       thn (rd_read len) (bnd (output_offsets n (i + 1)) (\<lambda>xs. ret ((i, p, len) # xs))))))"

type_synonym offsets = "(nat \<times> nat \<times> int) list"

definition offsets_reader :: "(offsets \<times> offsets) rd" where
  "offsets_reader =
     thn (rd_read 4) (bnd (readVarIntNumStrict False) (\<lambda>n. bnd (input_offsets (nat n) 0) (\<lambda>ins.
       bnd (readVarIntNumStrict False) (\<lambda>m. bnd (output_offsets (nat m) 0) (\<lambda>outs.
         thn (rd_read 4) (ret (ins, outs)))))))"

definition parseScriptOffsets :: "bytes \<Rightarrow> js_error + (offsets \<times> offsets)" where
  "parseScriptOffsets bs =
     (case new_reader bs 0 of Inl e \<Rightarrow> Inl e
      | Inr r \<Rightarrow> (case offsets_reader r of (Inl e, r') \<Rightarrow> Inl e
          | (Inr x, r') \<Rightarrow> if eof r' then Inr x
                           else Inl (JsError ''Serialized transaction contains trailing data'')))"

subsection \<open>The extended format\<close>

abbreviation MAX_EF_SOURCE_OUTPUT_INDEX :: int where
  "MAX_EF_SOURCE_OUTPUT_INDEX \<equiv> 1000000"

definition read_ef_input :: "tx_input rd" where
  "read_ef_input = bnd (readReverse 32) (\<lambda>d. bnd readUInt32LE (\<lambda>idx.
     thn (throw_if (idx > MAX_EF_SOURCE_OUTPUT_INDEX)
            (JsRangeError ''EF source output index exceeds the allocation limit''))
      (bnd read_script (\<lambda>unlocking. bnd readUInt32LE (\<lambda>sq. bnd readUInt64LEBn (\<lambda>bn.
        bnd (lift_result (bn_toNumber bn)) (\<lambda>n. bnd read_script (\<lambda>locking.
          let src = Transaction 1 []
                (replicate (nat idx) None @ [Some \<lparr>satoshis = Some n, lockingScript = locking, change = False\<rparr>]) 0
          in ret (TxInput (Some src) (Some (toHex d)) idx (Some unlocking) (Some sq))))))))))"

definition ef_reader :: "transaction rd" where
  "ef_reader = bnd readUInt32LE (\<lambda>v. bnd (rd_read 6) (\<lambda>marker.
     thn (throw_if (toHex marker \<noteq> ''0000000000ef'') (JsError ''Invalid EF marker''))
      (bnd (readVarIntNumStrict False) (\<lambda>n. bnd (rd_times (nat n) read_ef_input) (\<lambda>ins.
        bnd (readVarIntNumStrict False) (\<lambda>m. bnd (rd_times (nat m) read_output) (\<lambda>outs.
          bnd readUInt32LE (\<lambda>lt. ret (Transaction v ins (map Some outs) lt)))))))))"

definition tx_fromEF :: "bytes \<Rightarrow> js_error + transaction" where
  "tx_fromEF bs =
     (case new_reader bs 0 of Inl e \<Rightarrow> Inl e
      | Inr r \<Rightarrow> (case ef_reader r of (Inl e, r') \<Rightarrow> Inl e
          | (Inr t, r') \<Rightarrow> if eof r' then Inr t
                           else Inl (JsError ''Serialized EF transaction contains trailing data'')))"

text \<open>\<open>outputs[i]\<close> of the source: \<open>undefined\<close> beyond the end, \<open>null\<close> in a filler slot.\<close>

definition source_output :: "transaction \<Rightarrow> int \<Rightarrow> tx_output option" where
  "source_output t i =
     (if 0 \<le> i \<and> nat i < length (tx_outputs t) then tx_outputs t ! nat i else None)"

fun write_ef_inputs :: "(bytes \<Rightarrow> bytes) \<Rightarrow> tx_input list \<Rightarrow> wb" where
  "write_ef_inputs h [] = ret ()"
| "write_ef_inputs h (TxInput src txid idx unlocking sq # rest) =
     (case src of
        None \<Rightarrow> throw (JsTypeError ''All inputs must have source transactions when serializing to EF format'')
      | Some t \<Rightarrow>
          thn (case txid of None \<Rightarrow> (case tx_hash h t of Inl e \<Rightarrow> throw e | Inr d \<Rightarrow> wb_write d)
               | Some x \<Rightarrow> bnd (lift_result (hexToArray x)) (\<lambda>d. wb_write (rev d)))
           (thn (wb_writeUInt32LE idx)
            (thn (case unlocking of None \<Rightarrow> throw (JsError ''unlockingScript is undefined'')
                  | Some scriptBin \<Rightarrow> write_script scriptBin)
             (thn (wb_writeUInt32LE (case sq of None \<Rightarrow> 0xffffffff | Some n \<Rightarrow> n))
              (thn (case source_output t idx of
                      None \<Rightarrow> throw (JsTypeError ''Cannot read properties of undefined (reading 'satoshis')'')
                    | Some o1 \<Rightarrow>
                        thn (wb_writeUInt64LE (case satoshis o1 of None \<Rightarrow> 0 | Some n \<Rightarrow> n))
                          (write_script (lockingScript o1)))
               (write_ef_inputs h rest))))))"

definition tx_toEF :: "(bytes \<Rightarrow> bytes) \<Rightarrow> transaction \<Rightarrow> js_error + bytes" where
  "tx_toEF h t = run_wb
     (thn (wb_writeUInt32LE (tx_version t))
       (thn (wb_write [0, 0, 0, 0, 0, 0xef])
         (thn (wb_writeVarIntNum (int (length (tx_inputs t))))
           (thn (write_ef_inputs h (tx_inputs t))
             (thn (wb_writeVarIntNum (int (length (tx_outputs t))))
               (thn (write_outputs (tx_outputs t)) (wb_writeUInt32LE (tx_lockTime t))))))))"

subsection \<open>Building\<close>

definition addInput :: "tx_input \<Rightarrow> transaction \<Rightarrow> js_error + transaction" where
  "addInput i t =
     (if in_sourceTXID i = None \<and> in_sourceTransaction i = None
      then Inl (JsTypeError ''A reference to an an input transaction is required. If the input transaction itself cannot be referenced, its TXID must still be provided.'')
      else case requireUInt32 (in_sourceOutputIndex i) ''sourceOutputIndex'' of Inl e \<Rightarrow> Inl e
      | Inr idx \<Rightarrow>
         (case (case in_sourceTXID i of None \<Rightarrow> Inr None
                | Some x \<Rightarrow> (case requireTXID x ''sourceTXID'' of Inl e \<Rightarrow> Inl e | Inr y \<Rightarrow> Inr (Some y))) of
            Inl e \<Rightarrow> Inl e
          | Inr txid \<Rightarrow>
             (case (case in_sequence i of None \<Rightarrow> Inr 0xffffffff | Some s \<Rightarrow> requireUInt32 s ''sequence'') of
                Inl e \<Rightarrow> Inl e
              | Inr sq \<Rightarrow>
                  Inr (Transaction (tx_version t)
                    (tx_inputs t @ [TxInput (in_sourceTransaction i) txid idx (in_unlockingScript i) (Some sq)])
                    (tx_outputs t) (tx_lockTime t)))))"

definition addOutput :: "tx_output \<Rightarrow> transaction \<Rightarrow> js_error + transaction" where
  "addOutput o1 t =
     (if satoshis o1 = None \<and> \<not> change o1
      then Inl (JsTypeError ''either satoshis must be defined or change must be set to true'')
      else case (case satoshis o1 of None \<Rightarrow> Inr 0 | Some n \<Rightarrow> requireSatoshiAmount (Some n) ''satoshis'') of
             Inl e \<Rightarrow> Inl e
           | Inr n \<Rightarrow> Inr (Transaction (tx_version t) (tx_inputs t) (tx_outputs t @ [Some o1]) (tx_lockTime t)))"

subsection \<open>The bytes of a plain transaction\<close>

text \<open>
  A plain transaction is one a parser can return: every input names its source by a
  32-byte lower-case TXID and carries its script and sequence number, every output its amount
  and script, and all numbers fit their fields.
\<close>

definition plain_txid :: "string \<Rightarrow> bytes \<Rightarrow> bool" where
  "plain_txid s d \<longleftrightarrow> length d = 32 \<and> s = toHex d"

fun valid_input :: "tx_input \<Rightarrow> bool" where
  "valid_input (TxInput src txid idx unlocking sq) \<longleftrightarrow>
     src = None \<and> (\<exists>d. length d = 32 \<and> txid = Some (toHex d)) \<and> 0 \<le> idx \<and> idx < 2 ^ 32
     \<and> (\<exists>b. unlocking = Some b \<and> length b \<le> max_safe_integer)
     \<and> (\<exists>n. sq = Some n \<and> 0 \<le> n \<and> n < 2 ^ 32)"

fun input_bytes :: "tx_input \<Rightarrow> bytes" where
  "input_bytes (TxInput src txid idx unlocking sq) =
     rev (hex_pairs (the txid)) @ le_bytes 4 (nat idx)
     @ (compact_size (length (the unlocking)) @ the unlocking) @ le_bytes 4 (nat (the sq))"

definition valid_output :: "tx_output \<Rightarrow> bool" where
  "valid_output o1 \<longleftrightarrow> (\<exists>n. satoshis o1 = Some n \<and> 0 \<le> n \<and> n \<le> int max_safe_integer)
     \<and> length (lockingScript o1) \<le> max_safe_integer \<and> \<not> change o1"

definition output_bytes :: "tx_output \<Rightarrow> bytes" where
  "output_bytes o1 = le_bytes 8 (nat (the (satoshis o1)))
     @ (compact_size (length (lockingScript o1)) @ lockingScript o1)"

definition plain_tx :: "transaction \<Rightarrow> bool" where
  "plain_tx t \<longleftrightarrow> 0 \<le> tx_version t \<and> tx_version t < 2 ^ 32 \<and> 0 \<le> tx_lockTime t \<and> tx_lockTime t < 2 ^ 32
     \<and> list_all valid_input (tx_inputs t) \<and> length (tx_inputs t) \<le> max_safe_integer
     \<and> (\<exists>os. tx_outputs t = map Some os \<and> list_all valid_output os) \<and> length (tx_outputs t) \<le> max_safe_integer"

definition tx_bytes :: "transaction \<Rightarrow> bytes" where
  "tx_bytes t = le_bytes 4 (nat (tx_version t))
     @ compact_size (length (tx_inputs t)) @ concat (map input_bytes (tx_inputs t))
     @ compact_size (length (tx_outputs t)) @ concat (map (\<lambda>o1. output_bytes (the o1)) (tx_outputs t))
     @ le_bytes 4 (nat (tx_lockTime t))"

subsection \<open>The field parsers\<close>

lemma parses_u32: "0 \<le> n \<Longrightarrow> n < 2 ^ 32 \<Longrightarrow> parses readUInt32LE n (le_bytes 4 (nat n))"
  by (rule u32.get_put) simp

lemma parses_length: "n \<le> max_safe_integer \<Longrightarrow> parses (readVarIntNumStrict False) (int n) (compact_size n)"
  by (rule parses_readVarIntNumStrict)

interpretation script_codec: canonical_codec "\<lambda>b. compact_size (length b) @ b" read_script
  "\<lambda>b. length b \<le> max_safe_integer"
proof
  show "parses read_script b (compact_size (length b) @ b)" if "length b \<le> max_safe_integer" for b
    unfolding read_script_def by (rule parses_bnd[OF parses_length[OF that] parses_read]) simp
  show "consumes read_script (\<lambda>b bs. length b \<le> max_safe_integer \<and> bs = compact_size (length b) @ b)"
    unfolding read_script_def
    by (rule consumes_weaken, rule consumes_bnd[OF length_exact.get_only consumes_rd_read]) auto
qed

lemma parses_read_input:
  assumes "valid_input i"
  shows "parses read_input i (input_bytes i)"
proof -
  obtain d idx b sq where i: "i = TxInput None (Some (toHex d)) idx (Some b) (Some sq)"
    and v: "length d = 32" "0 \<le> idx" "idx < 2 ^ 32" "length b \<le> max_safe_integer" "0 \<le> sq" "sq < 2 ^ 32"
    using assms by (cases i) auto
  have r: "parses (readReverse 32) d (rev d)"
    using parses_readReverse[of 32 "rev d"] v(1) by simp
  show ?thesis
    unfolding i read_input_def input_bytes.simps option.sel hex_pairs_toHex
    by (intro parses_bnd[OF r] parses_bnd[OF parses_u32] parses_bnd[OF script_codec.get_put]
        parses_bnd_nil[OF parses_u32] parses_ret v)
qed

lemma consumes_readReverse:
  "consumes (readReverse (int k)) (\<lambda>x bs. x = rev bs \<and> length bs = k)"
proof (rule consumes_weaken, rule consumes_fixed[where k = k and f = rev])
  show "length bs = k \<Longrightarrow> parses (readReverse (int k)) (rev bs) bs" for bs
    by (rule parses_readReverse) simp
  show "readReverse (int k) r = (Inr x, t) \<Longrightarrow> pos r + k \<le> length (bin r)" for r x t
    by (auto simp: readReverse_def dest: ensure_thn_ok)
qed auto

lemma toHex_rev_witness: "length as = 32 \<Longrightarrow> \<exists>d. length d = 32 \<and> toHex (rev as) = toHex d"
  by (rule exI[of _ "rev as"]) simp

lemma consumes_read_input: "consumes read_input (\<lambda>i bs. valid_input i \<and> bs = input_bytes i)"
  unfolding read_input_def
  by (rule consumes_weaken, rule consumes_bnd[OF consumes_readReverse[of 32, simplified]],
      rule consumes_bnd[OF u32_exact.get_only], rule consumes_bnd[OF script_codec.get_only],
      rule consumes_bnd[OF u32_exact.get_only], rule consumes_ret)
     (auto simp: hex_pairs_toHex intro: toHex_rev_witness)

interpretation input_codec: canonical_codec input_bytes read_input valid_input
  by unfold_locales (rule parses_read_input, assumption, rule consumes_read_input)

lemma bn_toNumber_nonneg:
  "\<not> is_negative b \<Longrightarrow> bn_toNumber b = Inr n \<longleftrightarrow> n = int (magnitude b) \<and> n \<le> int max_safe_integer"
  by (auto simp: bn_toNumber_def getSignedValue_def Let_def)

interpretation output_codec: canonical_codec output_bytes read_output valid_output
proof
  show "parses read_output o1 (output_bytes o1)" if o1: "valid_output o1" for o1
  proof -
    obtain n where n0: "satoshis o1 = Some n" "0 \<le> n" "n \<le> int max_safe_integer"
      "length (lockingScript o1) \<le> max_safe_integer" "\<not> change o1"
      using o1 by (auto simp: valid_output_def)
    have rec: "\<lparr>satoshis = Some n, lockingScript = lockingScript o1, change = False\<rparr> = o1"
      using n0 by (cases o1) simp
    have n: "nat n < 2 ^ 64" "bn_toNumber (initializeState (nat n) False) = Inr n"
      using n0 by (simp_all add: bn_toNumber_def nat_less_iff)
    show ?thesis
      unfolding read_output_def output_bytes_def n0(1) option.sel
      by (rule parses_bnd[OF parses_u64LEBn[OF n(1)]],
          rule parses_bnd[where bs = "[]", simplified, OF parses_lift[OF n(2)]],
          rule parses_bnd_nil[OF script_codec.get_put[OF n0(4)]], subst rec, rule parses_ret)
  qed
  show "consumes read_output (\<lambda>o1 bs. valid_output o1 \<and> bs = output_bytes o1)"
    unfolding read_output_def
    by (rule consumes_weaken, rule consumes_bnd[OF u64bn_exact.get_only],
        rule consumes_bnd[OF consumes_lift], rule consumes_bnd[OF script_codec.get_only],
        rule consumes_ret)
       (auto simp: valid_output_def output_bytes_def bn_toNumber_nonneg)
qed

lemma parses_tx:
  assumes "plain_tx t"
  shows "parses tx_fromReader t (tx_bytes t)"
proof -
  obtain os where os: "tx_outputs t = map Some os" "list_all valid_output os"
    using assms by (auto simp: plain_tx_def)
  have v: "0 \<le> tx_version t" "tx_version t < 2 ^ 32" "0 \<le> tx_lockTime t" "tx_lockTime t < 2 ^ 32"
    "list_all valid_input (tx_inputs t)" "length (tx_inputs t) \<le> max_safe_integer"
    "length os \<le> max_safe_integer"
    using assms os(1) by (auto simp: plain_tx_def)
  have t: "Transaction (tx_version t) (tx_inputs t) (map Some os) (tx_lockTime t) = t"
    using os(1) by (cases t) simp
  have "parses tx_fromReader (Transaction (tx_version t) (tx_inputs t) (map Some os) (tx_lockTime t))
     (le_bytes 4 (nat (tx_version t)) @ compact_size (length (tx_inputs t)) @ concat (map input_bytes (tx_inputs t))
      @ compact_size (length os) @ concat (map output_bytes os) @ le_bytes 4 (nat (tx_lockTime t)))"
    unfolding tx_fromReader_def
    using input_codec.get_put_list[OF v(5)] output_codec.get_put_list[OF os(2)]
    by (intro parses_bnd[OF parses_u32] parses_bnd[OF parses_length] parses_bnd_nil[OF parses_u32] parses_ret v)
       (simp, rule parses_bnd, assumption, rule parses_bnd[OF parses_length[OF v(7)]], simp, rule parses_bnd, assumption,
        rule parses_bnd_nil[OF parses_u32[OF v(3,4)]], rule parses_ret)
  then show ?thesis unfolding t by (simp add: tx_bytes_def os(1) comp_def)
qed

lemma consumes_tx: "consumes tx_fromReader (\<lambda>t bs. plain_tx t \<and> bs = tx_bytes t)"
  unfolding tx_fromReader_def
  by (rule consumes_weaken, rule consumes_bnd[OF u32_exact.get_only],
      rule consumes_bnd[OF length_exact.get_only], rule consumes_bnd[OF input_codec.get_only_list],
      rule consumes_bnd[OF length_exact.get_only], rule consumes_bnd[OF output_codec.get_only_list],
      rule consumes_bnd[OF u32_exact.get_only], rule consumes_ret)
     (auto simp: plain_tx_def tx_bytes_def comp_def)

interpretation tx_codec: canonical_codec tx_bytes tx_fromReader plain_tx
  by unfold_locales (rule parses_tx, assumption, rule consumes_tx)

lemma tx_fromBinary_iff:
  assumes "length bs \<le> max_safe_integer"
  shows "tx_fromBinary bs = Inr t \<longleftrightarrow> plain_tx t \<and> bs = tx_bytes t"
proof -
  let ?r = "\<lparr>bin = bs, pos = 0\<rparr>"
  have r: "new_reader bs 0 = Inr ?r" "wf_reader ?r" using new_reader_ok[OF assms] by simp_all
  have "tx_fromBinary bs = Inr t \<longleftrightarrow> (\<exists>u. tx_fromReader ?r = (Inr t, u) \<and> eof u)"
    using r(1) by (auto simp: tx_fromBinary_def split: prod.splits sum.splits if_splits)
  also have "\<dots> \<longleftrightarrow> plain_tx t \<and> (\<exists>rest. bs = tx_bytes t @ rest) \<and> length bs \<le> length (tx_bytes t)"
    unfolding tx_codec.get_iff[OF r(2)] by (auto simp: eof_def)
  also have "\<dots> \<longleftrightarrow> plain_tx t \<and> bs = tx_bytes t" by auto
  finally show ?thesis .
qed

subsection \<open>The writer writes them\<close>

lemma wb_appends_u32: "0 \<le> n \<Longrightarrow> wb_appends (wb_writeUInt32LE n) (le_bytes 4 (nat n))"
  unfolding wb_writeUInt32LE_def
  using js_byte_list(3)[of "nat n"] wb_appends_put[of 4 "le_bytes 4 (nat n)"] by simp

lemma wb_appends_varint: "n \<le> max_safe_integer \<Longrightarrow> wb_appends (wb_writeVarIntNum (int n)) (compact_size n)"
  unfolding wb_writeVarIntNum_def
  by (rule wb_appends_lift[OF varIntNum_compact wb_appends_write]) simp

lemma wb_appends_u64:
  assumes "0 \<le> n" "n \<le> int max_safe_integer"
  shows "wb_appends (wb_writeUInt64LE n) (le_bytes 8 (nat n))"
proof -
  let ?b = "initializeState (nat n) False"
  have b: "bn_of_number n = Inr ?b" "magnitude ?b = nat n" using assms by (simp_all add: bn_of_number_def initializeState_def)
  have "bn_toArray False (Some 8) ?b = Inr (rev (le_bytes 8 (nat n)))"
    using bn_toArray_be_8[of ?b] assms b(2) by (simp add: nat_less_iff)
  then show ?thesis
    unfolding wb_writeUInt64LE_def
    using wb_appends_writeReverse[of "rev (le_bytes 8 (nat n))"]
    by (intro wb_appends_lift[OF b(1)] wb_appends_lift) (simp_all only: rev_rev_ident)
qed

lemma wb_appends_script:
  "length b \<le> max_safe_integer \<Longrightarrow> wb_appends (write_script b) (compact_size (length b) @ b)"
  unfolding write_script_def by (rule wb_appends_thn[OF wb_appends_varint wb_appends_write])

lemma wb_appends_checked_u32:
  "0 \<le> n \<Longrightarrow> n < 2 ^ 32 \<Longrightarrow>
   wb_appends (bnd (lift_result (requireUInt32 n label)) wb_writeUInt32LE) (le_bytes 4 (nat n))"
  by (rule wb_appends_lift[OF _ wb_appends_u32]) (simp_all add: requireUInt32_def)

lemma wb_appends_outputs:
  "list_all valid_output os \<Longrightarrow> wb_appends (write_outputs (map Some os)) (concat (map output_bytes os))"
proof (induction os)
  case Nil
  show ?case unfolding list.map write_outputs.simps concat.simps by (rule wb_appends_ret)
next
  case (Cons o1 os)
  then obtain n where n: "satoshis o1 = Some n" "0 \<le> n" "n \<le> int max_safe_integer"
    and b: "length (lockingScript o1) \<le> max_safe_integer"
    by (auto simp: valid_output_def)
  have IH: "wb_appends (write_outputs (map Some os)) (concat (map output_bytes os))"
    using Cons by simp
  show ?case
    unfolding list.map write_outputs.simps concat.simps output_bytes_def[of o1] n(1) option.case option.sel append_assoc[symmetric]
    using wb_appends_thn[OF wb_appends_u64[OF n(2,3)] wb_appends_thn[OF wb_appends_script[OF b] IH]] by simp
qed

lemma requireTXID_toHex: "length d = 32 \<Longrightarrow> requireTXID (toHex d) label = Inr (toHex d)"
  using toHex_chars[of d] by (simp add: requireTXID_def)

lemma wb_appends_inputs:
  "list_all valid_input ins \<Longrightarrow> wb_appends (write_inputs h ins) (concat (map input_bytes ins))"
proof (induction ins)
  case Nil
  show ?case unfolding list.map write_inputs.simps concat.simps by (rule wb_appends_ret)
next
  case (Cons i ins)
  obtain d idx b sq where i: "i = TxInput None (Some (toHex d)) idx (Some b) (Some sq)"
    and v: "length d = 32" "0 \<le> idx" "idx < 2 ^ 32" "length b \<le> max_safe_integer" "0 \<le> sq" "sq < 2 ^ 32"
    using Cons.prems by (cases i) auto
  have IH: "wb_appends (write_inputs h ins) (concat (map input_bytes ins))" using Cons by simp
  have src: "wb_appends (write_source h None (Some (toHex d))) (rev d)"
    unfolding write_source.simps
    by (rule wb_appends_lift[OF requireTXID_toHex[OF v(1)]],
        rule wb_appends_lift[OF hexToArray_toHex], rule wb_appends_writeReverse)
  show ?case
    unfolding i list.map write_inputs.simps concat.simps input_bytes.simps option.case option.sel hex_pairs_toHex
    using wb_appends_thn[OF src wb_appends_thn[OF wb_appends_checked_u32[OF v(2,3)]
        wb_appends_thn[OF wb_appends_script[OF v(4)] wb_appends_thn[OF wb_appends_checked_u32[OF v(5,6)] IH]]]]
    by simp
qed

lemma wb_appends_body:
  assumes "plain_tx t"
  shows "wb_appends (write_body h t) (tx_bytes t)"
proof -
  obtain v ins outs lt where t: "t = Transaction v ins outs lt" by (cases t)
  obtain os where os: "outs = map Some os" "list_all valid_output os"
    using assms by (auto simp: plain_tx_def t)
  have p: "0 \<le> v" "0 \<le> lt" "list_all valid_input ins" "length ins \<le> max_safe_integer" "length outs \<le> max_safe_integer"
    using assms by (auto simp: plain_tx_def t)
  have b: "concat (map (\<lambda>o1. output_bytes (the o1)) outs) = concat (map output_bytes os)"
    by (simp add: os(1) comp_def)
  show ?thesis
    unfolding t write_body.simps tx_bytes_def transaction.sel b
    using wb_appends_outputs[OF os(2)]
    by (intro wb_appends_thn wb_appends_u32 wb_appends_varint wb_appends_inputs p) (simp add: os(1))
qed

lemma run_wb_appends:
  assumes "wb_appends m bs"
  shows "run_wb m = Inr bs"
proof -
  let ?w = "\<lparr>wb_buffer = replicate 256 0, wb_pos = 0, wb_capacity = 256\<rparr>"
  have "wf_wbuf ?w" by (simp add: wf_wbuf_def)
  then obtain w' where "m ?w = (Inr (), w')" "wb_bytes w' = bs"
    using assms by (auto simp: wb_appends_def wb_toUint8Array_def)
  then show ?thesis by (simp add: run_wb_def new_wbuf_def)
qed

lemma tx_toBinary_plain: "plain_tx t \<Longrightarrow> tx_toBinary h t = Inr (tx_bytes t)"
  unfolding tx_toBinary_def by (rule run_wb_appends[OF wb_appends_body])

subsection \<open>The extended format round trip\<close>

text \<open>What \<open>fromEF\<close> builds: a source transaction with the one output the input spends.\<close>

definition ef_source :: "nat \<Rightarrow> int \<Rightarrow> bytes \<Rightarrow> transaction" where
  "ef_source idx n locking = Transaction 1 []
     (replicate idx None @ [Some \<lparr>satoshis = Some n, lockingScript = locking, change = False\<rparr>]) 0"

definition valid_ef_input :: "tx_input \<Rightarrow> bool" where
  "valid_ef_input i \<longleftrightarrow> (\<exists>d idx n locking b sq.
     i = TxInput (Some (ef_source (nat idx) n locking)) (Some (toHex d)) idx (Some b) (Some sq)
     \<and> length d = 32 \<and> 0 \<le> idx \<and> idx \<le> MAX_EF_SOURCE_OUTPUT_INDEX \<and> 0 \<le> n \<and> n \<le> int max_safe_integer
     \<and> length locking \<le> max_safe_integer \<and> length b \<le> max_safe_integer \<and> 0 \<le> sq \<and> sq < 2 ^ 32)"

fun ef_input_bytes :: "tx_input \<Rightarrow> bytes" where
  "ef_input_bytes (TxInput src txid idx unlocking sq) =
     (let o1 = the (last (tx_outputs (the src)))
      in rev (hex_pairs (the txid)) @ le_bytes 4 (nat idx)
         @ (compact_size (length (the unlocking)) @ the unlocking) @ le_bytes 4 (nat (the sq))
         @ le_bytes 8 (nat (the (satoshis o1)))
         @ (compact_size (length (lockingScript o1)) @ lockingScript o1))"

lemma ef_input_bytes_eq:
  "ef_input_bytes (TxInput (Some (ef_source (nat idx) n locking)) (Some (toHex d)) idx (Some b) (Some sq))
   = rev d @ le_bytes 4 (nat idx) @ (compact_size (length b) @ b) @ le_bytes 4 (nat sq)
     @ le_bytes 8 (nat n) @ (compact_size (length locking) @ locking)"
  by (simp add: ef_source_def hex_pairs_toHex Let_def)

lemma parses_skip_if: "\<not> b \<Longrightarrow> parses m x bs \<Longrightarrow> parses (thn (throw_if b e) m) x bs"
  by (simp add: parses_def thn_def bnd_def)

lemma consumes_throw_if: "consumes (throw_if b e) (\<lambda>u bs. \<not> b \<and> bs = [])"
  by (auto simp: consumes_def split: if_splits)

lemma consumes_thn:
  "consumes m P \<Longrightarrow> consumes n Q \<Longrightarrow> consumes (thn m n) (\<lambda>y cs. \<exists>x as bs. P x as \<and> Q y bs \<and> cs = as @ bs)"
  unfolding thn_def by (rule consumes_bnd)

interpretation ef_input_codec: canonical_codec ef_input_bytes read_ef_input valid_ef_input
proof
  fix i
  assume "valid_ef_input i"
  then obtain d idx n locking b sq where
    i: "i = TxInput (Some (ef_source (nat idx) n locking)) (Some (toHex d)) idx (Some b) (Some sq)"
    and v: "length d = 32" "0 \<le> idx" "idx \<le> MAX_EF_SOURCE_OUTPUT_INDEX" "0 \<le> n" "n \<le> int max_safe_integer"
      "length locking \<le> max_safe_integer" "length b \<le> max_safe_integer" "0 \<le> sq" "sq < 2 ^ 32"
    by (auto simp: valid_ef_input_def)
  have r: "parses (readReverse 32) d (rev d)"
    using parses_readReverse[of 32 "rev d"] v(1) by simp
  have num: "nat n < 2 ^ 64" "bn_toNumber (initializeState (nat n) False) = Inr n"
    using v by (simp_all add: bn_toNumber_def nat_less_iff)
  have idx32: "idx < 2 ^ 32" using v(3) by simp
  show "parses read_ef_input i (ef_input_bytes i)"
    unfolding i read_ef_input_def ef_input_bytes_eq
    by (rule parses_bnd[OF r], rule parses_bnd[OF parses_u32[OF v(2) idx32]], rule parses_skip_if,
        use v(3) in simp, rule parses_bnd[OF script_codec.get_put[OF v(7)]],
        rule parses_bnd[OF parses_u32[OF v(8,9)]], rule parses_bnd[OF parses_u64LEBn[OF num(1)]],
        rule parses_bnd[where bs = "[]", simplified, OF parses_lift[OF num(2)]],
        rule parses_bnd_nil[OF script_codec.get_put[OF v(6)]], unfold Let_def ef_source_def, rule parses_ret)
next
  show "consumes read_ef_input (\<lambda>i bs. valid_ef_input i \<and> bs = ef_input_bytes i)"
    unfolding read_ef_input_def Let_def ef_source_def [symmetric]
  proof (rule consumes_weaken, rule consumes_bnd[OF consumes_readReverse[of 32, simplified]],
      rule consumes_bnd[OF u32_exact.get_only], rule consumes_thn[OF consumes_throw_if],
      rule consumes_bnd[OF script_codec.get_only], rule consumes_bnd[OF u32_exact.get_only],
      rule consumes_bnd[OF u64bn_exact.get_only], rule consumes_bnd[OF consumes_lift],
      rule consumes_bnd[OF script_codec.get_only], rule consumes_ret, elim exE conjE, goal_cases)
    case (1 i bs d as bs1 idx as2 bs2 u as3 bs3 b as4 bs4 sq as5 bs5 bn as6 bs6 n as7 bs7 locking as8 bs8)
    then have n: "n = int (magnitude bn)" "n \<le> int max_safe_integer" by (simp_all add: bn_toNumber_nonneg)
    have i: "i = TxInput (Some (ef_source (nat idx) n locking)) (Some (toHex d)) idx (Some b) (Some sq)"
      using 1 by simp
    have "valid_ef_input i"
      unfolding valid_ef_input_def i using 1 n
      by (intro exI[of _ d] exI[of _ idx] exI[of _ n] exI[of _ locking] exI[of _ b] exI[of _ sq]) simp
    moreover have "bs = ef_input_bytes i" unfolding i ef_input_bytes_eq using 1 n(1) by simp
    ultimately show ?case by blast
  qed
qed


definition ef_tx :: "transaction \<Rightarrow> bool" where
  "ef_tx t \<longleftrightarrow> 0 \<le> tx_version t \<and> tx_version t < 2 ^ 32 \<and> 0 \<le> tx_lockTime t \<and> tx_lockTime t < 2 ^ 32
     \<and> list_all valid_ef_input (tx_inputs t) \<and> length (tx_inputs t) \<le> max_safe_integer
     \<and> (\<exists>os. tx_outputs t = map Some os \<and> list_all valid_output os) \<and> length (tx_outputs t) \<le> max_safe_integer"

definition ef_bytes :: "transaction \<Rightarrow> bytes" where
  "ef_bytes t = le_bytes 4 (nat (tx_version t)) @ [0, 0, 0, 0, 0, 0xef]
     @ compact_size (length (tx_inputs t)) @ concat (map ef_input_bytes (tx_inputs t))
     @ compact_size (length (tx_outputs t)) @ concat (map (\<lambda>o1. output_bytes (the o1)) (tx_outputs t))
     @ le_bytes 4 (nat (tx_lockTime t))"

lemma ef_marker: "toHex bs = ''0000000000ef'' \<longleftrightarrow> bs = [0, 0, 0, 0, 0, 0xef]"
proof -
  have m: "toHex [0, 0, 0, 0, 0, 0xef] = ''0000000000ef''" by code_simp
  show ?thesis
  proof
    assume "toHex bs = ''0000000000ef''"
    then have "hex_pairs (toHex bs) = hex_pairs (toHex [0, 0, 0, 0, 0, 0xef])" by (simp only: m)
    then show "bs = [0, 0, 0, 0, 0, 0xef]" by (simp only: hex_pairs_toHex)
  qed (simp only: m)
qed

lemma consumes_ef: "consumes ef_reader (\<lambda>t bs. ef_tx t \<and> bs = ef_bytes t)"
  unfolding ef_reader_def
  by (rule consumes_weaken, rule consumes_bnd[OF u32_exact.get_only],
      rule consumes_bnd[OF consumes_rd_read], rule consumes_thn[OF consumes_throw_if],
      rule consumes_bnd[OF length_exact.get_only], rule consumes_bnd[OF ef_input_codec.get_only_list],
      rule consumes_bnd[OF length_exact.get_only], rule consumes_bnd[OF output_codec.get_only_list],
      rule consumes_bnd[OF u32_exact.get_only], rule consumes_ret)
     (auto simp: ef_tx_def ef_bytes_def comp_def ef_marker)

lemma tx_fromEF_ok:
  assumes "tx_fromEF bs = Inr t" "length bs \<le> max_safe_integer"
  shows "ef_tx t \<and> bs = ef_bytes t"
proof -
  let ?r = "\<lparr>bin = bs, pos = 0\<rparr>"
  have r: "new_reader bs 0 = Inr ?r" "wf_reader ?r" using new_reader_ok[OF assms(2)] by simp_all
  obtain u where u: "ef_reader ?r = (Inr t, u)" "eof u"
    using assms(1) r(1) by (auto simp: tx_fromEF_def split: prod.splits sum.splits if_splits)
  from consumesD[OF consumes_ef r(2) u(1)] obtain rest where
    "ef_tx t" "bs = ef_bytes t @ rest" "u = advance (length (ef_bytes t)) ?r" by auto
  with u(2) show ?thesis by (simp add: eof_def)
qed

lemma wb_appends_ef_inputs:
  "list_all valid_ef_input ins \<Longrightarrow> wb_appends (write_ef_inputs h ins) (concat (map ef_input_bytes ins))"
proof (induction ins)
  case Nil
  show ?case unfolding list.map write_ef_inputs.simps concat.simps by (rule wb_appends_ret)
next
  case (Cons i ins)
  then have "valid_ef_input i" by simp
  then obtain d idx n locking b sq where
    i: "i = TxInput (Some (ef_source (nat idx) n locking)) (Some (toHex d)) idx (Some b) (Some sq)"
    and v: "length d = 32" "0 \<le> idx" "idx \<le> MAX_EF_SOURCE_OUTPUT_INDEX" "0 \<le> n" "n \<le> int max_safe_integer"
      "length locking \<le> max_safe_integer" "length b \<le> max_safe_integer" "0 \<le> sq" "sq < 2 ^ 32"
    by (auto simp: valid_ef_input_def)
  have IH: "wb_appends (write_ef_inputs h ins) (concat (map ef_input_bytes ins))" using Cons by simp
  have o1: "source_output (ef_source (nat idx) n locking) idx
      = Some \<lparr>satoshis = Some n, lockingScript = locking, change = False\<rparr>"
    using v(2) by (simp add: source_output_def ef_source_def nth_append)
  have txid: "wb_appends (bnd (lift_result (hexToArray (toHex d))) (\<lambda>d. wb_write (rev d))) (rev d)"
    by (rule wb_appends_lift[OF hexToArray_toHex]) (rule wb_appends_write)
  show ?case
    unfolding i list.map write_ef_inputs.simps concat.simps ef_input_bytes_eq option.case o1 tx_output.simps
    using wb_appends_thn[OF txid wb_appends_thn[OF wb_appends_u32[OF v(2)] wb_appends_thn[OF wb_appends_script[OF v(7)]
      wb_appends_thn[OF wb_appends_u32[OF v(8)] wb_appends_thn[OF wb_appends_thn[OF wb_appends_u64[OF v(4,5)]
        wb_appends_script[OF v(6)]] IH]]]]]
    by simp
qed

lemma tx_toEF_ok:
  assumes "ef_tx t"
  shows "tx_toEF h t = Inr (ef_bytes t)"
proof -
  obtain os where os: "tx_outputs t = map Some os" "list_all valid_output os"
    using assms by (auto simp: ef_tx_def)
  have p: "0 \<le> tx_version t" "0 \<le> tx_lockTime t" "list_all valid_ef_input (tx_inputs t)"
    "length (tx_inputs t) \<le> max_safe_integer" "length (tx_outputs t) \<le> max_safe_integer"
    using assms by (auto simp: ef_tx_def)
  have b: "concat (map (\<lambda>o1. output_bytes (the o1)) (tx_outputs t)) = concat (map output_bytes os)"
    by (simp add: os(1) comp_def)
  show ?thesis
    unfolding tx_toEF_def ef_bytes_def b
    using wb_appends_outputs[OF os(2)]
    by (intro run_wb_appends wb_appends_thn wb_appends_u32 wb_appends_varint wb_appends_ef_inputs
        wb_appends_write p) (simp add: os(1))
qed

subsection \<open>Script offsets\<close>

text \<open>The offsets of a plain transaction's scripts, in the array that holds the transaction.\<close>

fun input_script_offsets :: "nat \<Rightarrow> nat \<Rightarrow> tx_input list \<Rightarrow> (nat \<times> nat \<times> int) list" where
  "input_script_offsets i p [] = []"
| "input_script_offsets i p (x # xs) =
     (let len = length (the (in_unlockingScript x)); q = p + 36 + length (compact_size len)
      in (i, q, int len) # input_script_offsets (i + 1) (q + len + 4) xs)"

fun output_script_offsets :: "nat \<Rightarrow> nat \<Rightarrow> tx_output list \<Rightarrow> (nat \<times> nat \<times> int) list" where
  "output_script_offsets i p [] = []"
| "output_script_offsets i p (x # xs) =
     (let len = length (lockingScript x); q = p + 8 + length (compact_size len)
      in (i, q, int len) # output_script_offsets (i + 1) (q + len) xs)"


definition parses_at :: "'a rd \<Rightarrow> (nat \<Rightarrow> 'a) \<Rightarrow> bytes \<Rightarrow> bool" where
  "parses_at m f bs \<longleftrightarrow>
     (\<forall>r rest. wf_reader r \<and> drop (pos r) (bin r) = bs @ rest
        \<longrightarrow> m r = (Inr (f (pos r)), advance (length bs) r))"

lemma parses_at_ret: "parses_at (ret x) (\<lambda>p. x) []"
  by (simp add: parses_at_def)

lemma parses_at_bnd:
  assumes "parses_at m f bs" "\<And>p. parses_at (k (f p)) (g p) cs"
  shows "parses_at (bnd m k) (\<lambda>p. g p (p + length bs)) (bs @ cs)"
  unfolding parses_at_def
proof (intro allI impI)
  fix r rest
  assume a: "wf_reader r \<and> drop (pos r) (bin r) = (bs @ cs) @ rest"
  then have d: "drop (pos r) (bin r) = bs @ (cs @ rest)" by simp
  have m: "m r = (Inr (f (pos r)), advance (length bs) r)"
    using assms(1) a d by (auto simp: parses_at_def)
  have "drop (pos (advance (length bs) r)) (bin (advance (length bs) r)) = cs @ rest"
    using drop_append_drop[OF d] by simp
  then have "k (f (pos r)) (advance (length bs) r)
      = (Inr (g (pos r) (pos r + length bs)), advance (length cs) (advance (length bs) r))"
    using assms(2)[of "pos r"] wf_advance[OF _ d] a by (auto simp: parses_at_def)
  with m show "bnd m k r = (Inr (g (pos r) (pos r + length bs)), advance (length (bs @ cs)) r)" by simp
qed

lemma parses_at_const: "parses m x bs \<Longrightarrow> parses_at m (\<lambda>p. x) bs"
  by (auto simp: parses_at_def parses_def)

lemma parses_at_then:
  "parses m x bs \<Longrightarrow> parses_at (k x) g cs \<Longrightarrow> parses_at (bnd m k) (\<lambda>p. g (p + length bs)) (bs @ cs)"
  using parses_at_bnd[OF parses_at_const, of m x bs k "\<lambda>_. g" cs] by simp

lemma parses_at_skip:
  "parses m x bs \<Longrightarrow> parses_at n g cs \<Longrightarrow> parses_at (thn m n) (\<lambda>p. g (p + length bs)) (bs @ cs)"
  unfolding thn_def by (rule parses_at_then)

lemma parses_at_get_pos:
  "(\<And>p. parses_at (k p) (g p) bs) \<Longrightarrow> parses_at (bnd (get pos) k) (\<lambda>p. g p p) bs"
  by (simp add: parses_at_def bnd_def)

lemma parses_at_map_cons:
  assumes "parses_at m g bs"
  shows "parses_at (bnd m (\<lambda>xs. ret (x # xs))) (\<lambda>p. x # g p) bs"
proof -
  have "parses_at (bnd m (\<lambda>xs. ret (x # xs))) (\<lambda>p. (\<lambda>p q. x # g p) p (p + length bs)) (bs @ [])"
    by (rule parses_at_bnd[OF assms]) (rule parses_at_ret)
  then show ?thesis by (simp only: append_Nil2)
qed

lemma input_bytes_split:
  "valid_input i \<Longrightarrow> \<exists>a b. input_bytes i = a @ compact_size (length (the (in_unlockingScript i))) @ b
     \<and> length a = 36 \<and> length b = length (the (in_unlockingScript i)) + 4
     \<and> take (length (the (in_unlockingScript i))) b = the (in_unlockingScript i)
     \<and> length (the (in_unlockingScript i)) \<le> max_safe_integer"
proof -
  assume "valid_input i"
  then obtain d idx b sq where i: "i = TxInput None (Some (toHex d)) idx (Some b) (Some sq)"
    and v: "length d = 32" "length b \<le> max_safe_integer"
    by (cases i) auto
  have "input_bytes i = (rev d @ le_bytes 4 (nat idx)) @ compact_size (length b) @ (b @ le_bytes 4 (nat sq))"
    by (simp add: i hex_pairs_toHex)
  then show ?thesis
    using v by (intro exI[of _ "rev d @ le_bytes 4 (nat idx)"] exI[of _ "b @ le_bytes 4 (nat sq)"])
      (simp add: i)
qed

lemma input_offsets_parse:
  "list_all valid_input ins \<Longrightarrow>
   parses_at (input_offsets (length ins) i) (\<lambda>p. input_script_offsets i p ins) (concat (map input_bytes ins))"
proof (induction ins arbitrary: i)
  case Nil
  show ?case unfolding list.size input_offsets.simps input_script_offsets.simps list.map concat.simps
    by (rule parses_at_ret)
next
  case (Cons x xs)
  let ?s = "the (in_unlockingScript x)"
  obtain a b where x: "input_bytes x = a @ compact_size (length ?s) @ b" "length a = 36"
    "length b = length ?s + 4" "length ?s \<le> max_safe_integer"
    using input_bytes_split[of x] Cons.prems by auto
  have IH: "parses_at (input_offsets (length xs) (i + 1)) (\<lambda>p. input_script_offsets (i + 1) p xs)
      (concat (map input_bytes xs))" using Cons by simp
  have a: "parses (rd_read 36) a a" by (rule parses_read) (simp add: x(2))
  have b: "parses (rd_read (int (length ?s) + 4)) b b" by (rule parses_read) (simp add: x(3))
  let ?cs = "compact_size (length ?s)"
  have "parses_at (input_offsets (Suc (length xs)) i)
      (\<lambda>p. (i, p + length a + length ?cs, int (length ?s))
         # input_script_offsets (i + 1) (p + length a + length ?cs + length b) xs)
      (a @ (?cs @ (b @ concat (map input_bytes xs))))"
    unfolding input_offsets.simps
    by (rule parses_at_skip[OF a], rule parses_at_then[OF parses_length[OF x(4)]], rule parses_at_get_pos,
        rule parses_at_skip[OF b], rule parses_at_map_cons[OF IH])
  then show ?case by (simp add: x add.assoc Let_def)
qed

lemma output_offsets_parse:
  "list_all valid_output os \<Longrightarrow>
   parses_at (output_offsets (length os) i) (\<lambda>p. output_script_offsets i p os) (concat (map output_bytes os))"
proof (induction os arbitrary: i)
  case Nil
  show ?case unfolding list.size output_offsets.simps output_script_offsets.simps list.map concat.simps
    by (rule parses_at_ret)
next
  case (Cons x xs)
  let ?s = "lockingScript x" and ?v = "le_bytes 8 (nat (the (satoshis x)))"
  have len: "length ?s \<le> max_safe_integer" using Cons.prems by (simp add: valid_output_def)
  have IH: "parses_at (output_offsets (length xs) (i + 1)) (\<lambda>p. output_script_offsets (i + 1) p xs)
      (concat (map output_bytes xs))" using Cons by simp
  have a: "parses (rd_read 8) ?v ?v" by (rule parses_read) simp
  have b: "parses (rd_read (int (length ?s))) ?s ?s" by (rule parses_read) simp
  let ?cs = "compact_size (length ?s)"
  have "parses_at (output_offsets (Suc (length xs)) i)
      (\<lambda>p. (i, p + length ?v + length ?cs, int (length ?s))
         # output_script_offsets (i + 1) (p + length ?v + length ?cs + length ?s) xs)
      (?v @ (?cs @ (?s @ concat (map output_bytes xs))))"
    unfolding output_offsets.simps
    by (rule parses_at_skip[OF a], rule parses_at_then[OF parses_length[OF len]], rule parses_at_get_pos,
        rule parses_at_skip[OF b], rule parses_at_map_cons[OF IH])
  then show ?case by (simp add: output_bytes_def [of x] add.assoc Let_def)
qed


lemma input_slices:
  "list_all valid_input ins \<Longrightarrow> bs = pre @ concat (map input_bytes ins) @ post \<Longrightarrow>
   map (\<lambda>(i, q, len). take (nat len) (drop q bs)) (input_script_offsets i (length pre) ins)
   = map (\<lambda>x. the (in_unlockingScript x)) ins"
proof (induction ins arbitrary: i pre)
  case (Cons x xs)
  let ?s = "the (in_unlockingScript x)" and ?cs = "compact_size (length (the (in_unlockingScript x)))"
  obtain a b where x: "input_bytes x = a @ ?cs @ b" "length a = 36" "length b = length ?s + 4"
    "take (length ?s) b = ?s"
    using input_bytes_split[of x] Cons.prems(1) by auto
  have "bs = (pre @ a @ ?cs) @ b @ concat (map input_bytes xs) @ post" using Cons.prems(2) x(1) by simp
  then have hd: "take (length ?s) (drop (length pre + 36 + length ?cs) bs) = ?s"
    using x by (simp add: add.assoc)
  have "map (\<lambda>(i, q, len). take (nat len) (drop q bs))
      (input_script_offsets (i + 1) (length (pre @ input_bytes x)) xs) = map (\<lambda>x. the (in_unlockingScript x)) xs"
    using Cons.prems by (intro Cons.IH) simp_all
  then show ?case using hd x by (simp add: Let_def add.assoc)
qed simp

lemma output_slices:
  "bs = pre @ concat (map output_bytes os) @ post \<Longrightarrow>
   map (\<lambda>(i, q, len). take (nat len) (drop q bs)) (output_script_offsets i (length pre) os) = map lockingScript os"
proof (induction os arbitrary: i pre)
  case (Cons x xs)
  let ?s = "lockingScript x" and ?cs = "compact_size (length (lockingScript x))"
  let ?v = "le_bytes 8 (nat (the (satoshis x)))"
  have "bs = (pre @ ?v @ ?cs) @ ?s @ concat (map output_bytes xs) @ post"
    using Cons.prems by (simp add: output_bytes_def [of x])
  then have hd: "take (length ?s) (drop (length pre + 8 + length ?cs) bs) = ?s"
    by (simp add: add.assoc)
  have "map (\<lambda>(i, q, len). take (nat len) (drop q bs))
      (output_script_offsets (i + 1) (length (pre @ output_bytes x)) xs) = map lockingScript xs"
    using Cons.prems by (intro Cons.IH) simp_all
  then show ?case using hd by (simp add: Let_def add.assoc output_bytes_def [of x])
qed simp

lemma upt_cons: "i # [Suc i..<Suc (i + n)] = [i..<Suc (i + n)]"
  by (simp add: upt_conv_Cons del: upt_Suc)

lemma input_offset_indices: "map fst (input_script_offsets i p ins) = [i..<i + length ins]"
  by (induction ins arbitrary: i p) (simp_all add: Let_def upt_cons del: upt_Suc)

lemma output_offset_indices: "map fst (output_script_offsets i p os) = [i..<i + length os]"
  by (induction os arbitrary: i p) (simp_all add: Let_def upt_cons del: upt_Suc)

lemma offsets_reader_parse:
  assumes ins: "list_all valid_input ins" "length ins \<le> max_safe_integer"
    and os: "list_all valid_output os" "length os \<le> max_safe_integer" and v: "length v = 4" and l: "length l = 4"
  defines "I \<equiv> concat (map input_bytes ins)" and "Os \<equiv> concat (map output_bytes os)"
  shows "parses_at offsets_reader
     (\<lambda>p. (input_script_offsets 0 (p + length v + length (compact_size (length ins))) ins,
           output_script_offsets 0 (p + length v + length (compact_size (length ins)) + length I
             + length (compact_size (length os))) os))
     (v @ (compact_size (length ins) @ (I @ (compact_size (length os) @ (Os @ (l @ []))))))"
proof -
  let ?n = "compact_size (length ins)" and ?m = "compact_size (length os)"
  let ?ins = "\<lambda>p. input_script_offsets 0 p ins" and ?outs = "\<lambda>p. output_script_offsets 0 p os"
  have rd4: "parses (rd_read 4) xs xs" if "length xs = 4" for xs by (rule parses_read) (simp add: that)
  have tail: "parses_at (thn (rd_read 4) (ret x)) (\<lambda>p. x) (l @ [])" for x :: "offsets \<times> offsets"
    using parses_at_skip[OF rd4[OF l] parses_at_ret, of x] by simp
  have in0: "parses_at (input_offsets (nat (int (length ins))) 0) ?ins I"
    using input_offsets_parse[OF ins(1)] by (simp add: I_def)
  have out0: "parses_at (output_offsets (nat (int (length os))) 0) ?outs Os"
    using output_offsets_parse[OF os(1)] by (simp add: Os_def)
  show ?thesis
    unfolding offsets_reader_def
    by (rule parses_at_skip[OF rd4[OF v], where g = "\<lambda>p. (?ins (p + length ?n), ?outs (p + length ?n + length I + length ?m))"],
        rule parses_at_then[OF parses_length[OF ins(2)], where g = "\<lambda>p. (?ins p, ?outs (p + length I + length ?m))"],
        rule parses_at_bnd[OF in0, where g = "\<lambda>p q. (?ins p, ?outs (q + length ?m))"],
        rule parses_at_then[OF parses_length[OF os(2)], where g = "\<lambda>q. (?ins _, ?outs q)"],
        rule parses_at_bnd[OF out0, where g = "\<lambda>q r. (?ins _, ?outs q)"], rule tail)
qed

lemma parseScriptOffsets_plain:
  assumes "plain_tx t" "length (tx_bytes t) \<le> max_safe_integer"
  shows "\<exists>ins outs. parseScriptOffsets (tx_bytes t) = Inr (ins, outs)
     \<and> map fst ins = [0..<length (tx_inputs t)] \<and> map fst outs = [0..<length (tx_outputs t)]
     \<and> map (\<lambda>(i, q, len). take (nat len) (drop q (tx_bytes t))) ins
         = map (\<lambda>x. the (in_unlockingScript x)) (tx_inputs t)
     \<and> map (\<lambda>(i, q, len). take (nat len) (drop q (tx_bytes t))) outs
         = map (\<lambda>o1. lockingScript (the o1)) (tx_outputs t)"
proof -
  obtain os where os: "tx_outputs t = map Some os" "list_all valid_output os"
    using assms(1) by (auto simp: plain_tx_def)
  have p: "list_all valid_input (tx_inputs t)" "length (tx_inputs t) \<le> max_safe_integer"
    "length os \<le> max_safe_integer"
    using assms(1) os(1) by (auto simp: plain_tx_def)
  let ?v = "le_bytes 4 (nat (tx_version t))" and ?l = "le_bytes 4 (nat (tx_lockTime t))"
  let ?n = "compact_size (length (tx_inputs t))" and ?m = "compact_size (length os)"
  let ?I = "concat (map input_bytes (tx_inputs t))" and ?O = "concat (map output_bytes os)"
  define ins where "ins = input_script_offsets 0 (length (?v @ ?n)) (tx_inputs t)"
  define outs where "outs = output_script_offsets 0 (length (?v @ ?n @ ?I @ ?m)) os"
  have b: "tx_bytes t = ?v @ (?n @ (?I @ (?m @ (?O @ ?l))))"
    by (simp add: tx_bytes_def os(1) comp_def)
  have "offsets_reader \<lparr>bin = tx_bytes t, pos = 0\<rparr>
      = (Inr (ins, outs), advance (length (tx_bytes t)) \<lparr>bin = tx_bytes t, pos = 0\<rparr>)"
    using offsets_reader_parse[OF p(1,2) os(2) p(3), of ?v ?l] new_reader_ok[OF assms(2)] b
    unfolding parses_at_def ins_def outs_def by (simp add: add.assoc)
  then have "parseScriptOffsets (tx_bytes t) = Inr (ins, outs)"
    using new_reader_ok[OF assms(2)] by (simp add: parseScriptOffsets_def eof_def)
  moreover have "map (\<lambda>(i, q, len). take (nat len) (drop q (tx_bytes t))) ins
      = map (\<lambda>x. the (in_unlockingScript x)) (tx_inputs t)"
    unfolding ins_def by (rule input_slices[OF p(1)]) (simp add: b)
  moreover have "map (\<lambda>(i, q, len). take (nat len) (drop q (tx_bytes t))) outs = map lockingScript os"
    unfolding outs_def by (rule output_slices) (simp add: b)
  ultimately show ?thesis
    by (intro exI[of _ ins] exI[of _ outs])
       (simp add: ins_def outs_def input_offset_indices output_offset_indices os(1) comp_def)
qed

subsection \<open>The extended format is exact\<close>

lemma parses_ef:
  assumes "ef_tx t"
  shows "parses ef_reader t (ef_bytes t)"
proof -
  obtain os where os: "tx_outputs t = map Some os" "list_all valid_output os"
    using assms by (auto simp: ef_tx_def)
  have v: "0 \<le> tx_version t" "tx_version t < 2 ^ 32" "0 \<le> tx_lockTime t" "tx_lockTime t < 2 ^ 32"
    "list_all valid_ef_input (tx_inputs t)" "length (tx_inputs t) \<le> max_safe_integer"
    "length os \<le> max_safe_integer"
    using assms os(1) by (auto simp: ef_tx_def)
  have t: "Transaction (tx_version t) (tx_inputs t) (map Some os) (tx_lockTime t) = t"
    using os(1) by (cases t) simp
  have marker: "parses (rd_read 6) [0, 0, 0, 0, 0, 0xef] [0, 0, 0, 0, 0, 0xef]"
    by (rule parses_read) simp
  have "parses ef_reader (Transaction (tx_version t) (tx_inputs t) (map Some os) (tx_lockTime t))
     (le_bytes 4 (nat (tx_version t)) @ [0, 0, 0, 0, 0, 0xef] @ compact_size (length (tx_inputs t))
      @ concat (map ef_input_bytes (tx_inputs t))
      @ compact_size (length os) @ concat (map output_bytes os) @ le_bytes 4 (nat (tx_lockTime t)))"
    unfolding ef_reader_def
    by (rule parses_bnd[OF parses_u32[OF v(1,2)]], rule parses_bnd[OF marker], rule parses_skip_if,
        simp add: ef_marker, rule parses_bnd[OF parses_length[OF v(6)]], unfold nat_int,
        rule parses_bnd[OF ef_input_codec.get_put_list[OF v(5)]],
        rule parses_bnd[OF parses_length[OF v(7)]], unfold nat_int,
        rule parses_bnd[OF output_codec.get_put_list[OF os(2)]],
        rule parses_bnd_nil[OF parses_u32[OF v(3,4)]], rule parses_ret)
  then show ?thesis unfolding t by (simp add: ef_bytes_def os(1) comp_def)
qed

interpretation ef_codec: canonical_codec ef_bytes ef_reader ef_tx
  by unfold_locales (rule parses_ef, assumption, rule consumes_ef)

lemma tx_fromEF_iff:
  assumes "length bs \<le> max_safe_integer"
  shows "tx_fromEF bs = Inr t \<longleftrightarrow> ef_tx t \<and> bs = ef_bytes t"
proof
  show "tx_fromEF bs = Inr t \<Longrightarrow> ef_tx t \<and> bs = ef_bytes t" by (rule tx_fromEF_ok[OF _ assms])
next
  assume e: "ef_tx t \<and> bs = ef_bytes t"
  let ?r = "\<lparr>bin = bs, pos = 0\<rparr>"
  have r: "new_reader bs 0 = Inr ?r" "wf_reader ?r" using new_reader_ok[OF assms] by simp_all
  have "ef_reader ?r = (Inr t, advance (length (ef_bytes t)) ?r)"
    by (rule iffD2[OF ef_codec.get_iff[OF r(2)]]) (use e in simp)
  with r(1) e show "tx_fromEF bs = Inr t" by (simp add: tx_fromEF_def eof_def)
qed

text \<open>A transaction of one input and one output, on which the properties are applied.\<close>

definition sample_tx :: "transaction option \<Rightarrow> transaction" where
  "sample_tx source = Transaction 1
     [TxInput source (Some (toHex (replicate 32 7))) 0 (Some [0x51]) (Some 0xffffffff)]
     [Some \<lparr>satoshis = Some 1000, lockingScript = [0x51], change = False\<rparr>] 0"

lemma plain_sample_tx: "plain_tx (sample_tx None)"
  by (auto simp: plain_tx_def sample_tx_def valid_output_def plain_txid_def
      intro: exI[of _ "replicate 32 7"]
      exI[of _ "[\<lparr>satoshis = Some 1000, lockingScript = [0x51], change = False\<rparr>]"])

lemma ef_sample_tx: "ef_tx (sample_tx (Some (ef_source 0 2000 [0x52])))"
proof -
  have "valid_ef_input (TxInput (Some (ef_source 0 2000 [0x52])) (Some (toHex (replicate 32 7))) 0 (Some [0x51]) (Some 0xffffffff))"
    unfolding valid_ef_input_def
    by (intro exI[of _ "replicate 32 7"] exI[of _ 0] exI[of _ 2000] exI[of _ "[0x52]"] exI[of _ "[0x51]"]
        exI[of _ "0xffffffff"]) simp
  then show ?thesis
    by (auto simp: ef_tx_def sample_tx_def valid_output_def
        intro: exI[of _ "[\<lparr>satoshis = Some 1000, lockingScript = [0x51], change = False\<rparr>]"])
qed

lemma sample_tx_length:
  "length (tx_bytes (sample_tx None)) \<le> max_safe_integer"
  "length (ef_bytes (sample_tx (Some (ef_source 0 2000 [0x52])))) \<le> max_safe_integer"
  by (simp_all add: tx_bytes_def ef_bytes_def sample_tx_def compact_size_def output_bytes_def
      hex_pairs_toHex ef_source_def Let_def)

subsection \<open>Properties\<close>

text \<open>C1: \<open>fromBinary\<close> accepts exactly the canonical serialisations: it returns \<open>t\<close> on \<open>bs\<close> if and only
  if \<open>t\<close> is a plain transaction and \<open>bs\<close> its bytes, so that no byte string other than that of
  \<open>toBinary\<close> is read as \<open>t\<close>.\<close>

theorem fromBinary_exact:
  assumes "length bs \<le> max_safe_integer"
  shows "tx_fromBinary bs = Inr t \<longleftrightarrow> plain_tx t \<and> tx_toBinary h t = Inr bs"
  using tx_fromBinary_iff[OF assms, of t] tx_toBinary_plain[of t h] by auto

lemma fromBinary_exact_witness:
  "length (tx_bytes (sample_tx None)) \<le> max_safe_integer
   \<and> tx_fromBinary (tx_bytes (sample_tx None)) = Inr (sample_tx None)"
  using fromBinary_exact[OF sample_tx_length(1), of "sample_tx None" id] sample_tx_length(1)
    tx_toBinary_plain[OF plain_sample_tx, of id] plain_sample_tx by blast

text \<open>C2: \<open>fromEF\<close> accepts exactly the extended serialisations: it returns \<open>t\<close> on \<open>bs\<close> if and only if
  \<open>t\<close> is a transaction whose inputs carry their source amount and locking script and \<open>toEF\<close> writes
  \<open>bs\<close> for it.\<close>

theorem extended_format_exact:
  assumes "length bs \<le> max_safe_integer"
  shows "tx_fromEF bs = Inr t \<longleftrightarrow> ef_tx t \<and> tx_toEF h t = Inr bs"
  using tx_fromEF_iff[OF assms, of t] tx_toEF_ok[of t h] by auto

lemma extended_format_exact_witness:
  "length (ef_bytes (sample_tx (Some (ef_source 0 2000 [0x52])))) \<le> max_safe_integer
   \<and> tx_fromEF (ef_bytes (sample_tx (Some (ef_source 0 2000 [0x52]))))
      = Inr (sample_tx (Some (ef_source 0 2000 [0x52])))"
  using extended_format_exact[OF sample_tx_length(2), of _ id] sample_tx_length(2)
    tx_toEF_ok[OF ef_sample_tx, of id] ef_sample_tx by blast

text \<open>C38: On the bytes of a plain transaction \<open>parseScriptOffsets\<close> lists every input and output in
  order, and the slices it gives are their scripts.\<close>

theorem script_offsets_correct:
  assumes "plain_tx t" "length (tx_bytes t) \<le> max_safe_integer"
  shows "\<exists>ins outs. parseScriptOffsets (tx_bytes t) = Inr (ins, outs)
     \<and> map fst ins = [0..<length (tx_inputs t)] \<and> map fst outs = [0..<length (tx_outputs t)]
     \<and> map (\<lambda>(i, q, len). take (nat len) (drop q (tx_bytes t))) ins
         = map (\<lambda>x. the (in_unlockingScript x)) (tx_inputs t)
     \<and> map (\<lambda>(i, q, len). take (nat len) (drop q (tx_bytes t))) outs
         = map (\<lambda>o1. lockingScript (the o1)) (tx_outputs t)"
  by (rule parseScriptOffsets_plain[OF assms])

lemma script_offsets_correct_witness:
  "plain_tx (sample_tx None) \<and>
   (\<exists>i q len outs. parseScriptOffsets (tx_bytes (sample_tx None)) = Inr ([(i, q, len)], outs)
      \<and> take (nat len) (drop q (tx_bytes (sample_tx None))) = [0x51])"
proof -
  obtain ins outs where o: "parseScriptOffsets (tx_bytes (sample_tx None)) = Inr (ins, outs)"
    "map (\<lambda>(i, q, len). take (nat len) (drop q (tx_bytes (sample_tx None)))) ins = [[0x51]]"
    using script_offsets_correct[OF plain_sample_tx sample_tx_length(1)] by (auto simp: sample_tx_def)
  then obtain i q len where "ins = [(i, q, len)]" by auto
  with o plain_sample_tx show ?thesis by auto
qed

end
