(* ===== verification/Transaction_Fees.thy ===== *)
theory Transaction_Fees
  imports Transaction_Codec
begin

text \<open>
  The monetary arithmetic of \<open>Transaction.ts\<close>: totals with their range checks, the change left
  after a fee, its distribution over the change outputs (equal and random) and \<open>getFee\<close>.
  The fee is the number that the fee model returned; the random portions, which the source draws from
  \<open>Random\<close> through a logarithm, are a parameter. The lemmas show that no satoshi is created or
  lost: after the distribution the fee of the transaction is the fee that was asked for.
\<close>

subsection \<open>Totals\<close>

fun input_total :: "nat \<Rightarrow> int \<Rightarrow> string \<Rightarrow> tx_input list \<Rightarrow> js_error + int" where
  "input_total index acc missing [] = Inr acc"
| "input_total index acc missing (i # rest) =
     (case in_sourceTransaction i of
        None \<Rightarrow> Inl (JsTypeError missing)
      | Some src \<Rightarrow>
         (case requireUInt32 (in_sourceOutputIndex i) (''Input '' @ decimal (int index) @ '' sourceOutputIndex'') of
            Inl e \<Rightarrow> Inl e
          | Inr idx \<Rightarrow>
             (case source_output src idx of
                None \<Rightarrow> Inl (JsRangeError (''Input '' @ decimal (int index) @ '' references a source output that does not exist.''))
              | Some o1 \<Rightarrow>
                 (case requireSatoshiAmount (satoshis o1) (''Input '' @ decimal (int index) @ '' source amount'') of
                    Inl e \<Rightarrow> Inl e
                  | Inr amount \<Rightarrow>
                     (case addSatoshiAmount acc amount ''Transaction input total'' of
                        Inl e \<Rightarrow> Inl e
                      | Inr acc' \<Rightarrow> input_total (index + 1) acc' missing rest)))))"

text \<open>With \<open>skip\<close> the outputs marked as change are left out, as \<open>calculateChange\<close> does.\<close>

fun output_total :: "bool \<Rightarrow> nat \<Rightarrow> int \<Rightarrow> tx_output option list \<Rightarrow> js_error + int" where
  "output_total skip index acc [] = Inr acc"
| "output_total skip index acc (None # rest) = Inl (JsTypeError ''Cannot read properties of null'')"
| "output_total skip index acc (Some o1 # rest) =
     (if skip \<and> change o1 then output_total skip (index + 1) acc rest
      else case requireSatoshiAmount (satoshis o1) (''Output '' @ decimal (int index) @ '' amount'') of
             Inl e \<Rightarrow> Inl e
           | Inr amount \<Rightarrow>
              (case addSatoshiAmount acc amount ''Transaction output total'' of
                 Inl e \<Rightarrow> Inl e
               | Inr acc' \<Rightarrow> output_total skip (index + 1) acc' rest))"

definition getFee :: "transaction \<Rightarrow> js_error + int" where
  "getFee t =
     (case input_total 0 0 ''Source transactions or sourceSatoshis are required for all inputs to calculate fee''
             (tx_inputs t) of
        Inl e \<Rightarrow> Inl e
      | Inr totalIn \<Rightarrow>
         (case output_total False 0 0 (tx_outputs t) of Inl e \<Rightarrow> Inl e
          | Inr totalOut \<Rightarrow> Inr (totalIn - totalOut)))"

definition calculateChange :: "int \<Rightarrow> transaction \<Rightarrow> js_error + int" where
  "calculateChange fee t =
     (case input_total 0 0 ''Source transactions are required for all inputs during fee computation''
             (tx_inputs t) of
        Inl e \<Rightarrow> Inl e
      | Inr totalInputs \<Rightarrow>
         (case output_total True 0 0 (tx_outputs t) of Inl e \<Rightarrow> Inl e
          | Inr totalOutputs \<Rightarrow>
             if totalOutputs + fee > totalInputs
             then Inl (JsRangeError ''Transaction inputs are insufficient for the requested outputs and fee.'')
             else Inr (totalInputs - totalOutputs - fee)))"

subsection \<open>Distribution\<close>

text \<open>The amounts the change outputs get, in order.\<close>

definition equal_shares :: "int \<Rightarrow> nat \<Rightarrow> int list" where
  "equal_shares c n =
     (let perOutput = c div int n
      in replicate (n - 1) perOutput @ [perOutput + (c - perOutput * int n)])"

fun random_portions :: "(nat \<Rightarrow> int \<Rightarrow> int) \<Rightarrow> nat \<Rightarrow> nat \<Rightarrow> int \<Rightarrow> int list" where
  "random_portions benford i 0 amount = [amount]"
| "random_portions benford i (Suc k) amount =
     benford i amount # random_portions benford (i + 1) k (amount - benford i amount)"

definition random_shares :: "(nat \<Rightarrow> int \<Rightarrow> int) \<Rightarrow> int \<Rightarrow> nat \<Rightarrow> int list" where
  "random_shares benford c n = random_portions benford 0 (n - 1) c"

fun assign_change :: "int list \<Rightarrow> tx_output option list \<Rightarrow> tx_output option list" where
  "assign_change shares [] = []"
| "assign_change shares (None # os) = None # assign_change shares os"
| "assign_change shares (Some o1 # os) =
     (if change o1 then
        (case shares of [] \<Rightarrow> Some o1 # assign_change [] os
         | s # ss \<Rightarrow> Some (o1\<lparr>satoshis := Some s\<rparr>) # assign_change ss os)
      else Some o1 # assign_change shares os)"

definition is_change :: "tx_output option \<Rightarrow> bool" where
  "is_change o1 \<longleftrightarrow> (case o1 of None \<Rightarrow> False | Some x \<Rightarrow> change x)"

definition distributeChange :: "(int \<Rightarrow> nat \<Rightarrow> int list) \<Rightarrow> int \<Rightarrow> transaction \<Rightarrow> transaction" where
  "distributeChange shares c t =
     (let n = length (filter is_change (tx_outputs t))
      in if n = 0 then t
         else Transaction (tx_version t) (tx_inputs t) (assign_change (shares c n) (tx_outputs t)) (tx_lockTime t))"

text \<open>
  \<open>fee\<close>, on the number the fee model computed. When nothing is left over the change outputs are
  removed; otherwise they receive the shares.
\<close>

definition fee_tx :: "(int \<Rightarrow> nat \<Rightarrow> int list) \<Rightarrow> int \<Rightarrow> transaction \<Rightarrow> js_error + transaction" where
  "fee_tx shares computed t =
     (case requireSatoshiAmount (Some computed) ''Computed transaction fee'' of
        Inl e \<Rightarrow> Inl e
      | Inr fee \<Rightarrow>
         (case calculateChange fee t of
            Inl e \<Rightarrow> Inl e
          | Inr c \<Rightarrow>
             if c < 0 then Inl (JsRangeError ''Transaction inputs are insufficient for the requested outputs and fee.'')
             else if c = 0 then
               Inr (Transaction (tx_version t) (tx_inputs t)
                      (filter (\<lambda>o1. \<not> is_change o1) (tx_outputs t)) (tx_lockTime t))
             else Inr (distributeChange shares c t)))"

subsection \<open>Conservation\<close>

lemma sum_equal_shares: "0 < n \<Longrightarrow> sum_list (equal_shares c n) = c \<and> length (equal_shares c n) = n"
  by (simp add: equal_shares_def Let_def sum_list_replicate of_nat_diff algebra_simps)

lemma equal_shares_nonneg:
  "0 < n \<Longrightarrow> 0 \<le> c \<Longrightarrow> list_all (\<lambda>s. 0 \<le> s) (equal_shares c n)"
  by (auto simp: equal_shares_def Let_def list_all_iff pos_imp_zdiv_nonneg_iff minus_div_mult_eq_mod)

lemma random_portions_sum: "sum_list (random_portions benford i k c) = c \<and> length (random_portions benford i k c) = Suc k"
  by (induction k arbitrary: i c) simp_all

lemma random_portions_nonneg:
  "(\<And>i m. 0 \<le> m \<Longrightarrow> 0 \<le> benford i m \<and> benford i m \<le> m) \<Longrightarrow> 0 \<le> c \<Longrightarrow>
   list_all (\<lambda>s. 0 \<le> s) (random_portions benford i k c)"
  by (induction k arbitrary: i c) simp_all

lemma sum_random_shares: "0 < n \<Longrightarrow> sum_list (random_shares benford c n) = c \<and> length (random_shares benford c n) = n"
  using random_portions_sum[of benford 0 "n - 1" c] by (simp add: random_shares_def)

text \<open>The total of the outputs, as a sum.\<close>

fun amount_sum :: "bool \<Rightarrow> tx_output option list \<Rightarrow> int" where
  "amount_sum skip [] = 0"
| "amount_sum skip (None # os) = amount_sum skip os"
| "amount_sum skip (Some o1 # os) =
     (if skip \<and> change o1 then 0 else (case satoshis o1 of None \<Rightarrow> 0 | Some n \<Rightarrow> n)) + amount_sum skip os"

fun amounts_ok :: "bool \<Rightarrow> tx_output option list \<Rightarrow> bool" where
  "amounts_ok skip [] \<longleftrightarrow> True"
| "amounts_ok skip (None # os) \<longleftrightarrow> False"
| "amounts_ok skip (Some o1 # os) \<longleftrightarrow>
     (skip \<and> change o1 \<or> (\<exists>n. satoshis o1 = Some n \<and> 0 \<le> n)) \<and> amounts_ok skip os"

lemma amount_sum_nonneg: "amounts_ok skip os \<Longrightarrow> 0 \<le> amount_sum skip os"
  by (induction skip os rule: amount_sum.induct) (auto split: if_splits)

lemma output_total_iff:
  "0 \<le> acc \<Longrightarrow> acc \<le> MAX_SATOSHIS \<Longrightarrow>
   output_total skip i acc os = Inr total' \<longleftrightarrow>
     amounts_ok skip os \<and> total' = acc + amount_sum skip os \<and> acc + amount_sum skip os \<le> MAX_SATOSHIS"
proof (induction os arbitrary: i acc)
  case Nil
  then show ?case by auto
next
  case (Cons o0 os)
  show ?case
  proof (cases o0)
    case None
    then show ?thesis by simp
  next
    case (Some o1)
    show ?thesis
    proof (cases "skip \<and> change o1")
      case True
      with Some Cons show ?thesis by simp
    next
      case False
      show ?thesis
      proof (cases "satoshis o1")
        case None
        with Some False show ?thesis by (auto simp: requireSatoshiAmount_def)
      next
        case (Some n)
        note n = this
        show ?thesis
        proof (cases "0 \<le> n \<and> acc + n \<le> MAX_SATOSHIS")
          case True
          then have "output_total skip i acc (o0 # os) = output_total skip (i + 1) (acc + n) os"
            using \<open>o0 = Some o1\<close> False n Cons.prems
            by (auto simp: requireSatoshiAmount_def addSatoshiAmount_def)
          moreover have "output_total skip (i + 1) (acc + n) os = Inr total' \<longleftrightarrow>
             amounts_ok skip os \<and> total' = acc + n + amount_sum skip os \<and> acc + n + amount_sum skip os \<le> MAX_SATOSHIS"
            using True Cons.prems by (intro Cons.IH) simp_all
          ultimately show ?thesis using True \<open>o0 = Some o1\<close> False n by auto
        next
          case bad: False
          then have "\<nexists>x. output_total skip i acc (o0 # os) = Inr x"
            using \<open>o0 = Some o1\<close> False n
            by (auto simp: requireSatoshiAmount_def addSatoshiAmount_def split: if_splits)
          moreover have "amounts_ok skip os \<Longrightarrow> 0 \<le> n \<Longrightarrow> acc + n \<le> acc + n + amount_sum skip os"
            using amount_sum_nonneg[of skip os] by simp
          ultimately show ?thesis using bad \<open>o0 = Some o1\<close> False n by auto
        qed
      qed
    qed
  qed
qed

lemma assign_change_sum:
  "amounts_ok True os \<Longrightarrow> length shares = length (filter is_change os) \<Longrightarrow> list_all (\<lambda>s. 0 \<le> s) shares \<Longrightarrow>
   amounts_ok False (assign_change shares os)
   \<and> amount_sum False (assign_change shares os) = amount_sum True os + sum_list shares"
proof (induction shares os rule: assign_change.induct)
  case (3 shares o1 os)
  then show ?case by (cases shares) (auto simp: is_change_def)
qed (simp_all add: is_change_def)

lemma drop_change_sum:
  "amounts_ok True os \<Longrightarrow>
   amounts_ok False (filter (\<lambda>o1. \<not> is_change o1) os)
   \<and> amount_sum False (filter (\<lambda>o1. \<not> is_change o1) os) = amount_sum True os"
  proof (induction os)
  case (Cons o1 os)
  then show ?case by (cases o1) (auto simp: is_change_def)
qed simp

lemma input_total_message:
  "input_total k acc m ins = Inr x \<longleftrightarrow> input_total k acc m' ins = Inr x"
  by (induction ins arbitrary: k acc) (auto split: option.splits sum.splits)

lemma input_total_max:
  "acc \<le> MAX_SATOSHIS \<Longrightarrow> input_total k acc m ins = Inr x \<Longrightarrow> x \<le> MAX_SATOSHIS"
proof (induction ins arbitrary: k acc)
  case (Cons i ins)
  from Cons.prems(2) obtain acc' where "acc' \<le> MAX_SATOSHIS" "input_total (k + 1) acc' m ins = Inr x"
    by (auto simp: not_less addSatoshiAmount_def Let_def split: option.splits sum.splits if_splits)
  then show ?case by (rule Cons.IH)
qed simp

lemma getFee_fee_tx:
  assumes fee: "fee_tx shares fee t = Inr t'"
    and ch: "filter is_change (tx_outputs t) \<noteq> [] \<or> calculateChange fee t = Inr 0"
    and sh: "\<And>c n. 0 \<le> c \<Longrightarrow> 0 < n \<Longrightarrow>
      sum_list (shares c n) = c \<and> length (shares c n) = n \<and> list_all (\<lambda>s. 0 \<le> s) (shares c n)"
  shows "getFee t' = Inr fee"
proof -
  let ?n = "length (filter is_change (tx_outputs t))"
  obtain c where fee0: "0 \<le> fee" and c: "calculateChange fee t = Inr c"
    using fee by (auto simp: fee_tx_def requireSatoshiAmount_def split: sum.splits if_splits)
  obtain i0 o0 where io: "input_total 0 0 ''Source transactions are required for all inputs during fee computation'' (tx_inputs t) = Inr i0"
      "output_total True 0 0 (tx_outputs t) = Inr o0" "o0 + fee \<le> i0" "c = i0 - o0 - fee"
    using c by (auto simp: calculateChange_def split: sum.splits if_splits)
  have o: "amounts_ok True (tx_outputs t)" "o0 = amount_sum True (tx_outputs t)"
    using output_total_iff[of 0 True 0 "tx_outputs t" o0] io(2) by simp_all
  have a: "tx_inputs t' = tx_inputs t \<and> amounts_ok False (tx_outputs t')
      \<and> amount_sum False (tx_outputs t') = i0 - fee"
  proof (cases "c = 0")
    case True
    then have "t' = Transaction (tx_version t) (tx_inputs t)
        (filter (\<lambda>o1. \<not> is_change o1) (tx_outputs t)) (tx_lockTime t)"
      using fee c by (auto simp: fee_tx_def requireSatoshiAmount_def split: if_splits)
    with True drop_change_sum[OF o(1)] o(2) io(4) show ?thesis by simp
  next
    case False
    then have n: "0 < ?n" using ch c by auto
    have t': "t' = Transaction (tx_version t) (tx_inputs t)
        (assign_change (shares c ?n) (tx_outputs t)) (tx_lockTime t)"
      using fee c False n
      by (auto simp: fee_tx_def requireSatoshiAmount_def distributeChange_def Let_def split: if_splits)
    have s: "sum_list (shares c ?n) = c" "length (shares c ?n) = ?n" "list_all (\<lambda>s. 0 \<le> s) (shares c ?n)"
      using sh[of c ?n] n io by simp_all
    show ?thesis
      using assign_change_sum[OF o(1) s(2,3)] s(1) o(2) io(4) by (simp add: t')
  qed
  have "i0 \<le> MAX_SATOSHIS" using input_total_max[OF _ io(1)] by simp
  then have "output_total False 0 0 (tx_outputs t') = Inr (i0 - fee)"
    using output_total_iff[of 0 False 0 "tx_outputs t'" "i0 - fee"] a fee0 by simp
  then show ?thesis
    using a iffD1[OF input_total_message io(1)] by (simp add: getFee_def)
qed

subsection \<open>Properties\<close>

text \<open>C27: \<open>fee\<close> creates and loses no satoshi: whenever it succeeds on a transaction with a change output,
  or with nothing left to distribute, the fee that \<open>getFee\<close> then computes is the fee that was asked
  for, with the equal distribution and with a random one that draws portions of what remains.\<close>

theorem fee_is_exact:
  assumes "fee_tx shares fee t = Inr t'"
    and "filter is_change (tx_outputs t) \<noteq> [] \<or> calculateChange fee t = Inr 0"
    and "shares = equal_shares
      \<or> (\<exists>benford. shares = random_shares benford \<and> (\<forall>i m. 0 \<le> m \<longrightarrow> 0 \<le> benford i m \<and> benford i m \<le> m))"
  shows "getFee t' = Inr fee"
proof (rule getFee_fee_tx[OF assms(1,2)])
  fix c :: int and n :: nat
  assume c: "0 \<le> c" and n: "0 < n"
  show "sum_list (shares c n) = c \<and> length (shares c n) = n \<and> list_all (\<lambda>s. 0 \<le> s) (shares c n)"
    using assms(3) sum_equal_shares[OF n, of c] equal_shares_nonneg[OF n c] sum_random_shares[OF n]
      random_portions_nonneg[OF _ c]
    by (auto simp: random_shares_def)
qed

definition funded_tx :: transaction where
  "funded_tx = Transaction 1 [TxInput (Some (ef_source 0 2000 [])) None 0 None None]
     [Some \<lparr>satoshis = Some 1000, lockingScript = [], change = False\<rparr>,
      Some \<lparr>satoshis = None, lockingScript = [], change = True\<rparr>,
      Some \<lparr>satoshis = None, lockingScript = [], change = True\<rparr>] 0"

lemma fee_is_exact_witness:
  "\<exists>t'. fee_tx equal_shares 99 funded_tx = Inr t' \<and> getFee t' = Inr 99
     \<and> map (\<lambda>o1. satoshis (the o1)) (tx_outputs t') = [Some 1000, Some 450, Some 451]"
proof -
  have f: "fee_tx equal_shares 99 funded_tx = Inr (Transaction 1 (tx_inputs funded_tx)
      [Some \<lparr>satoshis = Some 1000, lockingScript = [], change = False\<rparr>,
       Some \<lparr>satoshis = Some 450, lockingScript = [], change = True\<rparr>,
       Some \<lparr>satoshis = Some 451, lockingScript = [], change = True\<rparr>] 0)"
    by (simp add: fee_tx_def funded_tx_def calculateChange_def distributeChange_def is_change_def
        equal_shares_def Let_def requireSatoshiAmount_def requireUInt32_def addSatoshiAmount_def
        source_output_def ef_source_def nat_numeral)
  have c: "filter is_change (tx_outputs funded_tx) \<noteq> []" by (simp add: funded_tx_def is_change_def)
  show ?thesis using fee_is_exact[OF f] c f by simp
qed



end
