(* ===== verification/Signature_DER.thy ===== *)
theory Signature_DER
  imports Utils_Encoding
begin

text \<open>
  \<open>Signature.ts\<close> and the signature part of \<open>TransactionSignature.ts\<close>: an ECDSA signature as the pair
  of its two numbers, its DER and compact codecs, the format used in scripts (DER and a scope
  byte) and the low-S test. Reads past the end of an array give \<open>undefined\<close> in the source, modelled by
  \<open>None\<close>; arithmetic with it gives \<open>NaN\<close>, which every comparison here rejects.
  The lemmas characterise the byte strings \<open>fromDER\<close> accepts, and show that what \<open>toDER\<close> writes it
  reads back, except for a zero \<open>r\<close>.
\<close>

record signature =
  sig_r :: big_number
  sig_s :: big_number

text \<open>The argument of \<open>toArray\<close>: an array of bytes, or a text with its encoding.\<close>

datatype byte_source = Raw bytes | HexText string | Base64Text string

fun to_array :: "byte_source \<Rightarrow> js_error + bytes" where
  "to_array (Raw bs) = Inr bs"
| "to_array (HexText s) = hexToArray s"
| "to_array (Base64Text s) = base64ToArray s"

definition at :: "'a list \<Rightarrow> nat \<Rightarrow> 'a option" where
  "at xs i = (if i < length xs then Some (xs ! i) else None)"

subsection \<open>Reading DER\<close>

text \<open>\<open>getLength\<close>: the inner option is \<open>undefined\<close>, whose high bit tests as clear.\<close>

definition der_length :: "bytes \<Rightarrow> nat \<Rightarrow> js_error + nat option" where
  "der_length data place =
     (case at data place of
        None \<Rightarrow> Inr None
      | Some b \<Rightarrow> if and b 0x80 = 0 then Inr (Some (unat b)) else Inl (JsError ''Invalid DER entity length''))"

text \<open>The padding rule of one number: a leading zero must precede a byte with the high bit set.\<close>

definition der_unpad :: "string \<Rightarrow> bytes \<Rightarrow> js_error + bytes" where
  "der_unpad msg xs =
     (if at xs 0 = Some 0 then
        (if (case at xs 1 of None \<Rightarrow> True | Some y \<Rightarrow> and y 0x80 = 0) then Inl (JsError msg) else Inr (drop 1 xs))
      else Inr xs)"

definition fromDER_bytes :: "bytes \<Rightarrow> js_error + signature" where
  "fromDER_bytes data =
    (if at data 0 \<noteq> Some 0x30 then Inl (JsError ''Signature DER must start with 0x30'')
     else case der_length data 1 of Inl e \<Rightarrow> Inl e
     | Inr len \<Rightarrow>
       if (case len of None \<Rightarrow> True | Some l \<Rightarrow> l + 2 \<noteq> length data) then Inl (JsError ''Signature DER invalid'')
       else if at data 2 \<noteq> Some 0x02 then Inl (JsError ''Signature DER invalid'')
       else case der_length data 3 of Inl e \<Rightarrow> Inl e
       | Inr rlen \<Rightarrow>
         (case rlen of None \<Rightarrow> Inl (JsError ''Signature DER invalid'')
          | Some rl \<Rightarrow>
            let r = take rl (drop 4 data); place = 4 + rl
            in if at data place \<noteq> Some 0x02 then Inl (JsError ''Signature DER invalid'')
               else case der_length data (place + 1) of Inl e \<Rightarrow> Inl e
               | Inr slen \<Rightarrow>
                 if (case slen of None \<Rightarrow> True | Some sl \<Rightarrow> length data \<noteq> sl + (place + 2))
                 then Inl (JsError ''Invalid R-length in signature DER'')
                 else let s = take (the slen) (drop (place + 2) data)
                      in case der_unpad ''Invalid R-value in signature DER'' r of Inl e \<Rightarrow> Inl e
                      | Inr r' \<Rightarrow>
                        (case der_unpad ''Invalid S-value in signature DER'' s of Inl e \<Rightarrow> Inl e
                         | Inr s' \<Rightarrow> Inr \<lparr>sig_r = initArray_be r', sig_s = initArray_be s'\<rparr>)))"

definition fromDER :: "byte_source \<Rightarrow> js_error + signature" where
  "fromDER data = (case to_array data of Inl e \<Rightarrow> Inl e | Inr bs \<Rightarrow> fromDER_bytes bs)"

subsection \<open>Writing DER\<close>

definition constructLength :: "nat \<Rightarrow> js_error + bytes" where
  "constructLength len = (if len < 0x80 then Inr [word_of_nat len] else Inl (JsError ''len must be < 0x80''))"

definition high_bit_clear :: "byte option \<Rightarrow> bool" where
  "high_bit_clear b \<longleftrightarrow> (case b of None \<Rightarrow> True | Some x \<Rightarrow> and x 0x80 = 0)"

text \<open>\<open>rmPadding\<close> keeps at least one byte; the loop after it, on \<open>s\<close>, does not.\<close>

fun rmPadding :: "bytes \<Rightarrow> bytes" where
  "rmPadding (x # y # xs) = (if x = 0 \<and> and y 0x80 = 0 then rmPadding (y # xs) else x # y # xs)"
| "rmPadding xs = xs"

fun strip_zeros :: "bytes \<Rightarrow> bytes" where
  "strip_zeros [] = []"
| "strip_zeros (x # xs) = (if x = 0 \<and> high_bit_clear (at xs 0) then strip_zeros xs else x # xs)"

definition pad_high :: "bytes \<Rightarrow> bytes" where
  "pad_high xs = (case at xs 0 of None \<Rightarrow> xs | Some x \<Rightarrow> if and x 0x80 \<noteq> 0 then 0 # xs else xs)"

definition toDER :: "signature \<Rightarrow> js_error + bytes" where
  "toDER sg =
    (case bn_toArray False None (sig_r sg) of Inl e \<Rightarrow> Inl e
     | Inr r0 \<Rightarrow>
       (case bn_toArray False None (sig_s sg) of Inl e \<Rightarrow> Inl e
        | Inr s0 \<Rightarrow>
          let r = rmPadding (pad_high r0); s = strip_zeros (rmPadding (pad_high s0))
          in case constructLength (length r) of Inl e \<Rightarrow> Inl e
          | Inr rl \<Rightarrow>
            (case constructLength (length s) of Inl e \<Rightarrow> Inl e
             | Inr sl \<Rightarrow>
               let backHalf = [0x02] @ rl @ r @ [0x02] @ sl @ s
               in case constructLength (length backHalf) of Inl e \<Rightarrow> Inl e
                  | Inr bl \<Rightarrow> Inr ([0x30] @ bl @ backHalf))))"

subsection \<open>The compact format\<close>

definition fromCompact :: "byte_source \<Rightarrow> js_error + signature" where
  "fromCompact src =
    (case to_array src of Inl e \<Rightarrow> Inl e
     | Inr data \<Rightarrow>
       if length data \<noteq> 65 then Inl (JsError ''Invalid Compact Signature'')
       else if unat (data ! 0) < 27 \<or> unat (data ! 0) \<ge> 35 then Inl (JsError ''Invalid Compact Byte'')
       else Inr \<lparr>sig_r = initArray_be (take 32 (drop 1 data)), sig_s = initArray_be (take 32 (drop 33 data))\<rparr>)"

definition toCompact :: "int \<Rightarrow> bool \<Rightarrow> signature \<Rightarrow> js_error + bytes" where
  "toCompact recovery compressed sg =
    (if recovery < 0 \<or> recovery > 3 then Inl (JsError ''Invalid recovery param'')
     else case bn_toArray False (Some 32) (sig_r sg) of Inl e \<Rightarrow> Inl e
     | Inr r \<Rightarrow>
       (case bn_toArray False (Some 32) (sig_s sg) of Inl e \<Rightarrow> Inl e
        | Inr s \<Rightarrow> Inr (word_of_int (27 + recovery + (if compressed then 4 else 0)) # r @ s)))"

subsection \<open>Signatures in scripts\<close>

record tx_signature = signature +
  sig_scope :: nat

definition fromChecksigFormat :: "bytes \<Rightarrow> js_error + tx_signature" where
  "fromChecksigFormat buf =
    (if buf = [] then Inr \<lparr>sig_r = bn_of_bigint 1, sig_s = bn_of_bigint 1, sig_scope = 1\<rparr>
     else case fromDER_bytes (butlast buf) of Inl e \<Rightarrow> Inl e
     | Inr sg \<Rightarrow> Inr \<lparr>sig_r = sig_r sg, sig_s = sig_s sg, sig_scope = unat (last buf)\<rparr>)"

definition toChecksigFormat :: "tx_signature \<Rightarrow> js_error + bytes" where
  "toChecksigFormat sg =
    (case toDER \<lparr>sig_r = sig_r sg, sig_s = sig_s sg\<rparr> of Inl e \<Rightarrow> Inl e
     | Inr d \<Rightarrow> Inr (d @ [word_of_nat (sig_scope sg)]))"

abbreviation half_order :: int where
  "half_order \<equiv> 0x7FFFFFFFFFFFFFFFFFFFFFFFFFFFFFFF5D576E7357A4501DDFE92F46681B20A0"

definition hasLowS :: "tx_signature \<Rightarrow> bool" where
  "hasLowS sg \<longleftrightarrow> \<not> (getSignedValue (sig_s sg) < 1 \<or> bn_cmp (sig_s sg) (bn_of_bigint half_order) > 0)"

subsection \<open>What \<open>fromDER\<close> accepts\<close>

definition der_int_ok :: "bytes \<Rightarrow> bool" where
  "der_int_ok xs \<longleftrightarrow> (at xs 0 = Some 0 \<longrightarrow> (\<exists>y. at xs 1 = Some y \<and> 128 \<le> unat y))"

definition der_bytes :: "bytes \<Rightarrow> bytes \<Rightarrow> bytes" where
  "der_bytes rb sb =
     [0x30, word_of_nat (length rb + length sb + 4), 0x02, word_of_nat (length rb)] @ rb
     @ [0x02, word_of_nat (length sb)] @ sb"

lemma at_drop: "at xs i = Some b \<longleftrightarrow> (\<exists>ys. drop i xs = b # ys)"
  by (metis (no_types, opaque_lifting) Cons_nth_drop_Suc at_def drop_eq_Nil leI list.distinct(1) list.inject
      option.distinct(1) option.inject)

lemma at_drop_Some: "at xs i = Some b \<Longrightarrow> drop i xs = b # drop (Suc i) xs"
  unfolding at_def by (metis Cons_nth_drop_Suc option.distinct(1) option.inject)

lemma at_append [simp]: "at (xs @ ys) i = (if i < length xs then at xs i else at ys (i - length xs))"
  by (auto simp: at_def nth_append)

lemma at_Cons [simp]: "at (x # xs) i = (if i = 0 then Some x else at xs (i - 1))"
  by (cases i) (auto simp: at_def)

lemma at_Nil [simp]: "at [] i = None"
  by (simp add: at_def)

lemma initArray_be_unpad: "initArray_be (0 # xs) = initArray_be xs"
  by (simp add: initArray_be_def)

lemma der_unpad_iff:
  "der_unpad msg xs = Inr ys \<longleftrightarrow> der_int_ok xs \<and> ys = (if at xs 0 = Some 0 then drop 1 xs else xs)"
  by (auto simp: der_unpad_def der_int_ok_def byte_and_80 split: option.splits)

lemma initArray_be_drop0: "at xs 0 = Some 0 \<Longrightarrow> initArray_be (drop (Suc 0) xs) = initArray_be xs"
  using at_drop_Some[of xs 0 0] initArray_be_unpad[of "drop 1 xs"] by (simp del: initArray_be_rev)

lemma der_length_iff:
  "der_length data i = Inr (Some l) \<longleftrightarrow> l < 128 \<and> at data i = Some (word_of_nat l)"
proof -
  have "word_of_nat (unat b) = b" for b :: byte by simp
  moreover have "l < 128 \<Longrightarrow> unat (word_of_nat l :: byte) = l" by simp
  ultimately show ?thesis
    by (auto simp: der_length_def byte_and_80 split: option.splits if_splits)
qed

lemma der_pair_iff:
  "(case der_unpad m1 r of Inl e \<Rightarrow> Inl e
    | Inr r' \<Rightarrow> (case der_unpad m2 s of Inl e \<Rightarrow> Inl e
        | Inr s' \<Rightarrow> Inr \<lparr>sig_r = initArray_be r', sig_s = initArray_be s'\<rparr>)) = Inr sg \<longleftrightarrow>
   der_int_ok r \<and> der_int_ok s \<and> sg = \<lparr>sig_r = initArray_be r, sig_s = initArray_be s\<rparr>"
proof (cases "der_unpad m1 r")
  case (Inl e)
  then show ?thesis using der_unpad_iff[of m1 r] by auto
next
  case (Inr r')
  then have r: "der_int_ok r" "initArray_be r' = initArray_be r"
    by (auto simp: der_unpad_iff initArray_be_drop0 simp del: initArray_be_rev split: if_splits)
  show ?thesis
  proof (cases "der_unpad m2 s")
    case (Inl e)
    then show ?thesis using der_unpad_iff[of m2 s] Inr by auto
  next
    case (Inr s')
    then have "der_int_ok s" "initArray_be s' = initArray_be s"
      by (auto simp: der_unpad_iff initArray_be_drop0 simp del: initArray_be_rev split: if_splits)
    with Inr r \<open>der_unpad m1 r = Inr r'\<close> show ?thesis by (auto simp del: initArray_be_rev)
  qed
qed

lemma fromDER_bytes_split:
  assumes "at data 0 = Some 0x30" "der_length data 1 = Inr (Some len)" "len + 2 = length data"
    "at data 2 = Some 0x02" "der_length data 3 = Inr (Some rl)" "at data (4 + rl) = Some 0x02"
    "der_length data (4 + rl + 1) = Inr (Some sl)" "length data = sl + (4 + rl + 2)"
  shows "fromDER_bytes data = Inr sg \<longleftrightarrow>
    der_int_ok (take rl (drop 4 data)) \<and> der_int_ok (take sl (drop (4 + rl + 2) data))
    \<and> sg = \<lparr>sig_r = initArray_be (take rl (drop 4 data)), sig_s = initArray_be (take sl (drop (4 + rl + 2) data))\<rparr>"
  unfolding fromDER_bytes_def Let_def assms sum.case option.case option.sel
    der_pair_iff [symmetric, where ?m1.0 = "''Invalid R-value in signature DER''"
      and ?m2.0 = "''Invalid S-value in signature DER''" and sg = sg]
  using assms(3,8) by (simp del: initArray_be_rev)

lemma fromDER_bytes_shape:
  assumes f: "fromDER_bytes data = Inr sg"
  obtains len rl sl where "at data 0 = Some 0x30" "der_length data 1 = Inr (Some len)" "len + 2 = length data"
    "at data 2 = Some 0x02" "der_length data 3 = Inr (Some rl)" "at data (4 + rl) = Some 0x02"
    "der_length data (4 + rl + 1) = Inr (Some sl)" "length data = sl + (4 + rl + 2)"
proof -
  have d0: "at data 0 = Some 0x30" using f by (auto simp: fromDER_bytes_def split: if_splits)
  obtain len where len: "der_length data 1 = Inr (Some len)" "len + 2 = length data" "at data 2 = Some 0x02"
    using f d0 by (auto simp: fromDER_bytes_def split: if_splits sum.splits option.splits)
  obtain rl where rl: "der_length data 3 = Inr (Some rl)" "at data (4 + rl) = Some 0x02"
    using f d0 len by (auto simp: fromDER_bytes_def Let_def split: if_splits sum.splits option.splits)
  obtain sl where sl: "der_length data (4 + rl + 1) = Inr (Some sl)" "length data = sl + (4 + rl + 2)"
    using f d0 len rl
    by (cases "der_length data (4 + rl + 1)") (auto simp: fromDER_bytes_def Let_def split: if_splits option.splits)
  show ?thesis by (rule that[OF d0 len rl sl])
qed

lemma fromDER_bytes_iff:
  "fromDER_bytes data = Inr sg \<longleftrightarrow>
    (\<exists>rb sb. data = der_bytes rb sb \<and> length rb + length sb + 4 < 128 \<and> der_int_ok rb \<and> der_int_ok sb
       \<and> sg = \<lparr>sig_r = initArray_be rb, sig_s = initArray_be sb\<rparr>)"
proof
  assume f: "fromDER_bytes data = Inr sg"
  obtain len rl sl where d: "at data 0 = Some 0x30" "der_length data 1 = Inr (Some len)" "len + 2 = length data"
    "at data 2 = Some 0x02" "der_length data 3 = Inr (Some rl)" "at data (4 + rl) = Some 0x02"
    "der_length data (4 + rl + 1) = Inr (Some sl)" "length data = sl + (4 + rl + 2)"
    by (rule fromDER_bytes_shape[OF f])
  define rb sb where rb: "rb = take rl (drop 4 data)" and sb: "sb = take sl (drop (4 + rl + 2) data)"
  have ok: "der_int_ok rb" "der_int_ok sb" "sg = \<lparr>sig_r = initArray_be rb, sig_s = initArray_be sb\<rparr>"
    using f unfolding fromDER_bytes_split[OF d] rb sb by blast+
  have lens: "length rb = rl" "length sb = sl" using d(8) by (simp_all add: rb sb)
  have "data = drop 0 data" by simp
  also have "\<dots> = 0x30 # drop 1 data" using at_drop_Some[OF d(1)] by simp
  also have "drop 1 data = word_of_nat len # drop 2 data"
    using d(2) at_drop_Some[of data 1] unfolding der_length_iff numeral_2_eq_2 One_nat_def by blast
  also have "drop 2 data = 0x02 # drop 3 data" using at_drop_Some[OF d(4)] by (simp add: numeral_3_eq_3)
  also have "drop 3 data = word_of_nat rl # drop 4 data"
    using d(5) at_drop_Some[of data 3] unfolding der_length_iff by simp
  also have "drop 4 data = rb @ drop (4 + rl) data"
    unfolding rb by (metis append_take_drop_id drop_drop add.commute)
  also have "drop (4 + rl) data = 0x02 # drop (4 + rl + 1) data" using at_drop_Some[OF d(6)] by simp
  also have "drop (4 + rl + 1) data = word_of_nat sl # drop (4 + rl + 2) data"
    using d(7) at_drop_Some[of data "4 + rl + 1"] unfolding der_length_iff by simp
  also have "drop (4 + rl + 2) data = sb" unfolding sb using d(8) by simp
  finally have "data = 0x30 # word_of_nat len # 0x02 # word_of_nat rl # rb @ 0x02 # word_of_nat sl # sb" .
  moreover have "len = rl + sl + 4" using d(3,8) by simp
  ultimately have "data = der_bytes rb sb" using lens by (simp add: der_bytes_def)
  moreover have "length rb + length sb + 4 < 128"
    using d(2,3,8) lens unfolding der_length_iff by linarith
  ultimately show "\<exists>rb sb. data = der_bytes rb sb \<and> length rb + length sb + 4 < 128 \<and> der_int_ok rb \<and> der_int_ok sb
       \<and> sg = \<lparr>sig_r = initArray_be rb, sig_s = initArray_be sb\<rparr>"
    using ok by blast
next
  assume "\<exists>rb sb. data = der_bytes rb sb \<and> length rb + length sb + 4 < 128 \<and> der_int_ok rb \<and> der_int_ok sb
       \<and> sg = \<lparr>sig_r = initArray_be rb, sig_s = initArray_be sb\<rparr>"
  then obtain rb sb where data: "data = der_bytes rb sb" and len: "length rb + length sb + 4 < 128"
    and ok: "der_int_ok rb" "der_int_ok sb"
    and sg: "sg = \<lparr>sig_r = initArray_be rb, sig_s = initArray_be sb\<rparr>" by blast
  have d: "at data 0 = Some 0x30" "der_length data 1 = Inr (Some (length rb + length sb + 4))"
    "length rb + length sb + 4 + 2 = length data"
    "at data 2 = Some 0x02" "der_length data 3 = Inr (Some (length rb))" "at data (4 + length rb) = Some 0x02"
    "der_length data (4 + length rb + 1) = Inr (Some (length sb))" "length data = length sb + (4 + length rb + 2)"
    unfolding der_length_iff using len by (simp_all add: data der_bytes_def)
  have s: "take (length rb) (drop 4 data) = rb" "take (length sb) (drop (4 + length rb + 2) data) = sb"
    by (simp_all add: data der_bytes_def drop_Cons')
  show "fromDER_bytes data = Inr sg"
    unfolding fromDER_bytes_split[OF d] s using ok sg by blast
qed

subsection \<open>What \<open>toDER\<close> writes\<close>

lemma byte_count_le: "n < 256 ^ k \<Longrightarrow> byte_count n \<le> k"
proof (rule ccontr)
  assume n: "n < 256 ^ k" and "\<not> byte_count n \<le> k"
  then have k: "k < byte_count n" by simp
  then have n0: "n \<noteq> 0" by (intro notI) simp
  obtain x xs where m: "mag_bytes_be n = x # xs" "x \<noteq> 0" "le_nat (rev (x # xs)) = n"
    using mag_bytes_be_Cons[OF n0] .
  have len: "length xs = byte_count n - 1"
    using arg_cong[OF m(1), of length] by (simp add: mag_bytes_be_eq)
  have "256 ^ length xs * 1 \<le> 256 ^ length xs * unat x"
    using m(2) by (intro mult_le_mono2) (simp add: byte_eq_0_iff Suc_le_eq)
  then have "256 ^ length xs \<le> n" using m(3) unfolding le_nat_rev_Cons by linarith
  moreover have "(256 :: nat) ^ k \<le> 256 ^ length xs" using k len by (intro power_increasing) simp_all
  ultimately show False using n by linarith
qed

definition der_int :: "nat \<Rightarrow> bytes" where
  "der_int m = (let bs = mag_bytes_be m in case bs of [] \<Rightarrow> [] | x # xs \<Rightarrow> if and x 0x80 = 0 then bs else 0 # bs)"

lemma bn_toArray_mag:
  "magnitude b \<noteq> 0 \<Longrightarrow> bn_toArray False None b = Inr (mag_bytes_be (magnitude b))"
proof -
  assume m: "magnitude b \<noteq> 0"
  obtain x xs where "mag_bytes_be (magnitude b) = x # xs" by (rule mag_bytes_be_Cons[OF m])
  then have "length (mag_bytes_be (magnitude b)) = Suc (length xs)" by simp
  then have "1 \<le> byte_count (magnitude b)" by (simp add: mag_bytes_be_eq)
  with m show ?thesis
    by (simp add: bn_toArray_def byteLength_def bitLength_def mag_bytes_be_eq byte_count_def)
qed

lemma der_int_props:
  assumes "m \<noteq> 0"
  shows "rmPadding (pad_high (mag_bytes_be m)) = der_int m" "strip_zeros (der_int m) = der_int m"
    "der_int_ok (der_int m)" "length (der_int m) \<le> byte_count m + 1" "le_nat (rev (der_int m)) = m"
proof -
  obtain x xs where m: "mag_bytes_be m = x # xs" "x \<noteq> 0" "le_nat (rev (x # xs)) = m"
    using mag_bytes_be_Cons[OF assms] .
  have len: "Suc (length xs) = byte_count m"
    using arg_cong[OF m(1), of length] by (simp add: mag_bytes_be_eq)
  have rm: "rmPadding (x # xs) = x # xs" using m(2) by (cases xs) simp_all
  show "rmPadding (pad_high (mag_bytes_be m)) = der_int m"
    using rm by (simp add: m(1) pad_high_def der_int_def)
  show "strip_zeros (der_int m) = der_int m"
    using m(2) by (simp add: m(1) der_int_def high_bit_clear_def Let_def)
  show "der_int_ok (der_int m)"
    using m(2) by (simp add: m(1) der_int_def der_int_ok_def byte_and_80 Let_def)
  show "length (der_int m) \<le> byte_count m + 1"
    using len by (simp add: m(1) der_int_def Let_def)
  show "le_nat (rev (der_int m)) = m"
    using m(3) by (simp add: m(1) der_int_def Let_def le_nat_append)
qed

definition der_s :: "nat \<Rightarrow> bytes" where
  "der_s m = (if m = 0 then [] else der_int m)"

definition der_r :: "nat \<Rightarrow> bytes" where
  "der_r m = (if m = 0 then [0] else der_int m)"

lemma bn_toArray_zero: "magnitude b = 0 \<Longrightarrow> bn_toArray False None b = Inr [0]"
  by (simp add: bn_toArray_def byteLength_def)

lemma toDER_eq:
  assumes "magnitude (sig_r sg) < 2 ^ 256" "magnitude (sig_s sg) < 2 ^ 256"
  shows "toDER sg = Inr (der_bytes (der_r (magnitude (sig_r sg))) (der_s (magnitude (sig_s sg))))
    \<and> length (der_r (magnitude (sig_r sg))) \<le> 33 \<and> length (der_s (magnitude (sig_s sg))) \<le> 33"
proof -
  let ?r = "magnitude (sig_r sg)" and ?s = "magnitude (sig_s sg)"
  have p: "(2 :: nat) ^ 256 = 256 ^ 32" by (simp add: power_mult [symmetric])
  have "byte_count ?r \<le> 32" "byte_count ?s \<le> 32" using assms unfolding p by (simp_all only: byte_count_le)
  then have l: "length (der_r ?r) \<le> 33" "length (der_s ?s) \<le> 33"
    using der_int_props(4)[of ?r] der_int_props(4)[of ?s] by (auto simp: der_r_def der_s_def)
  obtain r0 where r: "bn_toArray False None (sig_r sg) = Inr r0" "rmPadding (pad_high r0) = der_r ?r"
  proof (cases "?r = 0")
    case True
    then show ?thesis using that[OF bn_toArray_zero] by (simp add: pad_high_def der_r_def)
  next
    case False
    then show ?thesis using that[OF bn_toArray_mag] der_int_props(1)[OF False] by (simp add: der_r_def)
  qed
  obtain s0 where s: "bn_toArray False None (sig_s sg) = Inr s0" "strip_zeros (rmPadding (pad_high s0)) = der_s ?s"
  proof (cases "?s = 0")
    case True
    then show ?thesis using that[OF bn_toArray_zero] by (simp add: pad_high_def der_s_def high_bit_clear_def)
  next
    case False
    then show ?thesis using that[OF bn_toArray_mag] der_int_props(1,2)[OF False] by (simp add: der_s_def)
  qed
  have "toDER sg = Inr (der_bytes (der_r ?r) (der_s ?s))"
    unfolding toDER_def r(1) s(1) sum.case Let_def r(2) s(2) constructLength_def der_bytes_def
    using l by (simp add: algebra_simps)
  with l show ?thesis by blast
qed

lemma initArray_der_s: "bn_wf b \<Longrightarrow> \<not> is_negative b \<Longrightarrow> initArray_be (der_s (magnitude b)) = b"
  by (cases b) (auto simp: der_s_def der_int_props(5) initializeState_def)

text \<open>The compact format and the format of scripts.\<close>

lemma bn_toArray_be_32:
  assumes "magnitude b < 2 ^ 256"
  shows "bn_toArray False (Some 32) b = Inr (rev (le_bytes 32 (magnitude b)))"
proof -
  have p: "(2 :: nat) ^ 256 = 256 ^ 32" by (simp add: power_mult [symmetric])
  have "byteLength b \<le> 32"
    using byte_count_le[of "magnitude b" 32] assms unfolding p
    by (simp add: byteLength_def bitLength_def byte_count_def)
  then show ?thesis by (simp add: bn_toArray_def)
qed

lemma initArray_be_32:
  assumes "bn_wf b" "\<not> is_negative b" "magnitude b < 2 ^ 256"
  shows "initArray_be (rev (le_bytes 32 (magnitude b))) = b"
proof -
  have p: "(2 :: nat) ^ 256 = 256 ^ 32" by (simp add: power_mult [symmetric])
  have "le_nat (le_bytes 32 (magnitude b)) = magnitude b"
    using assms(3) unfolding p by (rule le_nat_le_bytes_small)
  then show ?thesis using assms(1,2) by (cases b) (simp add: initializeState_def bn_wf_def)
qed

lemma compact_roundtrip:
  assumes "0 \<le> recovery" "recovery \<le> 3"
    and r: "bn_wf (sig_r sg)" "\<not> is_negative (sig_r sg)" "magnitude (sig_r sg) < 2 ^ 256"
    and s: "bn_wf (sig_s sg)" "\<not> is_negative (sig_s sg)" "magnitude (sig_s sg) < 2 ^ 256"
  shows "\<exists>bs. toCompact recovery compressed sg = Inr bs \<and> length bs = 65
    \<and> fromCompact (Raw bs) = Inr \<lparr>sig_r = sig_r sg, sig_s = sig_s sg\<rparr>"
proof -
  let ?c = "27 + recovery + (if compressed then 4 else 0)"
  let ?r = "rev (le_bytes 32 (magnitude (sig_r sg)))" and ?s = "rev (le_bytes 32 (magnitude (sig_s sg)))"
  have t: "toCompact recovery compressed sg = Inr (word_of_int ?c # ?r @ ?s)"
    using assms(1,2) by (simp add: toCompact_def bn_toArray_be_32[OF r(3)] bn_toArray_be_32[OF s(3)])
  have c: "unat (word_of_int ?c :: byte) = nat ?c"
  proof -
    have "?c = int (nat ?c)" "nat ?c < 256" using assms(1,2) by (simp_all add: nat_less_iff)
    then show ?thesis by (metis mod_less of_int_of_nat_eq unat_byte_of_nat)
  qed
  have "fromCompact (Raw (word_of_int ?c # ?r @ ?s))
      = Inr \<lparr>sig_r = initArray_be ?r, sig_s = initArray_be ?s\<rparr>"
    unfolding fromCompact_def using assms(1,2) c
    by (simp add: nat_less_iff not_le drop_Cons' del: initArray_be_rev)
  with t show ?thesis by (simp add: initArray_be_32[OF r] initArray_be_32[OF s] del: initArray_be_rev)
qed

lemma checksig_format_roundtrip:
  assumes "toDER \<lparr>sig_r = sig_r sg, sig_s = sig_s sg\<rparr> = Inr d"
    and "fromDER_bytes d = Inr \<lparr>sig_r = sig_r sg, sig_s = sig_s sg\<rparr>" and "sig_scope sg < 256"
  shows "\<exists>bs. toChecksigFormat sg = Inr bs \<and>
    fromChecksigFormat bs = Inr \<lparr>sig_r = sig_r sg, sig_s = sig_s sg, sig_scope = sig_scope sg\<rparr>"
  using assms by (simp add: toChecksigFormat_def fromChecksigFormat_def)

subsection \<open>Properties\<close>

text \<open>C36: \<open>fromDER\<close> accepts exactly the byte strings of a short-form DER sequence of two integers whose
  leading zero bytes, if any, protect a byte with the high bit set, and returns their unsigned
  values; in particular it also accepts integers that DER would read as negative, and empty ones.\<close>

theorem fromDER_exact:
  "fromDER_bytes data = Inr sg \<longleftrightarrow>
    (\<exists>rb sb. data = der_bytes rb sb \<and> length rb + length sb + 4 < 128 \<and> der_int_ok rb \<and> der_int_ok sb
       \<and> sg = \<lparr>sig_r = initArray_be rb, sig_s = initArray_be sb\<rparr>)"
  by (rule fromDER_bytes_iff)

text \<open>C35: A signature of two 256-bit numbers is read back from its DER bytes when \<open>r\<close> is positive; with
  \<open>r = 0\<close> the bytes \<open>toDER\<close> writes are rejected by \<open>fromDER\<close>.\<close>

theorem DER_roundtrip:
  assumes "bn_wf (sig_r sg)" "\<not> is_negative (sig_r sg)" "magnitude (sig_r sg) < 2 ^ 256"
    and "bn_wf (sig_s sg)" "\<not> is_negative (sig_s sg)" "magnitude (sig_s sg) < 2 ^ 256"
  shows "\<exists>bs. toDER sg = Inr bs \<and>
    fromDER_bytes bs = (if magnitude (sig_r sg) = 0 then Inl (JsError ''Invalid R-value in signature DER'')
                        else Inr \<lparr>sig_r = sig_r sg, sig_s = sig_s sg\<rparr>)"
proof (cases "magnitude (sig_r sg) = 0")
  case True
  let ?s = "der_s (magnitude (sig_s sg))"
  have t: "toDER sg = Inr (der_bytes [0] ?s)" "length ?s \<le> 33"
    using toDER_eq[OF assms(3,6)] True by (simp_all add: der_r_def)
  let ?d = "der_bytes [0] ?s"
  have d: "at ?d 0 = Some 0x30" "der_length ?d 1 = Inr (Some (length ?s + 5))" "at ?d 2 = Some 0x02"
    "der_length ?d 3 = Inr (Some 1)" "at ?d (4 + 1) = Some 0x02"
    "der_length ?d (4 + 1 + 1) = Inr (Some (length ?s))" "length ?d = length ?s + 7"
    unfolding der_length_iff using t(2) by (simp_all add: der_bytes_def)
  have "take 1 (drop 4 ?d) = [0]" by (simp add: der_bytes_def)
  then have "fromDER_bytes ?d = Inl (JsError ''Invalid R-value in signature DER'')"
    unfolding fromDER_bytes_def d sum.case option.case Let_def by (simp add: der_unpad_def d(7))
  with t True show ?thesis by simp
next
  case False
  then have r: "der_r (magnitude (sig_r sg)) = der_s (magnitude (sig_r sg))" by (simp add: der_r_def der_s_def)
  have ok: "der_int_ok (der_s m)" for m
    using der_int_props(3)[of m] by (simp add: der_s_def der_int_ok_def)
  have t: "toDER sg = Inr (der_bytes (der_s (magnitude (sig_r sg))) (der_s (magnitude (sig_s sg))))"
    "length (der_s (magnitude (sig_r sg))) \<le> 33" "length (der_s (magnitude (sig_s sg))) \<le> 33"
    using toDER_eq[OF assms(3,6)] unfolding r by blast+
  have "fromDER_bytes (der_bytes (der_s (magnitude (sig_r sg))) (der_s (magnitude (sig_s sg))))
      = Inr \<lparr>sig_r = sig_r sg, sig_s = sig_s sg\<rparr>"
    unfolding fromDER_bytes_iff
    by (intro exI conjI, rule refl, use t in simp, rule ok, rule ok)
       (simp add: initArray_der_s assms del: initArray_be_rev)
  with t(1) False show ?thesis by simp
qed

lemma DER_roundtrip_witness:
  "\<exists>bs. toDER \<lparr>sig_r = bn_of_bigint 0x80, sig_s = bn_of_bigint 7\<rparr> = Inr bs
     \<and> fromDER_bytes bs = Inr \<lparr>sig_r = bn_of_bigint 0x80, sig_s = bn_of_bigint 7\<rparr>"
  using DER_roundtrip[of "\<lparr>sig_r = bn_of_bigint 0x80, sig_s = bn_of_bigint 7\<rparr>"]
  by (simp add: bn_of_bigint_def initializeState_def normSign_def bn_wf_def)

end
