(* ===== verification/Signature_Hash.thy ===== *)
theory Signature_Hash
  imports Transaction_Codec Signature_DER
begin

text \<open>
  \<open>TransactionSignature.ts\<close>: the preimages that signatures sign. \<open>originalScriptCode\<close> is the node's walk
  over the script, \<open>formatOTDA\<close> the original digest, \<open>formatBip143\<close> the digest with reusable
  components and their cache, \<open>formatBytes\<close> the choice between the two. Scripts enter as their
  serialised bytes; the double hash is a parameter. The cache is an optional object that the
  formatting updates: it is the state of the computations, absent as \<open>None\<close>.
\<close>

abbreviation (input) SIGHASH_ALL :: nat where "SIGHASH_ALL \<equiv> 0x01"
abbreviation (input) SIGHASH_NONE :: nat where "SIGHASH_NONE \<equiv> 0x02"
abbreviation (input) SIGHASH_SINGLE :: nat where "SIGHASH_SINGLE \<equiv> 0x03"
abbreviation (input) SIGHASH_CHRONICLE :: nat where "SIGHASH_CHRONICLE \<equiv> 0x20"
abbreviation (input) SIGHASH_FORKID :: nat where "SIGHASH_FORKID \<equiv> 0x40"
abbreviation (input) SIGHASH_ANYONECANPAY :: nat where "SIGHASH_ANYONECANPAY \<equiv> 0x80"

text \<open>Script bytes, by the hash function that stands for \<open>hash256\<close>.\<close>

type_synonym hash_fun = "bytes \<Rightarrow> bytes"

record sighash_params =
  p_sourceTXID :: string
  p_sourceOutputIndex :: int
  p_sourceSatoshis :: int
  p_transactionVersion :: int
  p_otherInputs :: "tx_input list"
  p_allInputs :: "tx_input list option"
  p_outputs :: "tx_output option list"
  p_inputIndex :: nat
  p_subscript :: bytes
  p_inputSequence :: int
  p_lockTime :: int
  p_scope :: nat
  p_ignoreChronicle :: bool
  p_forkIdEnabled :: bool

subsection \<open>The original digest's walk over a script\<close>

definition originalPushLength :: "bytes \<Rightarrow> nat \<Rightarrow> nat \<Rightarrow> (nat \<times> nat) option" where
  "originalPushLength source q opc =
     (if 0 < opc \<and> opc < OP_PUSHDATA1 then Some (opc, q)
      else if opc = OP_PUSHDATA1 then
        (if length source - q < 1 then None else Some (le_nat (take 1 (drop q source)), q + 1))
      else if opc = OP_PUSHDATA2 then
        (if length source - q < 2 then None else Some (le_nat (take 2 (drop q source)), q + 2))
      else if opc = OP_PUSHDATA4 then
        (if length source - q < 4 then None else Some (le_nat (take 4 (drop q source)), q + 4))
      else Some (0, q))"

lemma originalPushLength_mono: "originalPushLength source q opc = Some (len, q') \<Longrightarrow> q \<le> q'"
  by (auto simp: originalPushLength_def split: if_splits)

text \<open>
  The loop, from the position \<open>q\<close> with the bytes of the earlier segments, the start of the current
  one and the number of separators dropped. It stops at a push whose length or data is cut off;
  the position it stops at includes the opcode, and the length bytes when only the data is cut off.
\<close>

function code_walk :: "bytes \<Rightarrow> nat \<Rightarrow> bytes \<Rightarrow> nat \<Rightarrow> nat \<Rightarrow> bytes \<times> nat" where
  "code_walk source q bs segmentStart separators =
     (if q < length source then
        (case originalPushLength source (q + 1) (unat (source ! q)) of
           None \<Rightarrow> (bs @ drop segmentStart (take (q + 1) source), separators)
         | Some (len, q1) \<Rightarrow>
             if length source - q1 < len
             then (bs @ drop segmentStart (take q1 source), separators)
             else if unat (source ! q) = OP_CODESEPARATOR
             then code_walk source (q1 + len) (bs @ drop segmentStart (take q source)) (q1 + len) (separators + 1)
             else code_walk source (q1 + len) bs segmentStart separators)
      else (bs @ drop segmentStart (take q source), separators))"
  by pat_completeness auto
termination
  by (relation "measure (\<lambda>(source, q, bs, start, n). length source - q)")
     (auto dest!: originalPushLength_mono)

declare code_walk.simps [simp del]

definition originalScriptCode :: "bytes \<Rightarrow> bytes \<times> nat" where
  "originalScriptCode source =
     (case code_walk source 0 [] 0 0 of (bs, separators) \<Rightarrow> (bs, length source - separators))"

subsection \<open>Helpers for writers\<close>

definition run_wr :: "wr \<Rightarrow> js_error + bytes" where
  "run_wr m = (case m (new_writer []) of (Inl e, w) \<Rightarrow> Inl e | (Inr u, w) \<Rightarrow> wr_toUint8Array w)"

fun wr_all :: "('a \<Rightarrow> wr) \<Rightarrow> 'a list \<Rightarrow> wr" where
  "wr_all f [] = ret ()"
| "wr_all f (x # xs) = thn (f x) (wr_all f xs)"

definition sequence_or_final :: "tx_input \<Rightarrow> int" where
  "sequence_or_final i = (case in_sequence i of None \<Rightarrow> 0xffffffff | Some n \<Rightarrow> n)"

definition write_hex_reverse :: "string \<Rightarrow> wr" where
  "write_hex_reverse hex = bnd (lift_result (hexToArray hex)) writeReverse"

subsection \<open>The reusable components of the BIP143 digest\<close>

record sighash_cache =
  c_hashPrevouts :: "bytes option"
  c_hashSequence :: "bytes option"
  c_hashOutputsAll :: "bytes option"
  c_hashOutputsSingle :: "nat \<Rightarrow> bytes option"

type_synonym 'a cached = "(sighash_cache option, js_error, 'a) action"

definition bip143Inputs :: "sighash_params \<Rightarrow> tx_input \<Rightarrow> tx_input list" where
  "bip143Inputs p currentInput =
     (case p_allInputs p of Some ins \<Rightarrow> ins
      | None \<Rightarrow> take (p_inputIndex p) (p_otherInputs p) @ [currentInput] @ drop (p_inputIndex p) (p_otherInputs p))"

text \<open>\<open>bip143InputAt\<close> for every index of the loops.\<close>

definition bip143InputAt :: "tx_input list \<Rightarrow> nat \<Rightarrow> tx_input \<Rightarrow> nat \<Rightarrow> tx_input" where
  "bip143InputAt inputs inputIndex currentInput index =
     (if index = inputIndex then currentInput else inputs ! index)"

definition write_prevout :: "hash_fun \<Rightarrow> tx_input \<Rightarrow> wr" where
  "write_prevout h i = thn
     (case in_sourceTXID i of
        None \<Rightarrow> (case in_sourceTransaction i of
            None \<Rightarrow> throw (JsError ''Missing sourceTransaction for input'')
          | Some t \<Rightarrow> bnd (lift_result (tx_hash h t)) wr_write)
      | Some txid \<Rightarrow> write_hex_reverse txid)
     (writeUInt32LE (in_sourceOutputIndex i))"

definition hashPrevouts :: "hash_fun \<Rightarrow> tx_input list \<Rightarrow> nat \<Rightarrow> tx_input \<Rightarrow> js_error + bytes" where
  "hashPrevouts h inputs inputIndex currentInput =
     (case run_wr (wr_all (\<lambda>k. write_prevout h (bip143InputAt inputs inputIndex currentInput k)) [0..<length inputs]) of
        Inl e \<Rightarrow> Inl e | Inr bs \<Rightarrow> Inr (h bs))"

definition hashSequences :: "hash_fun \<Rightarrow> tx_input list \<Rightarrow> nat \<Rightarrow> tx_input \<Rightarrow> js_error + bytes" where
  "hashSequences h inputs inputIndex currentInput =
     (case run_wr (wr_all (\<lambda>k. writeUInt32LE (sequence_or_final (bip143InputAt inputs inputIndex currentInput k)))
                     [0..<length inputs]) of
        Inl e \<Rightarrow> Inl e | Inr bs \<Rightarrow> Inr (h bs))"

definition writeBip143Output :: "tx_output option \<Rightarrow> wr" where
  "writeBip143Output o1 =
     (case o1 of
        None \<Rightarrow> throw (JsTypeError ''Cannot read properties of null (reading 'satoshis')'')
      | Some x \<Rightarrow> thn (writeUInt64LE (case satoshis x of None \<Rightarrow> 0 | Some n \<Rightarrow> n))
          (thn (writeVarIntNum (int (length (lockingScript x)))) (wr_write (lockingScript x))))"

text \<open>With no index every output is hashed, with an index that one, which must exist.\<close>

definition hashOutputs :: "hash_fun \<Rightarrow> tx_output option list \<Rightarrow> nat option \<Rightarrow> js_error + bytes" where
  "hashOutputs h outputs outputIndex =
     (case (case outputIndex of
              None \<Rightarrow> run_wr (wr_all writeBip143Output outputs)
            | Some i \<Rightarrow>
                (case at outputs i of
                   Some (Some x) \<Rightarrow> run_wr (writeBip143Output (Some x))
                 | _ \<Rightarrow> Inl (JsError (''Output at index '' @ decimal (int i) @ '' does not exist'')))) of
        Inl e \<Rightarrow> Inl e | Inr bs \<Rightarrow> Inr (h bs))"

definition ZERO_HASH :: bytes where
  "ZERO_HASH = replicate 32 0"

text \<open>
  A component is taken from the cache when it is there, otherwise computed and stored. The first
  two arguments read and write its slot.
\<close>

definition memo :: "(sighash_cache \<Rightarrow> bytes option) \<Rightarrow> (bytes \<Rightarrow> sighash_cache \<Rightarrow> sighash_cache) \<Rightarrow>
    js_error + bytes \<Rightarrow> bytes cached" where
  "memo slot store compute =
     bnd (get (\<lambda>c. Option.bind c slot)) (\<lambda>stored.
       case stored of
         Some x \<Rightarrow> ret x
       | None \<Rightarrow> bnd (lift_result compute) (\<lambda>x. thn (modify (map_option (store x))) (ret x)))"

definition bip143PrevoutsHash :: "hash_fun \<Rightarrow> sighash_params \<Rightarrow> tx_input list \<Rightarrow> tx_input \<Rightarrow> bytes cached" where
  "bip143PrevoutsHash h p inputs currentInput =
     (if and (p_scope p) SIGHASH_ANYONECANPAY \<noteq> 0 then ret ZERO_HASH
      else memo c_hashPrevouts (\<lambda>x c. c\<lparr>c_hashPrevouts := Some x\<rparr>)
             (hashPrevouts h inputs (p_inputIndex p) currentInput))"

definition bip143SequenceHash :: "hash_fun \<Rightarrow> sighash_params \<Rightarrow> tx_input list \<Rightarrow> tx_input \<Rightarrow> bytes cached" where
  "bip143SequenceHash h p inputs currentInput =
     (let baseScope = and (p_scope p) 31
      in if and (p_scope p) SIGHASH_ANYONECANPAY \<noteq> 0 \<or> baseScope = SIGHASH_SINGLE \<or> baseScope = SIGHASH_NONE
         then ret ZERO_HASH
         else memo c_hashSequence (\<lambda>x c. c\<lparr>c_hashSequence := Some x\<rparr>)
                (hashSequences h inputs (p_inputIndex p) currentInput))"

definition bip143OutputsHash :: "hash_fun \<Rightarrow> sighash_params \<Rightarrow> bytes cached" where
  "bip143OutputsHash h p =
     (let baseScope = and (p_scope p) 31
      in if baseScope \<noteq> SIGHASH_SINGLE \<and> baseScope \<noteq> SIGHASH_NONE
         then memo c_hashOutputsAll (\<lambda>x c. c\<lparr>c_hashOutputsAll := Some x\<rparr>) (hashOutputs h (p_outputs p) None)
         else if baseScope \<noteq> SIGHASH_SINGLE \<or> p_inputIndex p \<ge> length (p_outputs p)
         then ret ZERO_HASH
         else memo (\<lambda>c. c_hashOutputsSingle c (p_inputIndex p))
                (\<lambda>x c. c\<lparr>c_hashOutputsSingle := (c_hashOutputsSingle c)(p_inputIndex p := Some x)\<rparr>)
                (hashOutputs h (p_outputs p) (Some (p_inputIndex p))))"

definition current_input :: "sighash_params \<Rightarrow> tx_input" where
  "current_input p = TxInput None (Some (p_sourceTXID p)) (p_sourceOutputIndex p) None (Some (p_inputSequence p))"

definition formatBip143 :: "hash_fun \<Rightarrow> sighash_params \<Rightarrow> bytes cached" where
  "formatBip143 h p =
     (let currentInput = current_input p; inputs = bip143Inputs p currentInput
      in bnd (bip143PrevoutsHash h p inputs currentInput) (\<lambda>prevouts.
         bnd (bip143SequenceHash h p inputs currentInput) (\<lambda>sequences.
         bnd (bip143OutputsHash h p) (\<lambda>outputs.
           lift_result (run_wr
             (thn (writeInt32LE (p_transactionVersion p))
             (thn (wr_write prevouts)
             (thn (wr_write sequences)
             (thn (write_hex_reverse (p_sourceTXID p))
             (thn (writeUInt32LE (p_sourceOutputIndex p))
             (thn (writeVarIntNum (int (length (p_subscript p))))
             (thn (wr_write (p_subscript p))
             (thn (writeUInt64LE (p_sourceSatoshis p))
             (thn (writeUInt32LE (p_inputSequence p))
             (thn (wr_write outputs)
             (thn (writeUInt32LE (p_lockTime p))
                  (writeUInt32LE (int (p_scope p)))))))))))))))))))"

subsection \<open>The original digest\<close>

record otda_input =
  oi_sourceTXID :: string
  oi_sourceOutputIndex :: int
  oi_sequence :: int
  oi_script :: bytes
  oi_scriptLength :: "nat option"

definition otda_write_input :: "otda_input \<Rightarrow> wr" where
  "otda_write_input i =
     thn (write_hex_reverse (oi_sourceTXID i))
     (thn (writeUInt32LE (oi_sourceOutputIndex i))
     (thn (writeVarIntNum (int (case oi_scriptLength i of None \<Rightarrow> length (oi_script i) | Some n \<Rightarrow> n)))
     (thn (wr_write (oi_script i)) (writeUInt32LE (oi_sequence i)))))"

definition otda_writeInputs :: "otda_input list \<Rightarrow> wr" where
  "otda_writeInputs ins = thn (writeVarIntNum (int (length ins))) (wr_all otda_write_input ins)"

definition otda_write_output :: "int \<times> bytes \<Rightarrow> wr" where
  "otda_write_output x = thn (writeUInt64LE (fst x))
     (thn (writeVarIntNum (int (length (snd x)))) (wr_write (snd x)))"

definition otda_writeOutputs :: "(int \<times> bytes) list \<Rightarrow> wr" where
  "otda_writeOutputs outs = thn (writeVarIntNum (int (length outs))) (wr_all otda_write_output outs)"

text \<open>Another input of the transaction: its script is emptied.\<close>

definition otda_other :: "hash_fun \<Rightarrow> bool \<Rightarrow> tx_input \<Rightarrow> js_error + otda_input" where
  "otda_other h zeroSequence i =
     (case (case in_sourceTXID i of Some x \<Rightarrow> Inr x
            | None \<Rightarrow> (case in_sourceTransaction i of None \<Rightarrow> Inr [] | Some t \<Rightarrow> tx_id_hex h t)) of
        Inl e \<Rightarrow> Inl e
      | Inr txid \<Rightarrow> Inr \<lparr>oi_sourceTXID = txid, oi_sourceOutputIndex = in_sourceOutputIndex i,
            oi_sequence = (if zeroSequence then 0 else sequence_or_final i),
            oi_script = [], oi_scriptLength = None\<rparr>)"

fun collect :: "('a \<Rightarrow> js_error + 'b) \<Rightarrow> 'a list \<Rightarrow> js_error + 'b list" where
  "collect f [] = Inr []"
| "collect f (x # xs) = (case f x of Inl e \<Rightarrow> Inl e
     | Inr y \<Rightarrow> (case collect f xs of Inl e \<Rightarrow> Inl e | Inr ys \<Rightarrow> Inr (y # ys)))"

definition otda_current :: "sighash_params \<Rightarrow> otda_input" where
  "otda_current p = \<lparr>oi_sourceTXID = p_sourceTXID p, oi_sourceOutputIndex = p_sourceOutputIndex p,
     oi_sequence = p_inputSequence p, oi_script = fst (originalScriptCode (p_subscript p)),
     oi_scriptLength = Some (snd (originalScriptCode (p_subscript p)))\<rparr>"

definition otda_inputs :: "hash_fun \<Rightarrow> bool \<Rightarrow> sighash_params \<Rightarrow> js_error + otda_input list" where
  "otda_inputs h zeroSequence p =
     (case p_allInputs p of
        None \<Rightarrow> (case collect (otda_other h zeroSequence) (p_otherInputs p) of Inl e \<Rightarrow> Inl e
          | Inr ins \<Rightarrow> Inr (take (p_inputIndex p) ins @ [otda_current p] @ drop (p_inputIndex p) ins))
      | Some all \<Rightarrow> collect (\<lambda>(k, i). if k = p_inputIndex p then Inr (otda_current p)
                                        else otda_other h zeroSequence i)
                     (zip [0..<length all] all))"

definition otda_output :: "tx_output option \<Rightarrow> js_error + (int \<times> bytes)" where
  "otda_output o1 =
     (case o1 of None \<Rightarrow> Inl (JsTypeError ''Cannot read properties of null (reading 'satoshis')'')
      | Some x \<Rightarrow> Inr (case satoshis x of None \<Rightarrow> 0 | Some n \<Rightarrow> n, lockingScript x))"

definition otda_single_outputs :: "sighash_params \<Rightarrow> js_error + (int \<times> bytes) list" where
  "otda_single_outputs p =
     (let blanks = replicate (p_inputIndex p) (- 1, [])
      in case at (p_outputs p) (p_inputIndex p) of
           None \<Rightarrow> Inr blanks
         | Some o1 \<Rightarrow> (case otda_output o1 of Inl e \<Rightarrow> Inl e | Inr x \<Rightarrow> Inr (blanks @ [x])))"

definition formatOTDA :: "hash_fun \<Rightarrow> sighash_params \<Rightarrow> js_error + bytes" where
  "formatOTDA h p =
     (let isAnyoneCanPay = (and (p_scope p) SIGHASH_ANYONECANPAY = SIGHASH_ANYONECANPAY);
          isSingle = (and (p_scope p) 31 = SIGHASH_SINGLE);
          isNone = (and (p_scope p) 31 = SIGHASH_NONE);
          isAll = (and (p_scope p) 31 = SIGHASH_ALL \<or> \<not> isSingle \<and> \<not> isNone)
      in run_wr
         (thn (writeInt32LE (p_transactionVersion p))
         (thn (if \<not> isAnyoneCanPay
               then bnd (lift_result (otda_inputs h (isSingle \<or> isNone) p)) otda_writeInputs
               else otda_writeInputs [otda_current p])
         (thn (if isAll then bnd (lift_result (collect otda_output (p_outputs p))) otda_writeOutputs
               else if isSingle then bnd (lift_result (otda_single_outputs p)) otda_writeOutputs
               else otda_writeOutputs [])
         (thn (writeUInt32LE (p_lockTime p)) (writeUInt32LE (int (p_scope p))))))))"

subsection \<open>The choice of the digest\<close>

definition formatBytes :: "hash_fun \<Rightarrow> sighash_params \<Rightarrow> bytes cached" where
  "formatBytes h p =
     (let hasForkId = (and (p_scope p) SIGHASH_FORKID \<noteq> 0);
          hasChronicle = (\<not> p_ignoreChronicle p \<and> and (p_scope p) SIGHASH_CHRONICLE \<noteq> 0)
      in if hasForkId \<and> p_forkIdEnabled p \<and> \<not> hasChronicle then formatBip143 h p
         else if \<not> p_forkIdEnabled p \<or> \<not> hasForkId \<or> hasChronicle then lift_result (formatOTDA h p)
         else ret [])"

definition usesOtdaSingleBug :: "sighash_params \<Rightarrow> bool" where
  "usesOtdaSingleBug p =
     (let hasForkId = (and (p_scope p) SIGHASH_FORKID \<noteq> 0);
          hasChronicle = (\<not> p_ignoreChronicle p \<and> and (p_scope p) SIGHASH_CHRONICLE \<noteq> 0);
          usesOtda = (\<not> p_forkIdEnabled p \<or> \<not> hasForkId \<or> hasChronicle)
      in usesOtda \<and> and (p_scope p) 31 = SIGHASH_SINGLE \<and> p_inputIndex p \<ge> length (p_outputs p))"

subsection \<open>The walk drops the separators of a well-formed script\<close>

definition walkable :: "script_chunk list \<Rightarrow> bool" where
  "walkable cs \<longleftrightarrow> list_all (\<lambda>c. chunk_op c < 256 \<and>
     (if 0 < chunk_op c \<and> chunk_op c \<le> OP_PUSHDATA4
      then (case chunk_data c of None \<Rightarrow> False | Some d \<Rightarrow> push_ok (chunk_op c) (length d))
      else chunk_data c = None)) cs"

lemma originalPushLength_written:
  assumes opc: "0 < opc" "opc \<le> OP_PUSHDATA4" and ok: "push_ok opc (length d)"
    and bs: "bs = xs @ writeChunkData opc d @ ys"
  shows "originalPushLength bs (length xs) opc
    = Some (length d, length xs + (length (writeChunkData opc d) - length d))"
proof -
  consider "opc < OP_PUSHDATA1" | "opc = OP_PUSHDATA1" | "opc = OP_PUSHDATA2" | "opc = OP_PUSHDATA4"
    using opc by linarith
  then show ?thesis
  proof cases
    case 1
    with ok opc show ?thesis by (simp add: originalPushLength_def writeChunkData_eq push_ok_def)
  next
    case 2
    with ok have "le_nat (le_bytes 1 (length d)) = length d" by (intro le_nat_le_bytes_small) (simp add: push_ok_def)
    with 2 show ?thesis by (simp add: originalPushLength_def writeChunkData_eq bs del: le_bytes.simps)
  next
    case 3
    with ok have "le_nat (le_bytes 2 (length d)) = length d" by (intro le_nat_le_bytes_small) (simp add: push_ok_def)
    with 3 show ?thesis by (simp add: originalPushLength_def writeChunkData_eq bs del: le_bytes.simps)
  next
    case 4
    with ok have "le_nat (le_bytes 4 (length d)) = length d" by (intro le_nat_le_bytes_small) (simp add: push_ok_def)
    with 4 show ?thesis by (simp add: originalPushLength_def writeChunkData_eq bs del: le_bytes.simps)
  qed
qed

lemma code_walk_chunk:
  assumes ok: "walkable [c]" and src: "source = xs @ serialize_chunks (c # cs)"
  defines "n \<equiv> length (serialize_chunks [c])"
  shows "serialize_chunks (c # cs) = serialize_chunks [c] @ serialize_chunks cs"
    and "code_walk source (length xs) bs st k =
     (if chunk_op c = OP_CODESEPARATOR
      then code_walk source (length xs + n) (bs @ drop st xs) (length xs + n) (k + 1)
      else code_walk source (length xs + n) bs st k)"
proof -
  have c: "chunk_op c < 256" using ok by (simp add: walkable_def)
  have lt: "length xs < length source" by (cases "chunk_data c") (simp_all add: src)
  have op: "unat (source ! length xs) = chunk_op c"
    using c by (cases "chunk_data c") (simp_all add: src nth_append)
  show split: "serialize_chunks (c # cs) = serialize_chunks [c] @ serialize_chunks cs"
    using ok by (cases "chunk_data c") (auto simp: walkable_def split: if_splits)
  show "code_walk source (length xs) bs st k =
     (if chunk_op c = OP_CODESEPARATOR
      then code_walk source (length xs + n) (bs @ drop st xs) (length xs + n) (k + 1)
      else code_walk source (length xs + n) bs st k)"
  proof (cases "0 < chunk_op c \<and> chunk_op c \<le> OP_PUSHDATA4")
    case True
    with ok obtain d where d: "chunk_data c = Some d" "push_ok (chunk_op c) (length d)"
      by (auto simp: walkable_def split: option.splits)
    have s: "source = (xs @ [word_of_nat (chunk_op c)]) @ writeChunkData (chunk_op c) d @ serialize_chunks cs"
      using True d(1) by (simp add: src)
    have len: "length d \<le> length (writeChunkData (chunk_op c) d)" using True by (auto simp: length_writeChunkData)
    have n: "n = Suc (length (writeChunkData (chunk_op c) d))" using True d(1) by (simp add: n_def)
    have "originalPushLength source (length xs + 1) (chunk_op c)
        = Some (length d, length xs + 1 + (length (writeChunkData (chunk_op c) d) - length d))"
      using originalPushLength_written[OF _ _ d(2) s] True by simp
    then show ?thesis
      using lt True len n op by (subst code_walk.simps) (simp add: s)
  next
    case False
    then have d: "chunk_data c = None" using ok by (auto simp: walkable_def)
    then have n: "n = 1" by (simp add: n_def)
    have "originalPushLength source (length xs + 1) (chunk_op c) = Some (0, length xs + 1)"
      using False by (auto simp: originalPushLength_def)
    then show ?thesis using lt n op by (subst code_walk.simps) (simp add: src)
  qed
qed

lemma code_walk_serialize:
  "walkable cs \<Longrightarrow> source = xs @ serialize_chunks cs \<Longrightarrow> st \<le> length xs \<Longrightarrow>
   code_walk source (length xs) bs st k =
     (bs @ drop st xs @ serialize_chunks (filter (\<lambda>c. chunk_op c \<noteq> OP_CODESEPARATOR) cs),
      k + length (filter (\<lambda>c. chunk_op c = OP_CODESEPARATOR) cs))"
proof (induction cs arbitrary: xs bs st k)
  case Nil
  then show ?case by (subst code_walk.simps) simp
next
  case (Cons c cs)
  have w: "walkable [c]" "walkable cs" using Cons.prems(1) by (simp_all add: walkable_def)
  note step = code_walk_chunk[OF w(1) Cons.prems(2)]
  have src: "source = (xs @ serialize_chunks [c]) @ serialize_chunks cs"
    using Cons.prems(2) unfolding step(1) by simp
  have fs: "serialize_chunks (c # ds) = serialize_chunks [c] @ serialize_chunks ds" for ds
    using code_walk_chunk(1)[OF w(1) refl] .
  have IH: "code_walk source (length xs + length (serialize_chunks [c])) bs' st' k' =
     (bs' @ drop st' (xs @ serialize_chunks [c]) @ serialize_chunks (filter (\<lambda>c. chunk_op c \<noteq> OP_CODESEPARATOR) cs),
      k' + length (filter (\<lambda>c. chunk_op c = OP_CODESEPARATOR) cs))"
    if "st' \<le> length xs + length (serialize_chunks [c])" for bs' st' k'
    using Cons.IH[OF w(2) src, of st' bs' k'] that by simp
  show ?case
  proof (cases "chunk_op c = OP_CODESEPARATOR")
    case True
    then show ?thesis using IH[of "length xs + length (serialize_chunks [c])"] step(2)[of bs st k]
      by (simp del: serialize_chunks.simps)
  next
    case False
    then show ?thesis
      using IH[of st bs k] step(2)[of bs st k] Cons.prems(3)
        fs[of "filter (\<lambda>c. chunk_op c \<noteq> OP_CODESEPARATOR) cs"]
      by (simp del: serialize_chunks.simps)
  qed
qed

subsection \<open>The cache is transparent\<close>

lemma memo_none: "memo slot store compute None = (compute, None)"
  by (cases compute) (simp_all add: memo_def act_simps)

text \<open>\<open>transparent I m r\<close>: on every cache satisfying \<open>I\<close>, and without one, the outcome of \<open>m\<close> is \<open>r\<close>, and the
  cache it leaves satisfies \<open>I\<close> again.\<close>

definition transparent :: "(sighash_cache \<Rightarrow> bool) \<Rightarrow> 'a cached \<Rightarrow> js_error + 'a \<Rightarrow> bool" where
  "transparent I m r \<longleftrightarrow> m None = (r, None)
     \<and> (\<forall>c. I c \<longrightarrow> (\<exists>c'. m (Some c) = (r, Some c') \<and> I c'))"

named_theorems transparent_intros

lemma transparent_ret [transparent_intros]: "transparent I (ret x) (Inr x)"
  by (simp add: transparent_def)

lemma transparent_lift [transparent_intros]: "transparent I (lift_result r) r"
  by (simp add: transparent_def)

lemma transparent_bnd:
  assumes m: "transparent I m r" and k: "\<And>x. transparent I (k x) (f x)"
  shows "transparent I (bnd m k) (case r of Inl e \<Rightarrow> Inl e | Inr x \<Rightarrow> f x)"
proof (cases r)
  case (Inl e)
  then show ?thesis using m unfolding transparent_def by (fastforce simp: bnd_def)
next
  case (Inr x)
  show ?thesis unfolding transparent_def
  proof (intro conjI allI impI)
    show "bnd m k None = (case r of Inl e \<Rightarrow> Inl e | Inr x \<Rightarrow> f x, None)"
      using m k[of x] Inr by (simp add: transparent_def)
    fix c assume "I c"
    then obtain c' where "m (Some c) = (Inr x, Some c')" "I c'" using m Inr by (auto simp: transparent_def)
    moreover from this(2) obtain c'' where "k x (Some c') = (f x, Some c'')" "I c''"
      using k[of x] by (auto simp: transparent_def)
    ultimately show "\<exists>c'. bnd m k (Some c) = (case r of Inl e \<Rightarrow> Inl e | Inr x \<Rightarrow> f x, Some c') \<and> I c'"
      using Inr by simp
  qed
qed

lemma transparent_memo:
  assumes slot: "\<And>c x. I c \<Longrightarrow> slot c = Some x \<Longrightarrow> compute = Inr x"
    and store: "\<And>c x. I c \<Longrightarrow> compute = Inr x \<Longrightarrow> I (store x c)"
  shows "transparent I (memo slot store compute) compute"
  unfolding transparent_def
proof (intro conjI allI impI)
  show "memo slot store compute None = (compute, None)" by (rule memo_none)
  fix c assume c: "I c"
  show "\<exists>c'. memo slot store compute (Some c) = (compute, Some c') \<and> I c'"
  proof (cases "slot c")
    case None
    then show ?thesis
      using c store by (cases compute) (auto simp: memo_def act_simps)
  next
    case (Some x)
    then show ?thesis using slot[OF c Some] c by (simp add: memo_def act_simps)
  qed
qed

text \<open>
  A context is what the inputs of one transaction share: the outcome of hashing the outpoints and
  the sequence numbers, and the outputs. A cache belongs to a context when what it holds was
  computed in it.
\<close>

record sighash_context =
  x_prevouts :: "js_error + bytes"
  x_sequences :: "js_error + bytes"
  x_outputs :: "tx_output option list"

definition in_context :: "hash_fun \<Rightarrow> sighash_context \<Rightarrow> sighash_params \<Rightarrow> bool" where
  "in_context h x p \<longleftrightarrow>
     (let cur = current_input p; inputs = bip143Inputs p cur
      in hashPrevouts h inputs (p_inputIndex p) cur = x_prevouts x
         \<and> hashSequences h inputs (p_inputIndex p) cur = x_sequences x \<and> p_outputs p = x_outputs x)"

definition cache_of :: "hash_fun \<Rightarrow> sighash_context \<Rightarrow> sighash_cache \<Rightarrow> bool" where
  "cache_of h x c \<longleftrightarrow>
     (\<forall>v. c_hashPrevouts c = Some v \<longrightarrow> x_prevouts x = Inr v)
     \<and> (\<forall>v. c_hashSequence c = Some v \<longrightarrow> x_sequences x = Inr v)
     \<and> (\<forall>v. c_hashOutputsAll c = Some v \<longrightarrow> hashOutputs h (x_outputs x) None = Inr v)
     \<and> (\<forall>i v. c_hashOutputsSingle c i = Some v \<longrightarrow> hashOutputs h (x_outputs x) (Some i) = Inr v)"

definition empty_cache :: sighash_cache where
  "empty_cache = \<lparr>c_hashPrevouts = None, c_hashSequence = None, c_hashOutputsAll = None,
     c_hashOutputsSingle = (\<lambda>_. None)\<rparr>"

lemma cache_of_empty: "cache_of h x empty_cache"
  by (simp add: cache_of_def empty_cache_def)

lemma transparent_prevouts:
  assumes "in_context h x p"
  shows "\<exists>r. transparent (cache_of h x) (bip143PrevoutsHash h p (bip143Inputs p (current_input p)) (current_input p)) r"
proof (cases "and (p_scope p) SIGHASH_ANYONECANPAY = 0")
  case True
  then show ?thesis
    using assms unfolding bip143PrevoutsHash_def
    apply simp
    apply (rule exI, rule transparent_memo)
    apply (auto simp: cache_of_def in_context_def Let_def)
    done
next
  case False
  then show ?thesis unfolding bip143PrevoutsHash_def by (auto intro: transparent_ret)
qed

lemma transparent_sequences:
  assumes "in_context h x p"
  shows "\<exists>r. transparent (cache_of h x) (bip143SequenceHash h p (bip143Inputs p (current_input p)) (current_input p)) r"
proof (cases "and (p_scope p) SIGHASH_ANYONECANPAY \<noteq> 0 \<or> and (p_scope p) 31 = SIGHASH_SINGLE
    \<or> and (p_scope p) 31 = SIGHASH_NONE")
  case True
  then show ?thesis unfolding bip143SequenceHash_def Let_def by (auto intro: transparent_ret)
next
  case False
  then show ?thesis
    using assms unfolding bip143SequenceHash_def Let_def
    apply simp
    apply (rule exI, rule transparent_memo)
    apply (auto simp: cache_of_def in_context_def Let_def)
    done
qed

lemma transparent_outputs:
  assumes "in_context h x p"
  shows "\<exists>r. transparent (cache_of h x) (bip143OutputsHash h p) r"
proof -
  have o: "p_outputs p = x_outputs x" using assms by (simp add: in_context_def Let_def)
  consider "and (p_scope p) 31 \<noteq> SIGHASH_SINGLE" "and (p_scope p) 31 \<noteq> SIGHASH_NONE"
    | "and (p_scope p) 31 = SIGHASH_SINGLE" "p_inputIndex p < length (p_outputs p)"
    | "and (p_scope p) 31 = SIGHASH_NONE \<or> p_inputIndex p \<ge> length (p_outputs p)
        \<and> and (p_scope p) 31 = SIGHASH_SINGLE" by fastforce
  then show ?thesis
  proof cases
    case 1
    then show ?thesis unfolding bip143OutputsHash_def Let_def o
      apply simp
      apply (rule exI, rule transparent_memo)
       apply (auto simp: cache_of_def)
      done
  next
    case 2
    then show ?thesis unfolding bip143OutputsHash_def Let_def o
      apply simp
      apply (rule exI, rule transparent_memo)
       apply (auto simp: cache_of_def)
      done
  next
    case 3
    then have "bip143OutputsHash h p = ret ZERO_HASH"
      unfolding bip143OutputsHash_def Let_def by (elim disjE) simp_all
    then show ?thesis by (metis transparent_ret)
  qed
qed

lemma transparent_formatBip143:
  assumes "in_context h x p"
  shows "transparent (cache_of h x) (formatBip143 h p) (fst (formatBip143 h p None))"
proof -
  obtain r1 where r1: "transparent (cache_of h x)
      (bip143PrevoutsHash h p (bip143Inputs p (current_input p)) (current_input p)) r1"
    using transparent_prevouts[OF assms] by blast
  obtain r2 where r2: "transparent (cache_of h x)
      (bip143SequenceHash h p (bip143Inputs p (current_input p)) (current_input p)) r2"
    using transparent_sequences[OF assms] by blast
  obtain r3 where r3: "transparent (cache_of h x) (bip143OutputsHash h p) r3"
    using transparent_outputs[OF assms] by blast
  note all = transparent_bnd[OF r1 transparent_bnd[OF r2 transparent_bnd[OF r3 transparent_lift]]]
  have "\<exists>r. transparent (cache_of h x) (formatBip143 h p) r"
    unfolding formatBip143_def Let_def by (rule exI, rule all)
  then show ?thesis unfolding transparent_def by fastforce
qed

lemma transparent_formatBytes:
  assumes "in_context h x p"
  shows "transparent (cache_of h x) (formatBytes h p) (fst (formatBytes h p None))"
  using transparent_formatBip143[OF assms] transparent_lift[of "cache_of h x"] transparent_ret[of "cache_of h x"]
  unfolding formatBytes_def Let_def by auto

text \<open>Formatting one request after the other with one cache.\<close>

fun format_all :: "hash_fun \<Rightarrow> sighash_params list \<Rightarrow> sighash_cache option \<Rightarrow> (js_error + bytes) list" where
  "format_all h [] c = []"
| "format_all h (p # ps) c = (case formatBytes h p c of (r, c') \<Rightarrow> r # format_all h ps c')"

lemma format_all_transparent:
  "list_all (in_context h x) ps \<Longrightarrow> cache_of h x c \<Longrightarrow>
   format_all h ps (Some c) = map (\<lambda>p. fst (formatBytes h p None)) ps"
proof (induction ps arbitrary: c)
  case (Cons p ps)
  then obtain c' where "formatBytes h p (Some c) = (fst (formatBytes h p None), Some c')" "cache_of h x c'"
    using transparent_formatBytes[of h x p] by (auto simp: transparent_def)
  with Cons show ?case by simp
qed simp

subsection \<open>The layout of the BIP143 preimage\<close>

definition bip143_bytes :: "sighash_params \<Rightarrow> bytes \<Rightarrow> bytes \<Rightarrow> bytes \<Rightarrow> bytes \<Rightarrow> bytes" where
  "bip143_bytes p d prevouts sequences outputs =
     le_bytes 4 (nat (p_transactionVersion p)) @ prevouts @ sequences
     @ rev d @ le_bytes 4 (nat (p_sourceOutputIndex p))
     @ (compact_size (length (p_subscript p)) @ p_subscript p)
     @ le_bytes 8 (nat (p_sourceSatoshis p)) @ le_bytes 4 (nat (p_inputSequence p))
     @ outputs @ le_bytes 4 (nat (p_lockTime p)) @ le_bytes 4 (p_scope p)"

text \<open>The ranges a signing request keeps to.\<close>

definition valid_request :: "sighash_params \<Rightarrow> bool" where
  "valid_request p \<longleftrightarrow> (\<exists>d. p_sourceTXID p = toHex d \<and> length d = 32)
     \<and> 0 \<le> p_transactionVersion p \<and> p_transactionVersion p < 2 ^ 32
     \<and> 0 \<le> p_sourceOutputIndex p \<and> p_sourceOutputIndex p < 2 ^ 32
     \<and> length (p_subscript p) < 2 ^ 32
     \<and> 0 \<le> p_sourceSatoshis p \<and> p_sourceSatoshis p \<le> int max_safe_integer
     \<and> 0 \<le> p_inputSequence p \<and> p_inputSequence p < 2 ^ 32
     \<and> 0 \<le> p_lockTime p \<and> p_lockTime p < 2 ^ 32 \<and> p_scope p < 2 ^ 32"

lemma appends_u32: "0 \<le> n \<Longrightarrow> appends (writeUInt32LE n) (le_bytes 4 (nat n))"
  using appends_writeUInt32LE[of "nat n"] by simp

lemma appends_i32: "0 \<le> n \<Longrightarrow> n < 2 ^ 32 \<Longrightarrow> appends (writeInt32LE n) (le_bytes 4 (nat n))"
  unfolding writeInt32LE_def using appends_u32[of n]
  by (simp add: uint_word_of_int_eq take_bit_int_eq_self)

lemma appends_u64: "0 \<le> n \<Longrightarrow> n \<le> int max_safe_integer \<Longrightarrow> appends (writeUInt64LE n) (le_bytes 8 (nat n))"
  using appends_writeUInt64LE[of "nat n"] by simp

lemma appends_hex_reverse: "appends (write_hex_reverse (toHex d)) (rev d)"
  unfolding write_hex_reverse_def by (rule appends_lift[OF hexToArray_toHex appends_writeReverse])

lemma run_wr_appends: "appends m bs \<Longrightarrow> run_wr m = Inr bs"
proof -
  assume a: "appends m bs"
  obtain w where w: "m (new_writer []) = (Inr (), w)" "wf_writer w"
    using a wf_new_writer unfolding appends_def by blast
  then have "wr_toArray w = bs" using appends_new[OF a] by blast
  with w show ?thesis by (simp add: run_wr_def wr_toUint8Array_eq)
qed

definition prevouts_part :: "hash_fun \<Rightarrow> sighash_params \<Rightarrow> js_error + bytes" where
  "prevouts_part h p = fst (bip143PrevoutsHash h p (bip143Inputs p (current_input p)) (current_input p) None)"

definition sequences_part :: "hash_fun \<Rightarrow> sighash_params \<Rightarrow> js_error + bytes" where
  "sequences_part h p = fst (bip143SequenceHash h p (bip143Inputs p (current_input p)) (current_input p) None)"

definition outputs_part :: "hash_fun \<Rightarrow> sighash_params \<Rightarrow> js_error + bytes" where
  "outputs_part h p = fst (bip143OutputsHash h p None)"

lemma parts_none:
  "bip143PrevoutsHash h p (bip143Inputs p (current_input p)) (current_input p) None = (prevouts_part h p, None)"
  "bip143SequenceHash h p (bip143Inputs p (current_input p)) (current_input p) None = (sequences_part h p, None)"
  "bip143OutputsHash h p None = (outputs_part h p, None)"
  by (simp_all add: prevouts_part_def sequences_part_def outputs_part_def bip143PrevoutsHash_def
      bip143SequenceHash_def bip143OutputsHash_def memo_none Let_def)

lemma formatBip143_layout:
  assumes "valid_request p" "p_sourceTXID p = toHex d"
  shows "fst (formatBip143 h p None) =
    (case prevouts_part h p of Inl e \<Rightarrow> Inl e | Inr x \<Rightarrow>
     (case sequences_part h p of Inl e \<Rightarrow> Inl e | Inr y \<Rightarrow>
      (case outputs_part h p of Inl e \<Rightarrow> Inl e | Inr z \<Rightarrow> Inr (bip143_bytes p d x y z))))"
proof -
  note v = assms(1)[unfolded valid_request_def]
  have "appends (thn (writeInt32LE (p_transactionVersion p))
             (thn (wr_write x) (thn (wr_write y) (thn (write_hex_reverse (p_sourceTXID p))
             (thn (writeUInt32LE (p_sourceOutputIndex p)) (thn (writeVarIntNum (int (length (p_subscript p))))
             (thn (wr_write (p_subscript p)) (thn (writeUInt64LE (p_sourceSatoshis p))
             (thn (writeUInt32LE (p_inputSequence p)) (thn (wr_write z)
             (thn (writeUInt32LE (p_lockTime p)) (writeUInt32LE (int (p_scope p))))))))))))))
        (bip143_bytes p d x y z)" for x y z
    unfolding bip143_bytes_def assms(2) append_assoc
    using v by (intro appends_thn appends_i32 appends_write appends_hex_reverse appends_u32
        appends_writeVarIntNum appends_u64 appends_writeUInt32LE) simp_all
  from run_wr_appends[OF this] show ?thesis
    by (simp add: formatBip143_def Let_def bnd_def parts_none split: sum.split)
qed

text \<open>Equal preimages agree on every field, as each part has a fixed length or its length in front.\<close>

lemma append_eq_fixed: "length xs = length ys \<Longrightarrow> xs @ u = ys @ v \<longleftrightarrow> xs = ys \<and> u = v"
  by simp

lemma le_bytes_nat_inj:
  "0 \<le> m \<Longrightarrow> m < 256 ^ k \<Longrightarrow> 0 \<le> n \<Longrightarrow> n < 256 ^ k \<Longrightarrow> le_bytes k (nat m) = le_bytes k (nat n) \<longleftrightarrow> m = n"
proof -
  assume a: "0 \<le> m" "m < 256 ^ k" "0 \<le> n" "n < 256 ^ k"
  then have "nat m < 256 ^ k" "nat n < 256 ^ k" by (simp_all add: nat_less_iff)
  then show ?thesis using le_bytes_eq_iff[of "nat m" k "nat n"] a by (simp add: eq_nat_nat_iff)
qed

lemma bip143_bytes_inject:
  assumes p: "valid_request p" "p_sourceTXID p = toHex d" "length x = 32" "length y = 32" "length z = 32"
    and q: "valid_request q" "p_sourceTXID q = toHex d'" "length x' = 32" "length y' = 32" "length z' = 32"
    and eq: "bip143_bytes p d x y z = bip143_bytes q d' x' y' z'"
  shows "p_transactionVersion p = p_transactionVersion q \<and> p_sourceTXID p = p_sourceTXID q
    \<and> p_sourceOutputIndex p = p_sourceOutputIndex q \<and> p_subscript p = p_subscript q
    \<and> p_sourceSatoshis p = p_sourceSatoshis q \<and> p_inputSequence p = p_inputSequence q
    \<and> p_lockTime p = p_lockTime q \<and> p_scope p = p_scope q \<and> x = x' \<and> y = y' \<and> z = z'"
proof -
  have d: "length d = 32" "length d' = 32"
    using p(1,2) q(1,2) hexToArray_toHex unfolding valid_request_def by (metis sum.inject(2))+
  let ?tail = "\<lambda>p z. le_bytes 8 (nat (p_sourceSatoshis p)) @ le_bytes 4 (nat (p_inputSequence p))
     @ z @ le_bytes 4 (nat (p_lockTime p)) @ le_bytes 4 (p_scope p)"
  have s: "(compact_size (length (p_subscript p)) @ p_subscript p) @ ?tail p z
      = (compact_size (length (p_subscript q)) @ p_subscript q) @ ?tail q z'"
    and head: "le_bytes 4 (nat (p_transactionVersion p)) = le_bytes 4 (nat (p_transactionVersion q))" "x = x'" "y = y'"
      "d = d'" "le_bytes 4 (nat (p_sourceOutputIndex p)) = le_bytes 4 (nat (p_sourceOutputIndex q))"
    using eq p(3,4) q(3,4) d unfolding bip143_bytes_def by (simp_all add: append_eq_fixed)
  have len: "length ((compact_size (length (p_subscript p)) @ p_subscript p) @ ?tail p z) \<le> max_safe_integer"
    using p(1,5) length_compact_size[of "length (p_subscript p)"] by (simp add: valid_request_def)
  have "length (p_subscript p) \<le> max_safe_integer" "length (p_subscript q) \<le> max_safe_integer"
    using p(1) q(1) by (simp_all add: valid_request_def)
  from var_bytes.put_prefix_free[OF this s len]
  have sub: "p_subscript p = p_subscript q" and t: "?tail p z = ?tail q z'" by blast+
  have tail: "le_bytes 8 (nat (p_sourceSatoshis p)) = le_bytes 8 (nat (p_sourceSatoshis q))"
    "le_bytes 4 (nat (p_inputSequence p)) = le_bytes 4 (nat (p_inputSequence q))" "z = z'"
    "le_bytes 4 (nat (p_lockTime p)) = le_bytes 4 (nat (p_lockTime q))"
    "le_bytes 4 (nat (int (p_scope p))) = le_bytes 4 (nat (int (p_scope q)))"
    using t p(5) q(5) by (simp_all add: append_eq_fixed)
  have "(256 :: int) ^ 4 = 2 ^ 32" by simp
  then show ?thesis
    using head tail sub p(1,2) q(1,2) le_bytes_eq_iff[of "p_scope p" 4 "p_scope q"]
    unfolding valid_request_def by (simp add: le_bytes_nat_inj)
qed

subsection \<open>Properties\<close>


definition sample_request :: "nat \<Rightarrow> sighash_params" where
  "sample_request i = \<lparr>p_sourceTXID = toHex (replicate 32 7), p_sourceOutputIndex = 0, p_sourceSatoshis = 1000,
     p_transactionVersion = 1, p_otherInputs = [],
     p_allInputs = Some [TxInput None (Some (toHex (replicate 32 7))) 0 None None,
                         TxInput None (Some (toHex (replicate 32 7))) 0 None None],
     p_outputs = [Some \<lparr>satoshis = Some 900, lockingScript = [0x51], change = False\<rparr>],
     p_inputIndex = i, p_subscript = [0x76, 0xac], p_inputSequence = 0xffffffff, p_lockTime = 0, p_scope = 0x41,
     p_ignoreChronicle = False, p_forkIdEnabled = True\<rparr>"

lemma valid_sample_request: "valid_request (sample_request i)"
  by (auto simp: valid_request_def sample_request_def intro!: exI[of _ "replicate 32 7"])

lemma appends_write_prevout:
  "appends (write_prevout h (TxInput None (Some (toHex d)) (int n) u s)) (rev d @ le_bytes 4 n)"
  by (simp add: write_prevout_def) (intro appends_thn appends_hex_reverse appends_writeUInt32LE)

lemma sample_request_preimage:
  "\<exists>bs. \<forall>i < 2. fst (formatBip143 h (sample_request i) None) = Inr bs"
proof -
  have txid: "p_sourceTXID (sample_request i) = toHex (replicate 32 7)" for i by (simp add: sample_request_def)
  let ?o = "rev (replicate 32 7) @ le_bytes 4 0"
  have flags: "p_scope (sample_request i) = 0x41" "p_inputIndex (sample_request i) = i" for i
    by (simp_all add: sample_request_def)
  define ins where "ins i = bip143Inputs (sample_request i) (current_input (sample_request i))" for i
  define cur where "cur i = current_input (sample_request i)" for i
  have len: "length (ins i) = 2" for i by (simp add: ins_def bip143Inputs_def sample_request_def)
  have in0: "bip143InputAt (ins i) i (cur i) k = TxInput None (Some (toHex (replicate 32 7))) (int 0) None
      (if k = i then Some 0xffffffff else None)" if "k < 2" for i k
    using that by (auto simp: bip143InputAt_def ins_def cur_def bip143Inputs_def sample_request_def current_input_def
        less_2_cases_iff)
  have k01: "0 < (2 :: nat)" "1 < (2 :: nat)" by simp_all
  have two: "[0..<2] = [0, 1 :: nat]" by (simp add: upt_rec)
  have pv: "prevouts_part h (sample_request i) = Inr (h (?o @ ?o @ []))" for i
  proof -
    have "appends (wr_all (\<lambda>k. write_prevout h (bip143InputAt (ins i) i (cur i) k)) [0..<2]) (?o @ ?o @ [])"
      unfolding two wr_all.simps in0[OF k01(1)] in0[OF k01(2)]
      by (intro appends_thn[OF appends_write_prevout] appends_ret)
    from run_wr_appends[OF this] show ?thesis
      unfolding prevouts_part_def bip143PrevoutsHash_def hashPrevouts_def flags
      unfolding ins_def [symmetric] unfolding cur_def [symmetric] len by (simp add: memo_none)
  qed
  have sq: "sequences_part h (sample_request i) = Inr (h (le_bytes 4 0xffffffff @ le_bytes 4 0xffffffff @ []))" for i
  proof -
    have "sequence_or_final (bip143InputAt (ins i) i (cur i) k) = int 0xffffffff" if "k < 2" for k
      unfolding in0[OF that] by (simp add: sequence_or_final_def)
    from this[OF k01(1)] this[OF k01(2)]
    have "appends (wr_all (\<lambda>k. writeUInt32LE (sequence_or_final (bip143InputAt (ins i) i (cur i) k))) [0..<2])
        (le_bytes 4 0xffffffff @ le_bytes 4 0xffffffff @ [])"
      unfolding two wr_all.simps by (simp only:) (intro appends_thn appends_writeUInt32LE appends_ret)
    from run_wr_appends[OF this] show ?thesis
      unfolding sequences_part_def bip143SequenceHash_def hashSequences_def flags
      unfolding ins_def [symmetric] unfolding cur_def [symmetric] len by (simp add: memo_none)
  qed
  have ot: "\<exists>z. \<forall>i. outputs_part h (sample_request i) = Inr z"
  proof -
    have "appends (wr_all writeBip143Output [Some \<lparr>satoshis = Some 900, lockingScript = [0x51], change = False\<rparr>])
        ((le_bytes 8 900 @ compact_size 1 @ [0x51]) @ [])"
      using appends_writeUInt64LE[of 900] appends_writeVarIntNum[of 1]
      by (auto simp: writeBip143Output_def intro!: appends_thn appends_ret appends_write simp del: append_assoc append_Nil2)
    from run_wr_appends[OF this] show ?thesis
      by (simp add: outputs_part_def bip143OutputsHash_def memo_none hashOutputs_def sample_request_def Let_def)
  qed
  then obtain z where z: "\<And>i. outputs_part h (sample_request i) = Inr z" by blast
  have "bip143_bytes (sample_request i) d a b c = bip143_bytes (sample_request 0) d a b c" for i d a b c
    by (simp add: bip143_bytes_def sample_request_def)
  then have "fst (formatBip143 h (sample_request i) None)
      = Inr (bip143_bytes (sample_request 0) (replicate 32 7) (h (?o @ ?o @ []))
          (h (le_bytes 4 0xffffffff @ le_bytes 4 0xffffffff @ [])) z)" for i
    unfolding formatBip143_layout[OF valid_sample_request txid] pv sq z by simp
  then show ?thesis by blast
qed


text \<open>C33: The BIP143 preimage commits to the request: two valid requests with the same preimage agree on the
  version, the outpoint, the script, the amount, the sequence number, the lock time, the scope and
  the three component hashes.\<close>

theorem bip143_preimage_commits:
  assumes "\<And>m. length (h m) = 32" "valid_request p" "valid_request q"
    and "fst (formatBip143 h p None) = Inr bs" "fst (formatBip143 h q None) = Inr bs"
  shows "p_transactionVersion p = p_transactionVersion q \<and> p_sourceTXID p = p_sourceTXID q
    \<and> p_sourceOutputIndex p = p_sourceOutputIndex q \<and> p_subscript p = p_subscript q
    \<and> p_sourceSatoshis p = p_sourceSatoshis q \<and> p_inputSequence p = p_inputSequence q
    \<and> p_lockTime p = p_lockTime q \<and> p_scope p = p_scope q
    \<and> prevouts_part h p = prevouts_part h q \<and> sequences_part h p = sequences_part h q
    \<and> outputs_part h p = outputs_part h q"
proof -
  obtain d d' where d: "p_sourceTXID p = toHex d" "p_sourceTXID q = toHex d'"
    using assms(2,3) unfolding valid_request_def by blast
  have part: "length v = 32" if "prevouts_part h r = Inr v \<or> sequences_part h r = Inr v \<or> outputs_part h r = Inr v" for r v
    using that assms(1)
    by (auto simp: prevouts_part_def sequences_part_def outputs_part_def bip143PrevoutsHash_def
        bip143SequenceHash_def bip143OutputsHash_def memo_none Let_def ZERO_HASH_def hashPrevouts_def
        hashSequences_def hashOutputs_def split: if_splits sum.splits)
  obtain x y z where p: "prevouts_part h p = Inr x" "sequences_part h p = Inr y" "outputs_part h p = Inr z"
    "bs = bip143_bytes p d x y z"
    using assms(4) formatBip143_layout[OF assms(2) d(1), of h] by (auto split: sum.splits)
  obtain x' y' z' where q: "prevouts_part h q = Inr x'" "sequences_part h q = Inr y'" "outputs_part h q = Inr z'"
    "bs = bip143_bytes q d' x' y' z'"
    using assms(5) formatBip143_layout[OF assms(3) d(2), of h] by (auto split: sum.splits)
  have eq: "bip143_bytes p d x y z = bip143_bytes q d' x' y' z'" using p(4) q(4) by simp
  have "length x = 32" "length y = 32" "length z = 32" "length x' = 32" "length y' = 32" "length z' = 32"
    using part p q by blast+
  from bip143_bytes_inject[OF assms(2) d(1) this(1-3) assms(3) d(2) this(4-6) eq]
  show ?thesis unfolding p(1-3) q(1-3) sum.inject .
qed

lemma bip143_preimage_commits_witness:
  "\<exists>bs. fst (formatBip143 (\<lambda>m. le_bytes 32 (le_nat m)) (sample_request 0) None) = Inr bs
     \<and> fst (formatBip143 (\<lambda>m. le_bytes 32 (le_nat m)) (sample_request 1) None) = Inr bs
     \<and> p_subscript (sample_request 0) = p_subscript (sample_request 1)"
proof -
  let ?h = "\<lambda>m. le_bytes 32 (le_nat m)"
  obtain bs where b: "fst (formatBip143 ?h (sample_request i) None) = Inr bs" if "i < 2" for i
    using sample_request_preimage[of ?h] by blast
  have "valid_request (sample_request i)" for i by (rule valid_sample_request)
  from bip143_preimage_commits[of ?h, OF _ this this b b, of 0 1] b[of 0] b[of 1] show ?thesis
    by auto
qed

text \<open>The digest is chosen by the scope and the flags alone: BIP143 exactly with \<open>FORKID\<close> set, the fork
  active and no \<open>CHRONICLE\<close> bit in force, the original digest in every other case, so that the
  empty preimage at the end of \<open>formatBytes\<close> is never returned; and the single bug is confined to the
  original digest.\<close>

theorem digest_choice:
  "formatBytes h p c =
     (if and (p_scope p) SIGHASH_FORKID \<noteq> 0 \<and> p_forkIdEnabled p
         \<and> (p_ignoreChronicle p \<or> and (p_scope p) SIGHASH_CHRONICLE = 0)
      then formatBip143 h p c else (formatOTDA h p, c))
   \<and> (usesOtdaSingleBug p \<longleftrightarrow>
      \<not> (and (p_scope p) SIGHASH_FORKID \<noteq> 0 \<and> p_forkIdEnabled p
         \<and> (p_ignoreChronicle p \<or> and (p_scope p) SIGHASH_CHRONICLE = 0))
      \<and> and (p_scope p) 31 = SIGHASH_SINGLE \<and> length (p_outputs p) \<le> p_inputIndex p)"
  by (auto simp: formatBytes_def usesOtdaSingleBug_def Let_def)



end
