(* ===== verification/Spend_State.thy ===== *)
theory Spend_State
  imports Signature_Hash
begin

text \<open>
  The state of the script interpreter, \<open>packages/sdk/src/script/Spend.ts\<close>: the immutable
  description of the spend (\<open>spend_env\<close>), the mutable fields (\<open>spend\<close>), the rules a set of
  verification flags selects, and the operations on the two stacks with their memory accounts.

  A stack entry carries, beside its bytes, the chunk whose data array it is: a push of the
  interpreter puts the chunk's own array on the stack, and two opcodes write into the arrays
  they pop. A copy (\<open>slice\<close>) and a computed result have no such origin.

  The hash functions, the reading of a public key and the ECDSA verification are arguments of the
  model (\<open>spend_env\<close>); nothing is assumed of them here.
\<close>

subsection \<open>The spend\<close>

record 'k spend_env =
  e_sourceTXID :: string
  e_sourceOutputIndex :: int
  e_sourceSatoshis :: int
  e_transactionVersion :: int
  e_otherInputs :: "tx_input list"
  e_allInputs :: "tx_input list option"
  e_outputs :: "tx_output option list"
  e_inputIndex :: nat
  e_inputSequence :: int
  e_lockTime :: int
  e_memoryLimit :: "nat option"
  e_isRelaxedOverride :: bool
  e_verifyFlags :: "string list option"
  e_ownsSigHashCache :: bool
  e_ripemd160 :: "bytes \<Rightarrow> bytes"
  e_sha1 :: "bytes \<Rightarrow> bytes"
  e_sha256 :: "bytes \<Rightarrow> bytes"
  e_hash160 :: "bytes \<Rightarrow> bytes"
  e_hash256 :: "bytes \<Rightarrow> bytes"
  e_publicKey :: "bytes \<Rightarrow> js_error + 'k"
  e_verify :: "big_number \<Rightarrow> tx_signature \<Rightarrow> 'k \<Rightarrow> js_error + bool"

datatype script_context = UnlockingScript | LockingScript

datatype item = Item (item_bytes: bytes) (item_origin: "(script_context \<times> nat) option")

abbreviation fresh :: "bytes \<Rightarrow> item" where
  "fresh b \<equiv> Item b None"

record spend =
  sp_context :: script_context
  sp_pc :: nat
  sp_lastCodeSeparator :: "nat option"
  sp_stack :: "item list"
  sp_altStack :: "item list"
  sp_ifStack :: "bool list"
  sp_elseStack :: "bool list"
  sp_stackMem :: int
  sp_altStackMem :: int
  sp_executedOpCount :: nat
  sp_returning :: bool
  sp_unlocking :: script
  sp_locking :: script
  sp_cache :: sighash_cache

datatype spend_error =
    ScriptEvaluation string
  | ResourceLimit string nat int
  | Thrown js_error

type_synonym 'a op = "(spend, spend_error, 'a) action"

text \<open>The stacks are lists with the top first; the source pushes at the end of its arrays.\<close>

definition fail :: "string \<Rightarrow> 'a op" where
  "fail msg = throw (ScriptEvaluation msg)"

definition fail_if :: "bool \<Rightarrow> string \<Rightarrow> unit op" where
  "fail_if b msg = throw_if b (ScriptEvaluation msg)"

definition lift_js :: "js_error + 'a \<Rightarrow> 'a op" where
  "lift_js r = lift_result (case r of Inl e \<Rightarrow> Inl (Thrown e) | Inr x \<Rightarrow> Inr x)"

fun js_message :: "js_error \<Rightarrow> string" where
  "js_message (JsError m) = m"
| "js_message (JsRangeError m) = m"
| "js_message (JsTypeError m) = m"

text \<open>\<open>OP[opcode]\<close> in a message.\<close>

definition op_text :: "nat \<Rightarrow> string" where
  "op_text opc = (case op_name opc of None \<Rightarrow> ''undefined'' | Some s \<Rightarrow> s)"

definition ctx_text :: "script_context \<Rightarrow> string" where
  "ctx_text c = (case c of UnlockingScript \<Rightarrow> ''UnlockingScript'' | LockingScript \<Rightarrow> ''LockingScript'')"

definition limit_text :: "nat option \<Rightarrow> string" where
  "limit_text l = (case l of None \<Rightarrow> ''Infinity'' | Some n \<Rightarrow> decimal (int n))"

subsection \<open>Verification flags\<close>

datatype flags_argument = FlagText string | FlagList "string list"

fun split_commas :: "string \<Rightarrow> string list" where
  "split_commas [] = [[]]"
| "split_commas (c # cs) =
     (if c = CHR '','' then [] # split_commas cs
      else case split_commas cs of [] \<Rightarrow> [[c]] | w # ws \<Rightarrow> (c # w) # ws)"

definition js_space :: "char \<Rightarrow> bool" where
  "js_space c \<longleftrightarrow> of_char c \<in> {9, 10, 11, 12, 13, 32, 160 :: nat}"

definition js_trim :: "string \<Rightarrow> string" where
  "js_trim s = rev (dropWhile js_space (rev (dropWhile js_space s)))"

definition spend_flags :: "flags_argument option \<Rightarrow> string list option" where
  "spend_flags arg =
     (case arg of None \<Rightarrow> None
      | Some a \<Rightarrow>
          let arr = (case a of FlagText s \<Rightarrow> split_commas s | FlagList l \<Rightarrow> l)
          in Some (filter (\<lambda>f. length f > 0) (map js_trim arr)))"

definition isRelaxed :: "'k spend_env \<Rightarrow> bool" where
  "isRelaxed E \<longleftrightarrow> e_isRelaxedOverride E \<or> e_transactionVersion E > 1"

definition hasExplicitFlags :: "'k spend_env \<Rightarrow> bool" where
  "hasExplicitFlags E \<longleftrightarrow> e_verifyFlags E \<noteq> None"

definition hasFlag :: "'k spend_env \<Rightarrow> string \<Rightarrow> bool" where
  "hasFlag E f \<longleftrightarrow> (case e_verifyFlags E of None \<Rightarrow> False | Some fs \<Rightarrow> f \<in> set fs)"

definition isAfterGenesis :: "'k spend_env \<Rightarrow> bool" where
  "isAfterGenesis E \<longleftrightarrow>
     (if hasExplicitFlags E then hasFlag E ''UTXO_AFTER_GENESIS'' \<or> hasFlag E ''UTXO_AFTER_CHRONICLE''
      else isRelaxed E)"

definition isAfterChronicle :: "'k spend_env \<Rightarrow> bool" where
  "isAfterChronicle E \<longleftrightarrow>
     (if hasExplicitFlags E then hasFlag E ''UTXO_AFTER_CHRONICLE'' else isRelaxed E)"

definition enforceNonMalleability :: "'k spend_env \<Rightarrow> bool" where
  "enforceNonMalleability E \<longleftrightarrow> \<not> (hasFlag E ''CHRONICLE'' \<and> e_transactionVersion E > 1)"

text \<open>The common shape of five of the rules.\<close>

definition malleability_rule :: "'k spend_env \<Rightarrow> string \<Rightarrow> bool" where
  "malleability_rule E f \<longleftrightarrow>
     (if hasExplicitFlags E then hasFlag E f \<and> enforceNonMalleability E else \<not> isRelaxed E)"

definition shouldEnforceMinimalData :: "'k spend_env \<Rightarrow> bool" where
  "shouldEnforceMinimalData E = malleability_rule E ''MINIMALDATA''"

definition shouldEnforceLowS :: "'k spend_env \<Rightarrow> bool" where
  "shouldEnforceLowS E = malleability_rule E ''LOW_S''"

definition shouldEnforceNullDummy :: "'k spend_env \<Rightarrow> bool" where
  "shouldEnforceNullDummy E = malleability_rule E ''NULLDUMMY''"

definition shouldEnforceSigPushOnly :: "'k spend_env \<Rightarrow> bool" where
  "shouldEnforceSigPushOnly E = malleability_rule E ''SIGPUSHONLY''"

definition shouldEnforceCleanStack :: "'k spend_env \<Rightarrow> bool" where
  "shouldEnforceCleanStack E = malleability_rule E ''CLEANSTACK''"

definition shouldEnforceDerSignatures :: "'k spend_env \<Rightarrow> bool" where
  "shouldEnforceDerSignatures E \<longleftrightarrow>
     (if hasExplicitFlags E
      then hasFlag E ''DERSIG'' \<or> hasFlag E ''STRICTENC'' \<or> hasFlag E ''LOW_S'' \<or> hasFlag E ''SIGHASH_FORKID''
      else True)"

definition shouldEnforceStrictEncoding :: "'k spend_env \<Rightarrow> bool" where
  "shouldEnforceStrictEncoding E \<longleftrightarrow>
     (if hasExplicitFlags E then hasFlag E ''STRICTENC'' \<or> hasFlag E ''SIGHASH_FORKID'' else True)"

definition scriptNumMaxSize :: "'k spend_env \<Rightarrow> nat option" where
  "scriptNumMaxSize E =
     (if hasExplicitFlags E
      then if \<not> isAfterGenesis E then Some 4
           else if isAfterChronicle E then Some 32000000 else Some 750000
      else None)"

definition maxPushSize :: "'k spend_env \<Rightarrow> nat option" where
  "maxPushSize E = (if hasExplicitFlags E \<and> \<not> isAfterGenesis E then Some 520 else None)"

definition above_limit :: "int \<Rightarrow> nat option \<Rightarrow> bool" where
  "above_limit n l \<longleftrightarrow> (case l of None \<Rightarrow> False | Some m \<Rightarrow> n > int m)"

subsection \<open>Construction and reset\<close>

definition clear_cache :: "sighash_cache \<Rightarrow> sighash_cache" where
  "clear_cache c = c\<lparr>c_hashPrevouts := None, c_hashSequence := None, c_hashOutputsAll := None,
     c_hashOutputsSingle := (\<lambda>_. None)\<rparr>"

definition reset :: "'k spend_env \<Rightarrow> spend \<Rightarrow> spend" where
  "reset E s = s\<lparr>sp_context := UnlockingScript, sp_pc := 0, sp_lastCodeSeparator := None,
     sp_stack := [], sp_altStack := [], sp_ifStack := [], sp_elseStack := [],
     sp_stackMem := 0, sp_altStackMem := 0, sp_executedOpCount := 0, sp_returning := False,
     sp_cache := (if e_ownsSigHashCache E then clear_cache (sp_cache s) else sp_cache s)\<rparr>"

definition new_spend :: "'k spend_env \<Rightarrow> script \<Rightarrow> script \<Rightarrow> sighash_cache option \<Rightarrow> spend" where
  "new_spend E unlocking locking c = reset E
     \<lparr>sp_context = UnlockingScript, sp_pc = 0, sp_lastCodeSeparator = None, sp_stack = [],
      sp_altStack = [], sp_ifStack = [], sp_elseStack = [], sp_stackMem = 0, sp_altStackMem = 0,
      sp_executedOpCount = 0, sp_returning = False, sp_unlocking = unlocking, sp_locking = locking,
      sp_cache = (case c of Some x \<Rightarrow> x | None \<Rightarrow> empty_cache)\<rparr>"

subsection \<open>The scripts\<close>

definition chunks_of :: "script \<Rightarrow> script_chunk list" where
  "chunks_of sc = sc_chunks (ensureParsed sc)"

definition script_in :: "script_context \<Rightarrow> spend \<Rightarrow> script" where
  "script_in c s = (case c of UnlockingScript \<Rightarrow> sp_unlocking s | LockingScript \<Rightarrow> sp_locking s)"

definition set_script_in :: "script_context \<Rightarrow> script \<Rightarrow> spend \<Rightarrow> spend" where
  "set_script_in c sc s =
     (case c of UnlockingScript \<Rightarrow> s\<lparr>sp_unlocking := sc\<rparr> | LockingScript \<Rightarrow> s\<lparr>sp_locking := sc\<rparr>)"

definition current_chunks :: "spend \<Rightarrow> script_chunk list" where
  "current_chunks s = chunks_of (script_in (sp_context s) s)"

text \<open>A write into the array of a popped entry reaches the chunk it came from.\<close>

definition set_chunk_data :: "nat \<Rightarrow> bytes \<Rightarrow> script \<Rightarrow> script" where
  "set_chunk_data i d sc =
     (let sc' = ensureParsed sc; cs = sc_chunks sc'
      in sc'\<lparr>sc_chunks := (if i < length cs then cs[i := (cs ! i)\<lparr>chunk_data := Some d\<rparr>] else cs)\<rparr>)"

definition write_through :: "item \<Rightarrow> bytes \<Rightarrow> unit op" where
  "write_through it d =
     (case item_origin it of None \<Rightarrow> ret ()
      | Some (c, i) \<Rightarrow> modify (\<lambda>s. set_script_in c (set_chunk_data i d (script_in c s)) s))"

subsection \<open>Memory accounts and stack operations\<close>

definition ensureStackMem :: "'k spend_env \<Rightarrow> nat \<Rightarrow> unit op" where
  "ensureStackMem E additional = (\<lambda>s.
     case e_memoryLimit E of
       None \<Rightarrow> (Inr (), s)
     | Some m \<Rightarrow>
         if sp_stackMem s + int additional > int m
         then (Inl (ResourceLimit ''stack'' m (sp_stackMem s + int additional)), s) else (Inr (), s))"

definition ensureAltStackMem :: "'k spend_env \<Rightarrow> nat \<Rightarrow> unit op" where
  "ensureAltStackMem E additional = (\<lambda>s.
     case e_memoryLimit E of
       None \<Rightarrow> (Inr (), s)
     | Some m \<Rightarrow>
         if sp_altStackMem s + int additional > int m
         then (Inl (ResourceLimit ''alt-stack'' m (sp_altStackMem s + int additional)), s) else (Inr (), s))"

abbreviation item_size :: "item \<Rightarrow> nat" where
  "item_size it \<equiv> length (item_bytes it)"

definition pushStack :: "'k spend_env \<Rightarrow> item \<Rightarrow> unit op" where
  "pushStack E it = thn (ensureStackMem E (item_size it))
     (modify (\<lambda>s. s\<lparr>sp_stack := it # sp_stack s, sp_stackMem := sp_stackMem s + int (item_size it)\<rparr>))"

definition pushStackCopy :: "'k spend_env \<Rightarrow> bytes \<Rightarrow> unit op" where
  "pushStackCopy E b = pushStack E (fresh b)"

definition popStack :: "item op" where
  "popStack = (\<lambda>s. case sp_stack s of
       [] \<Rightarrow> (Inl (ScriptEvaluation ''Attempted to pop from an empty stack.''), s)
     | it # r \<Rightarrow> (Inr it, s\<lparr>sp_stack := r, sp_stackMem := sp_stackMem s - int (item_size it)\<rparr>))"

text \<open>\<open>stackTop k\<close> is \<open>this.#stackTop(-k)\<close>: the callers pass the indices -1, -2, ...\<close>

definition stackTop :: "nat \<Rightarrow> item op" where
  "stackTop k = (\<lambda>s.
     if length (sp_stack s) = 0 \<or> length (sp_stack s) < k
     then (Inl (ScriptEvaluation (''Stack underflow accessing element at index '' @ decimal (- int k)
             @ ''. Stack length is '' @ decimal (int (length (sp_stack s))) @ ''.'')), s)
     else (Inr (sp_stack s ! (k - 1)), s))"

definition requireStackItems :: "nat \<Rightarrow> string \<Rightarrow> unit op" where
  "requireStackItems minimum msg = bnd (get sp_stack) (\<lambda>st. fail_if (length st < minimum) msg)"

definition requireAltStackItems :: "nat \<Rightarrow> string \<Rightarrow> unit op" where
  "requireAltStackItems minimum msg = bnd (get sp_altStack) (\<lambda>st. fail_if (length st < minimum) msg)"

definition setStack :: "item list \<Rightarrow> unit op" where
  "setStack its = modify (\<lambda>s. s\<lparr>sp_stack := map (\<lambda>it. fresh (item_bytes it)) its,
     sp_stackMem := int (sum_list (map item_size its))\<rparr>)"

definition clearAltStack :: "spend \<Rightarrow> spend" where
  "clearAltStack s = s\<lparr>sp_altStack := [], sp_altStackMem := 0\<rparr>"

definition pushAltStack :: "'k spend_env \<Rightarrow> item \<Rightarrow> unit op" where
  "pushAltStack E it = thn (ensureAltStackMem E (item_size it))
     (modify (\<lambda>s. s\<lparr>sp_altStack := it # sp_altStack s,
        sp_altStackMem := sp_altStackMem s + int (item_size it)\<rparr>))"

definition popAltStack :: "item op" where
  "popAltStack = (\<lambda>s. case sp_altStack s of
       [] \<Rightarrow> (Inl (ScriptEvaluation ''Attempted to pop from an empty alt stack.''), s)
     | it # r \<Rightarrow> (Inr it, s\<lparr>sp_altStack := r, sp_altStackMem := sp_altStackMem s - int (item_size it)\<rparr>))"

text \<open>\<open>splice(length - 1 - n, 1)\<close> with its account, and \<open>splice(-2, 0, copy)\<close>.\<close>

definition remove_at :: "nat \<Rightarrow> item op" where
  "remove_at n = (\<lambda>s. case drop n (sp_stack s) of
       [] \<Rightarrow> (Inl (Thrown (JsTypeError ''Cannot read properties of undefined'')), s)
     | it # r \<Rightarrow> (Inr it, s\<lparr>sp_stack := take n (sp_stack s) @ r,
                           sp_stackMem := sp_stackMem s - int (item_size it)\<rparr>))"

definition insert_below_two :: "bytes \<Rightarrow> unit op" where
  "insert_below_two b = modify (\<lambda>s.
     s\<lparr>sp_stack := take 2 (sp_stack s) @ [fresh b] @ drop 2 (sp_stack s),
       sp_stackMem := sp_stackMem s + int (length b)\<rparr>)"

subsection \<open>Truth values, numbers and minimal encodings\<close>

fun castToBool :: "bytes \<Rightarrow> bool" where
  "castToBool [] = False"
| "castToBool (b # bs) = (if b \<noteq> 0 then \<not> (bs = [] \<and> b = 0x80) else castToBool bs)"

definition isMinimallyEncodedHelper :: "nat \<Rightarrow> bytes \<Rightarrow> bool" where
  "isMinimallyEncodedHelper maxNumSize buf =
     (if length buf > maxNumSize then False
      else if length buf > 0 \<and> and (last buf) 0x7f = 0
              \<and> (length buf \<le> 1 \<or> and (last (butlast buf)) 0x80 = 0) then False
      else True)"

text \<open>
  \<open>minimallyEncode\<close> of \<open>primitives/utils.ts\<close>: the result (\<open>None\<close> is the argument array itself)
  and what the call leaves in the argument. The loop runs down from the last index.
\<close>

fun trim_zeros :: "byte \<Rightarrow> bytes \<Rightarrow> nat \<Rightarrow> bytes \<times> bytes" where
  "trim_zeros lst buf 0 = ([], buf)"
| "trim_zeros lst buf (Suc i) =
     (if buf ! i \<noteq> 0 then
        if and (buf ! i) 0x80 = 0
        then (let buf' = buf[i := or (buf ! i) lst] in (take (Suc i) buf', buf'))
        else (let buf' = buf[Suc i := lst] in (take (Suc (Suc i)) buf', buf'))
      else trim_zeros lst buf i)"

definition minimallyEncode :: "bytes \<Rightarrow> bytes option \<times> bytes" where
  "minimallyEncode buf =
     (if length buf = 0 then (None, buf)
      else let lst = last buf
      in if and lst 0x7f \<noteq> 0 then (None, buf)
      else if length buf = 1 then (Some [], buf)
      else if and (last (butlast buf)) 0x80 \<noteq> 0 then (None, buf)
      else case trim_zeros lst buf (length buf - 1) of (r, buf') \<Rightarrow> (Some r, buf'))"

definition minimal_form :: "bytes \<Rightarrow> bytes" where
  "minimal_form buf = (case minimallyEncode buf of (None, b) \<Rightarrow> b | (Some r, _) \<Rightarrow> r)"

text \<open>The entry \<open>minimallyEncode\<close> returns for an entry, with its write into the argument.\<close>

definition minimal_item :: "item \<Rightarrow> item op" where
  "minimal_item it =
     (case minimallyEncode (item_bytes it) of
        (None, _) \<Rightarrow> ret it
      | (Some r, buf') \<Rightarrow> thn (write_through it buf') (ret (fresh r)))"

definition readScriptNumber :: "'k spend_env \<Rightarrow> bytes \<Rightarrow> big_number op" where
  "readScriptNumber E buf =
     (case fromScriptNum (shouldEnforceMinimalData E) (scriptNumMaxSize E) buf of
        Inl e \<Rightarrow> fail (js_message e) | Inr n \<Rightarrow> ret n)"

definition readSpliceOperand :: "'k spend_env \<Rightarrow> bytes \<Rightarrow> int op" where
  "readSpliceOperand E buf =
     thn (fail_if (above_limit (int (length buf)) (scriptNumMaxSize E)) ''script number overflow'')
     (thn (fail_if (shouldEnforceMinimalData E \<and> \<not> isMinimallyEncodedHelper max_safe_integer buf)
            ''non-minimally encoded script number'')
     (thn (fail_if (length buf > 9) ''script number overflow'')
     (let v = getSignedValue (fromSm True buf)
      in thn (fail_if (v < - (2 ^ 63) \<or> v > 2 ^ 63 - 1) ''script number overflow'')
         (ret (if v > 2 ^ 31 - 1 then 2 ^ 31 - 1 else if v < - (2 ^ 31) then - (2 ^ 31) else v)))))"

definition readLockTimeOperand :: "'k spend_env \<Rightarrow> bytes \<Rightarrow> int op" where
  "readLockTimeOperand E buf =
     (case fromScriptNum (shouldEnforceMinimalData E) (Some 5) buf of
        Inl e \<Rightarrow> fail (js_message e) | Inr n \<Rightarrow> ret (getSignedValue n))"

end
