(* ===== verification/Spend_Checks.thy ===== *)
theory Spend_Checks
  imports Spend_State
begin

text \<open>
  Signatures and public keys in the interpreter, \<open>packages/sdk/src/script/Spend.ts\<close>: the strict
  format test, the lax DER reader used when no flag asks for strict signatures, the rules on hash
  types, the public-key encoding, and the verification over the digest of \<open>Signature_Hash\<close>.

  Positions of the lax reader are integers: the source builds a length with 32-bit shifts, which
  can come out negative, and slices with it.
\<close>

subsection \<open>Formats\<close>

text \<open>An index out of the array is \<open>undefined\<close>, which the bit operators read as zero.\<close>

definition byte_or_zero :: "bytes \<Rightarrow> nat \<Rightarrow> byte" where
  "byte_or_zero buf i = (case at buf i of None \<Rightarrow> 0 | Some b \<Rightarrow> b)"

definition isChecksigFormatHelper :: "bytes \<Rightarrow> bool" where
  "isChecksigFormatHelper buf =
    (if length buf < 9 \<or> length buf > 73 then False
     else if at buf 0 \<noteq> Some 0x30 then False
     else if unat (buf ! 1) \<noteq> length buf - 3 then False
     else let rMarker = buf ! 2; rLen = unat (buf ! 3)
     in if rMarker \<noteq> 0x02 then False
     else if rLen = 0 then False
     else if 5 + rLen \<ge> length buf then False
     else let sMarkerOffset = 4 + rLen; sMarker = buf ! sMarkerOffset; sLen = unat (buf ! (sMarkerOffset + 1))
     in if sMarker \<noteq> 0x02 then False
     else if sLen = 0 then False
     else if and (buf ! 4) 0x80 \<noteq> 0 then False
     else if rLen > 1 \<and> buf ! 4 = 0 \<and> and (buf ! 5) 0x80 = 0 then False
     else let sValueOffset = sMarkerOffset + 2
     in if and (byte_or_zero buf sValueOffset) 0x80 \<noteq> 0 then False
     else if sLen > 1 \<and> at buf sValueOffset = Some 0 \<and> and (byte_or_zero buf (sValueOffset + 1)) 0x80 = 0 then False
     else if rLen + sLen + 7 \<noteq> length buf then False
     else True)"

definition isChunkMinimalPushHelper :: "script_chunk \<Rightarrow> bool" where
  "isChunkMinimalPushHelper chunk =
    (case chunk_data chunk of None \<Rightarrow> True
     | Some d \<Rightarrow>
        let opc = chunk_op chunk; n = length d
        in if n = 0 then opc = OP_0
           else if n = 1 \<and> 1 \<le> unat (d ! 0) \<and> unat (d ! 0) \<le> 16 then opc = OP_1 + (unat (d ! 0) - 1)
           else if n = 1 \<and> d ! 0 = 0x81 then opc = OP_1NEGATE
           else if n \<le> 75 then opc = n
           else if n \<le> 255 then opc = OP_PUSHDATA1
           else if n \<le> 65535 then opc = OP_PUSHDATA2
           else True)"

subsection \<open>Hash types\<close>

definition isDefinedHashType :: "nat \<Rightarrow> bool" where
  "isDefinedHashType scope \<longleftrightarrow>
     (let baseType = and scope 0x1f in baseType \<ge> SIGHASH_ALL \<and> baseType \<le> SIGHASH_SINGLE)"

definition enforceSignatureHashType :: "'k spend_env \<Rightarrow> nat \<Rightarrow> spend_error + unit" where
  "enforceSignatureHashType E scope =
    (if \<not> shouldEnforceStrictEncoding E then Inr ()
     else if \<not> isDefinedHashType scope then Inl (ScriptEvaluation ''The signature hash type is invalid.'')
     else let usesChronicle = (and scope SIGHASH_CHRONICLE \<noteq> 0);
              chronicleEnabled = (if hasExplicitFlags E then hasFlag E ''CHRONICLE'' else isAfterChronicle E)
     in if usesChronicle \<and> \<not> chronicleEnabled
        then Inl (ScriptEvaluation ''The signature hash type is invalid before Chronicle.'')
        else Inr ())"

definition enforceSignatureForkId :: "'k spend_env \<Rightarrow> nat \<Rightarrow> spend_error + unit" where
  "enforceSignatureForkId E scope =
    (if \<not> hasExplicitFlags E \<or> \<not> hasFlag E ''STRICTENC'' then Inr ()
     else let hasForkId = (and scope SIGHASH_FORKID \<noteq> 0)
     in if hasFlag E ''SIGHASH_FORKID'' \<and> \<not> hasForkId
        then Inl (ScriptEvaluation ''The signature must use SIGHASH_FORKID.'')
        else if \<not> hasFlag E ''SIGHASH_FORKID'' \<and> \<not> isAfterGenesis E \<and> hasForkId
        then Inl (ScriptEvaluation ''The signature must not use SIGHASH_FORKID.'')
        else Inr ())"

text \<open>The body of the \<open>try\<close> block of \<open>#checkSignatureEncoding\<close>.\<close>

definition signature_rules :: "'k spend_env \<Rightarrow> bytes \<Rightarrow> spend_error + unit" where
  "signature_rules E buf =
    (case fromChecksigFormat buf of
       Inl e \<Rightarrow> Inl (Thrown e)
     | Inr sig \<Rightarrow>
        (case enforceSignatureHashType E (sig_scope sig) of Inl e \<Rightarrow> Inl e
         | Inr _ \<Rightarrow>
            (case enforceSignatureForkId E (sig_scope sig) of Inl e \<Rightarrow> Inl e
             | Inr _ \<Rightarrow>
                if shouldEnforceLowS E \<and> \<not> hasLowS sig
                then Inl (ScriptEvaluation ''The signature must have a low S value.'') else Inr ())))"

text \<open>The \<open>catch\<close> block sees every error of the body, the rules' own ones included.\<close>

definition checkSignatureEncoding :: "'k spend_env \<Rightarrow> bytes \<Rightarrow> spend_error + unit" where
  "checkSignatureEncoding E buf =
    (if length buf = 0 then Inr ()
     else let enforceDer = shouldEnforceDerSignatures E
     in if enforceDer \<and> \<not> isChecksigFormatHelper buf
        then Inl (ScriptEvaluation ''The signature format is invalid.'')
        else case signature_rules E buf of
               Inr _ \<Rightarrow> Inr ()
             | Inl _ \<Rightarrow> if enforceDer then Inl (ScriptEvaluation ''The signature format is invalid.'') else Inr ())"

subsection \<open>The lax DER reader\<close>

definition int_at :: "bytes \<Rightarrow> int \<Rightarrow> byte option" where
  "int_at buf i = (if 0 \<le> i then at buf (nat i) else None)"

text \<open>\<open>Array.prototype.slice\<close> with its treatment of negative and large bounds.\<close>

definition slice_bound :: "bytes \<Rightarrow> int \<Rightarrow> nat" where
  "slice_bound buf i = (if i < 0 then nat (max 0 (int (length buf) + i)) else min (nat i) (length buf))"

definition js_slice :: "bytes \<Rightarrow> int \<Rightarrow> int \<Rightarrow> bytes" where
  "js_slice buf a b = take (slice_bound buf b - slice_bound buf a) (drop (slice_bound buf a) buf)"

text \<open>\<open>length = (length << 8) | byte\<close> on 32-bit integers, over the next \<open>n\<close> bytes.\<close>

fun lax_length_bytes :: "bytes \<Rightarrow> int \<Rightarrow> nat \<Rightarrow> 32 word \<Rightarrow> 32 word \<times> int" where
  "lax_length_bytes buf p 0 len = (len, p)"
| "lax_length_bytes buf p (Suc n) len =
     lax_length_bytes buf (p + 1) n
       (or (push_bit 8 len) (case int_at buf p of None \<Rightarrow> 0 | Some b \<Rightarrow> word_of_nat (unat b)))"

definition readLaxDERLength :: "bytes \<Rightarrow> int \<Rightarrow> js_error + (int \<times> int)" where
  "readLaxDERLength buf p =
    (case int_at buf p of
       None \<Rightarrow> Inl (JsError ''Invalid DER length'')
     | Some first \<Rightarrow>
        if and first 0x80 = 0 then Inr (int (unat first), p + 1)
        else let lengthBytes = unat (and first 0x7f)
        in if lengthBytes = 0 \<or> p + 1 + int lengthBytes > int (length buf)
           then Inl (JsError ''Invalid DER length'')
           else case lax_length_bytes buf (p + 1) lengthBytes 0 of (len, q) \<Rightarrow> Inr (sint len, q))"

fun drop_leading_zeros :: "bytes \<Rightarrow> bytes" where
  "drop_leading_zeros (b # c # bs) = (if b = 0 then drop_leading_zeros (c # bs) else b # c # bs)"
| "drop_leading_zeros bs = bs"

definition parseLaxDERInteger :: "bytes \<Rightarrow> int \<Rightarrow> int \<Rightarrow> js_error + (big_number \<times> int)" where
  "parseLaxDERInteger buf p sequenceEnd =
    (if p \<ge> sequenceEnd \<or> int_at buf p \<noteq> Some 0x02 then Inl (JsError ''Invalid DER integer'')
     else case readLaxDERLength buf (p + 1) of Inl e \<Rightarrow> Inl e
     | Inr (len, q) \<Rightarrow>
        if q + len > sequenceEnd then Inl (JsError ''Invalid DER integer length'')
        else let b = drop_leading_zeros (js_slice buf q (q + len))
             in Inr (initArray_be (if b = [] then [0] else b), q + len))"

definition parseLaxChecksigSignature :: "bytes \<Rightarrow> js_error + tx_signature" where
  "parseLaxChecksigSignature buf =
    (if length buf = 0 then fromChecksigFormat buf
     else let scope = unat (last buf); der = butlast buf
     in if at der 0 \<noteq> Some 0x30 then Inl (JsError ''Signature DER must start with 0x30'')
     else case readLaxDERLength der 1 of Inl e \<Rightarrow> Inl e
     | Inr (sequenceLength, p) \<Rightarrow>
        let sequenceEnd = min (p + sequenceLength) (int (length der))
        in case parseLaxDERInteger der p sequenceEnd of Inl e \<Rightarrow> Inl e
        | Inr (r, p1) \<Rightarrow>
           (case parseLaxDERInteger der p1 sequenceEnd of Inl e \<Rightarrow> Inl e
            | Inr (s, _) \<Rightarrow> Inr \<lparr>sig_r = r, sig_s = s, sig_scope = scope\<rparr>))"

definition parseChecksigSignature :: "'k spend_env \<Rightarrow> bytes \<Rightarrow> js_error + tx_signature" where
  "parseChecksigSignature E buf =
    (case fromChecksigFormat buf of
       Inr sig \<Rightarrow> Inr sig
     | Inl e \<Rightarrow> if shouldEnforceDerSignatures E then Inl e else parseLaxChecksigSignature buf)"

subsection \<open>Public keys\<close>

definition checkPublicKeyEncoding :: "'k spend_env \<Rightarrow> bytes \<Rightarrow> spend_error + unit" where
  "checkPublicKeyEncoding E buf =
    (if \<not> shouldEnforceStrictEncoding E then Inr ()
     else if length buf = 0 then Inl (ScriptEvaluation ''Public key is empty.'')
     else if length buf < 33
     then Inl (ScriptEvaluation ''The public key is too short, it must be at least 33 bytes.'')
     else if buf ! 0 = 0x04 \<and> length buf \<noteq> 65
     then Inl (ScriptEvaluation ''The non-compressed public key must be 65 bytes.'')
     else if (buf ! 0 = 0x02 \<or> buf ! 0 = 0x03) \<and> length buf \<noteq> 33
     then Inl (ScriptEvaluation ''The compressed public key must be 33 bytes.'')
     else if buf ! 0 \<notin> {0x02, 0x03, 0x04}
     then Inl (ScriptEvaluation ''The public key is in an unknown format.'')
     else case e_publicKey E buf of
            Inl _ \<Rightarrow> Inl (ScriptEvaluation ''The public key is in an unknown format.'')
          | Inr _ \<Rightarrow> Inr ())"

subsection \<open>Verification\<close>

definition sighash_request :: "'k spend_env \<Rightarrow> bytes \<Rightarrow> nat \<Rightarrow> sighash_params" where
  "sighash_request E subscript scope =
    \<lparr>p_sourceTXID = e_sourceTXID E, p_sourceOutputIndex = e_sourceOutputIndex E,
     p_sourceSatoshis = e_sourceSatoshis E, p_transactionVersion = e_transactionVersion E,
     p_otherInputs = e_otherInputs E, p_allInputs = e_allInputs E, p_outputs = e_outputs E,
     p_inputIndex = e_inputIndex E, p_subscript = subscript, p_inputSequence = e_inputSequence E,
     p_lockTime = e_lockTime E, p_scope = scope, p_ignoreChronicle = False,
     p_forkIdEnabled = (\<not> hasExplicitFlags E \<or> hasFlag E ''SIGHASH_FORKID'')\<rparr>"

text \<open>A digest through the spend's cache, which the call may fill before it throws.\<close>

definition with_sighash_cache :: "'a cached \<Rightarrow> 'a op" where
  "with_sighash_cache m = (\<lambda>s.
     case m (Some (sp_cache s)) of (r, c) \<Rightarrow>
       (case r of Inl e \<Rightarrow> Inl (Thrown e) | Inr x \<Rightarrow> Inr x,
        s\<lparr>sp_cache := (case c of Some c' \<Rightarrow> c' | None \<Rightarrow> sp_cache s)\<rparr>))"

definition verifySignature :: "'k spend_env \<Rightarrow> tx_signature \<Rightarrow> 'k \<Rightarrow> bytes \<Rightarrow> bool op" where
  "verifySignature E sig pubkey subscript =
    (let params = sighash_request E subscript (sig_scope sig)
     in if usesOtdaSingleBug params
        then lift_js (e_verify E (initArray_be (1 # replicate 31 0)) sig pubkey)
        else bnd (with_sighash_cache (formatBytes (e_hash256 E) params)) (\<lambda>preimage.
               lift_js (e_verify E (initArray_be (e_hash256 E preimage)) sig pubkey)))"

text \<open>\<open>new Script().writeBin(sig)\<close> deleted from a script.\<close>

definition delete_signature :: "bytes \<Rightarrow> script \<Rightarrow> js_error + script" where
  "delete_signature sig sub =
    (case writeBin sig (new_script []) of (Inl e, _) \<Rightarrow> Inl e
     | (Inr _, t) \<Rightarrow>
        (case getSerializedBytes t of (Inl e, _) \<Rightarrow> Inl e
         | (Inr target, _) \<Rightarrow>
            (case findAndDelete target sub of (Inl e, _) \<Rightarrow> Inl e | (Inr _, sub') \<Rightarrow> Inr sub')))"

definition script_bytes :: "script \<Rightarrow> js_error + bytes" where
  "script_bytes sub = fst (getSerializedBytes sub)"

text \<open>\<open>try { ... } catch { return d }\<close>; what the block changed before it threw stays.\<close>

definition attempt :: "'a \<Rightarrow> 'a op \<Rightarrow> 'a op" where
  "attempt d m = (\<lambda>s. case m s of (Inl _, t) \<Rightarrow> (Inr d, t) | (Inr x, t) \<Rightarrow> (Inr x, t))"

end
