(* ===== verification/Spend_Ops.thy ===== *)
theory Spend_Ops
  imports Spend_Checks
begin

text \<open>
  The opcodes of the interpreter, the cases of the \<open>switch\<close> in \<open>Spend.step\<close>
  (\<open>packages/sdk/src/script/Spend.ts\<close>): one definition per case or group of cases, over the
  stack operations of \<open>Spend_State\<close>, and \<open>execute_opcode\<close> for the whole switch.

  Shifts of script numbers build a \<open>bigint\<close>; the engine's bound on its size is not modelled.
\<close>

subsection \<open>Control stacks and single fields\<close>

definition push_condition :: "bool \<Rightarrow> unit op" where
  "push_condition b = modify (\<lambda>s. s\<lparr>sp_ifStack := b # sp_ifStack s, sp_elseStack := False # sp_elseStack s\<rparr>)"

definition flip_condition :: "unit op" where
  "flip_condition = modify (\<lambda>s.
     s\<lparr>sp_elseStack := (case sp_elseStack s of [] \<Rightarrow> [] | _ # r \<Rightarrow> True # r),
       sp_ifStack := (case sp_ifStack s of [] \<Rightarrow> [] | b # r \<Rightarrow> (\<not> b) # r)\<rparr>)"

definition pop_condition :: "unit op" where
  "pop_condition = modify (\<lambda>s. s\<lparr>sp_ifStack := drop 1 (sp_ifStack s), sp_elseStack := drop 1 (sp_elseStack s)\<rparr>)"

definition start_returning :: "unit op" where
  "start_returning = modify (\<lambda>s. s\<lparr>sp_returning := True\<rparr>)"

text \<open>The program counter one before the end: the step's own increment ends the script.\<close>

definition jump_to_end :: "unit op" where
  "jump_to_end = modify (\<lambda>s. s\<lparr>sp_pc := length (current_chunks s) - 1\<rparr>)"

definition mark_separator :: "unit op" where
  "mark_separator = modify (\<lambda>s. s\<lparr>sp_lastCodeSeparator := Some (sp_pc s)\<rparr>)"

definition push_bool :: "'k spend_env \<Rightarrow> bool \<Rightarrow> unit op" where
  "push_bool E b = pushStack E (fresh (if b then [1] else []))"

definition pop_number :: "'k spend_env \<Rightarrow> big_number op" where
  "pop_number E = bnd popStack (\<lambda>it. readScriptNumber E (item_bytes it))"

definition pop_splice :: "'k spend_env \<Rightarrow> int op" where
  "pop_splice E = bnd popStack (\<lambda>it. readSpliceOperand E (item_bytes it))"

text \<open>\<open>OP_X requires at least n ...\<close>\<close>

definition require_for :: "nat \<Rightarrow> nat \<Rightarrow> string \<Rightarrow> unit op" where
  "require_for opc n rest = requireStackItems n (op_text opc @ '' requires at least '' @ rest)"

subsection \<open>Version and splices\<close>

definition version_bytes :: "'k spend_env \<Rightarrow> bytes" where
  "version_bytes E = [js_byte (e_transactionVersion E) 0, js_byte (e_transactionVersion E) 8,
     js_byte (e_transactionVersion E) 16, js_byte (e_transactionVersion E) 24]"

definition op_ver :: "'k spend_env \<Rightarrow> unit op" where
  "op_ver E = pushStack E (fresh (version_bytes E))"

definition op_substr :: "'k spend_env \<Rightarrow> unit op" where
  "op_substr E =
    thn (requireStackItems 3 ''OP_SUBSTR requires at least three items to be on the stack.'')
    (bnd (pop_splice E) (\<lambda>len.
     bnd (pop_splice E) (\<lambda>offset.
     bnd popStack (\<lambda>it.
      let buf = item_bytes it; size = int (length buf)
      in thn (fail_if (offset < 0 \<or> offset \<ge> size \<or> len < 0 \<or> len > size - offset)
           (''OP_SUBSTR offset ('' @ decimal offset @ '') must be in range [0, '' @ decimal size
            @ '') and length ('' @ decimal len @ '') must be in range [0, '' @ decimal (size - offset) @ '']''))
         (pushStack E (fresh (js_slice buf offset (offset + len))))))))"

definition op_left :: "'k spend_env \<Rightarrow> unit op" where
  "op_left E =
    thn (requireStackItems 2 ''OP_LEFT requires at least two items to be on the stack.'')
    (bnd (pop_splice E) (\<lambda>len.
     bnd popStack (\<lambda>it.
      let buf = item_bytes it; size = int (length buf)
      in thn (fail_if (len < 0 \<or> len > size)
           (''OP_LEFT length ('' @ decimal len @ '') must be in range [0, '' @ decimal size @ '']''))
         (pushStack E (fresh (js_slice buf 0 len))))))"

definition op_right :: "'k spend_env \<Rightarrow> unit op" where
  "op_right E =
    thn (requireStackItems 2 ''OP_RIGHT requires at least two items to be on the stack.'')
    (bnd (pop_splice E) (\<lambda>len.
     bnd popStack (\<lambda>it.
      let buf = item_bytes it; size = int (length buf)
      in thn (fail_if (len < 0 \<or> len > size)
           (''OP_RIGHT length ('' @ decimal len @ '') must be in range [0, '' @ decimal size @ '']''))
         (pushStack E (fresh (js_slice buf (size - len) size))))))"

definition op_lshiftnum :: "'k spend_env \<Rightarrow> unit op" where
  "op_lshiftnum E =
    thn (requireStackItems 2 ''OP_LSHIFTNUM requires at least two items to be on the stack.'')
    (bnd (pop_number E) (\<lambda>b. let bits = getSignedValue b in
     thn (fail_if (bits < 0) ''OP_LSHIFTNUM bits to shift must not be negative.'')
    (thn (fail_if (bits > 0x7fffffff) ''OP_LSHIFTNUM shift count exceeds INT_MAX.'')
    (bnd (pop_number E) (\<lambda>v. let value = getSignedValue v; maxBytes = scriptNumMaxSize E in
     thn (fail_if (value \<noteq> 0 \<and> (case maxBytes of None \<Rightarrow> False | Some m \<Rightarrow> bits \<ge> int m * 8))
           ''script number overflow'')
    (let resultBytes = toScriptNum (bn_of_bigint (push_bit (nat bits) value))
     in thn (fail_if (above_limit (int (length resultBytes)) maxBytes) ''script number overflow'')
       (pushStack E (fresh resultBytes))))))))"

definition op_rshiftnum :: "'k spend_env \<Rightarrow> unit op" where
  "op_rshiftnum E =
    thn (requireStackItems 2 ''OP_RSHIFTNUM requires at least two items to be on the stack.'')
    (bnd (pop_number E) (\<lambda>b. let bits = getSignedValue b in
     thn (fail_if (bits < 0) ''OP_RSHIFTNUM bits to shift must not be negative.'')
    (thn (fail_if (bits > 0x7fffffff) ''OP_RSHIFTNUM shift count exceeds INT_MAX.'')
    (bnd (pop_number E) (\<lambda>v. let value = getSignedValue v in
     pushStack E (fresh (toScriptNum (bn_of_bigint
       (if value < 0 then - drop_bit (nat bits) (- value) else drop_bit (nat bits) value))))))))) "

definition push_small :: "'k spend_env \<Rightarrow> int \<Rightarrow> unit op" where
  "push_small E n = pushStackCopy E (toScriptNum (bn_of_bigint n))"

subsection \<open>Lock times\<close>

definition verifyCheckLockTime :: "'k spend_env \<Rightarrow> unit op" where
  "verifyCheckLockTime E =
    (if \<not> hasFlag E ''CHECKLOCKTIMEVERIFY'' \<or> isAfterGenesis E then ret ()
     else thn (requireStackItems 1 ''OP_CHECKLOCKTIMEVERIFY requires one stack item.'')
      (bnd (stackTop 1) (\<lambda>it.
       bnd (readLockTimeOperand E (item_bytes it)) (\<lambda>required.
       thn (fail_if (required < 0) ''Negative lock time.'')
       (let requiredIsHeight = (required < 500000000);
            transactionIsHeight = (e_lockTime E < 500000000)
        in fail_if (requiredIsHeight \<noteq> transactionIsHeight \<or> required > e_lockTime E
                \<or> e_inputSequence E = 0xffffffff)
             ''OP_CHECKLOCKTIMEVERIFY lock time is unsatisfied.'')))))"

definition verifyCheckSequence :: "'k spend_env \<Rightarrow> unit op" where
  "verifyCheckSequence E =
    (if \<not> hasFlag E ''CHECKSEQUENCEVERIFY'' \<or> isAfterGenesis E then ret ()
     else thn (requireStackItems 1 ''OP_CHECKSEQUENCEVERIFY requires at least one item to be on the stack.'')
      (bnd (stackTop 1) (\<lambda>it.
       bnd (readLockTimeOperand E (item_bytes it)) (\<lambda>sequenceLock.
       thn (fail_if (sequenceLock < 0) ''OP_CHECKSEQUENCEVERIFY requires a non-negative lock time.'')
       (if and sequenceLock 0x80000000 \<noteq> 0 then ret ()
        else let sq = take_bit 32 (e_inputSequence E);
                 msk = or 0x00400000 0x0000ffff;
                 required = and sequenceLock msk; actual = and sq msk
             in fail_if (take_bit 32 (e_transactionVersion E) < 2 \<or> and sq 0x80000000 \<noteq> 0
                   \<or> and required 0x00400000 \<noteq> and actual 0x00400000 \<or> required > actual)
                 ''OP_CHECKSEQUENCEVERIFY lock time is unsatisfied.'')))))"

subsection \<open>Conditionals and ends\<close>

definition op_verif :: "'k spend_env \<Rightarrow> nat \<Rightarrow> bool \<Rightarrow> unit op" where
  "op_verif E opc executing =
    (if executing
     then thn (requireStackItems 1
           ''OP_VERIF and OP_VERNOTIF require at least one item on the stack when they are used!'')
       (bnd popStack (\<lambda>it.
         let v = (length (item_bytes it) = 4 \<and> item_bytes it = version_bytes E)
         in push_condition (if opc = OP_VERNOTIF then \<not> v else v)))
     else push_condition False)"

definition op_if :: "'k spend_env \<Rightarrow> nat \<Rightarrow> bool \<Rightarrow> unit op" where
  "op_if E opc executing =
    (if executing
     then thn (requireStackItems 1
           ''OP_IF and OP_NOTIF require at least one item on the stack when they are used!'')
       (bnd popStack (\<lambda>it.
         let buf = item_bytes it; v = castToBool buf
         in thn (fail_if (hasFlag E ''MINIMALIF'' \<and> enforceNonMalleability E \<and> length buf > 0
                 \<and> \<not> (length buf = 1 \<and> buf ! 0 = 1)) ''OP_IF and OP_NOTIF require minimal truth values.'')
            (push_condition (if opc = OP_NOTIF then \<not> v else v))))
     else push_condition False)"

definition op_else :: "'k spend_env \<Rightarrow> unit op" where
  "op_else E =
    bnd (get sp_ifStack) (\<lambda>ifs. bnd (get sp_elseStack) (\<lambda>els.
     thn (fail_if (ifs = []) ''OP_ELSE requires a preceeding OP_IF.'')
    (thn (fail_if (hasExplicitFlags E \<and> isAfterGenesis E \<and> at els 0 = Some True)
           ''OP_ELSE may only be used once for each OP_IF or OP_NOTIF after Genesis.'')
     flip_condition)))"

definition op_endif :: "unit op" where
  "op_endif = bnd (get sp_ifStack) (\<lambda>ifs.
     thn (fail_if (ifs = []) ''OP_ENDIF requires a preceeding OP_IF.'') pop_condition)"

definition op_verify :: "unit op" where
  "op_verify =
    thn (requireStackItems 1 ''OP_VERIFY requires at least one item to be on the stack.'')
    (bnd (stackTop 1) (\<lambda>it.
     thn (fail_if (\<not> castToBool (item_bytes it)) ''OP_VERIFY requires the top stack value to be truthy.'')
     (bnd popStack (\<lambda>_. ret ()))))"

definition op_return :: "'k spend_env \<Rightarrow> unit op" where
  "op_return E =
    thn (fail_if (hasExplicitFlags E \<and> \<not> isAfterGenesis E) ''OP_RETURN is invalid before Genesis.'')
    (bnd (get sp_ifStack) (\<lambda>ifs. if length ifs > 0 then start_returning else jump_to_end))"

subsection \<open>Stack opcodes\<close>

definition op_toaltstack :: "'k spend_env \<Rightarrow> unit op" where
  "op_toaltstack E =
    thn (requireStackItems 1 ''OP_TOALTSTACK requires at oeast one item to be on the stack.'')
    (bnd popStack (pushAltStack E))"

definition op_fromaltstack :: "'k spend_env \<Rightarrow> unit op" where
  "op_fromaltstack E =
    thn (requireAltStackItems 1 ''OP_FROMALTSTACK requires at least one item to be on the stack.'')
    (bnd popAltStack (pushStack E))"

definition drop_item :: "unit op" where
  "drop_item = bnd popStack (\<lambda>_. ret ())"

definition op_2drop :: "unit op" where
  "op_2drop = thn (requireStackItems 2 ''OP_2DROP requires at least two items to be on the stack.'')
     (thn drop_item drop_item)"

definition op_2dup :: "'k spend_env \<Rightarrow> unit op" where
  "op_2dup E = thn (requireStackItems 2 ''OP_2DUP requires at least two items to be on the stack.'')
    (bnd (stackTop 2) (\<lambda>b1. bnd (stackTop 1) (\<lambda>b2.
     thn (pushStackCopy E (item_bytes b1)) (pushStackCopy E (item_bytes b2)))))"

definition op_3dup :: "'k spend_env \<Rightarrow> unit op" where
  "op_3dup E = thn (requireStackItems 3 ''OP_3DUP requires at least three items to be on the stack.'')
    (bnd (stackTop 3) (\<lambda>b1. bnd (stackTop 2) (\<lambda>b2. bnd (stackTop 1) (\<lambda>b3.
     thn (pushStackCopy E (item_bytes b1))
    (thn (pushStackCopy E (item_bytes b2)) (pushStackCopy E (item_bytes b3)))))))"

definition op_2over :: "'k spend_env \<Rightarrow> unit op" where
  "op_2over E = thn (requireStackItems 4 ''OP_2OVER requires at least four items to be on the stack.'')
    (bnd (stackTop 4) (\<lambda>b1. bnd (stackTop 3) (\<lambda>b2.
     thn (pushStackCopy E (item_bytes b1)) (pushStackCopy E (item_bytes b2)))))"

definition op_2rot :: "'k spend_env \<Rightarrow> unit op" where
  "op_2rot E = thn (requireStackItems 6 ''OP_2ROT requires at least six items to be on the stack.'')
    (bnd popStack (\<lambda>rot6. bnd popStack (\<lambda>rot5. bnd popStack (\<lambda>rot4.
     bnd popStack (\<lambda>rot3. bnd popStack (\<lambda>rot2. bnd popStack (\<lambda>rot1.
     thn (pushStack E rot3) (thn (pushStack E rot4) (thn (pushStack E rot5)
    (thn (pushStack E rot6) (thn (pushStack E rot1) (pushStack E rot2))))))))))))"

definition op_2swap :: "'k spend_env \<Rightarrow> unit op" where
  "op_2swap E = thn (requireStackItems 4 ''OP_2SWAP requires at least four items to be on the stack.'')
    (bnd popStack (\<lambda>swap4. bnd popStack (\<lambda>swap3. bnd popStack (\<lambda>swap2. bnd popStack (\<lambda>swap1.
     thn (pushStack E swap3) (thn (pushStack E swap4) (thn (pushStack E swap1) (pushStack E swap2))))))))"

definition op_ifdup :: "'k spend_env \<Rightarrow> unit op" where
  "op_ifdup E = thn (requireStackItems 1 ''OP_IFDUP requires at least one item to be on the stack.'')
    (bnd (stackTop 1) (\<lambda>b. do_when (castToBool (item_bytes b)) (pushStackCopy E (item_bytes b))))"

definition push_count :: "'k spend_env \<Rightarrow> nat \<Rightarrow> unit op" where
  "push_count E n = pushStack E (fresh (toScriptNum (bn_of_bigint (int n))))"

definition op_depth :: "'k spend_env \<Rightarrow> unit op" where
  "op_depth E = bnd (get sp_stack) (\<lambda>st. push_count E (length st))"

definition op_drop :: "unit op" where
  "op_drop = thn (requireStackItems 1 ''OP_DROP requires at least one item to be on the stack.'') drop_item"

definition op_dup :: "'k spend_env \<Rightarrow> unit op" where
  "op_dup E = thn (requireStackItems 1 ''OP_DUP requires at least one item to be on the stack.'')
    (bnd (stackTop 1) (\<lambda>b. pushStackCopy E (item_bytes b)))"

definition op_nip :: "'k spend_env \<Rightarrow> unit op" where
  "op_nip E = thn (requireStackItems 2 ''OP_NIP requires at least two items to be on the stack.'')
    (bnd popStack (\<lambda>b2. thn drop_item (pushStack E b2)))"

definition op_over :: "'k spend_env \<Rightarrow> unit op" where
  "op_over E = thn (requireStackItems 2 ''OP_OVER requires at least two items to be on the stack.'')
    (bnd (stackTop 2) (\<lambda>b. pushStackCopy E (item_bytes b)))"

definition op_pick_roll :: "'k spend_env \<Rightarrow> nat \<Rightarrow> unit op" where
  "op_pick_roll E opc =
    thn (require_for opc 2 ''two items to be on the stack.'')
    (bnd (pop_number E) (\<lambda>bn. let n = getSignedValue bn in
     bnd (get sp_stack) (\<lambda>st.
     thn (fail_if (n < 0 \<or> n \<ge> int (length st))
       (op_text opc @ '' requires the top stack element to be 0 or a positive number less than the current size of the stack.''))
     (if opc = OP_ROLL then bnd (remove_at (nat n)) (pushStack E)
      else pushStackCopy E (item_bytes (st ! nat n))))))"

definition op_rot :: "'k spend_env \<Rightarrow> unit op" where
  "op_rot E = thn (requireStackItems 3 ''OP_ROT requires at least three items to be on the stack.'')
    (bnd popStack (\<lambda>x3. bnd popStack (\<lambda>x2. bnd popStack (\<lambda>x1.
     thn (pushStack E x2) (thn (pushStack E x3) (pushStack E x1))))))"

definition op_swap :: "'k spend_env \<Rightarrow> unit op" where
  "op_swap E = thn (requireStackItems 2 ''OP_SWAP requires at least two items to be on the stack.'')
    (bnd popStack (\<lambda>x2. bnd popStack (\<lambda>x1. thn (pushStack E x2) (pushStack E x1))))"

definition op_tuck :: "'k spend_env \<Rightarrow> unit op" where
  "op_tuck E = thn (requireStackItems 2 ''OP_TUCK requires at least two items to be on the stack.'')
    (bnd (stackTop 1) (\<lambda>b1.
     thn (ensureStackMem E (item_size b1)) (insert_below_two (item_bytes b1))))"

definition op_size :: "'k spend_env \<Rightarrow> unit op" where
  "op_size E = thn (requireStackItems 1 ''OP_SIZE requires at least one item to be on the stack.'')
    (bnd (stackTop 1) (\<lambda>b. push_count E (item_size b)))"

subsection \<open>Bytes\<close>

definition bitwise_fun :: "nat \<Rightarrow> byte \<Rightarrow> byte \<Rightarrow> byte" where
  "bitwise_fun opc = (if opc = OP_AND then and else if opc = OP_OR then or else xor)"

definition op_bitwise :: "'k spend_env \<Rightarrow> nat \<Rightarrow> unit op" where
  "op_bitwise E opc =
    thn (require_for opc 2 ''two items on the stack.'')
    (bnd popStack (\<lambda>b2. bnd popStack (\<lambda>b1.
     thn (fail_if (item_size b1 \<noteq> item_size b2)
        (op_text opc @ '' requires the top two stack items to be the same size.''))
     (pushStack E (fresh (map2 (bitwise_fun opc) (item_bytes b1) (item_bytes b2)))))))"

definition op_invert :: "'k spend_env \<Rightarrow> unit op" where
  "op_invert E = thn (requireStackItems 1 ''OP_INVERT requires at least one item to be on the stack.'')
    (bnd popStack (\<lambda>b. pushStack E (fresh (map not (item_bytes b)))))"

definition shift_bytes :: "nat \<Rightarrow> bytes \<Rightarrow> nat \<Rightarrow> js_error + bytes" where
  "shift_bytes opc buf n =
    (let bn1 = initArray_be buf
     in case (if opc = OP_LSHIFT
              then case bn_subn 1 (bn_ushln (length buf * 8) (bn_of_bigint 1)) of Inl e \<Rightarrow> Inl e
                   | Inr msk \<Rightarrow> bn_iand (bn_ushln n bn1) msk
              else Inr (bn_ushrn n bn1)) of
          Inl e \<Rightarrow> Inl e
        | Inr shiftedBn \<Rightarrow> bn_toArray False (Some (length buf)) shiftedBn)"

definition op_shift :: "'k spend_env \<Rightarrow> nat \<Rightarrow> unit op" where
  "op_shift E opc =
    thn (require_for opc 2 ''two items to be on the stack.'')
    (bnd (pop_number E) (\<lambda>bn2.
     bnd popStack (\<lambda>it. let buf1 = item_bytes it; shiftBits = getSignedValue bn2 in
     thn (fail_if (shiftBits < 0) (op_text opc @ '' requires the top item on the stack not to be negative.''))
     (if length buf1 = 0 then pushStack E (fresh [])
      else if shiftBits \<ge> int (length buf1) * 8 then pushStack E (fresh (replicate (length buf1) 0))
      else bnd (lift_js (shift_bytes opc buf1 (nat shiftBits))) (\<lambda>r. pushStack E (fresh r))))))"

definition op_equal :: "'k spend_env \<Rightarrow> nat \<Rightarrow> unit op" where
  "op_equal E opc =
    thn (require_for opc 2 ''two items to be on the stack.'')
    (bnd popStack (\<lambda>b2. bnd popStack (\<lambda>b1.
     let v = (item_bytes b1 = item_bytes b2)
     in thn (push_bool E v)
        (do_when (opc = OP_EQUALVERIFY)
          (thn (fail_if (\<not> v) ''OP_EQUALVERIFY requires the top two stack items to be equal.'') drop_item)))))"

subsection \<open>Arithmetic\<close>

abbreviation bn_bool :: "bool \<Rightarrow> big_number" where
  "bn_bool b \<equiv> bn_of_bigint (if b then 1 else 0)"

definition unary_result :: "nat \<Rightarrow> big_number \<Rightarrow> js_error + big_number" where
  "unary_result opc bn =
    (if opc = OP_1ADD then Inr (bn_add bn (bn_of_bigint 1))
     else if opc = OP_1SUB then Inr (bn_sub bn (bn_of_bigint 1))
     else if opc = OP_2MUL then Inr (bn_mul bn (bn_of_bigint 2))
     else if opc = OP_2DIV then bn_div bn (bn_of_bigint 2)
     else if opc = OP_NEGATE then Inr (bn_neg bn)
     else if opc = OP_ABS then Inr (if isNeg bn then bn_neg bn else bn)
     else if opc = OP_NOT then (case bn_cmpn bn 0 of Inl e \<Rightarrow> Inl e | Inr c \<Rightarrow> Inr (bn_bool (c = 0)))
     else if opc = OP_0NOTEQUAL then (case bn_cmpn bn 0 of Inl e \<Rightarrow> Inl e | Inr c \<Rightarrow> Inr (bn_bool (c \<noteq> 0)))
     else Inr bn)"

definition op_unary :: "'k spend_env \<Rightarrow> nat \<Rightarrow> unit op" where
  "op_unary E opc =
    thn (require_for opc 1 ''one item to be on the stack.'')
    (bnd (pop_number E) (\<lambda>bn.
     bnd (lift_js (unary_result opc bn)) (\<lambda>r. pushStack E (fresh (toScriptNum r)))))"

definition predicted_length :: "nat \<Rightarrow> big_number \<Rightarrow> big_number \<Rightarrow> nat" where
  "predicted_length opc bn1 bn2 =
    (if opc = OP_MUL then byteLength bn1 + byteLength bn2
     else if opc = OP_ADD \<or> opc = OP_SUB then max (byteLength bn1) (byteLength bn2) + 1
     else max (byteLength bn1) (byteLength bn2))"

text \<open>\<open>cmpn(0) !== 0\<close>; the argument is within the range \<open>cmpn\<close> accepts.\<close>

definition nonzero :: "big_number \<Rightarrow> bool" where
  "nonzero bn \<longleftrightarrow> bn_cmpn bn 0 \<noteq> Inr 0"

definition binary_result :: "nat \<Rightarrow> big_number \<Rightarrow> big_number \<Rightarrow> spend_error + big_number" where
  "binary_result opc bn1 bn2 =
    (if opc = OP_ADD then Inr (bn_add bn1 bn2)
     else if opc = OP_SUB then Inr (bn_sub bn1 bn2)
     else if opc = OP_MUL then Inr (bn_mul bn1 bn2)
     else if opc = OP_DIV then
       (if \<not> nonzero bn2 then Inl (ScriptEvaluation ''OP_DIV cannot divide by zero!'')
        else case bn_div bn1 bn2 of Inl e \<Rightarrow> Inl (Thrown e) | Inr r \<Rightarrow> Inr r)
     else if opc = OP_MOD then
       (if \<not> nonzero bn2 then Inl (ScriptEvaluation ''OP_MOD cannot divide by zero!'')
        else case bn_mod bn1 bn2 of Inl e \<Rightarrow> Inl (Thrown e) | Inr r \<Rightarrow> Inr r)
     else if opc = OP_BOOLAND then Inr (bn_bool (nonzero bn1 \<and> nonzero bn2))
     else if opc = OP_BOOLOR then Inr (bn_bool (nonzero bn1 \<or> nonzero bn2))
     else if opc = OP_NUMEQUAL \<or> opc = OP_NUMEQUALVERIFY then Inr (bn_bool (bn_cmp bn1 bn2 = 0))
     else if opc = OP_NUMNOTEQUAL then Inr (bn_bool (bn_cmp bn1 bn2 \<noteq> 0))
     else if opc = OP_LESSTHAN then Inr (bn_bool (bn_cmp bn1 bn2 < 0))
     else if opc = OP_GREATERTHAN then Inr (bn_bool (bn_cmp bn1 bn2 > 0))
     else if opc = OP_LESSTHANOREQUAL then Inr (bn_bool (bn_cmp bn1 bn2 \<le> 0))
     else if opc = OP_GREATERTHANOREQUAL then Inr (bn_bool (bn_cmp bn1 bn2 \<ge> 0))
     else if opc = OP_MIN then Inr (if bn_cmp bn1 bn2 < 0 then bn1 else bn2)
     else if opc = OP_MAX then Inr (if bn_cmp bn1 bn2 > 0 then bn1 else bn2)
     else Inr (bn_of_bigint 0))"

definition op_binary :: "'k spend_env \<Rightarrow> nat \<Rightarrow> unit op" where
  "op_binary E opc =
    thn (require_for opc 2 ''two items to be on the stack.'')
    (bnd popStack (\<lambda>b2. bnd popStack (\<lambda>b1.
     bnd (readScriptNumber E (item_bytes b2)) (\<lambda>bn2.
     bnd (readScriptNumber E (item_bytes b1)) (\<lambda>bn1.
     thn (ensureStackMem E (predicted_length opc bn1 bn2))
     (bnd (lift_result (binary_result opc bn1 bn2)) (\<lambda>r.
     thn (pushStack E (fresh (toScriptNum r)))
     (do_when (opc = OP_NUMEQUALVERIFY)
       (bnd (stackTop 1) (\<lambda>t.
        thn (fail_if (\<not> castToBool (item_bytes t))
              ''OP_NUMEQUALVERIFY requires the top stack item to be truthy.'') drop_item))))))))))"

definition op_within :: "'k spend_env \<Rightarrow> unit op" where
  "op_within E =
    thn (requireStackItems 3 ''OP_WITHIN requires at least three items to be on the stack.'')
    (bnd (pop_number E) (\<lambda>bn3. bnd (pop_number E) (\<lambda>bn2. bnd (pop_number E) (\<lambda>bn1.
     push_bool E (bn_cmp bn1 bn2 \<ge> 0 \<and> bn_cmp bn1 bn3 < 0)))))"

subsection \<open>Hashes and signatures\<close>

definition hash_result :: "'k spend_env \<Rightarrow> nat \<Rightarrow> bytes \<Rightarrow> bytes" where
  "hash_result E opc buf =
    (if opc = OP_RIPEMD160 then e_ripemd160 E buf
     else if opc = OP_SHA1 then e_sha1 E buf
     else if opc = OP_SHA256 then e_sha256 E buf
     else if opc = OP_HASH160 then e_hash160 E buf
     else if opc = OP_HASH256 then e_hash256 E buf
     else [])"

definition op_hash :: "'k spend_env \<Rightarrow> nat \<Rightarrow> unit op" where
  "op_hash E opc =
    thn (require_for opc 1 ''one item to be on the stack.'')
    (bnd popStack (\<lambda>it. pushStack E (fresh (hash_result E opc (item_bytes it)))))"

text \<open>The chunks behind the last separator; from the unlocking script on into the locking script.\<close>

definition chunks_from_separator :: "spend \<Rightarrow> script_chunk list" where
  "chunks_from_separator s =
    drop (case sp_lastCodeSeparator s of None \<Rightarrow> 0 | Some n \<Rightarrow> n + 1) (current_chunks s)"

definition checksig_chunks :: "spend \<Rightarrow> script_chunk list" where
  "checksig_chunks s =
    (if sp_context s = UnlockingScript then chunks_from_separator s @ chunks_of (sp_locking s)
     else chunks_from_separator s)"

definition checksig_subscript :: "'k spend_env \<Rightarrow> tx_signature \<Rightarrow> bytes \<Rightarrow> spend \<Rightarrow> js_error + script" where
  "checksig_subscript E sig bufSig s =
    (let sub = new_script (checksig_chunks s)
     in if and (sig_scope sig) SIGHASH_FORKID = 0 \<or> hasExplicitFlags E \<and> \<not> hasFlag E ''SIGHASH_FORKID''
        then delete_signature bufSig sub else Inr sub)"

text \<open>The body of the \<open>try\<close> block of OP_CHECKSIG.\<close>

definition checksig_body :: "'k spend_env \<Rightarrow> bytes \<Rightarrow> bytes \<Rightarrow> bool op" where
  "checksig_body E bufSig bufPubkey =
    bnd (lift_js (parseChecksigSignature E bufSig)) (\<lambda>sig.
    bnd (get (checksig_subscript E sig bufSig)) (\<lambda>r.
    bnd (lift_js r) (\<lambda>sub.
    bnd (lift_js (e_publicKey E bufPubkey)) (\<lambda>pubkey.
    bnd (lift_js (script_bytes sub)) (\<lambda>b.
    verifySignature E sig pubkey b)))))"

definition op_checksig :: "'k spend_env \<Rightarrow> nat \<Rightarrow> unit op" where
  "op_checksig E opc =
    thn (require_for opc 2 ''two items to be on the stack.'')
    (bnd popStack (\<lambda>pk. bnd popStack (\<lambda>sg.
     let bufPubkey = item_bytes pk; bufSig = item_bytes sg in
     thn (lift_result (checkSignatureEncoding E bufSig))
    (thn (lift_result (checkPublicKeyEncoding E bufPubkey))
    (bnd (if length bufSig = 0 then ret False else attempt False (checksig_body E bufSig bufPubkey)) (\<lambda>ok.
     thn (fail_if (\<not> ok \<and> hasFlag E ''NULLFAIL'' \<and> enforceNonMalleability E \<and> length bufSig > 0)
           (op_text opc @ '' requires failing signatures to be empty.''))
    (thn (push_bool E ok)
     (do_when (opc = OP_CHECKSIGVERIFY)
       (thn (fail_if (\<not> ok) ''OP_CHECKSIGVERIFY requires that a valid signature is provided.'')
        drop_item))))))))) "

text \<open>The first loop of OP_CHECKMULTISIG: the signatures that are deleted from the subscript.\<close>

fun delete_signatures :: "'k spend_env \<Rightarrow> bytes list \<Rightarrow> script \<Rightarrow> js_error + script" where
  "delete_signatures E [] sub = Inr sub"
| "delete_signatures E (sig # sigs) sub =
    (if (sig = [] \<or> and (unat (last sig)) SIGHASH_FORKID = 0)
        \<or> hasExplicitFlags E \<and> \<not> hasFlag E ''SIGHASH_FORKID''
     then (case delete_signature sig sub of Inl e \<Rightarrow> Inl e | Inr sub' \<Rightarrow> delete_signatures E sigs sub')
     else delete_signatures E sigs sub)"

text \<open>Its second loop: the remaining keys count down, a signature is consumed when its key matches.\<close>

definition multisig_try :: "'k spend_env \<Rightarrow> script \<Rightarrow> bytes \<Rightarrow> bytes \<Rightarrow> bool op" where
  "multisig_try E sub bufSig bufPubkey =
    (if length bufSig > 0
     then attempt False
       (bnd (lift_js (parseChecksigSignature E bufSig)) (\<lambda>sig.
        bnd (lift_js (e_publicKey E bufPubkey)) (\<lambda>pubkey.
        bnd (lift_js (script_bytes sub)) (\<lambda>b.
        verifySignature E sig pubkey b))))
     else ret False)"

fun multisig_loop :: "'k spend_env \<Rightarrow> script \<Rightarrow> nat \<Rightarrow> nat \<Rightarrow> nat \<Rightarrow> nat \<Rightarrow> bool op" where
  "multisig_loop E sub isig ikey nSigs 0 = ret (nSigs = 0)"
| "multisig_loop E sub isig ikey nSigs (Suc nKeys) =
    (if nSigs = 0 then ret True
     else bnd (stackTop isig) (\<lambda>sg. bnd (stackTop ikey) (\<lambda>pk.
      thn (lift_result (checkSignatureEncoding E (item_bytes sg)))
     (thn (lift_result (checkPublicKeyEncoding E (item_bytes pk)))
     (bnd (multisig_try E sub (item_bytes sg) (item_bytes pk)) (\<lambda>ok.
      let nSigs' = (if ok then nSigs - 1 else nSigs)
      in if nSigs' > nKeys then ret False
         else multisig_loop E sub (if ok then isig + 1 else isig) (ikey + 1) nSigs' nKeys))))))"

primrec drop_items :: "nat \<Rightarrow> unit op" where
  "drop_items 0 = ret ()"
| "drop_items (Suc n) = thn drop_item (drop_items n)"

definition multisig_limit :: "'k spend_env \<Rightarrow> int" where
  "multisig_limit E = (if hasExplicitFlags E \<and> \<not> isAfterGenesis E then 20 else 2 ^ 31 - 1)"

text \<open>What remains after the loops: the checks on failure, the operands, the dummy and the result.\<close>

definition multisig_finish :: "'k spend_env \<Rightarrow> nat \<Rightarrow> nat \<Rightarrow> nat \<Rightarrow> bool \<Rightarrow> bool \<Rightarrow> unit op" where
  "multisig_finish E opc declaredKeyCount declaredSigCount hasNonEmptySignature ok =
    thn (fail_if (\<not> ok \<and> hasFlag E ''NULLFAIL'' \<and> enforceNonMalleability E \<and> hasNonEmptySignature)
          (op_text opc @ '' requires failing signatures to be empty.''))
   (thn (drop_items (1 + declaredKeyCount + 1 + declaredSigCount))
   (thn (requireStackItems 1 (op_text opc @ '' requires an extra item (dummy) to be on the stack.''))
   (bnd popStack (\<lambda>dummy.
    thn (fail_if (shouldEnforceNullDummy E \<and> item_size dummy > 0)
          (op_text opc @ '' requires the extra stack item (dummy) to be empty.''))
   (thn (push_bool E ok)
    (do_when (opc = OP_CHECKMULTISIGVERIFY)
      (thn (fail_if (\<not> ok) ''OP_CHECKMULTISIGVERIFY requires that a sufficient number of valid signatures are provided.'')
       drop_item)))))))"

definition op_checkmultisig :: "'k spend_env \<Rightarrow> nat \<Rightarrow> unit op" where
  "op_checkmultisig E opc =
    thn (require_for opc 1 ''1 item for nKeys.'')
   (bnd (stackTop 1) (\<lambda>nk.
    bnd (readScriptNumber E (item_bytes nk)) (\<lambda>nKeysBn.
    thn (fail_if (getSignedValue nKeysBn < 0 \<or> getSignedValue nKeysBn > multisig_limit E)
          (op_text opc @ '' requires a key count between 0 and '' @ decimal (multisig_limit E) @ ''.''))
   (let nKeys = nat (getSignedValue nKeysBn); i = 2 + nKeys in
    bnd (get sp_stack) (\<lambda>st.
    thn (fail_if (length st < i)
          (op_text opc @ '' stack too small for nKeys and keys. Need '' @ decimal (int i)
            @ '', have '' @ decimal (int (length st)) @ ''.''))
   (bnd (stackTop i) (\<lambda>ns.
    bnd (readScriptNumber E (item_bytes ns)) (\<lambda>nSigsBn.
    thn (fail_if (getSignedValue nSigsBn < 0 \<or> getSignedValue nSigsBn > int nKeys)
          (op_text opc @ '' requires the number of signatures to be no greater than the number of keys.''))
   (let nSigs = nat (getSignedValue nSigsBn); isig = i + 1; j = isig + nSigs;
        sigs = map item_bytes (take nSigs (drop (isig - 1) st)) in
    thn (fail_if (length st < j)
          (op_text opc @ '' stack too small for N, keys, M, sigs, and dummy. Need '' @ decimal (int j)
            @ '', have '' @ decimal (int (length st)) @ ''.''))
   (bnd (get (\<lambda>s. delete_signatures E sigs (new_script (chunks_from_separator s)))) (\<lambda>r.
    bnd (lift_js r) (\<lambda>sub.
    bnd (multisig_loop E sub isig 2 nSigs nKeys) (\<lambda>ok.
    multisig_finish E opc nKeys nSigs (\<exists>sig \<in> set sigs. sig \<noteq> []) ok)))))))))))))"

subsection \<open>Concatenation and conversions\<close>

definition op_cat :: "'k spend_env \<Rightarrow> unit op" where
  "op_cat E = thn (requireStackItems 2 ''OP_CAT requires at least two items to be on the stack.'')
    (bnd popStack (\<lambda>b2. bnd popStack (\<lambda>b1.
     let r = item_bytes b1 @ item_bytes b2
     in thn (fail_if (above_limit (int (length r)) (maxPushSize E))
          (''It's not currently possible to push data larger than '' @ limit_text (maxPushSize E) @ '' bytes.''))
        (pushStack E (fresh r)))))"

definition op_split :: "'k spend_env \<Rightarrow> unit op" where
  "op_split E = thn (requireStackItems 2 ''OP_SPLIT requires at least two items to be on the stack.'')
    (bnd popStack (\<lambda>posBuf. bnd popStack (\<lambda>it. let d = item_bytes it in
     bnd (readScriptNumber E (item_bytes posBuf)) (\<lambda>bn. let n = getSignedValue bn in
     thn (fail_if (n < 0 \<or> n > 2 ^ 31 - 1 \<or> n > int (length d))
       ''OP_SPLIT requires the first stack item to be a non-negative number no greater than INT32_MAX and less than or equal to the size of the second-from-top stack item.'')
    (thn (pushStack E (fresh (take (nat n) d))) (pushStack E (fresh (drop (nat n) d))))))))"

text \<open>The padding of OP_NUM2BIN: the bytes without the sign bit, zeros, the sign bit at the end.\<close>

definition pad_number :: "bytes \<Rightarrow> nat \<Rightarrow> bytes" where
  "pad_number rawnum sz =
    (let signbit = (if rawnum = [] then 0 else and (last rawnum) 0x80);
         cleared = (if rawnum = [] then [] else butlast rawnum @ [and (last rawnum) 0x7f]);
         r = cleared @ replicate (sz - length cleared) 0
     in if signbit \<noteq> 0 then butlast r @ [or (last r) 0x80] else r)"

text \<open>
  \<open>rawnum[rawnum.length - 1] &= 0x7f\<close> changes the array \<open>minimallyEncode\<close> returned, which is the
  popped one when it was minimal already.
\<close>

definition op_num2bin :: "'k spend_env \<Rightarrow> unit op" where
  "op_num2bin E = thn (requireStackItems 2 ''OP_NUM2BIN requires at least two items to be on the stack.'')
    (bnd (pop_number E) (\<lambda>bn. let n = getSignedValue bn in
     thn (fail_if (above_limit n (maxPushSize E) \<or> n < 0)
       (''It's not currently possible to push data larger than '' @ limit_text (maxPushSize E)
         @ '' bytes or negative size.''))
    (thn (fail_if (n > 0x7fffffff) ''OP_NUM2BIN size exceeds the node int32 push limit.'')
    (thn (case e_memoryLimit E of None \<Rightarrow> ret ()
          | Some m \<Rightarrow> throw_if (n > int m) (ResourceLimit ''element-size'' m n))
    (bnd popStack (\<lambda>it0. bnd (minimal_item it0) (\<lambda>it. let rawnum = item_bytes it; size = nat n in
     thn (fail_if (length rawnum > size)
       ''OP_NUM2BIN requires that the size expressed in the top stack item is large enough to hold the value expressed in the second-from-top stack item.'')
     (if length rawnum = size then pushStack E it
      else thn (if length rawnum > 0 then write_through it (butlast rawnum @ [and (last rawnum) 0x7f]) else ret ())
             (pushStack E (fresh (pad_number rawnum size))))))))))) "

definition op_bin2num :: "'k spend_env \<Rightarrow> unit op" where
  "op_bin2num E = thn (requireStackItems 1 ''OP_BIN2NUM requires at least one item to be on the stack.'')
    (bnd popStack (\<lambda>it0. bnd (minimal_item it0) (\<lambda>it.
     thn (fail_if (\<not> isMinimallyEncodedHelper max_safe_integer (item_bytes it))
       ''OP_BIN2NUM requires that the resulting number is valid.'')
     (pushStack E it))))"

subsection \<open>The switch\<close>

definition splice_shift_opcodes :: "'k spend_env \<Rightarrow> nat \<Rightarrow> unit op option" where
  "splice_shift_opcodes E opc =
    (if opc = OP_VER then Some (op_ver E)
     else if opc = OP_SUBSTR then Some (op_substr E)
     else if opc = OP_LEFT then Some (op_left E)
     else if opc = OP_RIGHT then Some (op_right E)
     else if opc = OP_LSHIFTNUM then Some (op_lshiftnum E)
     else if opc = OP_RSHIFTNUM then Some (op_rshiftnum E)
     else if opc = OP_1NEGATE then Some (push_small E (-1))
     else if opc = OP_0 then Some (push_small E 0)
     else if OP_1 \<le> opc \<and> opc \<le> OP_16 then Some (push_small E (int (opc - (OP_1 - 1))))
     else None)"

definition control_opcodes :: "'k spend_env \<Rightarrow> nat \<Rightarrow> bool \<Rightarrow> unit op option" where
  "control_opcodes E opc executing =
    (if opc = OP_NOP \<or> opc = OP_NOP1 \<or> opc = OP_NOP9 \<or> opc = OP_NOP10 then Some (ret ())
     else if opc = OP_CHECKLOCKTIMEVERIFY then Some (verifyCheckLockTime E)
     else if opc = OP_CHECKSEQUENCEVERIFY then Some (verifyCheckSequence E)
     else if opc = OP_VERIF \<or> opc = OP_VERNOTIF then Some (op_verif E opc executing)
     else if opc = OP_IF \<or> opc = OP_NOTIF then Some (op_if E opc executing)
     else if opc = OP_ELSE then Some (op_else E)
     else if opc = OP_ENDIF then Some op_endif
     else if opc = OP_VERIFY then Some op_verify
     else if opc = OP_RETURN then Some (op_return E)
     else None)"

definition stack_opcodes :: "'k spend_env \<Rightarrow> nat \<Rightarrow> unit op option" where
  "stack_opcodes E opc =
    (if opc = OP_TOALTSTACK then Some (op_toaltstack E)
     else if opc = OP_FROMALTSTACK then Some (op_fromaltstack E)
     else if opc = OP_2DROP then Some op_2drop
     else if opc = OP_2DUP then Some (op_2dup E)
     else if opc = OP_3DUP then Some (op_3dup E)
     else if opc = OP_2OVER then Some (op_2over E)
     else if opc = OP_2ROT then Some (op_2rot E)
     else if opc = OP_2SWAP then Some (op_2swap E)
     else if opc = OP_IFDUP then Some (op_ifdup E)
     else if opc = OP_DEPTH then Some (op_depth E)
     else if opc = OP_DROP then Some op_drop
     else if opc = OP_DUP then Some (op_dup E)
     else if opc = OP_NIP then Some (op_nip E)
     else if opc = OP_OVER then Some (op_over E)
     else if opc = OP_PICK \<or> opc = OP_ROLL then Some (op_pick_roll E opc)
     else if opc = OP_ROT then Some (op_rot E)
     else if opc = OP_SWAP then Some (op_swap E)
     else if opc = OP_TUCK then Some (op_tuck E)
     else if opc = OP_SIZE then Some (op_size E)
     else None)"

definition data_opcodes :: "'k spend_env \<Rightarrow> nat \<Rightarrow> unit op option" where
  "data_opcodes E opc =
    (if opc = OP_AND \<or> opc = OP_OR \<or> opc = OP_XOR then Some (op_bitwise E opc)
     else if opc = OP_INVERT then Some (op_invert E)
     else if opc = OP_LSHIFT \<or> opc = OP_RSHIFT then Some (op_shift E opc)
     else if opc = OP_EQUAL \<or> opc = OP_EQUALVERIFY then Some (op_equal E opc)
     else if OP_1ADD \<le> opc \<and> opc \<le> OP_0NOTEQUAL then Some (op_unary E opc)
     else if OP_ADD \<le> opc \<and> opc \<le> OP_MOD \<or> OP_BOOLAND \<le> opc \<and> opc \<le> OP_MAX then Some (op_binary E opc)
     else if opc = OP_WITHIN then Some (op_within E)
     else if opc = OP_CAT then Some (op_cat E)
     else if opc = OP_SPLIT then Some (op_split E)
     else if opc = OP_NUM2BIN then Some (op_num2bin E)
     else if opc = OP_BIN2NUM then Some (op_bin2num E)
     else None)"

definition crypto_opcodes :: "'k spend_env \<Rightarrow> nat \<Rightarrow> unit op option" where
  "crypto_opcodes E opc =
    (if OP_RIPEMD160 \<le> opc \<and> opc \<le> OP_HASH256 then Some (op_hash E opc)
     else if opc = OP_CODESEPARATOR then Some mark_separator
     else if opc = OP_CHECKSIG \<or> opc = OP_CHECKSIGVERIFY then Some (op_checksig E opc)
     else if opc = OP_CHECKMULTISIG \<or> opc = OP_CHECKMULTISIGVERIFY then Some (op_checkmultisig E opc)
     else None)"

definition execute_opcode :: "'k spend_env \<Rightarrow> nat \<Rightarrow> bool \<Rightarrow> unit op" where
  "execute_opcode E opc executing =
    (case splice_shift_opcodes E opc of Some m \<Rightarrow> m | None \<Rightarrow>
     (case control_opcodes E opc executing of Some m \<Rightarrow> m | None \<Rightarrow>
     (case stack_opcodes E opc of Some m \<Rightarrow> m | None \<Rightarrow>
     (case data_opcodes E opc of Some m \<Rightarrow> m | None \<Rightarrow>
     (case crypto_opcodes E opc of Some m \<Rightarrow> m | None \<Rightarrow>
      bnd (get sp_pc) (\<lambda>pc. fail (''Invalid opcode '' @ decimal (int opc) @ '' (pc='' @ decimal (int pc) @ '').'')))))))"

end
