(* ===== verification/Spend_Run.thy ===== *)
theory Spend_Run
  imports Spend_Ops
begin

text \<open>
  The interpreter's step and its drivers, \<open>packages/sdk/src/script/Spend.ts\<close>: \<open>step\<close> with its
  guards, \<open>#runScript\<close>, \<open>validateJavaScript\<close> and \<open>validate\<close>. The loop of \<open>#runScript\<close> is a
  total function: a locale shows once that whatever every stack primitive keeps, every opcode keeps,
  and the instance for the program counter and the script lengths gives the progress of a step.
\<close>

subsection \<open>The step\<close>

definition enforceStepResourceLimits :: "'k spend_env \<Rightarrow> unit op" where
  "enforceStepResourceLimits E = (\<lambda>s.
     case e_memoryLimit E of
       None \<Rightarrow> (Inr (), s)
     | Some m \<Rightarrow>
         if sp_stackMem s > int m then (Inl (ResourceLimit ''stack'' m (sp_stackMem s)), s)
         else if sp_altStackMem s > int m then (Inl (ResourceLimit ''alt-stack'' m (sp_altStackMem s)), s)
         else (Inr (), s))"

text \<open>At the end of the unlocking script, the step goes on with the locking script.\<close>

definition enter_locking :: "spend \<Rightarrow> spend" where
  "enter_locking s = (clearAltStack s)\<lparr>sp_ifStack := [], sp_elseStack := [], sp_returning := False,
     sp_lastCodeSeparator := None, sp_context := LockingScript, sp_pc := 0\<rparr>"

definition currentScriptForStep :: "unit op" where
  "currentScriptForStep = (\<lambda>s.
     if sp_context s = UnlockingScript \<and> sp_pc s \<ge> length (chunks_of (sp_unlocking s))
     then if length (sp_ifStack s) > 0
          then (Inl (ScriptEvaluation ''Every OP_IF, OP_NOTIF, or OP_ELSE must be terminated with OP_ENDIF prior to the end of the unlocking script.''), s)
          else (Inr (), enter_locking s)
     else (Inr (), s))"

definition at_position :: "spend \<Rightarrow> string" where
  "at_position s = '' in '' @ ctx_text (sp_context s) @ '' at pc='' @ decimal (int (sp_pc s)) @ ''.''"

definition opcodeForOperation :: "'k spend_env \<Rightarrow> script_chunk \<Rightarrow> nat op" where
  "opcodeForOperation E chunk =
     bnd (get at_position) (\<lambda>pos1. bnd (get sp_pc) (\<lambda>pc.
      thn (fail_if (invalidLength chunk) (''Malformed push data'' @ pos1))
     (thn (fail_if (case chunk_data chunk of None \<Rightarrow> False | Some d \<Rightarrow> above_limit (int (length d)) (maxPushSize E))
            (''Data push > '' @ limit_text (maxPushSize E) @ '' bytes (pc='' @ decimal (int pc) @ '').''))
      (ret (chunk_op chunk)))))"

definition isScriptExecuting :: "spend \<Rightarrow> bool" where
  "isScriptExecuting s \<longleftrightarrow> \<not> sp_returning s \<and> False \<notin> set (sp_ifStack s)"

definition enforceChronicleOnlyOpcode :: "'k spend_env \<Rightarrow> nat \<Rightarrow> unit op" where
  "enforceChronicleOnlyOpcode E opc =
     fail_if (hasExplicitFlags E \<and> \<not> isAfterGenesis E \<and> \<not> isAfterChronicle E
         \<and> (opc = OP_2MUL \<or> opc = OP_2DIV \<or> opc = OP_VERIF \<or> opc = OP_VERNOTIF))
       (op_text opc @ '' is disabled until Chronicle.'')"

text \<open>The array pushed is the chunk's own.\<close>

definition executeDataPush :: "'k spend_env \<Rightarrow> script_chunk \<Rightarrow> unit op" where
  "executeDataPush E chunk =
     bnd (get (\<lambda>s. (sp_context s, sp_pc s))) (\<lambda>here.
      thn (fail_if (shouldEnforceMinimalData E \<and> \<not> isChunkMinimalPushHelper chunk)
            (''This data is not minimally-encoded. (PC: '' @ decimal (int (snd here)) @ '')''))
      (pushStack E (case chunk_data chunk of None \<Rightarrow> fresh [] | Some d \<Rightarrow> Item d (Some here))))"

definition countExecutedOpcode :: "'k spend_env \<Rightarrow> nat \<Rightarrow> bool \<Rightarrow> unit op" where
  "countExecutedOpcode E opc executing =
     (if \<not> executing \<or> opc \<le> OP_16 then ret ()
      else thn (modify (\<lambda>s. s\<lparr>sp_executedOpCount := sp_executedOpCount s + 1\<rparr>))
       (bnd (get sp_executedOpCount) (\<lambda>n.
         fail_if (hasExplicitFlags E \<and> \<not> isAfterGenesis E \<and> n > 500) ''Script executed more than 500 opcodes.'')))"

text \<open>The result says whether the step is over; then the program counter has moved.\<close>

definition next_pc :: "unit op" where
  "next_pc = modify (\<lambda>s. s\<lparr>sp_pc := sp_pc s + 1\<rparr>)"

definition skipUnavailablePreChronicleOpcode :: "'k spend_env \<Rightarrow> nat \<Rightarrow> bool \<Rightarrow> bool op" where
  "skipUnavailablePreChronicleOpcode E opc executing =
    (if \<not> hasExplicitFlags E \<or> isAfterChronicle E then ret False
     else if executing \<and> opc \<in> {OP_SUBSTR, OP_LEFT, OP_RIGHT, OP_LSHIFTNUM, OP_RSHIFTNUM}
     then thn (fail_if (hasFlag E ''DISCOURAGE_UPGRADABLE_NOPS'')
                (op_text opc @ '' is discouraged by verification flags.''))
          (thn next_pc (ret True))
     else thn (fail_if ((executing \<or> \<not> isAfterGenesis E)
                 \<and> opc \<in> {OP_2MUL, OP_2DIV, OP_VER, OP_VERIF, OP_VERNOTIF})
                (op_text opc @ '' is disabled until Chronicle.''))
          (if \<not> executing \<and> isAfterGenesis E \<and> opc \<in> {OP_VERIF, OP_VERNOTIF}
           then thn next_pc (ret True) else ret False))"

definition enforceDiscouragedNop :: "'k spend_env \<Rightarrow> nat \<Rightarrow> bool \<Rightarrow> unit op" where
  "enforceDiscouragedNop E opc executing =
    (let inactiveLocktime = (opc = OP_CHECKLOCKTIMEVERIFY
           \<and> (\<not> hasFlag E ''CHECKLOCKTIMEVERIFY'' \<or> isAfterGenesis E));
         inactiveSequence = (opc = OP_CHECKSEQUENCEVERIFY
           \<and> (\<not> hasFlag E ''CHECKSEQUENCEVERIFY'' \<or> isAfterGenesis E))
     in fail_if (executing \<and> hasFlag E ''DISCOURAGE_UPGRADABLE_NOPS''
           \<and> (opc = OP_NOP1 \<or> inactiveLocktime \<or> inactiveSequence \<or> opc = OP_NOP9 \<or> opc = OP_NOP10))
         (op_text opc @ '' is discouraged by verification flags.''))"

definition move_pc :: "unit op" where
  "move_pc = modify (\<lambda>s. if sp_returning s \<and> length (sp_ifStack s) = 0
      then s\<lparr>sp_pc := length (current_chunks s)\<rparr> else s\<lparr>sp_pc := sp_pc s + 1\<rparr>)"

definition enforce_item_count :: "'k spend_env \<Rightarrow> unit op" where
  "enforce_item_count E = bnd (get (\<lambda>s. length (sp_stack s) + length (sp_altStack s))) (\<lambda>n.
     fail_if (hasExplicitFlags E \<and> \<not> isAfterGenesis E \<and> n > 1000) ''Stack item count has exceeded 1000.'')"

definition advanceAfterStep :: "'k spend_env \<Rightarrow> bool op" where
  "advanceAfterStep E = thn move_pc (thn (enforce_item_count E) (ret True))"

definition execute_chunk :: "'k spend_env \<Rightarrow> script_chunk \<Rightarrow> bool op" where
  "execute_chunk E chunk =
    bnd (opcodeForOperation E chunk) (\<lambda>opc.
    bnd (get isScriptExecuting) (\<lambda>executing.
    thn (enforceChronicleOnlyOpcode E opc)
    (if executing \<and> opc \<le> OP_PUSHDATA4 then thn (executeDataPush E chunk) (advanceAfterStep E)
     else if executing \<or> OP_IF \<le> opc \<and> opc \<le> OP_ENDIF then
       thn (countExecutedOpcode E opc executing)
      (bnd (skipUnavailablePreChronicleOpcode E opc executing) (\<lambda>skipped.
        if skipped then ret True
        else thn (enforceDiscouragedNop E opc executing)
            (thn (execute_opcode E opc executing) (advanceAfterStep E))))
     else advanceAfterStep E)))"

definition step :: "'k spend_env \<Rightarrow> bool op" where
  "step E = thn (enforceStepResourceLimits E) (thn currentScriptForStep
     (bnd (get (\<lambda>s. at (current_chunks s) (sp_pc s))) (\<lambda>chunk.
        case chunk of None \<Rightarrow> ret False | Some c \<Rightarrow> execute_chunk E c)))"

subsection \<open>What every primitive keeps, every opcode keeps\<close>

lemma keeps_fail [keeps_intros]: "keeps I (fail m)"
  by (simp add: fail_def keeps_throw)

lemma keeps_fail_if [keeps_intros]: "keeps I (fail_if b m)"
  by (simp add: fail_if_def keeps_throw_if)

lemma keeps_lift_js [keeps_intros]: "keeps I (lift_js r)"
  by (simp add: lift_js_def keeps_lift_result)

lemma keeps_ensure [keeps_intros]: "keeps I (ensureStackMem E n)" "keeps I (ensureAltStackMem E n)"
  by (auto simp: keeps_def ensureStackMem_def ensureAltStackMem_def split: option.split)

lemma keeps_stackTop [keeps_intros]: "keeps I (stackTop k)"
  by (simp add: keeps_def stackTop_def)

lemma keeps_requireStackItems [keeps_intros]:
  "keeps I (requireStackItems n m)" "keeps I (requireAltStackItems n m)" "keeps I (require_for opc n m)"
  unfolding requireStackItems_def requireAltStackItems_def require_for_def by (intro keeps_intros)+

lemma keeps_readScriptNumber [keeps_intros]:
  "keeps I (readScriptNumber E b)" "keeps I (readLockTimeOperand E b)" "keeps I (readSpliceOperand E b)"
  unfolding readScriptNumber_def readLockTimeOperand_def readSpliceOperand_def Let_def
  by (auto split: sum.split intro!: keeps_intros)

lemma keeps_attempt [keeps_intros]: "keeps I m \<Longrightarrow> keeps I (attempt d m)"
  by (auto simp: keeps_def attempt_def split: prod.split sum.split)

locale stack_invariant =
  fixes E :: "'k spend_env" and I :: "spend \<Rightarrow> bool"
  assumes push: "keeps I (pushStack E it)"
    and pop: "keeps I popStack"
    and remove: "keeps I (remove_at n)"
    and insert_copy: "keeps I (thn (ensureStackMem E (length b)) (insert_below_two b))"
    and push_alt: "keeps I (pushAltStack E it)"
    and pop_alt: "keeps I popAltStack"
    and conditions: "keeps I (push_condition c)" "keeps I flip_condition" "keeps I pop_condition"
    and fields: "keeps I start_returning" "keeps I jump_to_end" "keeps I mark_separator"
    and through: "keeps I (write_through it d)"
    and cached: "keeps I (with_sighash_cache (m :: bytes cached))"
begin

lemmas primitives = push pop remove insert_copy push_alt pop_alt conditions fields through cached

lemma derived [keeps_intros]:
  "keeps I (push_bool E b)" "keeps I (pop_number E)" "keeps I (pop_splice E)" "keeps I (pushStackCopy E x)"
  "keeps I drop_item" "keeps I (push_count E n)" "keeps I (push_small E i)" "keeps I (minimal_item it)"
  unfolding push_bool_def pop_number_def pop_splice_def pushStackCopy_def drop_item_def push_count_def
    push_small_def minimal_item_def
  by (auto split: option.split prod.split intro!: keeps_intros primitives)

lemma verify_signature [keeps_intros]: "keeps I (verifySignature E sig pk b)"
  unfolding verifySignature_def Let_def by (intro keeps_intros primitives)

lemma splices: "keeps I (op_ver E)" "keeps I (op_substr E)" "keeps I (op_left E)" "keeps I (op_right E)"
    "keeps I (op_lshiftnum E)" "keeps I (op_rshiftnum E)"
  unfolding op_ver_def op_substr_def op_left_def op_right_def op_lshiftnum_def op_rshiftnum_def Let_def
  by (intro keeps_intros primitives)+

lemma locktimes: "keeps I (verifyCheckLockTime E)" "keeps I (verifyCheckSequence E)"
  unfolding verifyCheckLockTime_def verifyCheckSequence_def Let_def by (intro keeps_intros primitives)+

lemma conditionals: "keeps I (op_verif E opc x)" "keeps I (op_if E opc x)" "keeps I (op_else E)"
    "keeps I op_endif" "keeps I op_verify" "keeps I (op_return E)"
  unfolding op_verif_def op_if_def op_else_def op_endif_def op_verify_def op_return_def Let_def
  by (intro keeps_intros primitives)+

lemma stack_ops: "keeps I (op_toaltstack E)" "keeps I (op_fromaltstack E)" "keeps I op_2drop"
    "keeps I (op_2dup E)" "keeps I (op_3dup E)" "keeps I (op_2over E)" "keeps I (op_2rot E)"
    "keeps I (op_2swap E)" "keeps I (op_ifdup E)" "keeps I (op_depth E)" "keeps I op_drop"
    "keeps I (op_dup E)" "keeps I (op_nip E)" "keeps I (op_over E)" "keeps I (op_pick_roll E opc)"
    "keeps I (op_rot E)" "keeps I (op_swap E)" "keeps I (op_size E)"
  unfolding op_toaltstack_def op_fromaltstack_def op_2drop_def op_2dup_def op_3dup_def op_2over_def
    op_2rot_def op_2swap_def op_ifdup_def op_depth_def op_drop_def op_dup_def op_nip_def op_over_def
    op_pick_roll_def op_rot_def op_swap_def op_size_def Let_def
  by (intro keeps_intros primitives)+

lemma tuck: "keeps I (op_tuck E)"
  unfolding op_tuck_def by (intro keeps_intros primitives insert_copy)

lemma bytes_ops: "keeps I (op_bitwise E opc)" "keeps I (op_invert E)" "keeps I (op_shift E opc)"
    "keeps I (op_equal E opc)" "keeps I (op_cat E)" "keeps I (op_split E)"
  unfolding op_bitwise_def op_invert_def op_shift_def op_equal_def op_cat_def op_split_def Let_def
  by (intro keeps_intros primitives)+

lemma numbers: "keeps I (op_unary E opc)" "keeps I (op_binary E opc)" "keeps I (op_within E)"
    "keeps I (op_bin2num E)"
  unfolding op_unary_def op_binary_def op_within_def op_bin2num_def by (intro keeps_intros primitives)+

lemma num2bin: "keeps I (op_num2bin E)"
  unfolding op_num2bin_def Let_def by (auto split: option.split intro!: keeps_intros primitives)

lemma hashes: "keeps I (op_hash E opc)"
  unfolding op_hash_def by (intro keeps_intros primitives)

lemma checksig: "keeps I (op_checksig E opc)"
  unfolding op_checksig_def checksig_body_def Let_def by (intro keeps_intros primitives)

lemma drop_items: "keeps I (drop_items n)"
  by (induction n) (auto simp del: ret_apply intro: keeps_intros derived)

lemma multisig_loop: "keeps I (multisig_loop E sub isig ikey nSigs nKeys)"
  by (induction nKeys arbitrary: isig ikey nSigs)
     (auto simp: multisig_try_def Let_def simp del: ret_apply intro!: keeps_intros verify_signature)

lemma checkmultisig: "keeps I (op_checkmultisig E opc)"
  unfolding op_checkmultisig_def multisig_finish_def Let_def
  by (intro keeps_intros primitives multisig_loop drop_items)

lemmas opcodes = splices locktimes conditionals stack_ops tuck bytes_ops numbers num2bin hashes
  checksig checkmultisig

lemma execute: "keeps I (execute_opcode E opc x)"
proof -
  have "pred_option (keeps I) (splice_shift_opcodes E opc)"
    by (simp add: splice_shift_opcodes_def opcodes derived)
  moreover have "pred_option (keeps I) (control_opcodes E opc x)"
    by (simp add: control_opcodes_def opcodes keeps_ret)
  moreover have "pred_option (keeps I) (stack_opcodes E opc)"
    by (simp add: stack_opcodes_def opcodes)
  moreover have "pred_option (keeps I) (data_opcodes E opc)"
    by (simp add: data_opcodes_def opcodes)
  moreover have "pred_option (keeps I) (crypto_opcodes E opc)"
    by (simp add: crypto_opcodes_def opcodes fields)
  ultimately show ?thesis
    unfolding execute_opcode_def by (auto split: option.split intro!: keeps_intros)
qed

end

subsection \<open>The memory accounts\<close>

definition mem_of :: "item list \<Rightarrow> int" where
  "mem_of its = int (sum_list (map item_size its))"

lemma mem_of_simps [simp]:
  "mem_of [] = 0" "mem_of (it # its) = int (item_size it) + mem_of its"
  "mem_of (xs @ ys) = mem_of xs + mem_of ys"
  by (simp_all add: mem_of_def)

definition within_limit :: "'k spend_env \<Rightarrow> int \<Rightarrow> bool" where
  "within_limit E n \<longleftrightarrow> (case e_memoryLimit E of None \<Rightarrow> True | Some m \<Rightarrow> n \<le> int m)"

definition accounts :: "'k spend_env \<Rightarrow> spend \<Rightarrow> bool" where
  "accounts E s \<longleftrightarrow> sp_stackMem s = mem_of (sp_stack s) \<and> sp_altStackMem s = mem_of (sp_altStack s)
     \<and> within_limit E (sp_stackMem s) \<and> within_limit E (sp_altStackMem s)
     \<and> length (sp_ifStack s) = length (sp_elseStack s)"

lemma within_limit_mono: "within_limit E n \<Longrightarrow> m \<le> n \<Longrightarrow> within_limit E m"
  by (auto simp: within_limit_def split: option.splits)

lemma take_drop_mem: "drop n xs = it # r \<Longrightarrow> mem_of xs = mem_of (take n xs) + int (item_size it) + mem_of r"
  by (metis append_take_drop_id mem_of_simps(2,3) add.assoc)

lemma set_script_in_simps [simp]:
  "sp_stack (set_script_in c sc s) = sp_stack s" "sp_altStack (set_script_in c sc s) = sp_altStack s"
  "sp_stackMem (set_script_in c sc s) = sp_stackMem s" "sp_altStackMem (set_script_in c sc s) = sp_altStackMem s"
  "sp_ifStack (set_script_in c sc s) = sp_ifStack s" "sp_elseStack (set_script_in c sc s) = sp_elseStack s"
  "sp_pc (set_script_in c sc s) = sp_pc s" "sp_context (set_script_in c sc s) = sp_context s"
  "script_in c' (set_script_in c sc s) = (if c = c' then sc else script_in c' s)"
  by (simp_all add: set_script_in_def script_in_def split: script_context.split)

lemma insert_mem: "mem_of (take 2 xs @ [fresh b] @ drop 2 xs) = mem_of xs + int (length b)"
  by (metis (no_types, opaque_lifting) append_take_drop_id mem_of_simps item.sel(1) add.commute add.left_commute add.assoc add_0)

interpretation mem: stack_invariant E "accounts E" for E :: "'k spend_env"
proof unfold_locales
  show "keeps (accounts E) (pushStack E it)" for it
    by (auto simp: keeps_def pushStack_def thn_apply ensureStackMem_def accounts_def within_limit_def
        split: option.split)
  show "keeps (accounts E) popStack"
    by (auto simp: keeps_def popStack_def accounts_def elim: within_limit_mono split: list.split)
  show "keeps (accounts E) (remove_at n)" for n
    by (auto simp: keeps_def remove_at_def accounts_def dest: take_drop_mem elim: within_limit_mono split: list.split)
  show "keeps (accounts E) (thn (ensureStackMem E (length b)) (insert_below_two b))" for b
    using insert_mem[of _ b]
    by (auto simp: keeps_def insert_below_two_def thn_apply ensureStackMem_def accounts_def within_limit_def
        split: option.split)
  show "keeps (accounts E) (pushAltStack E it)" for it
    by (auto simp: keeps_def pushAltStack_def thn_apply ensureAltStackMem_def accounts_def within_limit_def
        split: option.split)
  show "keeps (accounts E) popAltStack"
    by (auto simp: keeps_def popAltStack_def accounts_def elim: within_limit_mono split: list.split)
  show "keeps (accounts E) (push_condition c)" "keeps (accounts E) pop_condition" for c
    by (auto simp: keeps_def push_condition_def pop_condition_def accounts_def)
  show "keeps (accounts E) flip_condition"
    by (auto simp: keeps_def flip_condition_def accounts_def split: list.split)
  show "keeps (accounts E) start_returning" "keeps (accounts E) jump_to_end" "keeps (accounts E) mark_separator"
    by (auto simp: keeps_def start_returning_def jump_to_end_def mark_separator_def accounts_def)
  show "keeps (accounts E) (write_through it d)" for it d
    by (auto simp: keeps_def write_through_def accounts_def split: option.split)
  show "keeps (accounts E) (with_sighash_cache m)" for m :: "bytes cached"
    by (auto simp: keeps_def with_sighash_cache_def accounts_def split: prod.split)
qed

subsection \<open>The program counter and the length of the scripts\<close>

definition lengths :: "spend \<Rightarrow> nat \<times> nat" where
  "lengths s = (length (chunks_of (sp_unlocking s)), length (chunks_of (sp_locking s)))"

lemma length_set_chunk_data [simp]: "length (chunks_of (set_chunk_data i d sc)) = length (chunks_of sc)"
  by (simp add: chunks_of_def set_chunk_data_def Let_def ensureParsed_def captureChunkCacheState_def)

lemma lengths_write_through: "lengths (set_script_in c (set_chunk_data i d (script_in c s)) s) = lengths s"
  by (cases c) (simp_all add: lengths_def set_script_in_def script_in_def)

definition beyond :: "spend \<Rightarrow> spend \<Rightarrow> bool" where
  "beyond s0 s \<longleftrightarrow> sp_context s = sp_context s0 \<and> lengths s = lengths s0 \<and> sp_pc s0 \<le> sp_pc s
     \<and> sp_pc s0 < length (current_chunks s0)"

lemma current_length: "sp_context s = sp_context t \<Longrightarrow> lengths s = lengths t \<Longrightarrow>
    length (current_chunks s) = length (current_chunks t)"
  by (cases "sp_context t") (simp_all add: current_chunks_def script_in_def lengths_def)

interpretation pc: stack_invariant E "beyond s0" for E :: "'k spend_env" and s0
proof unfold_locales
  note defs = keeps_def beyond_def lengths_def
  show "keeps (beyond s0) (pushStack E it)" "keeps (beyond s0) (pushAltStack E it)" for it
    by (auto simp: defs pushStack_def pushAltStack_def thn_apply ensureStackMem_def ensureAltStackMem_def
        split: option.split)
  show "keeps (beyond s0) popStack" "keeps (beyond s0) popAltStack" "keeps (beyond s0) (remove_at n)" for n
    by (auto simp: defs popStack_def popAltStack_def remove_at_def split: list.split)
  show "keeps (beyond s0) (thn (ensureStackMem E (length b)) (insert_below_two b))" for b
    by (auto simp: defs insert_below_two_def thn_apply ensureStackMem_def split: option.split)
  show "keeps (beyond s0) (push_condition c)" "keeps (beyond s0) pop_condition" "keeps (beyond s0) flip_condition" for c
    by (auto simp: defs push_condition_def pop_condition_def flip_condition_def split: list.split)
  show "keeps (beyond s0) start_returning" "keeps (beyond s0) mark_separator"
    by (auto simp: defs start_returning_def mark_separator_def)
  show "keeps (beyond s0) jump_to_end"
  proof (rule keepsI)
    fix s
    assume b: "beyond s0 s"
    then have "length (current_chunks s) = length (current_chunks s0)"
      by (intro current_length) (simp_all add: beyond_def)
    moreover from b have "sp_pc s0 \<le> length (current_chunks s0) - 1" unfolding beyond_def by linarith
    ultimately show "beyond s0 (snd (jump_to_end s))" using b
      by (simp add: beyond_def jump_to_end_def lengths_def)
  qed
  show "keeps (beyond s0) (write_through it d)" for it d
    by (auto simp: keeps_def beyond_def write_through_def lengths_write_through split: option.split)
  show "keeps (beyond s0) (with_sighash_cache m)" for m :: "bytes cached"
    by (auto simp: defs with_sighash_cache_def split: prod.split)
qed

subsection \<open>The step keeps both\<close>

lemma keeps_opcodeForOperation [keeps_intros]: "keeps I (opcodeForOperation E c)"
  unfolding opcodeForOperation_def by (intro keeps_intros)

lemma keeps_enforcers [keeps_intros]:
  "keeps I (enforceStepResourceLimits E)" "keeps I (enforceChronicleOnlyOpcode E opc)"
  "keeps I (enforceDiscouragedNop E opc x)" "keeps I (enforce_item_count E)"
  unfolding enforceChronicleOnlyOpcode_def enforceDiscouragedNop_def enforce_item_count_def Let_def
  by (auto simp: enforceStepResourceLimits_def keeps_def fail_if_def split: option.split)

context stack_invariant
begin

lemma dataPush: "keeps I (executeDataPush E c)"
  unfolding executeDataPush_def by (intro keeps_intros push)

end

lemma keeps_moves:
  "keeps (accounts E) next_pc" "keeps (accounts E) move_pc"
  "keeps (accounts E) (countExecutedOpcode E opc x)" "keeps (accounts E) currentScriptForStep"
  "keeps (beyond s0) (countExecutedOpcode E opc x)"
  by (auto simp: keeps_def next_pc_def move_pc_def countExecutedOpcode_def thn_apply fail_if_def bnd_apply
      currentScriptForStep_def enter_locking_def clearAltStack_def accounts_def beyond_def lengths_def within_limit_def
      split: option.splits)

theorem step_accounts: "keeps (accounts E) (step E)"
proof -
  have "keeps (accounts E) (execute_chunk E c)" for c
    unfolding execute_chunk_def skipUnavailablePreChronicleOpcode_def advanceAfterStep_def
    by (intro keeps_intros keeps_moves mem.dataPush mem.execute)
  then show ?thesis
    unfolding step_def by (auto split: option.split intro!: keeps_intros keeps_moves)
qed

text \<open>A step that returns true in the middle of a script goes forward in it.\<close>

definition forward :: "spend \<Rightarrow> spend \<Rightarrow> bool" where
  "forward s0 s \<longleftrightarrow> sp_context s = sp_context s0 \<and> lengths s = lengths s0 \<and> sp_pc s0 < sp_pc s"

definition ends_forward :: "spend \<Rightarrow> 'a op \<Rightarrow> bool" where
  "ends_forward s0 m \<longleftrightarrow> (\<forall>s x t. beyond s0 s \<longrightarrow> m s = (Inr x, t) \<longrightarrow> forward s0 t)"

lemma ends_forward_thn: "keeps (beyond s0) m \<Longrightarrow> ends_forward s0 n \<Longrightarrow> ends_forward s0 (thn m n)"
  unfolding ends_forward_def keeps_def thn_apply
  by (auto split: prod.splits sum.splits)

lemma ends_forward_bnd:
  "keeps (beyond s0) m \<Longrightarrow> (\<And>x. ends_forward s0 (k x)) \<Longrightarrow> ends_forward s0 (bnd m k)"
  unfolding ends_forward_def keeps_def bnd_apply
  by (auto split: prod.splits sum.splits)

lemma move_pc_forward: "beyond s0 s \<Longrightarrow> forward s0 (snd (move_pc s))"
proof -
  assume b: "beyond s0 s"
  then have "length (current_chunks s) = length (current_chunks s0)"
    by (intro current_length) (simp_all add: beyond_def)
  with b show ?thesis
    by (simp add: beyond_def forward_def move_pc_def lengths_def)
qed

lemma advance_forward: "ends_forward s0 (advanceAfterStep E)"
  unfolding ends_forward_def
proof (intro allI impI)
  fix s x t
  assume "beyond s0 s" and r: "advanceAfterStep E s = (Inr x, t)"
  then have "forward s0 (snd (move_pc s))" by (rule_tac move_pc_forward)
  moreover have "t = snd (move_pc s)"
    using r by (auto simp: advanceAfterStep_def thn_apply bnd_apply enforce_item_count_def fail_if_def move_pc_def
        split: if_splits prod.splits sum.splits)
  ultimately show "forward s0 t" by simp
qed

lemma skip_cases:
  "skipUnavailablePreChronicleOpcode E opc x s = (Inr b, t) \<Longrightarrow>
     t = (if b then s\<lparr>sp_pc := sp_pc s + 1\<rparr> else s)"
  by (auto simp: skipUnavailablePreChronicleOpcode_def thn_apply next_pc_def fail_if_def split: if_splits)

lemma ends_forward_skip:
  assumes "ends_forward s0 n"
  shows "ends_forward s0 (bnd (skipUnavailablePreChronicleOpcode E opc x) (\<lambda>b. if b then ret True else n))"
  unfolding ends_forward_def
proof (intro allI impI)
  fix s r t
  assume b: "beyond s0 s"
    and r: "bnd (skipUnavailablePreChronicleOpcode E opc x) (\<lambda>b. if b then ret True else n) s = (Inr r, t)"
  then obtain c u where u: "skipUnavailablePreChronicleOpcode E opc x s = (Inr c, u)"
      "(if c then ret True else n) u = (Inr r, t)"
    by (auto simp: bnd_apply split: prod.splits sum.splits)
  show "forward s0 t"
  proof (cases c)
    case True
    with u skip_cases[OF u(1)] b show ?thesis by (auto simp: forward_def beyond_def lengths_def)
  next
    case False
    with u skip_cases[OF u(1)] b assms show ?thesis by (auto simp: ends_forward_def)
  qed
qed

lemma execute_chunk_forward: "ends_forward s0 (execute_chunk E c)"
proof -
  have branch: "ends_forward s0 (if b then m else n)" if "ends_forward s0 m" "ends_forward s0 n" for b m n
    using that by simp
  show ?thesis
    unfolding execute_chunk_def
    by (intro ends_forward_bnd ends_forward_thn branch keeps_intros keeps_moves ends_forward_skip
        advance_forward pc.dataPush pc.execute)
qed

lemma step_forward:
  assumes "sp_pc s < length (current_chunks s)" and "step E s = (Inr x, t)"
  shows "forward s t"
proof -
  have c: "currentScriptForStep s = (Inr (), s)"
    using assms(1) by (auto simp: currentScriptForStep_def current_chunks_def script_in_def)
  have "execute_chunk E (current_chunks s ! sp_pc s) s = (Inr x, t)"
    using assms c by (auto simp: step_def thn_apply bnd_apply at_def enforceStepResourceLimits_def
        split: option.splits if_splits)
  moreover have "beyond s s" using assms(1) by (simp add: beyond_def)
  ultimately show ?thesis using execute_chunk_forward unfolding ends_forward_def by blast
qed

subsection \<open>Running a script\<close>

text \<open>\<open>while (this.programCounter < script.chunks.length) this.step()\<close>\<close>

function run_loop :: "'k spend_env \<Rightarrow> unit op" where
  "run_loop E s =
     (if sp_pc s < length (current_chunks s)
      then case step E s of (Inl e, t) \<Rightarrow> (Inl e, t) | (Inr _, t) \<Rightarrow> run_loop E t
      else (Inr (), s))"
  by pat_completeness auto
termination
proof (relation "measure (\<lambda>(E, s). length (current_chunks s) - sp_pc s)", simp_all)
  fix E :: "'k spend_env" and s x t
  assume p: "sp_pc s < length (current_chunks s)" and st: "(Inr x, t) = step E s"
  from step_forward[OF p st[symmetric]] have "forward s t" .
  then have "length (current_chunks t) = length (current_chunks s)" "sp_pc s < sp_pc t"
    by (auto simp: forward_def intro: current_length)
  with p show "length (current_chunks t) - sp_pc t < length (current_chunks s) - sp_pc s" by linarith
qed

declare run_loop.simps [simp del]

text \<open>The size test serialises the script, which fills its caches.\<close>

definition check_script_size :: "'k spend_env \<Rightarrow> script_context \<Rightarrow> unit op" where
  "check_script_size E c = (\<lambda>s.
     if hasExplicitFlags E \<and> \<not> isAfterGenesis E
     then case getSerializedBytes (script_in c s) of
            (Inl e, sc) \<Rightarrow> (Inl (Thrown e), set_script_in c sc s)
          | (Inr b, sc) \<Rightarrow> fail_if (length b > 10000) ''Script size exceeds 10000 bytes.'' (set_script_in c sc s)
     else (Inr (), s))"

definition begin_script :: "script_context \<Rightarrow> spend \<Rightarrow> spend" where
  "begin_script c s = (clearAltStack s)\<lparr>sp_context := c, sp_pc := 0, sp_ifStack := [], sp_elseStack := [],
     sp_returning := False, sp_lastCodeSeparator := None\<rparr>"

definition end_script :: "spend \<Rightarrow> spend" where
  "end_script s = (clearAltStack s)\<lparr>sp_ifStack := [], sp_elseStack := [], sp_lastCodeSeparator := None\<rparr>"

definition runScript :: "'k spend_env \<Rightarrow> script_context \<Rightarrow> unit op" where
  "runScript E c =
     thn (modify (begin_script c))
    (thn (check_script_size E c)
    (thn (run_loop E)
    (bnd (get sp_ifStack) (\<lambda>ifs.
     thn (fail_if (length ifs > 0) ''Every OP_IF, OP_NOTIF, or OP_ELSE must be terminated with OP_ENDIF prior to the end of the script.'')
     (modify end_script)))))"

subsection \<open>Validation\<close>

definition isP2SHLockingScript :: "script \<Rightarrow> bool" where
  "isP2SHLockingScript sc = (case chunks_of sc of
       [a, b, c] \<Rightarrow> chunk_op a = OP_HASH160 \<and> chunk_op b = 20
         \<and> (case chunk_data b of None \<Rightarrow> False | Some d \<Rightarrow> length d = 20) \<and> chunk_op c = OP_EQUAL
     | _ \<Rightarrow> False)"

definition requireTruthyTopStack :: "unit op" where
  "requireTruthyTopStack = bnd (get sp_stack) (\<lambda>st.
     if length st = 0
     then fail ''The top stack element must be truthy after script evaluation (stack is empty).''
     else bnd (stackTop 1) (\<lambda>it.
       fail_if (\<not> castToBool (item_bytes it)) ''The top stack element must be truthy after script evaluation.''))"

definition all_push_only :: "script \<Rightarrow> js_error + bool" where
  "all_push_only sc = fst (isPushOnly sc)"

text \<open>The redeem script: the locking script for the rest, put back whatever happens.\<close>

definition evaluate_P2SH :: "'k spend_env \<Rightarrow> bytes list \<Rightarrow> unit op" where
  "evaluate_P2SH E stackAfterUnlockingScript =
    (case stackAfterUnlockingScript of
       [] \<Rightarrow> fail ''P2SH evaluation requires a redeem script on the stack.''
     | redeemScriptBytes # rest \<Rightarrow>
        thn (setStack (map fresh rest))
        (bnd (get sp_locking) (\<lambda>originalLockingScript. \<lambda>s.
          case runScript E LockingScript
                 (s\<lparr>sp_locking := new_script (chunks_of (script_fromBinary redeemScriptBytes))\<rparr>) of
            (r, t) \<Rightarrow> (r, t\<lparr>sp_locking := originalLockingScript\<rparr>))))"

definition clean_and_truthy :: "'k spend_env \<Rightarrow> bool op" where
  "clean_and_truthy E =
    bnd (get (\<lambda>s. length (sp_stack s))) (\<lambda>n.
    thn (fail_if (shouldEnforceCleanStack E \<and> n \<noteq> 1)
          (''The clean stack rule requires exactly one item to be on the stack after script execution, found ''
            @ decimal (int n) @ ''.''))
   (thn requireTruthyTopStack (ret True)))"

text \<open>The body of \<open>validateJavaScript\<close> after the unlocking script, and after its call of \<open>reset\<close>.\<close>

definition evaluate_locking :: "'k spend_env \<Rightarrow> bool \<Rightarrow> bytes list \<Rightarrow> bool op" where
  "evaluate_locking E shouldEvaluateP2SH stackAfterUnlockingScript =
    thn (runScript E LockingScript)
   (thn requireTruthyTopStack
   (thn (do_when shouldEvaluateP2SH (evaluate_P2SH E stackAfterUnlockingScript))
    (clean_and_truthy E)))"

definition validation_body :: "'k spend_env \<Rightarrow> bool op" where
  "validation_body E =
    bnd (get (\<lambda>s. (all_push_only (sp_unlocking s), isP2SHLockingScript (sp_locking s)))) (\<lambda>(r, p2sh).
    bnd (lift_js r) (\<lambda>pushOnly.
    thn (fail_if (shouldEnforceSigPushOnly E \<and> \<not> pushOnly)
          ''Unlocking scripts can only contain push operations, and no other opcodes.'')
   (let shouldEvaluateP2SH = (hasFlag E ''P2SH'' \<and> \<not> isAfterGenesis E \<and> p2sh) in
    thn (fail_if (shouldEvaluateP2SH \<and> \<not> pushOnly) ''P2SH unlocking scripts can only contain push operations.'')
   (thn (runScript E UnlockingScript)
   (bnd (get (\<lambda>s. map item_bytes (sp_stack s))) (evaluate_locking E shouldEvaluateP2SH))))))"

definition validateJavaScript :: "'k spend_env \<Rightarrow> bool op" where
  "validateJavaScript E = thn (modify (reset E)) (validation_body E)"

subsection \<open>The accounts after any sequence of calls\<close>

lemma keeps_bnd_get:
  "(\<And>x s. I s \<Longrightarrow> x = f s \<Longrightarrow> keeps I (k x)) \<Longrightarrow> keeps I (bnd (get f) k)"
  by (auto simp: keeps_def bnd_apply)

lemma keeps_run_loop: "keeps (accounts E) (run_loop E)"
proof (rule keepsI)
  fix s
  assume "accounts E s"
  then show "accounts E (snd (run_loop E s))"
  proof (induction E s rule: run_loop.induct)
    case (1 E s)
    show ?case
    proof (cases "sp_pc s < length (current_chunks s)")
      case True
      obtain r t where st: "step E s = (r, t)" by fastforce
      have "accounts E t" using keeps_snd[OF step_accounts \<open>accounts E s\<close>] st by simp
      with 1 True st show ?thesis by (cases r) (simp_all add: run_loop.simps[of E s])
    next
      case False
      then show ?thesis using 1 by (simp add: run_loop.simps[of E s])
    qed
  qed
qed

lemma within_limit_0 [simp]: "within_limit E 0"
  by (simp add: within_limit_def split: option.split)

lemma accounts_begin: "accounts E s \<Longrightarrow> accounts E (begin_script c s)"
  and accounts_end: "accounts E s \<Longrightarrow> accounts E (end_script s)"
  by (auto simp: accounts_def begin_script_def end_script_def clearAltStack_def)

lemma accounts_script_in [simp]: "accounts E (set_script_in c sc s) = accounts E s"
  by (simp add: accounts_def)

lemma accounts_locking [simp]: "accounts E (s\<lparr>sp_locking := y\<rparr>) = accounts E s"
  by (simp add: accounts_def)

lemma keeps_runScript: "keeps (accounts E) (runScript E c)"
proof -
  have "keeps (accounts E) (check_script_size E c)"
    by (auto simp: keeps_def check_script_size_def fail_if_def split: prod.split sum.split)
  then show ?thesis
    unfolding runScript_def by (intro keeps_intros keeps_run_loop keeps_modify accounts_begin accounts_end)
qed

lemma keeps_requireTruthy: "keeps I requireTruthyTopStack"
  unfolding requireTruthyTopStack_def by (intro keeps_intros)

lemma keeps_evaluate_P2SH:
  assumes "within_limit E (int (sum_list (map length bs)))"
  shows "keeps (accounts E) (evaluate_P2SH E bs)"
proof (cases bs)
  case Nil
  then show ?thesis by (simp add: evaluate_P2SH_def keeps_fail)
next
  case (Cons b rest)
  have "keeps (accounts E) (setStack (map fresh rest))"
    using assms Cons
    by (auto simp: keeps_def setStack_def accounts_def mem_of_def o_def elim: within_limit_mono)
  moreover have "keeps (accounts E) (\<lambda>s. case runScript E LockingScript (s\<lparr>sp_locking := x\<rparr>) of
      (r, t) \<Rightarrow> (r, t\<lparr>sp_locking := y\<rparr>))" for x y
  proof (rule keepsI)
    fix s
    assume "accounts E s"
    then have "accounts E (s\<lparr>sp_locking := x\<rparr>)" by simp
    from keeps_snd[OF keeps_runScript this, of LockingScript]
    show "accounts E (snd (case runScript E LockingScript (s\<lparr>sp_locking := x\<rparr>) of
        (r, t) \<Rightarrow> (r, t\<lparr>sp_locking := y\<rparr>)))"
      by (cases "runScript E LockingScript (s\<lparr>sp_locking := x\<rparr>)") simp
  qed
  ultimately show ?thesis
    unfolding evaluate_P2SH_def Cons by (simp, intro keeps_intros)
qed

lemma stack_within: "accounts E t \<Longrightarrow> within_limit E (int (sum_list (map length (map item_bytes (sp_stack t)))))"
  by (auto simp: accounts_def mem_of_def o_def)

lemma keeps_validation_body: "keeps (accounts E) (validation_body E)"
  unfolding validation_body_def evaluate_locking_def clean_and_truthy_def Let_def
  by (auto simp: case_prod_beta simp del: ret_apply map_map
      intro!: keeps_intros keeps_runScript keeps_requireTruthy keeps_bnd_get keeps_evaluate_P2SH stack_within)

lemma accounts_reset: "accounts E (reset E s)"
  by (simp add: accounts_def reset_def)

lemma validateJavaScript_accounts: "accounts E (snd (validateJavaScript E s))"
  unfolding validateJavaScript_def
  using keeps_snd[OF keeps_validation_body accounts_reset[of E s]] by (simp add: thn_apply)

end
