(* ===== verification/Spend_Numbers.thy ===== *)
theory Spend_Numbers
  imports Spend_Run
begin

text \<open>
  The numbers of the interpreter: what its truth test, its minimal encoder and its padding mean for
  the integer a byte string denotes (\<open>fromSm True\<close>, the script numbers of \<open>Big_Number\<close>), and the
  effect of the arithmetic opcodes on the stack.
\<close>

subsection \<open>Byte strings by their last byte\<close>

lemma fromSm_snoc: "fromSm True (b @ [l]) = initializeState (le_nat (b @ [and l 0x7f])) (128 \<le> unat l)"
  by (simp add: fromSm_def fromSm_be_Cons)

lemma fromSm_Nil [simp]: "fromSm True [] = bn_of_bigint 0"
  by (simp add: fromSm_def fromSm_be_def)

lemma and_7f_cases: "and (l :: byte) 0x7f = 0 \<longleftrightarrow> l = 0 \<or> l = 0x80"
proof
  assume z: "and l 0x7f = 0"
  show "l = 0 \<or> l = 0x80"
  proof (cases "128 \<le> unat l")
    case True
    from byte_or_80_and_7f[OF True] z show ?thesis by simp
  next
    case False
    from byte_and_7f_small[of l] False z show ?thesis by simp
  qed
qed auto

lemma and_7f_zero_byte: "and (l :: byte) 0x7f = 0 \<longleftrightarrow> unat (and l 0x7f) = 0"
  by (simp add: unat_eq_0)

lemma getSignedValue_zero: "getSignedValue b = 0 \<longleftrightarrow> magnitude b = 0"
  by (simp add: getSignedValue_def)

lemma castToBool_append:
  "castToBool (b @ [l]) \<longleftrightarrow> (\<exists>x \<in> set b. x \<noteq> 0) \<or> (l \<noteq> 0 \<and> l \<noteq> 0x80)"
  by (induction b) auto

lemma castToBool_value: "castToBool b \<longleftrightarrow> getSignedValue (fromSm True b) \<noteq> 0"
proof (cases b rule: rev_cases)
  case Nil
  then show ?thesis by (simp add: bn_of_bigint_def normSign_def initializeState_def getSignedValue_def)
next
  case (snoc xs l)
  have "magnitude (fromSm True b) = 0 \<longleftrightarrow> (\<forall>x \<in> set (xs @ [and l 0x7f]). x = 0)"
    unfolding snoc fromSm_snoc using le_nat_eq_0_iff[of "xs @ [and l 0x7f]"] by (simp add: initializeState_def)
  then show ?thesis
    unfolding getSignedValue_zero snoc castToBool_append by (auto simp: and_7f_cases)
qed

subsection \<open>Minimal encodings\<close>

definition without_trailing_zeros :: "bytes \<Rightarrow> bytes" where
  "without_trailing_zeros bs = rev (dropWhile ((=) 0) (rev bs))"

lemma without_trailing_zeros_snoc:
  "without_trailing_zeros (xs @ [x]) = (if x = 0 then without_trailing_zeros xs else xs @ [x])"
  by (simp add: without_trailing_zeros_def)

lemma le_nat_without_trailing_zeros [simp]: "le_nat (without_trailing_zeros bs) = le_nat bs"
  by (induction bs rule: rev_induct) (auto simp: without_trailing_zeros_snoc without_trailing_zeros_def)

lemma last_without_trailing_zeros: "without_trailing_zeros bs \<noteq> [] \<Longrightarrow> last (without_trailing_zeros bs) \<noteq> 0"
  by (induction bs rule: rev_induct) (auto simp: without_trailing_zeros_snoc without_trailing_zeros_def)

definition signed_tail :: "bytes \<Rightarrow> byte \<Rightarrow> bytes" where
  "signed_tail ys lst =
    (if ys = [] then []
     else if and (last ys) 0x80 = 0 then butlast ys @ [or (last ys) lst] else ys @ [lst])"

lemma trim_zeros_result:
  "i < length buf \<Longrightarrow> fst (trim_zeros lst buf i) = signed_tail (without_trailing_zeros (take i buf)) lst"
proof (induction i)
  case 0
  show ?case by (simp add: without_trailing_zeros_def signed_tail_def)
next
  case (Suc i)
  have t: "take (Suc i) buf = take i buf @ [buf ! i]"
    using Suc.prems by (simp add: take_Suc_conv_app_nth)
  show ?case
  proof (cases "buf ! i = 0")
    case True
    then show ?thesis using Suc by (simp add: t without_trailing_zeros_snoc)
  next
    case False
    have w: "without_trailing_zeros (take (Suc i) buf) = take i buf @ [buf ! i]"
      using False by (simp add: t without_trailing_zeros_snoc)
    have "take (Suc i) (buf[i := x]) = take i buf @ [x]" for x
      using Suc.prems by (simp add: take_Suc_conv_app_nth)
    moreover have "take (Suc (Suc i)) (buf[Suc i := x]) = take i buf @ [buf ! i, x]" for x
      using Suc.prems by (simp add: take_Suc_conv_app_nth)
    ultimately show ?thesis
      unfolding w using False Suc.prems by (simp add: Let_def signed_tail_def)
  qed
qed

lemma or_last_values:
  assumes "and (x :: byte) 0x80 = 0" "and (l :: byte) 0x7f = 0"
  shows "and (or x l) 0x7f = x" "128 \<le> unat (or x l) \<longleftrightarrow> 128 \<le> unat l"
proof -
  have x: "unat x < 128" using assms(1) by (simp add: byte_and_80)
  from assms(2) have "l = 0 \<or> l = 0x80" by (simp add: and_7f_cases)
  then show "and (or x l) 0x7f = x" "128 \<le> unat (or x l) \<longleftrightarrow> 128 \<le> unat l"
    using x byte_and_7f_small[of x] byte_and_7f_or_80[of x] byte_or_80[of x] by auto
qed

lemma fromSm_signed_tail:
  assumes "and l 0x7f = 0"
  shows "fromSm True (signed_tail (without_trailing_zeros xs) l) = fromSm True (xs @ [l])"
proof (cases "without_trailing_zeros xs" rule: rev_cases)
  case Nil
  have "le_nat xs = 0" using le_nat_without_trailing_zeros[of xs] Nil by simp
  then show ?thesis using assms
    by (simp add: Nil signed_tail_def fromSm_snoc le_nat_append bn_of_bigint_def normSign_def initializeState_def)
next
  case (snoc zs x)
  have v: "le_nat (xs @ [0]) = le_nat (zs @ [x])" using le_nat_without_trailing_zeros[of xs] snoc by simp
  show ?thesis
  proof (cases "and x 0x80 = 0")
    case True
    then show ?thesis
      using or_last_values[OF True assms] v assms by (simp add: snoc signed_tail_def fromSm_snoc)
  next
    case False
    have "fromSm True ((zs @ [x]) @ [l]) = initializeState (le_nat ((zs @ [x]) @ [0])) (128 \<le> unat l)"
      using fromSm_snoc[of "zs @ [x]" l] assms by simp
    then show ?thesis
      using False v assms le_nat_snoc_zero[of "zs @ [x]"] by (simp add: snoc signed_tail_def fromSm_snoc)
  qed
qed

lemma minimal_form_cases:
  "minimal_form buf = (if buf = [] \<or> \<not> non_minimal buf then buf
     else signed_tail (without_trailing_zeros (butlast buf)) (last buf))"
proof (cases "buf = [] \<or> \<not> non_minimal buf")
  case True
  then show ?thesis
    by (auto simp: minimal_form_def minimallyEncode_def non_minimal_def Let_def)
next
  case False
  show ?thesis
  proof (cases "length buf = 1")
    case True
    with False show ?thesis
      by (cases buf) (auto simp: minimal_form_def minimallyEncode_def non_minimal_def Let_def signed_tail_def
          without_trailing_zeros_def)
  next
    case len: False
    have "fst (trim_zeros (last buf) buf (length buf - 1)) = signed_tail (without_trailing_zeros (butlast buf)) (last buf)"
      using trim_zeros_result[of "length buf - 1" buf "last buf"] False by (simp add: butlast_conv_take)
    moreover have "1 < length buf" using len False by (cases buf) auto
    then have "minimal_form buf = fst (trim_zeros (last buf) buf (length buf - 1))"
      using False len by (auto simp: minimal_form_def minimallyEncode_def non_minimal_def Let_def split: prod.split)
    ultimately show ?thesis using False by simp
  qed
qed

lemma fromSm_minimal_form: "fromSm True (minimal_form buf) = fromSm True buf"
proof (cases "buf = [] \<or> \<not> non_minimal buf")
  case False
  then have "and (last buf) 0x7f = 0" "buf = butlast buf @ [last buf]" by (simp_all add: non_minimal_def)
  with False fromSm_signed_tail[of "last buf" "butlast buf"] show ?thesis by (simp add: minimal_form_cases)
qed (simp add: minimal_form_cases)

lemma minimal_form_minimal: "minimal_form buf \<noteq> [] \<Longrightarrow> \<not> non_minimal (minimal_form buf)"
proof (cases "buf = [] \<or> \<not> non_minimal buf")
  case False
  assume ne: "minimal_form buf \<noteq> []"
  from False have l: "and (last buf) 0x7f = 0" by (simp add: non_minimal_def)
  obtain zs x where w: "without_trailing_zeros (butlast buf) = zs @ [x]"
    using ne False by (cases "without_trailing_zeros (butlast buf)" rule: rev_cases)
      (auto simp: minimal_form_cases signed_tail_def)
  then have x: "x \<noteq> 0" using last_without_trailing_zeros[of "butlast buf"] by simp
  show "\<not> non_minimal (minimal_form buf)"
  proof (cases "and x 0x80 = 0")
    case True
    then show ?thesis
      using False w x or_last_values(1)[OF True l]
      by (simp add: minimal_form_cases signed_tail_def non_minimal_def)
  next
    case False2: False
    then show ?thesis
      using False w by (simp add: minimal_form_cases signed_tail_def non_minimal_def butlast_append)
  qed
qed (auto simp: minimal_form_cases)

lemma minimal_form_canonical: "minimal_form buf = toScriptNum (fromSm True buf)"
proof -
  have "fromScriptNum True None (minimal_form buf) = Inr (fromSm True (minimal_form buf))"
    using minimal_form_minimal[of buf] by (auto simp: fromScriptNum_def)
  then show ?thesis by (simp add: fromScriptNum_canonical fromSm_minimal_form)
qed

subsection \<open>Padded numbers\<close>

lemma minimal_nonzero_last: "\<not> non_minimal (zs @ [x]) \<Longrightarrow> zs = [] \<Longrightarrow> and x 0x7f \<noteq> 0"
  by (simp add: non_minimal_def)

lemma pad_number_value:
  assumes "length raw < n"
  shows "length (pad_number raw n) = n" "fromSm True (pad_number raw n) = fromSm True raw"
proof -
  have zeros: "le_nat (xs @ replicate k 0) = le_nat xs" for xs k
    by (simp add: le_nat_append)
  obtain k where n: "n = length raw + Suc k" using assms by (metis less_natE add_Suc_right)
  have "length (pad_number raw n) = n \<and> fromSm True (pad_number raw n) = fromSm True raw"
  proof (cases raw rule: rev_cases)
    case Nil
    have "fromSm True (replicate (Suc k) 0) = bn_of_bigint 0"
      using fromSm_snoc[of "replicate k 0" 0]
      by (simp add: replicate_append_same[symmetric] le_nat_append bn_of_bigint_def normSign_def initializeState_def)
    then show ?thesis using n Nil by (simp add: pad_number_def)
  next
    case (snoc zs x)
    let ?c = "zs @ [and x 0x7f]"
    have r: "?c @ replicate (n - length ?c) 0 = (?c @ replicate k 0) @ [0]"
      using n snoc by (simp add: replicate_append_same)
    have "fromSm True ((?c @ replicate k 0) @ [l]) = initializeState (le_nat ?c) (128 \<le> unat l)"
      if "l = 0 \<or> l = 0x80" for l
    proof -
      have "and l 0x7f = 0" using that by (simp add: and_7f_cases)
      then show ?thesis
        unfolding fromSm_snoc by (simp add: zeros le_nat_append)
    qed
    then have v: "fromSm True ((?c @ replicate k 0) @ [if and x 0x80 \<noteq> 0 then 0x80 else 0]) = fromSm True raw"
      unfolding snoc fromSm_snoc using byte_and_80[of x] by (simp add: not_less)
    have "pad_number raw n = (let r = ?c @ replicate (n - length ?c) 0
        in if and x 0x80 \<noteq> 0 then butlast r @ [or (last r) 0x80] else r)"
      by (simp add: pad_number_def snoc Let_def)
    then have "pad_number raw n = (?c @ replicate k 0) @ [if and x 0x80 \<noteq> 0 then 0x80 else 0]"
      unfolding r Let_def butlast_snoc last_snoc by simp
    with v n snoc show ?thesis by simp
  qed
  then show "length (pad_number raw n) = n" "fromSm True (pad_number raw n) = fromSm True raw" by simp_all
qed

subsection \<open>Numbers by their value\<close>

lemma bn_by_value: "bn_wf b \<Longrightarrow> b = bn_of_bigint (getSignedValue b)"
  by (simp add: value_inject[symmetric])

lemma bn_of_bigint_ops:
  "bn_add (bn_of_bigint a) (bn_of_bigint b) = bn_of_bigint (a + b)"
  "bn_sub (bn_of_bigint a) (bn_of_bigint b) = bn_of_bigint (a - b)"
  "bn_mul (bn_of_bigint a) (bn_of_bigint b) = bn_of_bigint (a * b)"
  "bn_neg (bn_of_bigint a) = bn_of_bigint (- a)"
  "setValueFromSigned a = bn_of_bigint a"
  by (simp_all add: value_inject[symmetric] bn_wf_neg)

lemma bn_isZero_of_bigint [simp]: "bn_isZero (bn_of_bigint a) \<longleftrightarrow> a = 0"
  using getSignedValue_zero[of "bn_of_bigint a"] by (simp add: bn_isZero_def)

lemma bn_div_mod_of_bigint:
  "b \<noteq> 0 \<Longrightarrow> bn_div (bn_of_bigint a) (bn_of_bigint b) = Inr (bn_of_bigint (a sdiv b))"
  "b \<noteq> 0 \<Longrightarrow> bn_mod (bn_of_bigint a) (bn_of_bigint b) = Inr (bn_of_bigint (a smod b))"
  by (simp_all add: bn_div_def bn_mod_def bn_of_bigint_ops computeMod_def signed_divide_int_def signed_modulo_int_def)

lemma nonzero_of_bigint [simp]: "nonzero (bn_of_bigint a) \<longleftrightarrow> a \<noteq> 0"
  by (simp add: nonzero_def bn_cmpn_def)

definition reads_as :: "'k spend_env \<Rightarrow> bytes \<Rightarrow> int \<Rightarrow> bool" where
  "reads_as E bs v \<longleftrightarrow> fromScriptNum (shouldEnforceMinimalData E) (scriptNumMaxSize E) bs = Inr (bn_of_bigint v)"

lemma readScriptNumber_value: "reads_as E bs v \<Longrightarrow> readScriptNumber E bs = ret (bn_of_bigint v)"
  by (simp add: reads_as_def readScriptNumber_def)

text \<open>What a binary opcode computes; nothing for a division by zero.\<close>

definition binary_meaning :: "nat \<Rightarrow> int \<Rightarrow> int \<Rightarrow> int option" where
  "binary_meaning opc a b =
    (if opc = OP_ADD then Some (a + b)
     else if opc = OP_SUB then Some (a - b)
     else if opc = OP_MUL then Some (a * b)
     else if opc = OP_DIV then (if b = 0 then None else Some (a sdiv b))
     else if opc = OP_MOD then (if b = 0 then None else Some (a smod b))
     else if opc = OP_BOOLAND then Some (of_bool (a \<noteq> 0 \<and> b \<noteq> 0))
     else if opc = OP_BOOLOR then Some (of_bool (a \<noteq> 0 \<or> b \<noteq> 0))
     else if opc = OP_NUMEQUAL \<or> opc = OP_NUMEQUALVERIFY then Some (of_bool (a = b))
     else if opc = OP_NUMNOTEQUAL then Some (of_bool (a \<noteq> b))
     else if opc = OP_LESSTHAN then Some (of_bool (a < b))
     else if opc = OP_GREATERTHAN then Some (of_bool (a > b))
     else if opc = OP_LESSTHANOREQUAL then Some (of_bool (a \<le> b))
     else if opc = OP_GREATERTHANOREQUAL then Some (of_bool (a \<ge> b))
     else if opc = OP_MIN then Some (min a b)
     else Some (max a b))"

definition binary_opcode :: "nat \<Rightarrow> bool" where
  "binary_opcode opc \<longleftrightarrow> OP_ADD \<le> opc \<and> opc \<le> OP_MOD \<or> OP_BOOLAND \<le> opc \<and> opc \<le> OP_MAX"

lemma binary_result_meaning:
  assumes "binary_opcode opc"
  shows "binary_result opc (bn_of_bigint a) (bn_of_bigint b) =
    (case binary_meaning opc a b of
       None \<Rightarrow> Inl (ScriptEvaluation (op_text opc @ '' cannot divide by zero!''))
     | Some v \<Rightarrow> Inr (bn_of_bigint v))"
proof -
  have names: "op_text OP_DIV = ''OP_DIV''" "op_text OP_MOD = ''OP_MOD''"
    by (code_simp)+
  have cmp: "bn_cmp (bn_of_bigint a) (bn_of_bigint b) = (if a < b then -1 else if a > b then 1 else 0)"
    by (simp add: bn_cmp_def)
  consider "opc = OP_ADD" | "opc = OP_SUB" | "opc = OP_MUL" | "opc = OP_DIV" | "opc = OP_MOD"
    | "OP_BOOLAND \<le> opc \<and> opc \<le> OP_MAX"
    using assms by (auto simp: binary_opcode_def) linarith
  then show ?thesis
  proof cases
    case 6
    then have "opc \<in> {OP_BOOLAND, OP_BOOLOR, OP_NUMEQUAL, OP_NUMEQUALVERIFY, OP_NUMNOTEQUAL, OP_LESSTHAN,
        OP_GREATERTHAN, OP_LESSTHANOREQUAL, OP_GREATERTHANOREQUAL, OP_MIN, OP_MAX}"
      unfolding insert_iff empty_iff by presburger
    then show ?thesis
      by (elim insertE emptyE) (auto simp: binary_result_def binary_meaning_def cmp min_def max_def)
  qed (auto simp: binary_result_def binary_meaning_def bn_of_bigint_ops bn_div_mod_of_bigint names)
qed

subsection \<open>Opcodes without a memory limit\<close>

lemma push_unlimited:
  "e_memoryLimit E = None \<Longrightarrow> pushStack E it s =
     (Inr (), s\<lparr>sp_stack := it # sp_stack s, sp_stackMem := sp_stackMem s + int (item_size it)\<rparr>)"
  by (simp add: pushStack_def thn_apply ensureStackMem_def)

lemma require_ok: "n \<le> length (sp_stack s) \<Longrightarrow> requireStackItems n m s = (Inr (), s)"
  by (simp add: requireStackItems_def bnd_apply fail_if_def not_less)

lemma pop_Cons: "sp_stack s = it # r \<Longrightarrow>
    popStack s = (Inr it, s\<lparr>sp_stack := r, sp_stackMem := sp_stackMem s - int (item_size it)\<rparr>)"
  by (simp add: popStack_def)

lemmas run_simps = thn_apply bnd_apply fail_if_def fail_def lift_js_def require_for_def require_ok pop_Cons push_unlimited

text \<open>C7: Every binary arithmetic opcode but OP_NUMEQUALVERIFY pops its two operands and pushes the
  canonical encoding of the integer its name promises, OP_DIV and OP_MOD truncating towards zero; a
  division by zero is a script error.\<close>

theorem binary_opcodes_compute:
  assumes "binary_opcode opc" "opc \<noteq> OP_NUMEQUALVERIFY" "e_memoryLimit E = None"
    and "sp_stack s = y # x # r" "reads_as E (item_bytes x) a" "reads_as E (item_bytes y) b"
  shows "case binary_meaning opc a b of
      None \<Rightarrow> fst (op_binary E opc s) = Inl (ScriptEvaluation (op_text opc @ '' cannot divide by zero!''))
    | Some v \<Rightarrow> fst (op_binary E opc s) = Inr ()
        \<and> sp_stack (snd (op_binary E opc s)) = fresh (toScriptNum (bn_of_bigint v)) # r"
  using assms
  by (auto simp: op_binary_def run_simps ensureStackMem_def readScriptNumber_value binary_result_meaning
      split: option.split)

definition bare_env :: "(bytes \<Rightarrow> bytes) \<Rightarrow> (bytes \<Rightarrow> js_error + 'k) \<Rightarrow>
    (big_number \<Rightarrow> tx_signature \<Rightarrow> 'k \<Rightarrow> js_error + bool) \<Rightarrow> 'k spend_env" where
  "bare_env h pk vf = \<lparr>e_sourceTXID = toHex (replicate 32 7), e_sourceOutputIndex = 0, e_sourceSatoshis = 1000,
     e_transactionVersion = 1, e_otherInputs = [], e_allInputs = None, e_outputs = [], e_inputIndex = 0,
     e_inputSequence = 0xffffffff, e_lockTime = 0, e_memoryLimit = None, e_isRelaxedOverride = False,
     e_verifyFlags = None, e_ownsSigHashCache = True, e_ripemd160 = h, e_sha1 = h, e_sha256 = h,
     e_hash160 = h, e_hash256 = h, e_publicKey = pk, e_verify = vf\<rparr>"

definition stack_state :: "item list \<Rightarrow> spend" where
  "stack_state its = \<lparr>sp_context = LockingScript, sp_pc = 0, sp_lastCodeSeparator = None, sp_stack = its,
     sp_altStack = [], sp_ifStack = [], sp_elseStack = [], sp_stackMem = mem_of its, sp_altStackMem = 0,
     sp_executedOpCount = 0, sp_returning = False, sp_unlocking = new_script [], sp_locking = new_script [],
     sp_cache = empty_cache\<rparr>"

abbreviation unit_env :: "unit spend_env" where
  "unit_env \<equiv> bare_env (\<lambda>b. b) (\<lambda>_. Inr ()) (\<lambda>_ _ _. Inr True)"

lemma reads_as_number: "shouldEnforceMinimalData E \<Longrightarrow> scriptNumMaxSize E = None \<Longrightarrow>
    reads_as E (toScriptNum (bn_of_bigint v)) v"
  by (simp add: reads_as_def fromScriptNum_canonical)

lemma unit_env_rules [simp]: "shouldEnforceMinimalData unit_env" "scriptNumMaxSize unit_env = None"
  "e_memoryLimit unit_env = None"
  by (simp_all add: bare_env_def shouldEnforceMinimalData_def malleability_rule_def scriptNumMaxSize_def
      hasExplicitFlags_def isRelaxed_def)

lemma binary_opcodes_compute_witness:
  "sp_stack (snd (op_binary unit_env OP_DIV
      (stack_state [fresh (toScriptNum (bn_of_bigint 2)), fresh (toScriptNum (bn_of_bigint (-7)))])))
    = [fresh (toScriptNum (bn_of_bigint (-3)))]"
proof -
  have "binary_meaning OP_DIV (-7) 2 = Some (-3)" by (simp add: binary_meaning_def signed_divide_int_def)
  then show ?thesis
    using binary_opcodes_compute[of OP_DIV unit_env "stack_state [fresh (toScriptNum (bn_of_bigint 2)),
        fresh (toScriptNum (bn_of_bigint (-7)))]" _ _ "[]" "-7" 2]
    by (simp add: binary_opcode_def stack_state_def reads_as_number)
qed

subsection \<open>OP_BIN2NUM and OP_NUM2BIN\<close>

definition written :: "item \<Rightarrow> bytes \<Rightarrow> spend \<Rightarrow> spend" where
  "written it d s = snd (write_through it d s)"

lemma write_through_written: "write_through it d s = (Inr (), written it d s)"
  by (simp add: written_def write_through_def split: option.split)

lemma written_stack [simp]: "sp_stack (written it d s) = sp_stack s" "sp_stackMem (written it d s) = sp_stackMem s"
  by (simp_all add: written_def write_through_def split: option.split)

lemma minimal_item_result:
  "\<exists>it' t. minimal_item it s = (Inr it', t) \<and> item_bytes it' = toScriptNum (fromSm True (item_bytes it))
     \<and> sp_stack t = sp_stack s \<and> sp_stackMem t = sp_stackMem s"
proof (cases "minimallyEncode (item_bytes it)")
  case (Pair o1 b)
  show ?thesis
  proof (cases o1)
    case None
    have "b = item_bytes it"
      using Pair None by (auto simp: minimallyEncode_def Let_def split: if_splits prod.splits)
    with Pair None minimal_form_canonical[of "item_bytes it"] show ?thesis
      by (simp add: minimal_item_def minimal_form_def)
  next
    case (Some r)
    with Pair minimal_form_canonical[of "item_bytes it"] show ?thesis
      by (simp add: minimal_item_def minimal_form_def thn_apply write_through_written)
  qed
qed

lemma signed_tail_length: "length (signed_tail ys l) \<le> Suc (length ys)"
  by (simp add: signed_tail_def)

lemma without_trailing_zeros_length: "length (without_trailing_zeros bs) \<le> length bs"
  using length_dropWhile_le[of "(=) 0" "rev bs"] by (simp add: without_trailing_zeros_def)

lemma minimal_length: "length (toScriptNum (fromSm True buf)) \<le> length buf"
proof (cases "buf = [] \<or> \<not> non_minimal buf")
  case False
  have "length (signed_tail (without_trailing_zeros (butlast buf)) (last buf)) \<le> Suc (length (butlast buf))"
    using signed_tail_length without_trailing_zeros_length by (meson Suc_le_mono le_trans)
  with False minimal_form_canonical[of buf] show ?thesis by (auto simp: minimal_form_cases)
qed (use minimal_form_canonical[of buf] minimal_form_cases[of buf] in auto)

lemma minimal_is_minimal:
  assumes "length buf \<le> max_safe_integer"
  shows "isMinimallyEncodedHelper max_safe_integer (toScriptNum (fromSm True buf))"
  using minimal_form_minimal[of buf] minimal_form_canonical[of buf] minimal_length[of buf] assms
  by (auto simp: isMinimallyEncodedHelper_def non_minimal_def)

text \<open>OP_BIN2NUM never fails on a stack whose memory is accounted for: it replaces the top entry
  by the canonical script number of the same integer, whatever the padding of the entry.\<close>

theorem bin2num_canonical:
  assumes "accounts E s" "sp_stack s = it # r" "item_size it \<le> max_safe_integer"
  shows "fst (op_bin2num E s) = Inr ()
    \<and> map item_bytes (sp_stack (snd (op_bin2num E s)))
       = toScriptNum (fromSm True (item_bytes it)) # map item_bytes r"
proof -
  let ?s = "s\<lparr>sp_stack := r, sp_stackMem := sp_stackMem s - int (item_size it)\<rparr>"
  obtain it' t where m: "minimal_item it ?s = (Inr it', t)" "item_bytes it' = toScriptNum (fromSm True (item_bytes it))"
    "sp_stack t = r" "sp_stackMem t = sp_stackMem s - int (item_size it)"
    using minimal_item_result[of it ?s] by auto
  have "within_limit E (sp_stackMem t + int (item_size it'))"
    using assms(1) minimal_length[of "item_bytes it"] m by (auto simp: accounts_def elim: within_limit_mono)
  then have "pushStack E it' t = (Inr (), t\<lparr>sp_stack := it' # r, sp_stackMem := sp_stackMem t + int (item_size it')\<rparr>)"
    using m by (auto simp: pushStack_def thn_apply ensureStackMem_def within_limit_def split: option.splits)
  with m minimal_is_minimal[OF assms(3)] assms(2) show ?thesis
    by (simp add: op_bin2num_def thn_apply bnd_apply fail_if_def require_ok pop_Cons)
qed

lemma bin2num_canonical_witness:
  "map item_bytes (sp_stack (snd (op_bin2num unit_env (stack_state [fresh [5, 0, 0x80]]))))
   = [toScriptNum (fromSm True [5, 0, 0x80])]"
  using bin2num_canonical[of unit_env "stack_state [fresh [5, 0, 0x80]]" "fresh [5, 0, 0x80]" "[]"]
  by (simp add: accounts_def stack_state_def within_limit_def)

text \<open>OP_NUM2BIN succeeds exactly when the size fits the rules and the canonical encoding of the number,
  and then pushes exactly that many bytes, which denote the same integer.\<close>

theorem num2bin_exact:
  assumes "e_memoryLimit E = None" "maxPushSize E = None"
    and "sp_stack s = k # x # r" "reads_as E (item_bytes k) n"
  shows "(fst (op_num2bin E s) = Inr () \<longleftrightarrow>
       0 \<le> n \<and> n \<le> 0x7fffffff \<and> int (length (toScriptNum (fromSm True (item_bytes x)))) \<le> n)
    \<and> (fst (op_num2bin E s) = Inr () \<longrightarrow>
        (\<exists>b. map item_bytes (sp_stack (snd (op_num2bin E s))) = b # map item_bytes r
           \<and> int (length b) = n \<and> fromSm True b = fromSm True (item_bytes x)))"
proof -
  let ?s1 = "s\<lparr>sp_stack := x # r, sp_stackMem := sp_stackMem s - int (item_size k)\<rparr>"
  let ?s2 = "?s1\<lparr>sp_stack := r, sp_stackMem := sp_stackMem ?s1 - int (item_size x)\<rparr>"
  obtain it t where m: "minimal_item x ?s2 = (Inr it, t)" "sp_stack t = r"
      "item_bytes it = toScriptNum (fromSm True (item_bytes x))"
    using minimal_item_result[of x ?s2] by auto
  have v: "fromSm True (item_bytes it) = fromSm True (item_bytes x)"
    using m(3) fromSm_minimal_form[of "item_bytes x"] minimal_form_canonical[of "item_bytes x"] by simp
  have step: "op_num2bin E s = (if n < 0 then fail (''It's not currently possible to push data larger than Infinity bytes or negative size.'') ?s1
      else if n > 0x7fffffff then fail ''OP_NUM2BIN size exceeds the node int32 push limit.'' ?s1
      else if length (item_bytes it) > nat n then fail ''OP_NUM2BIN requires that the size expressed in the top stack item is large enough to hold the value expressed in the second-from-top stack item.'' t
      else if length (item_bytes it) = nat n then pushStack E it t
      else pushStack E (fresh (pad_number (item_bytes it) (nat n)))
        (if item_bytes it \<noteq> [] then written it (butlast (item_bytes it) @ [and (last (item_bytes it)) 0x7f]) t else t))"
    using assms m
    by (auto simp: op_num2bin_def Let_def pop_number_def run_simps readScriptNumber_value above_limit_def
        limit_text_def write_through_written split: prod.split)
  show ?thesis
  proof (cases "0 \<le> n \<and> n \<le> 0x7fffffff \<and> int (length (item_bytes it)) \<le> n")
    case False
    then show ?thesis unfolding step m(3)[symmetric] by (auto simp: fail_def nat_less_iff)
  next
    case True
    show ?thesis
    proof (cases "int (length (item_bytes it)) = n")
      case eq: True
      then show ?thesis
        using True assms(1) v m unfolding step m(3)[symmetric] by (auto simp: push_unlimited)
    next
      case neq: False
      then have "length (item_bytes it) < nat n" using True by linarith
      from pad_number_value[OF this] show ?thesis
        using True neq assms(1) v m unfolding step m(3)[symmetric]
        by (auto simp: push_unlimited)
    qed
  qed
qed

lemma num2bin_exact_witness:
  "fst (op_num2bin unit_env (stack_state [fresh (toScriptNum (bn_of_bigint 3)), fresh [0x85]])) = Inr ()"
proof -
  have "length (toScriptNum (fromSm True [0x85])) \<le> 1" using minimal_length[of "[0x85]"] by simp
  then show ?thesis
    using num2bin_exact[of unit_env "stack_state [fresh (toScriptNum (bn_of_bigint 3)), fresh [0x85]]" _ _ "[]" 3]
    by (simp add: stack_state_def reads_as_number maxPushSize_def hasExplicitFlags_def bare_env_def
        shouldEnforceMinimalData_def malleability_rule_def isRelaxed_def scriptNumMaxSize_def)
qed

end
