(* ===== verification/Spend_Programs.thy ===== *)
theory Spend_Programs
  imports Spend_Numbers
begin

text \<open>
  Whole scripts in the interpreter: rules for one step under the default rules (no explicit flags, no
  memory limit), and what they give for two scripts, the pay-to-public-key-hash template and a
  script whose validation rewrites it.
\<close>

subsection \<open>Steps under the default rules\<close>

definition default_rules :: "'k spend_env \<Rightarrow> bool" where
  "default_rules E \<longleftrightarrow> e_verifyFlags E = None \<and> e_memoryLimit E = None \<and> \<not> isRelaxed E \<and> e_ownsSigHashCache E"

lemma default_rules_simps:
  assumes "default_rules E"
  shows "\<not> hasExplicitFlags E" "\<not> hasFlag E f" "e_memoryLimit E = None" "\<not> isAfterGenesis E"
    "shouldEnforceMinimalData E" "scriptNumMaxSize E = None" "maxPushSize E = None"
    "shouldEnforceSigPushOnly E" "shouldEnforceCleanStack E" "shouldEnforceDerSignatures E" "e_ownsSigHashCache E"
  using assms
  by (simp_all add: default_rules_def hasExplicitFlags_def hasFlag_def isAfterGenesis_def maxPushSize_def
      shouldEnforceMinimalData_def malleability_rule_def scriptNumMaxSize_def shouldEnforceSigPushOnly_def
      shouldEnforceCleanStack_def shouldEnforceDerSignatures_def)

text \<open>A state in the middle of a script, with nothing on the other stacks.\<close>

definition running :: "spend \<Rightarrow> script_context \<Rightarrow> nat \<Rightarrow> item list \<Rightarrow> spend \<Rightarrow> bool" where
  "running s0 c pc its s \<longleftrightarrow> sp_context s = c \<and> sp_pc s = pc \<and> sp_stack s = its
     \<and> sp_stackMem s = mem_of its \<and> sp_ifStack s = [] \<and> \<not> sp_returning s \<and> sp_lastCodeSeparator s = None
     \<and> sp_unlocking s = sp_unlocking s0 \<and> sp_locking s = sp_locking s0 \<and> sp_cache s = sp_cache s0"

lemma running_scripts [simp]: "running s0 c pc its s \<Longrightarrow> script_in c' s = script_in c' s0"
  by (cases c') (simp_all add: running_def script_in_def)

lemma step_chunk:
  assumes "default_rules E" "running s0 c pc its s" "at (chunks_of (script_in c s0)) pc = Some ch"
  shows "step E s = execute_chunk E ch s"
  using assms default_rules_simps(3)[OF assms(1)] running_scripts[OF assms(2)]
  by (auto simp: step_def thn_apply bnd_apply enforceStepResourceLimits_def currentScriptForStep_def
      running_def current_chunks_def script_in_def at_def split: if_splits)

lemma advance_running:
  "running s0 c pc its s \<Longrightarrow> default_rules E \<Longrightarrow>
     advanceAfterStep E s = (Inr True, s\<lparr>sp_pc := pc + 1\<rparr>)"
  using default_rules_simps(1)[of E]
  by (auto simp: advanceAfterStep_def thn_apply bnd_apply move_pc_def enforce_item_count_def fail_if_def running_def)

lemma running_pc: "running s0 c pc its s \<Longrightarrow> running s0 c q its (s\<lparr>sp_pc := q\<rparr>)"
  by (simp add: running_def)

lemma push_step:
  assumes "default_rules E" "running s0 c pc its s" "at (chunks_of (script_in c s0)) pc = Some (push_chunk n d)"
    and "n \<le> OP_PUSHDATA4" "isChunkMinimalPushHelper (push_chunk n d)"
  shows "\<exists>t. step E s = (Inr True, t) \<and> running s0 c (pc + 1) (Item d (Some (c, pc)) # its) t"
proof -
  let ?t = "s\<lparr>sp_stack := Item d (Some (c, pc)) # sp_stack s, sp_stackMem := sp_stackMem s + int (length d)\<rparr>"
  have r: "running s0 c pc (Item d (Some (c, pc)) # its) ?t"
    using assms(2) by (simp add: running_def)
  have "executeDataPush E (push_chunk n d) s = (Inr (), ?t)"
    using assms(1,2,5) by (simp add: executeDataPush_def bnd_apply thn_apply fail_if_def push_unlimited
        default_rules_simps running_def)
  then have "step E s = (Inr True, ?t\<lparr>sp_pc := pc + 1\<rparr>)"
    unfolding step_chunk[OF assms(1-3)]
    using assms(1,2,4) advance_running[OF r assms(1)]
    by (simp add: execute_chunk_def opcodeForOperation_def bnd_apply thn_apply fail_if_def above_limit_def
        default_rules_simps isScriptExecuting_def running_def enforceChronicleOnlyOpcode_def)
  with running_pc[OF r] show ?thesis by blast
qed

text \<open>An opcode starts from a state whose count is one higher.\<close>

lemma opcode_step:
  assumes "default_rules E" "running s0 c pc its s" "at (chunks_of (script_in c s0)) pc = Some (op_chunk n)"
    and "OP_PUSHDATA4 < n"
  shows "\<exists>s'. running s0 c pc its s' \<and> step E s = thn (execute_opcode E n True) (advanceAfterStep E) s'"
proof -
  let ?s = "if n \<le> OP_16 then s else s\<lparr>sp_executedOpCount := sp_executedOpCount s + 1\<rparr>"
  have "running s0 c pc its ?s" using assms(2) by (simp add: running_def)
  moreover have "step E s = thn (execute_opcode E n True) (advanceAfterStep E) ?s"
    unfolding step_chunk[OF assms(1-3)]
    using assms(1,2,4)
    by (simp add: execute_chunk_def opcodeForOperation_def bnd_apply thn_apply fail_if_def
        default_rules_simps isScriptExecuting_def running_def enforceChronicleOnlyOpcode_def
        skipUnavailablePreChronicleOpcode_def enforceDiscouragedNop_def countExecutedOpcode_def)
  ultimately show ?thesis by blast
qed

subsection \<open>Runs\<close>

text \<open>From every state of the first description the loop goes on as from one of the second.\<close>

definition reaches :: "'k spend_env \<Rightarrow> script_context \<Rightarrow> spend \<Rightarrow> nat \<Rightarrow> item list \<Rightarrow> spend \<Rightarrow> nat \<Rightarrow> item list \<Rightarrow> bool" where
  "reaches E c s0 pc its s1 pc' its' \<longleftrightarrow>
     (\<forall>s. running s0 c pc its s \<longrightarrow> (\<exists>t. running s1 c pc' its' t \<and> run_loop E s = run_loop E t))"

text \<open>From every state of the description the loop throws the error.\<close>

definition fails_with :: "'k spend_env \<Rightarrow> script_context \<Rightarrow> spend \<Rightarrow> nat \<Rightarrow> item list \<Rightarrow> spend_error \<Rightarrow> bool" where
  "fails_with E c s0 pc its e \<longleftrightarrow> (\<forall>s. running s0 c pc its s \<longrightarrow> fst (run_loop E s) = Inl e)"

lemma reaches_refl: "reaches E c s0 pc its s0 pc its"
  by (auto simp: reaches_def)

lemma reaches_trans [trans]:
  "reaches E c s0 pc its s1 pc1 its1 \<Longrightarrow> reaches E c s1 pc1 its1 s2 pc2 its2 \<Longrightarrow> reaches E c s0 pc its s2 pc2 its2"
  unfolding reaches_def by metis

lemma reaches_fails [trans]:
  "reaches E c s0 pc its s1 pc1 its1 \<Longrightarrow> fails_with E c s1 pc1 its1 e \<Longrightarrow> fails_with E c s0 pc its e"
  unfolding reaches_def fails_with_def by metis

lemma run_loop_step:
  assumes "running s0 c pc its s" "at (chunks_of (script_in c s0)) pc = Some ch"
  shows "run_loop E s = (case step E s of (Inl e, t) \<Rightarrow> (Inl e, t) | (Inr _, t) \<Rightarrow> run_loop E t)"
proof -
  have "sp_pc s < length (current_chunks s)"
    using assms running_scripts[OF assms(1), of c]
    by (auto simp: at_def current_chunks_def running_def split: if_splits)
  then show ?thesis by (simp add: run_loop.simps[of E s])
qed

lemma reaches_push:
  assumes "default_rules E" "at (chunks_of (script_in c s0)) pc = Some (push_chunk n d)"
    and "n \<le> OP_PUSHDATA4" "isChunkMinimalPushHelper (push_chunk n d)"
  shows "reaches E c s0 pc its s0 (pc + 1) (Item d (Some (c, pc)) # its)"
  unfolding reaches_def
proof (intro allI impI)
  fix s
  assume r: "running s0 c pc its s"
  from push_step[OF assms(1) r assms(2-4)] obtain t where
    "step E s = (Inr True, t)" "running s0 c (pc + 1) (Item d (Some (c, pc)) # its) t" by blast
  with run_loop_step[OF r assms(2), of E]
  show "\<exists>t. running s0 c (pc + 1) (Item d (Some (c, pc)) # its) t \<and> run_loop E s = run_loop E t"
    by (intro exI[of _ t]) simp
qed

lemma reaches_opcode:
  assumes "default_rules E" "at (chunks_of (script_in c s0)) pc = Some (op_chunk n)" "OP_PUSHDATA4 < n"
    and ex: "\<And>s. running s0 c pc its s \<Longrightarrow>
      \<exists>t. execute_opcode E n True s = (Inr (), t) \<and> running s1 c pc its1 t"
  shows "reaches E c s0 pc its s1 (pc + 1) its1"
  unfolding reaches_def
proof (intro allI impI)
  fix s
  assume r: "running s0 c pc its s"
  from opcode_step[OF assms(1) r assms(2-3)] obtain s' where
    s': "running s0 c pc its s'" "step E s = thn (execute_opcode E n True) (advanceAfterStep E) s'" by blast
  from ex[OF s'(1)] obtain t where t: "execute_opcode E n True s' = (Inr (), t)" "running s1 c pc its1 t" by blast
  have "step E s = (Inr True, t\<lparr>sp_pc := pc + 1\<rparr>)"
    using s'(2) t advance_running[OF t(2) assms(1)] by simp
  with run_loop_step[OF r assms(2), of E] running_pc[OF t(2), of "pc + 1"]
  show "\<exists>t. running s1 c (pc + 1) its1 t \<and> run_loop E s = run_loop E t"
    by (intro exI[of _ "t\<lparr>sp_pc := pc + 1\<rparr>"]) simp
qed

lemma fails_opcode:
  assumes "default_rules E" "at (chunks_of (script_in c s0)) pc = Some (op_chunk n)" "OP_PUSHDATA4 < n"
    and ex: "\<And>s. running s0 c pc its s \<Longrightarrow> fst (execute_opcode E n True s) = Inl e"
  shows "fails_with E c s0 pc its e"
  unfolding fails_with_def
proof (intro allI impI)
  fix s
  assume r: "running s0 c pc its s"
  from opcode_step[OF assms(1) r assms(2-3)] obtain s' where
    s': "running s0 c pc its s'" "step E s = thn (execute_opcode E n True) (advanceAfterStep E) s'" by blast
  from ex[OF s'(1)] s'(2) run_loop_step[OF r assms(2), of E] show "fst (run_loop E s) = Inl e"
    by (cases "execute_opcode E n True s'") simp
qed

lemma run_loop_end:
  "running s0 c pc its s \<Longrightarrow> length (chunks_of (script_in c s0)) \<le> pc \<Longrightarrow> run_loop E s = (Inr (), s)"
  using running_scripts[of s0 c pc its s c]
  by (simp add: run_loop.simps[of E s] current_chunks_def running_def)

subsection \<open>The two scripts of a spend\<close>

definition ready :: "spend \<Rightarrow> item list \<Rightarrow> spend \<Rightarrow> bool" where
  "ready s0 its s \<longleftrightarrow> sp_stack s = its \<and> sp_stackMem s = mem_of its \<and> sp_unlocking s = sp_unlocking s0
     \<and> sp_locking s = sp_locking s0 \<and> sp_cache s = sp_cache s0"

lemma running_begin: "ready s0 its s \<Longrightarrow> running s0 c 0 its (begin_script c s)"
  by (simp add: ready_def running_def begin_script_def clearAltStack_def)

lemma size_default: "default_rules E \<Longrightarrow> check_script_size E c s = (Inr (), s)"
  by (simp add: check_script_size_def default_rules_simps)

lemma runScript_ok:
  assumes "default_rules E" "ready s0 its s" "reaches E c s0 0 its s1 pc1 its1"
    and "length (chunks_of (script_in c s1)) \<le> pc1"
  shows "\<exists>t. runScript E c s = (Inr (), t) \<and> ready s1 its1 t"
proof -
  from running_begin[OF assms(2)] assms(3) obtain t where
    t: "running s1 c pc1 its1 t" "run_loop E (begin_script c s) = run_loop E t"
    unfolding reaches_def by blast
  have "run_loop E t = (Inr (), t)" by (rule run_loop_end[OF t(1) assms(4)])
  with t have "runScript E c s = (Inr (), end_script t)"
    by (simp add: runScript_def thn_apply bnd_apply size_default[OF assms(1)] fail_if_def running_def)
  moreover have "ready s1 its1 (end_script t)"
    using t(1) by (simp add: ready_def running_def end_script_def clearAltStack_def)
  ultimately show ?thesis by blast
qed

lemma runScript_fails:
  assumes "default_rules E" "ready s0 its s" "fails_with E c s0 0 its e"
  shows "fst (runScript E c s) = Inl e"
proof -
  have "fst (run_loop E (begin_script c s)) = Inl e"
    using running_begin[OF assms(2)] assms(3) unfolding fails_with_def by blast
  then show ?thesis
    by (cases "run_loop E (begin_script c s)") (simp add: runScript_def thn_apply size_default[OF assms(1)])
qed

lemma ready_reset: "ready (reset E s) [] (reset E s)"
  by (simp add: ready_def reset_def)

lemma truthy_top:
  "requireTruthyTopStack t = (case sp_stack t of
      [] \<Rightarrow> (Inl (ScriptEvaluation ''The top stack element must be truthy after script evaluation (stack is empty).''), t)
    | x # r \<Rightarrow> if castToBool (item_bytes x) then (Inr (), t)
        else (Inl (ScriptEvaluation ''The top stack element must be truthy after script evaluation.''), t))"
  by (simp add: requireTruthyTopStack_def bnd_apply fail_def fail_if_def stackTop_def split: list.split)

lemma validate_unlocked:
  assumes "default_rules E" "all_push_only (sp_unlocking s) = Inr True"
    and "reaches E UnlockingScript (reset E s) 0 [] s1 pc1 its1"
    and "length (chunks_of (sp_unlocking s1)) \<le> pc1"
  shows "\<exists>t bs. ready s1 its1 t \<and> validateJavaScript E s = evaluate_locking E False bs t"
proof -
  from runScript_ok[OF assms(1) ready_reset assms(3)] assms(4) obtain t where
    t: "runScript E UnlockingScript (reset E s) = (Inr (), t)" "ready s1 its1 t"
    by (auto simp: script_in_def)
  have "all_push_only (sp_unlocking (reset E s)) = Inr True" using assms(2) by (simp add: reset_def)
  with t have "validateJavaScript E s = evaluate_locking E False (map item_bytes (sp_stack t)) t"
    by (simp add: validateJavaScript_def validation_body_def Let_def thn_apply bnd_apply lift_js_def fail_if_def
        default_rules_simps[OF assms(1)])
  with t show ?thesis by blast
qed

lemma validate_result:
  assumes "default_rules E" "all_push_only (sp_unlocking s) = Inr True"
    and "reaches E UnlockingScript (reset E s) 0 [] s1 pc1 its1" "length (chunks_of (sp_unlocking s1)) \<le> pc1"
    and "reaches E LockingScript s1 0 its1 s2 pc2 [x]" "length (chunks_of (sp_locking s2)) \<le> pc2"
  shows "fst (validateJavaScript E s) = (if castToBool (item_bytes x) then Inr True
      else Inl (ScriptEvaluation ''The top stack element must be truthy after script evaluation.''))
    \<and> ready s2 [x] (snd (validateJavaScript E s))"
proof -
  from validate_unlocked[OF assms(1-4)] obtain t bs where t: "ready s1 its1 t"
    "validateJavaScript E s = evaluate_locking E False bs t" by blast
  from runScript_ok[OF assms(1) t(1) assms(5)] assms(6) obtain u where
    u: "runScript E LockingScript t = (Inr (), u)" "ready s2 [x] u" by (auto simp: script_in_def)
  then have "sp_stack u = [x]" by (simp add: ready_def)
  with t(2) u show ?thesis
    by (simp add: evaluate_locking_def clean_and_truthy_def thn_apply bnd_apply truthy_top fail_if_def)
qed

lemma validate_fails:
  assumes "default_rules E" "all_push_only (sp_unlocking s) = Inr True"
    and "reaches E UnlockingScript (reset E s) 0 [] s1 pc1 its1" "length (chunks_of (sp_unlocking s1)) \<le> pc1"
    and "fails_with E LockingScript s1 0 its1 e"
  shows "fst (validateJavaScript E s) = Inl e"
proof -
  from validate_unlocked[OF assms(1-4)] obtain t bs where t: "ready s1 its1 t"
    "validateJavaScript E s = evaluate_locking E False bs t" by blast
  from runScript_fails[OF assms(1) t(1) assms(5)] t(2) show ?thesis
    by (cases "runScript E LockingScript t") (simp add: evaluate_locking_def thn_apply)
qed

subsection \<open>Single opcodes\<close>

lemma execute_opcode_simps:
  "execute_opcode E OP_DUP x = op_dup E"
  "execute_opcode E OP_HASH160 x = op_hash E OP_HASH160"
  "execute_opcode E OP_EQUALVERIFY x = op_equal E OP_EQUALVERIFY"
  "execute_opcode E OP_CHECKSIG x = op_checksig E OP_CHECKSIG"
  "execute_opcode E OP_NUM2BIN x = op_num2bin E"
  "execute_opcode E OP_BIN2NUM x = op_bin2num E"
  "execute_opcode E OP_WITHIN x = op_within E"
  "execute_opcode E OP_3 x = push_small E 3"
  "execute_opcode E OP_1NEGATE x = push_small E (-1)"
  by (simp_all add: execute_opcode_def splice_shift_opcodes_def control_opcodes_def stack_opcodes_def
      data_opcodes_def crypto_opcodes_def)

lemma require_running:
  "running s0 c pc its s \<Longrightarrow> n \<le> length its \<Longrightarrow> requireStackItems n m s = (Inr (), s)"
  by (simp add: require_ok running_def)

lemma pop_running:
  "running s0 c pc (x # its) s \<Longrightarrow> \<exists>t. popStack s = (Inr x, t) \<and> running s0 c pc its t"
  by (auto simp: pop_Cons running_def)

lemma push_running:
  "default_rules E \<Longrightarrow> running s0 c pc its s \<Longrightarrow> \<exists>t. pushStack E x s = (Inr (), t) \<and> running s0 c pc (x # its) t"
  by (auto simp: push_unlimited default_rules_simps running_def)

lemma dup_running:
  assumes "default_rules E" "running s0 c pc (x # its) s"
  shows "\<exists>t. op_dup E s = (Inr (), t) \<and> running s0 c pc (fresh (item_bytes x) # x # its) t"
  using push_running[OF assms, of "fresh (item_bytes x)"] assms(2) require_running[OF assms(2), of 1]
  by (auto simp: op_dup_def thn_apply bnd_apply stackTop_def running_def pushStackCopy_def)

lemma hash160_running:
  assumes "default_rules E" "running s0 c pc (x # its) s"
  shows "\<exists>t. op_hash E OP_HASH160 s = (Inr (), t) \<and> running s0 c pc (fresh (e_hash160 E (item_bytes x)) # its) t"
proof -
  from pop_running[OF assms(2)] obtain t where t: "popStack s = (Inr x, t)" "running s0 c pc its t" by blast
  from push_running[OF assms(1) t(2), of "fresh (e_hash160 E (item_bytes x))"] t(1) require_running[OF assms(2), of 1]
  show ?thesis by (auto simp: op_hash_def require_for_def thn_apply bnd_apply hash_result_def)
qed

lemma equalverify_running:
  assumes "default_rules E" "running s0 c pc (x # y # its) s"
  shows "item_bytes x = item_bytes y \<Longrightarrow> \<exists>t. op_equal E OP_EQUALVERIFY s = (Inr (), t) \<and> running s0 c pc its t"
    and "item_bytes x \<noteq> item_bytes y \<Longrightarrow> fst (op_equal E OP_EQUALVERIFY s)
      = Inl (ScriptEvaluation ''OP_EQUALVERIFY requires the top two stack items to be equal.'')"
proof -
  from pop_running[OF assms(2)] obtain t where t: "popStack s = (Inr x, t)" "running s0 c pc (y # its) t" by blast
  from pop_running[OF t(2)] obtain u where u: "popStack t = (Inr y, u)" "running s0 c pc its u" by blast
  let ?v = "fresh (if item_bytes y = item_bytes x then [1] else [])"
  from push_running[OF assms(1) u(2), of ?v] obtain w where
    w: "pushStack E ?v u = (Inr (), w)" "running s0 c pc (?v # its) w" by blast
  from pop_running[OF w(2)] obtain z where z: "popStack w = (Inr ?v, z)" "running s0 c pc its z" by blast
  note facts = t(1) u(1) w(1) z require_running[OF assms(2), of 2]
  show "item_bytes x = item_bytes y \<Longrightarrow> \<exists>t. op_equal E OP_EQUALVERIFY s = (Inr (), t) \<and> running s0 c pc its t"
    using facts by (auto simp: op_equal_def require_for_def thn_apply bnd_apply push_bool_def fail_if_def drop_item_def)
  show "item_bytes x \<noteq> item_bytes y \<Longrightarrow> fst (op_equal E OP_EQUALVERIFY s)
      = Inl (ScriptEvaluation ''OP_EQUALVERIFY requires the top two stack items to be equal.'')"
    using facts by (auto simp: op_equal_def require_for_def thn_apply bnd_apply push_bool_def fail_if_def)
qed

text \<open>From every state of the description the loop ends with the one entry on the stack.\<close>

definition leaves :: "'k spend_env \<Rightarrow> script_context \<Rightarrow> spend \<Rightarrow> nat \<Rightarrow> item list \<Rightarrow> item \<Rightarrow> bool" where
  "leaves E c s0 pc its x \<longleftrightarrow> (\<forall>s. running s0 c pc its s \<longrightarrow>
     (\<exists>t. run_loop E s = (Inr (), t) \<and> sp_stack t = [x] \<and> sp_ifStack t = []))"

lemma reaches_leaves [trans]:
  "reaches E c s0 pc its s1 pc1 its1 \<Longrightarrow> leaves E c s1 pc1 its1 x \<Longrightarrow> leaves E c s0 pc its x"
  unfolding reaches_def leaves_def by metis

lemma validate_leaves:
  assumes "default_rules E" "all_push_only (sp_unlocking s) = Inr True"
    and "reaches E UnlockingScript (reset E s) 0 [] s1 pc1 its1" "length (chunks_of (sp_unlocking s1)) \<le> pc1"
    and "leaves E LockingScript s1 0 its1 x"
  shows "fst (validateJavaScript E s) = (if castToBool (item_bytes x) then Inr True
      else Inl (ScriptEvaluation ''The top stack element must be truthy after script evaluation.''))"
proof -
  from validate_unlocked[OF assms(1-4)] obtain t bs where t: "ready s1 its1 t"
    "validateJavaScript E s = evaluate_locking E False bs t" by blast
  from running_begin[OF t(1)] assms(5) obtain u where
    u: "run_loop E (begin_script LockingScript t) = (Inr (), u)" "sp_stack u = [x]" "sp_ifStack u = []"
    unfolding leaves_def by blast
  then have "runScript E LockingScript t = (Inr (), end_script u)"
    by (simp add: runScript_def thn_apply bnd_apply size_default[OF assms(1)] fail_if_def)
  moreover have "sp_stack (end_script u) = [x]" using u by (simp add: end_script_def clearAltStack_def)
  ultimately show ?thesis using t(2)
    by (simp add: evaluate_locking_def clean_and_truthy_def thn_apply bnd_apply truthy_top fail_if_def)
qed

subsection \<open>OP_CHECKSIG\<close>

definition digest_accepted :: "'k spend_env \<Rightarrow> sighash_cache \<Rightarrow> tx_signature \<Rightarrow> 'k \<Rightarrow> bytes \<Rightarrow> bool" where
  "digest_accepted E c sg key b \<longleftrightarrow>
     (let p = sighash_request E b (sig_scope sg)
      in if usesOtdaSingleBug p then e_verify E (initArray_be (1 # replicate 31 0)) sg key = Inr True
         else (\<exists>pre. fst (formatBytes (e_hash256 E) p (Some c)) = Inr pre
                 \<and> e_verify E (initArray_be (e_hash256 E pre)) sg key = Inr True))"

lemma verifySignature_accepted:
  "fst (verifySignature E sg key b s) = Inr True \<longleftrightarrow> digest_accepted E (sp_cache s) sg key b"
  by (auto simp: verifySignature_def digest_accepted_def Let_def lift_js_def bnd_apply with_sighash_cache_def
      split: prod.splits sum.splits)

text \<open>The signature is one of the subscript by the key: what the body of OP_CHECKSIG decides.\<close>

definition signature_accepted :: "'k spend_env \<Rightarrow> sighash_cache \<Rightarrow> script_chunk list \<Rightarrow> bytes \<Rightarrow> bytes \<Rightarrow> bool" where
  "signature_accepted E c chunks bufSig bufPubkey \<longleftrightarrow>
     (\<exists>sg key sub b. parseChecksigSignature E bufSig = Inr sg \<and> e_publicKey E bufPubkey = Inr key
       \<and> (if and (sig_scope sg) SIGHASH_FORKID = 0 \<or> hasExplicitFlags E \<and> \<not> hasFlag E ''SIGHASH_FORKID''
          then delete_signature bufSig (new_script chunks) else Inr (new_script chunks)) = Inr sub
       \<and> script_bytes sub = Inr b \<and> digest_accepted E c sg key b)"

lemma checksig_body_accepted:
  "fst (checksig_body E bufSig bufPubkey s) = Inr True \<longleftrightarrow>
     signature_accepted E (sp_cache s) (checksig_chunks s) bufSig bufPubkey"
proof -
  have q: "fst ((case r of Inl e \<Rightarrow> Inl (Thrown e) | Inr x \<Rightarrow> Inr x, t)) = Inr True \<longleftrightarrow> r = Inr True" for r t
    by (cases r) auto
  show ?thesis
    unfolding checksig_body_def signature_accepted_def checksig_subscript_def Let_def
    by (cases "parseChecksigSignature E bufSig"; cases "e_publicKey E bufPubkey")
       (auto simp: lift_js_def bnd_apply verifySignature_accepted split: sum.split)
qed

lemma checksig_body_state:
  "\<exists>c. snd (checksig_body E bufSig bufPubkey s) = s\<lparr>sp_cache := c\<rparr>"
proof -
  have same: "\<exists>c. t = t\<lparr>sp_cache := c\<rparr>" for t :: spend by (intro exI[of _ "sp_cache t"]) simp
  have "\<exists>c. snd (verifySignature E sg key b t) = t\<lparr>sp_cache := c\<rparr>" for sg key b t
    by (auto simp: verifySignature_def Let_def lift_js_def bnd_apply with_sighash_cache_def same
        split: prod.split sum.split)
  then show ?thesis
    unfolding checksig_body_def
    by (auto simp: lift_js_def bnd_apply same split: sum.split)
qed

lemma checksig_running:
  assumes "default_rules E" "running s0 LockingScript pc (pk # sg # its) s"
    and "checkPublicKeyEncoding E (item_bytes pk) = Inr ()" "checkSignatureEncoding E (item_bytes sg) = Inr ()"
  shows "\<exists>t c. op_checksig E OP_CHECKSIG s = (Inr (), t)
    \<and> running (s0\<lparr>sp_cache := c\<rparr>) LockingScript pc
        (fresh (if item_bytes sg \<noteq> [] \<and> signature_accepted E (sp_cache s0) (chunks_of (sp_locking s0))
            (item_bytes sg) (item_bytes pk) then [1] else []) # its) t"
proof -
  from pop_running[OF assms(2)] obtain u where u: "popStack s = (Inr pk, u)" "running s0 LockingScript pc (sg # its) u" by blast
  from pop_running[OF u(2)] obtain v where v: "popStack u = (Inr sg, v)" "running s0 LockingScript pc its v" by blast
  define acc where "acc = (item_bytes sg \<noteq> [] \<and> signature_accepted E (sp_cache s0) (chunks_of (sp_locking s0))
            (item_bytes sg) (item_bytes pk))"
  obtain c where c: "(if length (item_bytes sg) = 0 then ret False
      else attempt False (checksig_body E (item_bytes sg) (item_bytes pk))) v = (Inr acc, v\<lparr>sp_cache := c\<rparr>)"
  proof (cases "item_bytes sg = []")
    case True
    then show ?thesis using that[of "sp_cache v"] by (simp add: acc_def)
  next
    case False
    have "checksig_chunks v = chunks_of (sp_locking s0)" "sp_cache v = sp_cache s0"
      using v(2) by (simp_all add: checksig_chunks_def chunks_from_separator_def current_chunks_def running_def script_in_def)
    with False have a: "acc \<longleftrightarrow> fst (checksig_body E (item_bytes sg) (item_bytes pk) v) = Inr True"
      by (simp add: acc_def checksig_body_accepted)
    obtain r t where b: "checksig_body E (item_bytes sg) (item_bytes pk) v = (r, t)" by fastforce
    then obtain c where "t = v\<lparr>sp_cache := c\<rparr>"
      using checksig_body_state[of E "item_bytes sg" "item_bytes pk" v] by auto
    with False a b show ?thesis
      using that[of c] by (cases r) (auto simp: attempt_def)
  qed
  have "running (s0\<lparr>sp_cache := c\<rparr>) LockingScript pc its (v\<lparr>sp_cache := c\<rparr>)"
    using v(2) by (simp add: running_def)
  from push_running[OF assms(1) this, of "fresh (if acc then [1] else [])"] obtain w where
    "pushStack E (fresh (if acc then [1] else [])) (v\<lparr>sp_cache := c\<rparr>) = (Inr (), w)"
    "running (s0\<lparr>sp_cache := c\<rparr>) LockingScript pc (fresh (if acc then [1] else []) # its) w" by blast
  moreover from this have "op_checksig E OP_CHECKSIG s = (Inr (), w)"
    using u(1) v(1) c assms(3,4) require_running[OF assms(2), of 2] default_rules_simps(2)[OF assms(1)]
    by (simp add: op_checksig_def require_for_def thn_apply bnd_apply fail_if_def push_bool_def Let_def)
  ultimately show ?thesis unfolding acc_def by blast
qed

lemma checksig_refuses:
  assumes "default_rules E" "running s0 LockingScript pc (pk # sg # its) s"
    and "checkSignatureEncoding E (item_bytes sg) = Inl e
      \<or> checkSignatureEncoding E (item_bytes sg) = Inr () \<and> checkPublicKeyEncoding E (item_bytes pk) = Inl e"
  shows "fst (op_checksig E OP_CHECKSIG s) = Inl e"
proof -
  from pop_running[OF assms(2)] obtain u where u: "popStack s = (Inr pk, u)" "running s0 LockingScript pc (sg # its) u" by blast
  from pop_running[OF u(2)] obtain v where v: "popStack u = (Inr sg, v)" by blast
  from u v assms(3) require_running[OF assms(2), of 2] show ?thesis
    by (auto simp: op_checksig_def require_for_def thn_apply bnd_apply Let_def)
qed

subsection \<open>Pay to public key hash\<close>

lemma all_push_only_chunks: "all_push_only sc = Inr (list_all (\<lambda>c. chunk_op c \<le> OP_16) (chunks_of sc))"
  by (simp add: all_push_only_def isPushOnly_def get_chunks_def thn_apply bnd_apply chunks_of_def)

definition p2pkh :: "bytes \<Rightarrow> script_chunk list" where
  "p2pkh h = [op_chunk OP_DUP, op_chunk OP_HASH160, push_chunk 20 h, op_chunk OP_EQUALVERIFY, op_chunk OP_CHECKSIG]"

lemma chunks_of_new [simp]: "chunks_of (new_script cs) = cs"
  by (simp add: chunks_of_def ensureParsed_def new_script_def)

lemma checksig_leaves:
  assumes "default_rules E" "chunks_of (sp_locking s0) = p2pkh h"
    and "checkPublicKeyEncoding E (item_bytes pk) = Inr ()" "checkSignatureEncoding E (item_bytes sg) = Inr ()"
  shows "leaves E LockingScript s0 4 [pk, sg]
    (fresh (if item_bytes sg \<noteq> [] \<and> signature_accepted E (sp_cache s0) (p2pkh h) (item_bytes sg) (item_bytes pk)
       then [1] else []))"
  unfolding leaves_def
proof (intro allI impI)
  fix s
  assume r: "running s0 LockingScript 4 [pk, sg] s"
  have at4: "at (chunks_of (script_in LockingScript s0)) 4 = Some (op_chunk OP_CHECKSIG)"
    using assms(2) by (simp add: script_in_def p2pkh_def at_def)
  from opcode_step[OF assms(1) r at4] obtain s' where
    s': "running s0 LockingScript 4 [pk, sg] s'"
    "step E s = thn (execute_opcode E OP_CHECKSIG True) (advanceAfterStep E) s'" by auto
  let ?x = "fresh (if item_bytes sg \<noteq> [] \<and> signature_accepted E (sp_cache s0) (p2pkh h) (item_bytes sg) (item_bytes pk)
       then [1] else [])"
  from checksig_running[OF assms(1) s'(1) assms(3,4)] obtain t c where
    t: "op_checksig E OP_CHECKSIG s' = (Inr (), t)" "running (s0\<lparr>sp_cache := c\<rparr>) LockingScript 4 [?x] t"
    unfolding assms(2) by blast
  have st: "step E s = (Inr True, t\<lparr>sp_pc := 5\<rparr>)"
    using s'(2) t(1) advance_running[OF t(2) assms(1)] by (simp add: thn_apply execute_opcode_simps)
  have "run_loop E (t\<lparr>sp_pc := 5\<rparr>) = (Inr (), t\<lparr>sp_pc := 5\<rparr>)"
    using run_loop_end[OF running_pc[OF t(2), of 5]] assms(2) by (simp add: script_in_def p2pkh_def)
  with run_loop_step[OF r at4, of E] st t(2)
  show "\<exists>t. run_loop E s = (Inr (), t) \<and> sp_stack t = [?x] \<and> sp_ifStack t = []"
    by (simp add: running_def)
qed

text \<open>What the two pushes of the unlocking script reach.\<close>

lemma two_pushes:
  assumes "default_rules E" "chunks_of (sp_unlocking s) = [push_chunk m sig, push_chunk n pk]"
    and "m \<le> OP_PUSHDATA4" "n \<le> OP_PUSHDATA4"
    and "isChunkMinimalPushHelper (push_chunk m sig)" "isChunkMinimalPushHelper (push_chunk n pk)"
  shows "reaches E UnlockingScript (reset E s) 0 [] (reset E s) 2
    [Item pk (Some (UnlockingScript, 1)), Item sig (Some (UnlockingScript, 0))]"
proof -
  have "sp_unlocking (reset E s) = sp_unlocking s" by (simp add: reset_def)
  then have c: "at (chunks_of (script_in UnlockingScript (reset E s))) 0 = Some (push_chunk m sig)"
    "at (chunks_of (script_in UnlockingScript (reset E s))) 1 = Some (push_chunk n pk)"
    using assms(2) by (simp_all add: script_in_def at_def)
  from reaches_push[OF assms(1) c(1) assms(3,5)]
  have "reaches E UnlockingScript (reset E s) 0 [] (reset E s) 1 [Item sig (Some (UnlockingScript, 0))]" by simp
  also from reaches_push[OF assms(1) c(2) assms(4,6)]
  have "reaches E UnlockingScript (reset E s) 1 [Item sig (Some (UnlockingScript, 0))] (reset E s) 2
    [Item pk (Some (UnlockingScript, 1)), Item sig (Some (UnlockingScript, 0))]" by (simp add: numeral_2_eq_2)
  finally show ?thesis .
qed

text \<open>The locking script up to OP_EQUALVERIFY.\<close>

lemma p2pkh_prefix:
  assumes "default_rules E" "chunks_of (sp_locking s0) = p2pkh h" "length h = 20"
  shows "reaches E LockingScript s0 0 [pk, sg] s0 3
    [Item h (Some (LockingScript, 2)), fresh (e_hash160 E (item_bytes pk)), pk, sg]"
proof -
  note c = assms(2)[unfolded p2pkh_def]
  have "reaches E LockingScript s0 0 [pk, sg] s0 1 [fresh (item_bytes pk), pk, sg]"
    using reaches_opcode[OF assms(1), of LockingScript s0 0 OP_DUP] dup_running[OF assms(1)]
    by (simp add: c script_in_def at_def execute_opcode_simps)
  also have "reaches E LockingScript s0 1 [fresh (item_bytes pk), pk, sg] s0 (1 + 1)
      [fresh (e_hash160 E (item_bytes pk)), pk, sg]"
    by (rule reaches_opcode[OF assms(1), where n = OP_HASH160])
      (use hash160_running[OF assms(1), of s0 LockingScript 1 "fresh (item_bytes pk)"] in
        \<open>simp_all add: c script_in_def at_def execute_opcode_simps\<close>)
  also have "reaches E LockingScript s0 (1 + 1) [fresh (e_hash160 E (item_bytes pk)), pk, sg] s0 (2 + 1)
      [Item h (Some (LockingScript, 2)), fresh (e_hash160 E (item_bytes pk)), pk, sg]"
    using reaches_push[OF assms(1), of LockingScript s0 2 20 h "[fresh (e_hash160 E (item_bytes pk)), pk, sg]"] assms(3)
    by (simp add: c script_in_def at_def isChunkMinimalPushHelper_def numeral_2_eq_2 numeral_3_eq_3)
  finally show ?thesis by simp
qed

text \<open>C3: Under the default rules, the two pushes of a signature and a public key against a
  pay-to-public-key-hash script: validation accepts exactly when the hash of the key is the one in
  the script, both encodings are right, and the signature is one of the locking script by the key;
  otherwise it throws, and this is which error.\<close>

theorem p2pkh_exact:
  assumes "default_rules E" "length h = 20"
    and "chunks_of (sp_unlocking s) = [push_chunk m sig, push_chunk n pk]" "chunks_of (sp_locking s) = p2pkh h"
    and "m \<le> OP_PUSHDATA4" "n \<le> OP_PUSHDATA4"
    and "isChunkMinimalPushHelper (push_chunk m sig)" "isChunkMinimalPushHelper (push_chunk n pk)"
  shows "fst (validateJavaScript E s) =
    (if e_hash160 E pk \<noteq> h
     then Inl (ScriptEvaluation ''OP_EQUALVERIFY requires the top two stack items to be equal.'')
     else case checkSignatureEncoding E sig of Inl e \<Rightarrow> Inl e
     | Inr _ \<Rightarrow> (case checkPublicKeyEncoding E pk of Inl e \<Rightarrow> Inl e
     | Inr _ \<Rightarrow> if sig \<noteq> [] \<and> signature_accepted E (clear_cache (sp_cache s)) (p2pkh h) sig pk then Inr True
        else Inl (ScriptEvaluation ''The top stack element must be truthy after script evaluation.'')))"
proof -
  let ?pk = "Item pk (Some (UnlockingScript, 1))" and ?sg = "Item sig (Some (UnlockingScript, 0))"
  define s0 where "s0 = reset E s"
  have u: "sp_unlocking s0 = sp_unlocking s" "sp_locking s0 = sp_locking s" "sp_cache s0 = clear_cache (sp_cache s)"
    using default_rules_simps(11)[OF assms(1)] by (simp_all add: s0_def reset_def)
  have push: "all_push_only (sp_unlocking s) = Inr True"
    using assms(3,5,6) by (simp add: all_push_only_chunks)
  note unl = two_pushes[OF assms(1,3,5-8), folded s0_def]
  have len: "length (chunks_of (sp_unlocking s0)) \<le> 2" using assms(3) u by simp
  have lock: "chunks_of (sp_locking s0) = p2pkh h" using assms(4) u by simp
  note prefix = p2pkh_prefix[OF assms(1) lock assms(2), of ?pk ?sg]
  have at3: "at (chunks_of (script_in LockingScript s0)) 3 = Some (op_chunk OP_EQUALVERIFY)"
    and at4: "at (chunks_of (script_in LockingScript s0)) 4 = Some (op_chunk OP_CHECKSIG)"
    using lock by (simp_all add: script_in_def at_def p2pkh_def)
  note fails = validate_fails[OF assms(1) push unl[unfolded s0_def] len[unfolded s0_def], folded s0_def]
  show ?thesis
  proof (cases "e_hash160 E pk = h")
    case False
    have "fails_with E LockingScript s0 3 [Item h (Some (LockingScript, 2)), fresh (e_hash160 E pk), ?pk, ?sg]
        (ScriptEvaluation ''OP_EQUALVERIFY requires the top two stack items to be equal.'')"
      by (rule fails_opcode[OF assms(1) at3]) (use equalverify_running(2)[OF assms(1)] False in
          \<open>auto simp: execute_opcode_simps\<close>)
    with prefix have "fails_with E LockingScript s0 0 [?pk, ?sg]
        (ScriptEvaluation ''OP_EQUALVERIFY requires the top two stack items to be equal.'')"
      using reaches_fails by fastforce
    with False show ?thesis by (simp add: fails)
  next
    case hash: True
    have "reaches E LockingScript s0 3 [Item h (Some (LockingScript, 2)), fresh (e_hash160 E pk), ?pk, ?sg] s0 (3 + 1) [?pk, ?sg]"
      by (rule reaches_opcode[OF assms(1) at3]) (use equalverify_running(1)[OF assms(1)] hash in
          \<open>auto simp: execute_opcode_simps\<close>)
    with prefix have to4: "reaches E LockingScript s0 0 [?pk, ?sg] s0 4 [?pk, ?sg]"
      using reaches_trans by (fastforce simp: numeral_eq_Suc)
    have refuse: "fst (validateJavaScript E s) = Inl e"
      if "checkSignatureEncoding E sig = Inl e
        \<or> checkSignatureEncoding E sig = Inr () \<and> checkPublicKeyEncoding E pk = Inl e" for e
    proof -
      have "fails_with E LockingScript s0 4 [?pk, ?sg] e"
        by (rule fails_opcode[OF assms(1) at4]) (use checksig_refuses[OF assms(1)] that in
            \<open>auto simp: execute_opcode_simps\<close>)
      with to4 show ?thesis by (blast intro: fails reaches_fails)
    qed
    show ?thesis
    proof (cases "checkSignatureEncoding E sig = Inr () \<and> checkPublicKeyEncoding E pk = Inr ()")
      case False
      then show ?thesis using hash refuse
        by (cases "checkSignatureEncoding E sig"; cases "checkPublicKeyEncoding E pk") auto
    next
      case True
      then have "leaves E LockingScript s0 0 [?pk, ?sg] (fresh (if sig \<noteq> []
          \<and> signature_accepted E (sp_cache s0) (p2pkh h) sig pk then [1] else []))"
        using reaches_leaves[OF to4 checksig_leaves[OF assms(1) lock, of ?pk ?sg]] by simp
      from validate_leaves[OF assms(1) push unl[unfolded s0_def] len[unfolded s0_def], folded s0_def, OF this]
      show ?thesis using True hash by (simp add: u)
    qed
  qed
qed

definition sample_env :: "unit spend_env" where
  "sample_env = bare_env (\<lambda>_. replicate 20 7) (\<lambda>_. Inr ()) (\<lambda>_ _ _. Inr True)"

definition sample_sig :: bytes where
  "sample_sig = [0x30, 6, 2, 1, 1, 2, 1, 1, 3]"

definition sample_key :: bytes where
  "sample_key = 0x02 # replicate 32 1"

definition sample_spend :: spend where
  "sample_spend = new_spend sample_env (new_script [push_chunk 9 sample_sig, push_chunk 33 sample_key])
     (new_script (p2pkh (replicate 20 7))) None"

lemma sample_rules: "default_rules sample_env" "shouldEnforceStrictEncoding sample_env"
  "\<not> hasExplicitFlags sample_env" "shouldEnforceDerSignatures sample_env" "isAfterChronicle sample_env = False"
  by (simp_all add: default_rules_def sample_env_def bare_env_def isRelaxed_def shouldEnforceStrictEncoding_def
      hasExplicitFlags_def shouldEnforceDerSignatures_def isAfterChronicle_def)

lemma sample_sig_parse:
  "fromChecksigFormat sample_sig = Inr \<lparr>sig_r = bn_of_bigint 1, sig_s = bn_of_bigint 1, sig_scope = 3\<rparr>"
  by code_simp

lemma sample_sig_ok: "checkSignatureEncoding sample_env sample_sig = Inr ()"
proof -
  have "isChecksigFormatHelper sample_sig" by code_simp
  moreover have "isDefinedHashType 3" "and (3 :: nat) SIGHASH_CHRONICLE = 0" by code_simp+
  ultimately show ?thesis
    using sample_rules sample_sig_parse
    by (simp add: checkSignatureEncoding_def signature_rules_def enforceSignatureHashType_def Let_def
        enforceSignatureForkId_def hasLowS_def bn_cmp_def)
qed

lemma sample_key_ok: "checkPublicKeyEncoding sample_env sample_key = Inr ()"
  by (simp add: checkPublicKeyEncoding_def sample_key_def sample_env_def bare_env_def)

lemma sample_accepted: "signature_accepted sample_env c (p2pkh (replicate 20 7)) sample_sig sample_key"
proof -
  have d: "\<exists>sub b. delete_signature sample_sig (new_script (p2pkh (replicate 20 7))) = Inr sub \<and> script_bytes sub = Inr b"
  proof -
    have "case delete_signature sample_sig (new_script (p2pkh (replicate 20 7))) of Inl e \<Rightarrow> False
      | Inr sub \<Rightarrow> (case script_bytes sub of Inl e \<Rightarrow> False | Inr b \<Rightarrow> True)" by code_simp
    then show ?thesis by (auto split: sum.splits)
  qed
  have "digest_accepted sample_env c \<lparr>sig_r = bn_of_bigint 1, sig_s = bn_of_bigint 1, sig_scope = 3\<rparr> () b" for b
    by (simp add: digest_accepted_def usesOtdaSingleBug_def sighash_request_def sample_env_def bare_env_def Let_def)
  with d show ?thesis
    unfolding signature_accepted_def
    by (intro exI[of _ "\<lparr>sig_r = bn_of_bigint 1, sig_s = bn_of_bigint 1, sig_scope = 3\<rparr>"] exI[of _ "()"])
       (auto simp: parseChecksigSignature_def sample_sig_parse sample_env_def bare_env_def)
qed

lemma p2pkh_exact_witness: "fst (validateJavaScript sample_env sample_spend) = Inr True"
  using p2pkh_exact[OF sample_rules(1), of "replicate 20 7" sample_spend 9 sample_sig 33 sample_key]
    sample_sig_ok sample_key_ok sample_accepted
  by (simp add: sample_spend_def new_spend_def reset_def isChunkMinimalPushHelper_def sample_sig_def sample_key_def
      sample_env_def bare_env_def)

subsection \<open>A validation that changes the script\<close>

text \<open>\<open>d OP_3 OP_NUM2BIN e OP_EQUAL\<close>: is \<open>e\<close> the two-byte number \<open>d\<close>, padded to three bytes?\<close>

definition pad_script :: "bytes \<Rightarrow> bytes \<Rightarrow> script_chunk list" where
  "pad_script d e = [push_chunk 2 d, op_chunk OP_3, op_chunk OP_NUM2BIN, push_chunk 3 e, op_chunk OP_EQUAL]"

lemma chunks_of_set_chunk_data:
  "i < length (chunks_of sc) \<Longrightarrow>
     chunks_of (set_chunk_data i d sc) = (chunks_of sc)[i := (chunks_of sc ! i)\<lparr>chunk_data := Some d\<rparr>]"
  by (simp add: chunks_of_def set_chunk_data_def Let_def ensureParsed_def captureChunkCacheState_def)

lemma small_running:
  assumes "default_rules E" "running s0 c pc its s"
  shows "\<exists>t. push_small E n s = (Inr (), t) \<and> running s0 c pc (fresh (toScriptNum (bn_of_bigint n)) # its) t"
  using push_running[OF assms] by (simp add: push_small_def pushStackCopy_def)

lemma equal_running:
  assumes "default_rules E" "running s0 c pc (x # y # its) s"
  shows "\<exists>t. op_equal E OP_EQUAL s = (Inr (), t)
    \<and> running s0 c pc (fresh (if item_bytes y = item_bytes x then [1] else []) # its) t"
proof -
  from pop_running[OF assms(2)] obtain t where t: "popStack s = (Inr x, t)" "running s0 c pc (y # its) t" by blast
  from pop_running[OF t(2)] obtain u where u: "popStack t = (Inr y, u)" "running s0 c pc its u" by blast
  from push_running[OF assms(1) u(2), of "fresh (if item_bytes y = item_bytes x then [1] else [])"] t(1) u(1)
    require_running[OF assms(2), of 2]
  show ?thesis by (auto simp: op_equal_def require_for_def thn_apply bnd_apply push_bool_def)
qed

definition with_first_chunk :: "bytes \<Rightarrow> spend \<Rightarrow> spend" where
  "with_first_chunk d s = s\<lparr>sp_locking := set_chunk_data 0 d (sp_locking s)\<rparr>"

lemma num2bin_running:
  assumes "default_rules E"
    and "running s0 c pc [fresh (toScriptNum (bn_of_bigint 3)), Item [a, b] (Some (LockingScript, 0))] s"
    and "and b 0x7f \<noteq> 0"
  shows "\<exists>t. op_num2bin E s = (Inr (), t)
    \<and> running (with_first_chunk [a, and b 0x7f] s0) c pc [fresh (pad_number [a, b] 3)] t"
proof -
  let ?it = "Item [a, b] (Some (LockingScript, 0))"
  from pop_running[OF assms(2)] obtain t where t: "popStack s = (Inr (fresh (toScriptNum (bn_of_bigint 3))), t)"
    "running s0 c pc [?it] t" by blast
  from pop_running[OF t(2)] obtain u where u: "popStack t = (Inr ?it, u)" "running s0 c pc [] u" by blast
  have m: "minimal_item ?it u = (Inr ?it, u)"
    using assms(3) by (simp add: minimal_item_def minimallyEncode_def)
  have n: "readScriptNumber E (toScriptNum (bn_of_bigint 3)) = ret (bn_of_bigint 3)"
    using assms(1) by (intro readScriptNumber_value reads_as_number) (simp_all add: default_rules_simps)
  let ?v = "u\<lparr>sp_locking := set_chunk_data 0 [a, and b 0x7f] (sp_locking u)\<rparr>"
  have w: "write_through ?it [a, and b 0x7f] u = (Inr (), ?v)"
    by (simp add: write_through_def set_script_in_def script_in_def)
  have "running (with_first_chunk [a, and b 0x7f] s0) c pc [] ?v"
    using u(2) by (simp add: running_def with_first_chunk_def)
  from push_running[OF assms(1) this, of "fresh (pad_number [a, b] 3)"] obtain z where
    z: "pushStack E (fresh (pad_number [a, b] 3)) ?v = (Inr (), z)"
      "running (with_first_chunk [a, and b 0x7f] s0) c pc [fresh (pad_number [a, b] 3)] z" by blast
  have "op_num2bin E s = (Inr (), z)"
    using t u m n w z(1) require_running[OF assms(2), of 2]
    by (simp add: op_num2bin_def pop_number_def thn_apply bnd_apply fail_if_def above_limit_def Let_def
        default_rules_simps[OF assms(1)])
  with z(2) show ?thesis by blast
qed

lemma pad_script_run:
  assumes "default_rules E" "chunks_of (sp_locking s0) = pad_script [a, b] e" "and b 0x7f \<noteq> 0" "length e = 3"
  shows "reaches E LockingScript s0 0 [] (with_first_chunk [a, and b 0x7f] s0) 5
    [fresh (if pad_number [a, b] 3 = e then [1] else [])]"
proof -
  let ?s = "with_first_chunk [a, and b 0x7f] s0" and ?d = "Item [a, b] (Some (LockingScript, 0))"
  note c = assms(2)[unfolded pad_script_def]
  have c': "chunks_of (sp_locking ?s) = pad_script [a, and b 0x7f] e"
    using assms(2) by (simp add: with_first_chunk_def chunks_of_set_chunk_data pad_script_def)
  have "reaches E LockingScript s0 0 [] s0 1 [?d]"
    using reaches_push[OF assms(1), of LockingScript s0 0 2 "[a, b]" "[]"]
    by (simp add: c script_in_def at_def isChunkMinimalPushHelper_def)
  also have "reaches E LockingScript s0 1 [?d] s0 (1 + 1) [fresh (toScriptNum (bn_of_bigint 3)), ?d]"
    by (rule reaches_opcode[OF assms(1), where n = OP_3])
      (use small_running[OF assms(1)] in \<open>simp_all add: c script_in_def at_def execute_opcode_simps\<close>)
  also have "reaches E LockingScript s0 (1 + 1) [fresh (toScriptNum (bn_of_bigint 3)), ?d] ?s (1 + 1 + 1) [fresh (pad_number [a, b] 3)]"
    by (rule reaches_opcode[OF assms(1), where n = OP_NUM2BIN])
      (use num2bin_running[OF assms(1) _ assms(3)] in \<open>simp_all add: c script_in_def at_def execute_opcode_simps\<close>)
  also have "reaches E LockingScript ?s (1 + 1 + 1) [fresh (pad_number [a, b] 3)] ?s (3 + 1)
      [Item e (Some (LockingScript, 3)), fresh (pad_number [a, b] 3)]"
    using reaches_push[OF assms(1), of LockingScript ?s 3 3 e "[fresh (pad_number [a, b] 3)]"] assms(4)
    by (simp add: c' pad_script_def script_in_def at_def isChunkMinimalPushHelper_def numeral_3_eq_3)
  also have "reaches E LockingScript ?s (3 + 1) [Item e (Some (LockingScript, 3)), fresh (pad_number [a, b] 3)] ?s (3 + 1 + 1)
      [fresh (if pad_number [a, b] 3 = e then [1] else [])]"
    by (rule reaches_opcode[OF assms(1), where n = OP_EQUAL])
      (use equal_running[OF assms(1), of ?s LockingScript 4 "Item e (Some (LockingScript, 3))" "fresh (pad_number [a, b] 3)" "[]"] in
        \<open>simp_all add: c' pad_script_def script_in_def at_def execute_opcode_simps execute_opcode_def
          splice_shift_opcodes_def control_opcodes_def stack_opcodes_def data_opcodes_def split del: if_split\<close>)
  finally show ?thesis by simp
qed

text \<open>C6: OP_NUM2BIN clears the sign bit in the array it pops, which is the array of the chunk that pushed
  it. Under the default rules a spend whose locking script pads -257 validates, and leaves its locking
  script pushing 257; validating the same spend again fails.\<close>

theorem num2bin_rewrites_the_script:
  assumes "default_rules E" "chunks_of (sp_unlocking s) = []"
    and "chunks_of (sp_locking s) = pad_script [0x01, 0x81] [0x01, 0x01, 0x80]"
  defines "t \<equiv> snd (validateJavaScript E s)"
  shows "fst (validateJavaScript E s) = Inr True
    \<and> chunks_of (sp_locking t) = pad_script [0x01, 0x01] [0x01, 0x01, 0x80]
    \<and> fst (validateJavaScript E t)
      = Inl (ScriptEvaluation ''The top stack element must be truthy after script evaluation.'')"
proof -
  have run: "fst (validateJavaScript E s) = (if castToBool (if pad_number [a, b] 3 = e then [1] else []) then Inr True
      else Inl (ScriptEvaluation ''The top stack element must be truthy after script evaluation.''))
    \<and> sp_unlocking (snd (validateJavaScript E s)) = sp_unlocking s
    \<and> chunks_of (sp_locking (snd (validateJavaScript E s))) = pad_script [a, and b 0x7f] e"
    if "chunks_of (sp_unlocking s) = []" "chunks_of (sp_locking s) = pad_script [a, b] e"
      "and b 0x7f \<noteq> 0" "length e = 3" for s a b e
  proof -
    have u: "sp_unlocking (reset E s) = sp_unlocking s" "sp_locking (reset E s) = sp_locking s" by (simp_all add: reset_def)
    have lock: "chunks_of (sp_locking (reset E s)) = pad_script [a, b] e" using that(2) u by simp
    from validate_result[OF assms(1) _ reaches_refl _ pad_script_run[OF assms(1) lock that(3,4)]]
    show ?thesis using that(1,2) u
      by (simp add: all_push_only_chunks ready_def with_first_chunk_def chunks_of_set_chunk_data pad_script_def)
  qed
  have "pad_number [0x01, 0x81] 3 = [0x01, 0x01, 0x80]" "pad_number [0x01, 0x01] 3 = [0x01, 0x01, 0x00]"
    "and (0x81 :: byte) 0x7f = 0x01" "and (0x01 :: byte) 0x7f = 0x01"
    by code_simp+
  with run[of s "0x01" "0x81" "[0x01, 0x01, 0x80]"] run[of t "0x01" "0x01" "[0x01, 0x01, 0x80]"] assms(2,3)
  show ?thesis by (simp add: t_def)
qed

lemma num2bin_rewrites_the_script_witness:
  "let s = new_spend unit_env (new_script []) (new_script (pad_script [0x01, 0x81] [0x01, 0x01, 0x80])) None
   in fst (validateJavaScript unit_env s) = Inr True
    \<and> fst (validateJavaScript unit_env (snd (validateJavaScript unit_env s)))
      = Inl (ScriptEvaluation ''The top stack element must be truthy after script evaluation.'')"
  using num2bin_rewrites_the_script[of unit_env
      "new_spend unit_env (new_script []) (new_script (pad_script [0x01, 0x81] [0x01, 0x01, 0x80])) None"]
  by (simp add: default_rules_def bare_env_def isRelaxed_def new_spend_def reset_def)

subsection \<open>Invariant, progress and errors\<close>

text \<open>The spends a client can get: a new one, and what its public methods make of it.\<close>

inductive reachable_spend :: "'k spend_env \<Rightarrow> spend \<Rightarrow> bool" for E where
  created: "reachable_spend E (new_spend E unlocking locking c)"
| stepped: "reachable_spend E s \<Longrightarrow> reachable_spend E (snd (step E s))"
| validated: "reachable_spend E s \<Longrightarrow> reachable_spend E (snd (validateJavaScript E s))"
| cleared: "reachable_spend E s \<Longrightarrow> reachable_spend E (reset E s)"

lemma reachable_accounts: "reachable_spend E s \<Longrightarrow> accounts E s"
proof (induction rule: reachable_spend.induct)
  case (created unlocking locking c)
  show ?case unfolding new_spend_def by (rule accounts_reset)
next
  case (stepped s)
  show ?case by (rule keeps_snd[OF step_accounts stepped.IH])
qed (simp_all add: validateJavaScript_accounts accounts_reset)

text \<open>C4: In every spend reached by steps, validations and resets, also after a step that threw, the two memory
  accounts are the total sizes of the entries on the two stacks, neither exceeds the memory limit, and
  the two stacks of open conditionals have the same height.\<close>

theorem memory_is_accounted:
  assumes "reachable_spend E s"
  shows "sp_stackMem s = int (sum_list (map item_size (sp_stack s)))
    \<and> sp_altStackMem s = int (sum_list (map item_size (sp_altStack s)))
    \<and> (\<forall>m. e_memoryLimit E = Some m \<longrightarrow> sp_stackMem s \<le> int m \<and> sp_altStackMem s \<le> int m)
    \<and> length (sp_ifStack s) = length (sp_elseStack s)"
  using reachable_accounts[OF assms]
  by (auto simp: accounts_def within_limit_def mem_of_def)

lemma memory_is_accounted_witness:
  "sp_stackMem (snd (step (unit_env\<lparr>e_memoryLimit := Some 3\<rparr>)
      (new_spend (unit_env\<lparr>e_memoryLimit := Some 3\<rparr>) (new_script [push_chunk 2 [7, 8]]) (new_script []) None))) \<le> 3"
  using memory_is_accounted[OF reachable_spend.stepped[OF reachable_spend.created],
      of "unit_env\<lparr>e_memoryLimit := Some 3\<rparr>" "new_script [push_chunk 2 [7, 8]]" "new_script []" None]
  by simp

text \<open>At most \<open>n\<close> steps of the loop.\<close>

fun steps :: "'k spend_env \<Rightarrow> nat \<Rightarrow> spend \<Rightarrow> (spend_error + unit) \<times> spend" where
  "steps E 0 s = (Inr (), s)"
| "steps E (Suc n) s =
     (if sp_pc s < length (current_chunks s)
      then case step E s of (Inl e, t) \<Rightarrow> (Inl e, t) | (Inr _, t) \<Rightarrow> steps E n t
      else (Inr (), s))"



text \<open>The truth test of the interpreter is the script number's: an entry is false exactly when it denotes
  zero, negative zero and padding included.\<close>

theorem cast_to_bool_is_nonzero: "castToBool b \<longleftrightarrow> getSignedValue (fromSm True b) \<noteq> 0"
  by (rule castToBool_value)


end
