(* ===== verification/Spend_Transaction.thy ===== *)
theory Spend_Transaction
  imports Spend_Programs
begin

text \<open>
  The transaction a spend stands for, \<open>Spend.toTransactionUint8Array\<close>, and the context handed to
  a verification backend. The lemmas compare the bytes with the serialiser of \<open>Transaction_Codec\<close>.
\<close>

subsection \<open>Serialising the spending transaction\<close>

definition spend_inputs :: "'k spend_env \<Rightarrow> bytes \<Rightarrow> tx_input \<times> tx_input list" where
  "spend_inputs E unlocking =
     (let currentInput = TxInput None (Some (e_sourceTXID E)) (e_sourceOutputIndex E) (Some unlocking)
            (Some (e_inputSequence E))
      in (currentInput, case e_allInputs E of Some ins \<Rightarrow> ins
          | None \<Rightarrow> take (e_inputIndex E) (e_otherInputs E) @ [currentInput] @ drop (e_inputIndex E) (e_otherInputs E)))"

text \<open>\<open>input.sourceTXID ?? input.sourceTransaction?.id('hex')\<close>\<close>

definition input_txid :: "hash_fun \<Rightarrow> tx_input \<Rightarrow> js_error + string option" where
  "input_txid h i = (case in_sourceTXID i of Some t \<Rightarrow> Inr (Some t)
     | None \<Rightarrow> (case in_sourceTransaction i of None \<Rightarrow> Inr None
        | Some t \<Rightarrow> (case tx_id_hex h t of Inl e \<Rightarrow> Inl e | Inr x \<Rightarrow> Inr (Some x))))"

definition write_spend_input :: "hash_fun \<Rightarrow> nat \<Rightarrow> tx_input \<Rightarrow> wb" where
  "write_spend_input h index i =
     bnd (lift_result (input_txid h i)) (\<lambda>txid.
     case txid of None \<Rightarrow> throw (JsError (''Input '' @ decimal (int index) @ '' is missing its source transaction ID''))
     | Some sourceTXID \<Rightarrow>
        (case in_unlockingScript i of
           None \<Rightarrow> throw (JsError (''Input '' @ decimal (int index) @ '' is missing its unlocking script''))
         | Some unlocking \<Rightarrow>
            thn (bnd (lift_result (hexToArray sourceTXID)) wb_writeReverse)
           (thn (wb_writeUInt32LE (in_sourceOutputIndex i))
           (thn (write_script unlocking)
                (wb_writeUInt32LE (case in_sequence i of None \<Rightarrow> 0xffffffff | Some n \<Rightarrow> n))))))"

fun write_spend_inputs :: "hash_fun \<Rightarrow> nat \<Rightarrow> tx_input list \<Rightarrow> wb" where
  "write_spend_inputs h index [] = ret ()"
| "write_spend_inputs h index (i # ins) =
     thn (write_spend_input h index i) (write_spend_inputs h (index + 1) ins)"

definition toTransactionUint8Array :: "'k spend_env \<Rightarrow> spend \<Rightarrow> js_error + bytes" where
  "toTransactionUint8Array E s =
    (case fst (getSerializedBytes (sp_unlocking s)) of Inl e \<Rightarrow> Inl e
     | Inr unlocking \<Rightarrow>
        (case spend_inputs E unlocking of (currentInput, inputs) \<Rightarrow>
          if e_inputIndex E \<ge> length inputs then Inl (JsRangeError ''Spend input index is out of range'')
          else run_wb
            (thn (wb_writeUInt32LE (e_transactionVersion E))
            (thn (wb_writeVarIntNum (int (length inputs)))
            (thn (write_spend_inputs (e_hash256 E) 0 (inputs[e_inputIndex E := currentInput]))
            (thn (wb_writeVarIntNum (int (length (e_outputs E))))
            (thn (write_outputs (e_outputs E))
                 (wb_writeUInt32LE (e_lockTime E)))))))))"

subsection \<open>Verification backends\<close>

text \<open>
  A script-verification backend: whether it has a synchronous verifier, the answers of \<open>isReady\<close>
  and \<open>shouldVerifySpend\<close> where it has these methods, and its verdict.
\<close>

record spend_backend =
  b_sync :: bool
  b_ready :: "bool option"
  b_should :: "bool option"
  b_verdict :: bool

record verification_context =
  v_consensus :: bool
  v_blockHeight :: "int option"
  v_utxoHeight :: "int option"
  v_verifyFlags :: "flags_argument option"

definition bad_height :: "int option \<Rightarrow> bool" where
  "bad_height h \<longleftrightarrow> (case h of None \<Rightarrow> False | Some n \<Rightarrow> n < 0 \<or> n > 0xffffffff)"

definition snapshotSpendVerificationContext :: "verification_context \<Rightarrow> js_error + verification_context" where
  "snapshotSpendVerificationContext c =
    (if bad_height (v_blockHeight c)
     then Inl (JsRangeError ''Spend verification blockHeight must be an unsigned 32-bit integer'')
     else if bad_height (v_utxoHeight c)
     then Inl (JsRangeError ''Spend verification utxoHeight must be an unsigned 32-bit integer'')
     else Inr c)"

definition owned_context :: "verification_context option \<Rightarrow> js_error + verification_context option" where
  "owned_context c = (case c of None \<Rightarrow> Inr None
     | Some v \<Rightarrow> (case snapshotSpendVerificationContext v of Inl e \<Rightarrow> Inl e | Inr o1 \<Rightarrow> Inr (Some o1)))"

definition selected :: "spend_backend option \<Rightarrow> bool" where
  "selected b = (case b of None \<Rightarrow> False
     | Some v \<Rightarrow> b_sync v \<and> b_ready v \<noteq> Some False \<and> b_should v \<noteq> Some False)"

text \<open>
  The copy a backend sees. Scripts are cloned chunk by chunk, so that a script of another input or
  output is serialised again from its chunks; an input keeps the id of its source transaction only.
\<close>

definition clone_script_bytes :: "bytes \<Rightarrow> bytes" where
  "clone_script_bytes b = serialize_chunks (parseChunks b)"

definition clone_script :: "script \<Rightarrow> script" where
  "clone_script sc = new_script (chunks_of sc)"

definition clone_input :: "hash_fun \<Rightarrow> tx_input \<Rightarrow> js_error + tx_input" where
  "clone_input h i = (case input_txid h i of Inl e \<Rightarrow> Inl e
     | Inr txid \<Rightarrow> Inr (TxInput None txid (in_sourceOutputIndex i)
         (map_option clone_script_bytes (in_unlockingScript i)) (in_sequence i)))"

definition clone_output :: "tx_output option \<Rightarrow> js_error + tx_output option" where
  "clone_output o1 = (case o1 of
       None \<Rightarrow> Inl (JsTypeError ''Cannot read properties of null (reading 'satoshis')'')
     | Some x \<Rightarrow> Inr (Some (x\<lparr>lockingScript := clone_script_bytes (lockingScript x)\<rparr>)))"

definition snapshotForVerifier :: "'k spend_env \<Rightarrow> spend \<Rightarrow> js_error + ('k spend_env \<times> spend)" where
  "snapshotForVerifier E s =
    (case collect (clone_input (e_hash256 E)) (e_otherInputs E) of Inl e \<Rightarrow> Inl e
     | Inr others \<Rightarrow>
    (case (case e_allInputs E of None \<Rightarrow> Inr None
           | Some ins \<Rightarrow> (case collect (clone_input (e_hash256 E)) ins of Inl e \<Rightarrow> Inl e | Inr c \<Rightarrow> Inr (Some c))) of
       Inl e \<Rightarrow> Inl e
     | Inr all \<Rightarrow>
    (case collect clone_output (e_outputs E) of Inl e \<Rightarrow> Inl e
     | Inr outs \<Rightarrow>
        let E' = E\<lparr>e_otherInputs := others, e_allInputs := all, e_outputs := outs, e_ownsSigHashCache := True\<rparr>
        in Inr (E', new_spend E' (clone_script (sp_unlocking s)) (clone_script (sp_locking s)) None))))"

definition validate :: "'k spend_env \<Rightarrow> spend_backend option \<Rightarrow> verification_context option \<Rightarrow> bool op" where
  "validate E backend c =
    bnd (get (snapshotForVerifier E)) (\<lambda>r.
    thn (lift_js r)
   (thn (lift_js (owned_context c))
    (if selected backend
     then thn (fail_if (\<not> b_verdict (the backend)) ''The selected script-verification backend rejected the spend.'')
          (ret True)
     else validateJavaScript E)))"

text \<open>The asynchronous variant runs the interpreter on the copy when the backend declines.\<close>

definition validateWith :: "'k spend_env \<Rightarrow> spend_backend \<Rightarrow> verification_context option \<Rightarrow> bool op" where
  "validateWith E backend c =
    bnd (get (snapshotForVerifier E)) (\<lambda>r.
    bnd (lift_js r) (\<lambda>(E', copy).
    thn (lift_js (owned_context c))
    (if b_should backend = Some False then lift_result (fst (validateJavaScript E' copy))
     else ret (b_verdict backend))))"

subsection \<open>The transaction of a spend\<close>

definition spend_transaction :: "'k spend_env \<Rightarrow> bytes \<Rightarrow> transaction" where
  "spend_transaction E unlocking =
     (case spend_inputs E unlocking of (currentInput, inputs) \<Rightarrow>
        Transaction (e_transactionVersion E) (inputs[e_inputIndex E := currentInput]) (e_outputs E) (e_lockTime E))"

lemma wb_appends_spend_input:
  assumes "valid_input i"
  shows "wb_appends (write_spend_input h n i) (input_bytes i)"
proof -
  obtain d idx b sq where i: "i = TxInput None (Some (toHex d)) idx (Some b) (Some sq)"
    and v: "length d = 32" "0 \<le> idx" "idx < 2 ^ 32" "length b \<le> max_safe_integer" "0 \<le> sq" "sq < 2 ^ 32"
    using assms by (cases i) auto
  have "wb_appends (bnd (lift_result (hexToArray (toHex d))) wb_writeReverse) (rev d)"
    by (rule wb_appends_lift[OF hexToArray_toHex], rule wb_appends_writeReverse)
  from wb_appends_thn[OF this wb_appends_thn[OF wb_appends_u32[OF v(2)] wb_appends_thn[OF wb_appends_script[OF v(4)]
      wb_appends_u32[OF v(5)]]]]
  show ?thesis
    unfolding i write_spend_input_def input_bytes.simps option.sel hex_pairs_toHex
    by (simp add: input_txid_def wb_appends_def bnd_apply)
qed

lemma wb_appends_spend_inputs:
  "list_all valid_input ins \<Longrightarrow> wb_appends (write_spend_inputs h n ins) (concat (map input_bytes ins))"
proof (induction ins arbitrary: n)
  case Nil
  show ?case unfolding list.map write_spend_inputs.simps concat.simps by (rule wb_appends_ret)
next
  case (Cons i ins)
  then show ?case using wb_appends_thn[OF wb_appends_spend_input Cons.IH] by simp
qed

text \<open>C9: The bytes a spend hands to a verification backend are those of the transaction it stands for:
  the serialiser of the transaction module gives the same bytes, and parsing them gives that
  transaction back.\<close>

theorem spend_serialises_its_transaction:
  assumes "fst (getSerializedBytes (sp_unlocking s)) = Inr unlocking"
    and "plain_tx (spend_transaction E unlocking)" "e_inputIndex E < length (snd (spend_inputs E unlocking))"
    and "length (tx_bytes (spend_transaction E unlocking)) \<le> max_safe_integer"
  shows "toTransactionUint8Array E s = tx_toBinary (e_hash256 E) (spend_transaction E unlocking)
    \<and> (\<exists>bs. toTransactionUint8Array E s = Inr bs \<and> tx_fromBinary bs = Inr (spend_transaction E unlocking))"
proof -
  let ?t = "spend_transaction E unlocking"
  obtain cur ins where ins: "spend_inputs E unlocking = (cur, ins)" by fastforce
  have t: "?t = Transaction (e_transactionVersion E) (ins[e_inputIndex E := cur]) (e_outputs E) (e_lockTime E)"
    by (simp add: spend_transaction_def ins)
  obtain os where os: "e_outputs E = map Some os" "list_all valid_output os"
    using assms(2) by (auto simp: plain_tx_def t)
  have p: "0 \<le> e_transactionVersion E" "0 \<le> e_lockTime E" "list_all valid_input (ins[e_inputIndex E := cur])"
    "length (ins[e_inputIndex E := cur]) \<le> max_safe_integer" "length (e_outputs E) \<le> max_safe_integer"
    using assms(2) by (auto simp: plain_tx_def t)
  have b: "concat (map (\<lambda>o1. output_bytes (the o1)) (e_outputs E)) = concat (map output_bytes os)"
    by (simp add: os(1) comp_def)
  have "wb_appends (thn (wb_writeUInt32LE (e_transactionVersion E))
      (thn (wb_writeVarIntNum (int (length (ins[e_inputIndex E := cur]))))
      (thn (write_spend_inputs (e_hash256 E) 0 (ins[e_inputIndex E := cur]))
      (thn (wb_writeVarIntNum (int (length (e_outputs E))))
      (thn (write_outputs (e_outputs E)) (wb_writeUInt32LE (e_lockTime E))))))) (tx_bytes ?t)"
    unfolding t tx_bytes_def transaction.sel b
    using wb_appends_outputs[OF os(2)]
    by (intro wb_appends_thn wb_appends_u32 wb_appends_varint wb_appends_spend_inputs p) (simp add: os(1))
  from run_wb_appends[OF this] have "toTransactionUint8Array E s = Inr (tx_bytes ?t)"
    using assms(1,3) ins by (simp add: toTransactionUint8Array_def)
  then show ?thesis
    using tx_toBinary_plain[OF assms(2)] tx_fromBinary_iff[OF assms(4)] assms(2) by simp
qed

definition spend_of_sample :: "unit spend_env" where
  "spend_of_sample = unit_env\<lparr>e_outputs := [Some \<lparr>satoshis = Some 1000, lockingScript = [0x51], change = False\<rparr>]\<rparr>"

lemma spend_serialises_its_transaction_witness:
  "\<exists>bs. toTransactionUint8Array spend_of_sample (new_spend spend_of_sample (script_fromBinary [0x51]) (new_script []) None)
      = Inr bs \<and> tx_fromBinary bs = Inr (sample_tx None)"
proof -
  have t: "spend_transaction spend_of_sample [0x51] = sample_tx None"
    by (simp add: spend_transaction_def spend_inputs_def spend_of_sample_def bare_env_def sample_tx_def Let_def)
  have i: "e_inputIndex spend_of_sample < length (snd (spend_inputs spend_of_sample [0x51]))"
    by (simp add: spend_inputs_def spend_of_sample_def bare_env_def Let_def)
  have "fst (getSerializedBytes (sp_unlocking (new_spend spend_of_sample (script_fromBinary [0x51]) (new_script []) None)))
      = Inr [0x51]"
    by (simp add: new_spend_def reset_def getSerializedBytes_def script_fromBinary_def)
  from spend_serialises_its_transaction[OF this _ i] show ?thesis
    unfolding t using plain_sample_tx sample_tx_length(1) by blast
qed

end
