(* ===== verification/Merkle_Path.thy ===== *)
theory Merkle_Path
  imports Utils_Encoding "HOL-Library.AList"
begin

text \<open>
  Merkle paths, \<open>packages/sdk/src/transaction/MerklePath.ts\<close>: the leaves and levels of a
  path, its construction and validation, the computation of the root (plain and with the
  caches), serialisation, verification against a chain tracker, and the operations on
  compound paths (\<open>combine\<close>, \<open>trim\<close>, \<open>extract\<close>). The hash function \<open>hash256\<close> is the parameter
  \<open>H\<close>; offsets and heights are the integers the code admits.
\<close>

subsection \<open>Leaves, paths and offsets\<close>

record merkle_leaf =
  lf_offset :: int
  lf_hash :: "string option"
  lf_txid :: "bool option"
  lf_duplicate :: "bool option"

record merkle_path =
  mp_height :: int
  mp_path :: "merkle_leaf list list"

definition assertOffset :: "int \<Rightarrow> js_error + unit" where
  "assertOffset n =
     (if \<not> is_safe_integer n \<or> n < 0 then Inl (JsError ''Invalid offset'') else Inr ())"

definition missing_hash :: "int \<Rightarrow> nat \<Rightarrow> js_error" where
  "missing_hash n h =
     JsError (''Missing hash for index '' @ decimal n @ '' at height '' @ decimal (int h))"

definition assertSingleTransactionOffset :: "merkle_leaf list list \<Rightarrow> js_error + unit" where
  "assertSingleTransactionOffset levels =
     (case levels of
        [[leaf]] \<Rightarrow> if lf_offset leaf \<noteq> 0 then Inl (missing_hash (lf_offset leaf) 0) else Inr ()
      | _ \<Rightarrow> Inr ())"

definition offsetAtHeight :: "int \<Rightarrow> nat \<Rightarrow> int" where
  "offsetAtHeight n h = n div 2 ^ h"

definition siblingOf :: "int \<Rightarrow> int" where
  "siblingOf n = (if n mod 2 = 0 then n + 1 else n - 1)"

definition sameNodeAtHeight :: "int \<Rightarrow> int \<Rightarrow> nat \<Rightarrow> bool" where
  "sameNodeAtHeight i m h \<longleftrightarrow> offsetAtHeight i h = offsetAtHeight m h"

fun binary_string :: "nat \<Rightarrow> string" where
  "binary_string n =
     (if n < 2 then [char_of (48 + n)] else binary_string (n div 2) @ [char_of (48 + n mod 2)])"

declare binary_string.simps [simp del]

definition offsetTreeHeight :: "int \<Rightarrow> nat" where
  "offsetTreeHeight n = (if n = 0 then 0 else length (binary_string (nat n)))"

definition hashPair :: "(bytes \<Rightarrow> bytes) \<Rightarrow> string \<Rightarrow> string \<Rightarrow> js_error + string" where
  "hashPair H l r = and_then (hexToArray (l @ r)) (\<lambda>bs. Inr (toHex (rev (H (rev bs)))))"

text \<open>\<open>hash ?? ''''\<close> of a leaf.\<close>

definition hash_or_empty :: "merkle_leaf \<Rightarrow> string" where
  "hash_or_empty leaf = (case lf_hash leaf of None \<Rightarrow> [] | Some h \<Rightarrow> h)"

definition nextCachedHash ::
    "(bytes \<Rightarrow> bytes) \<Rightarrow> string \<Rightarrow> merkle_leaf option \<Rightarrow> int \<Rightarrow> int \<Rightarrow> nat \<Rightarrow> bool \<Rightarrow> js_error + string" where
  "nextCachedHash H w leaf n index h isLastOddNode =
     (case leaf of
        None \<Rightarrow> if isLastOddNode then hashPair H w w else Inl (missing_hash index h)
      | Some l \<Rightarrow>
          if lf_duplicate l = Some True then hashPair H w w
          else if n mod 2 = 1 then hashPair H (hash_or_empty l) w
          else hashPair H w (hash_or_empty l))"

definition level_zero :: "merkle_path \<Rightarrow> merkle_leaf list" where
  "level_zero p = (case mp_path p of [] \<Rightarrow> [] | level # _ \<Rightarrow> level)"

definition maxOffset :: "merkle_leaf list \<Rightarrow> int" where
  "maxOffset leaves = foldl (\<lambda>m leaf. max m (lf_offset leaf)) 0 leaves"

definition tree_height :: "merkle_path \<Rightarrow> nat" where
  "tree_height p = max (length (mp_path p)) (offsetTreeHeight (maxOffset (level_zero p)))"

definition indexOf :: "merkle_path \<Rightarrow> string \<Rightarrow> js_error + int" where
  "indexOf p txid =
     (case find (\<lambda>l. lf_hash l = Some txid) (level_zero p) of
        None \<Rightarrow> Inl (JsError (''Transaction ID '' @ txid @ '' not found in the Merkle Path''))
      | Some leaf \<Rightarrow> Inr (lf_offset leaf))"

subsection \<open>Finding or computing a leaf\<close>

definition level_find :: "merkle_path \<Rightarrow> nat \<Rightarrow> int \<Rightarrow> merkle_leaf option" where
  "level_find p h n =
     (if h < length (mp_path p) then find (\<lambda>l. lf_offset l = n) (mp_path p ! h) else None)"

definition computed_leaf :: "int \<Rightarrow> string \<Rightarrow> merkle_leaf" where
  "computed_leaf n x = \<lparr>lf_offset = n, lf_hash = Some x, lf_txid = None, lf_duplicate = None\<rparr>"

text \<open>\<open>leaf?.hash\<close> when it is neither missing nor the empty string.\<close>

definition nonempty_hash :: "merkle_leaf option \<Rightarrow> string option" where
  "nonempty_hash leaf =
     (case leaf of None \<Rightarrow> None
      | Some l \<Rightarrow> (case lf_hash l of None \<Rightarrow> None | Some x \<Rightarrow> if x = [] then None else Some x))"

definition with_hash :: "int \<Rightarrow> js_error + string \<Rightarrow> js_error + merkle_leaf option" where
  "with_hash n r = and_then r (\<lambda>x. Inr (Some (computed_leaf n x)))"

text \<open>The parent of two found children; \<open>last_odd\<close> is the test for the last odd node of a
  single-level path.\<close>

definition join_children ::
    "(bytes \<Rightarrow> bytes) \<Rightarrow> bool \<Rightarrow> int \<Rightarrow> string \<Rightarrow> merkle_leaf option \<Rightarrow> js_error + merkle_leaf option" where
  "join_children H last_odd n h0 leaf1 =
     (case leaf1 of
        None \<Rightarrow> if last_odd then with_hash n (hashPair H h0 h0) else Inr None
      | Some l1 \<Rightarrow>
          (case lf_hash l1 of
             None \<Rightarrow>
               if lf_duplicate l1 = Some True \<or> last_odd
               then with_hash n (hashPair H h0 h0) else Inr None
           | Some h1 \<Rightarrow>
               if lf_duplicate l1 = Some True then with_hash n (hashPair H h0 h0)
               else with_hash n (hashPair H h1 h0)))"

definition last_odd_child :: "merkle_path \<Rightarrow> int \<Rightarrow> nat \<Rightarrow> bool" where
  "last_odd_child p n h \<longleftrightarrow>
     length (mp_path p) = 1 \<and> n = offsetAtHeight (maxOffset (level_zero p)) h"

fun findOrComputeLeaf ::
    "(bytes \<Rightarrow> bytes) \<Rightarrow> merkle_path \<Rightarrow> nat \<Rightarrow> int \<Rightarrow> js_error + merkle_leaf option" where
  "findOrComputeLeaf H p 0 n = and_then (assertOffset n) (\<lambda>_. Inr (level_find p 0 n))"
| "findOrComputeLeaf H p (Suc h) n = and_then (assertOffset n) (\<lambda>_.
     case level_find p (Suc h) n of
       Some leaf \<Rightarrow> Inr (Some leaf)
     | None \<Rightarrow>
         if \<not> is_safe_integer (n * 2) then Inr None
         else and_then (findOrComputeLeaf H p h (n * 2)) (\<lambda>leaf0.
           case nonempty_hash leaf0 of
             None \<Rightarrow> Inr None
           | Some h0 \<Rightarrow> and_then (findOrComputeLeaf H p h (n * 2 + 1)) (\<lambda>leaf1.
               join_children H (last_odd_child p (n * 2) h) n h0 leaf1)))"

subsection \<open>The root of a path\<close>

text \<open>The loop of \<open>computeRoot\<close>: \<open>k\<close> levels left, at height \<open>h\<close> with the working hash \<open>w\<close>.\<close>

definition climb_step :: "(bytes \<Rightarrow> bytes) \<Rightarrow> merkle_path \<Rightarrow> int \<Rightarrow> nat \<Rightarrow> string \<Rightarrow> js_error + string" where
  "climb_step H p index h w =
     (let n = siblingOf (offsetAtHeight index h)
      in and_then (findOrComputeLeaf H p h n) (\<lambda>leaf.
           nextCachedHash H w leaf n index h
             (length (mp_path p) = 1 \<and> sameNodeAtHeight index (maxOffset (level_zero p)) h)))"

fun climb :: "(bytes \<Rightarrow> bytes) \<Rightarrow> merkle_path \<Rightarrow> int \<Rightarrow> nat \<Rightarrow> nat \<Rightarrow> string \<Rightarrow> js_error + string" where
  "climb H p index 0 h w = Inr w"
| "climb H p index (Suc k) h w = and_then (climb_step H p index h w) (climb H p index k (Suc h))"

text \<open>\<open>Boolean(leaf?.hash)\<close>\<close>

definition has_hash :: "merkle_leaf \<Rightarrow> bool" where
  "has_hash l \<longleftrightarrow> nonempty_hash (Some l) \<noteq> None"

definition is_single_transaction :: "merkle_path \<Rightarrow> bool" where
  "is_single_transaction p \<longleftrightarrow> (case mp_path p of [[leaf]] \<Rightarrow> lf_offset leaf = 0 | _ \<Rightarrow> False)"

definition root_of_txid :: "(bytes \<Rightarrow> bytes) \<Rightarrow> merkle_path \<Rightarrow> string \<Rightarrow> js_error + string" where
  "root_of_txid H p txid =
     and_then (indexOf p txid) (\<lambda>index.
     and_then (assertSingleTransactionOffset (mp_path p)) (\<lambda>_.
       if is_single_transaction p then Inr txid else climb H p index (tree_height p) 0 txid))"

definition computeRoot :: "(bytes \<Rightarrow> bytes) \<Rightarrow> merkle_path \<Rightarrow> string option \<Rightarrow> js_error + string" where
  "computeRoot H p txid =
     (case txid of
        Some t \<Rightarrow> root_of_txid H p t
      | None \<Rightarrow>
          (case find has_hash (level_zero p) of
             None \<Rightarrow> Inl (JsError ''No valid leaf found in the Merkle Path'')
           | Some leaf \<Rightarrow>
               (case lf_hash leaf of
                  None \<Rightarrow> Inl (JsTypeError ''Transaction ID is undefined'')
                | Some t \<Rightarrow> root_of_txid H p t)))"

subsection \<open>The root with caches\<close>

type_synonym leaf_index = "(int \<rightharpoonup> merkle_leaf) list"

record merkle_caches =
  hash_cache :: "nat \<times> int \<rightharpoonup> merkle_leaf option"
  node_cache :: "nat \<times> int \<rightharpoonup> string"

type_synonym 'a cached = "(merkle_caches, js_error, 'a) action"

definition empty_caches :: merkle_caches where
  "empty_caches = \<lparr>hash_cache = Map.empty, node_cache = Map.empty\<rparr>"

definition createSourceLeafIndex :: "merkle_path \<Rightarrow> leaf_index" where
  "createSourceLeafIndex p =
     map (\<lambda>level. map_of (rev (map (\<lambda>l. (lf_offset l, l)) level))) (mp_path p)"

definition remember_leaf :: "nat \<Rightarrow> int \<Rightarrow> merkle_leaf option \<Rightarrow> merkle_leaf option cached" where
  "remember_leaf h n leaf =
     (\<lambda>c. (Inr leaf, c\<lparr>hash_cache := (hash_cache c)((h, n) \<mapsto> leaf)\<rparr>))"

definition index_find :: "leaf_index \<Rightarrow> nat \<Rightarrow> int \<Rightarrow> merkle_leaf option" where
  "index_find source h n = (if h < length source then (source ! h) n else None)"

fun cachedFindLeaf ::
    "(bytes \<Rightarrow> bytes) \<Rightarrow> merkle_path \<Rightarrow> leaf_index \<Rightarrow> int \<Rightarrow> nat \<Rightarrow> int \<Rightarrow> merkle_leaf option cached" where
  "cachedFindLeaf H p source m 0 n = (\<lambda>c.
     case hash_cache c (0, n) of
       Some leaf \<Rightarrow> (Inr leaf, c)
     | None \<Rightarrow> remember_leaf 0 n (index_find source 0 n) c)"
| "cachedFindLeaf H p source m (Suc h) n = (\<lambda>c.
     case hash_cache c (Suc h, n) of
       Some leaf \<Rightarrow> (Inr leaf, c)
     | None \<Rightarrow>
         (case index_find source (Suc h) n of
            Some leaf \<Rightarrow> remember_leaf (Suc h) n (Some leaf) c
          | None \<Rightarrow>
              if \<not> is_safe_integer (n * 2) then (Inr None, c)
              else bnd (cachedFindLeaf H p source m h (n * 2)) (\<lambda>leaf0.
                case nonempty_hash leaf0 of
                  None \<Rightarrow> remember_leaf (Suc h) n None
                | Some h0 \<Rightarrow> bnd (cachedFindLeaf H p source m h (n * 2 + 1)) (\<lambda>leaf1.
                    bnd (lift_result (join_children H
                          (length (mp_path p) = 1 \<and> n * 2 = offsetAtHeight m h) n h0 leaf1))
                      (remember_leaf (Suc h) n))) c))"

definition cachedMerkleRoot ::
    "nat \<times> int \<Rightarrow> string \<Rightarrow> nat \<Rightarrow> (nat \<times> int \<rightharpoonup> string) \<Rightarrow> js_error + string option" where
  "cachedMerkleRoot key w treeHeight nodes =
     (case nodes key of
        None \<Rightarrow> Inr None
      | Some x \<Rightarrow>
          if x \<noteq> w then Inl (JsError ''Mismatched roots'')
          else (case nodes (treeHeight, 0) of
                  None \<Rightarrow> Inl (JsError ''Mismatched roots'')
                | Some root \<Rightarrow> Inr (Some root)))"

definition remember_node :: "nat \<times> int \<Rightarrow> string \<Rightarrow> unit cached" where
  "remember_node key w = modify (\<lambda>c. c\<lparr>node_cache := (node_cache c)(key \<mapsto> w)\<rparr>)"

text \<open>The loop of \<open>computeRootCached\<close>, which may return early with a cached root.\<close>

fun cached_climb ::
    "(bytes \<Rightarrow> bytes) \<Rightarrow> merkle_path \<Rightarrow> leaf_index \<Rightarrow> int \<Rightarrow> int \<Rightarrow> nat \<Rightarrow> nat \<Rightarrow> nat \<Rightarrow> string \<Rightarrow> string cached" where
  "cached_climb H p source m index th 0 h w = thn (remember_node (th, 0) w) (ret w)"
| "cached_climb H p source m index th (Suc k) h w =
     bnd (get node_cache) (\<lambda>nodes.
     bnd (lift_result (cachedMerkleRoot (h, offsetAtHeight index h) w th nodes)) (\<lambda>hit.
       case hit of
         Some root \<Rightarrow> ret root
       | None \<Rightarrow>
           thn (remember_node (h, offsetAtHeight index h) w)
           (bnd (cachedFindLeaf H p source m h (siblingOf (offsetAtHeight index h))) (\<lambda>leaf.
            bnd (lift_result (nextCachedHash H w leaf (siblingOf (offsetAtHeight index h)) index h
                   (length (mp_path p) = 1 \<and> sameNodeAtHeight index m h)))
              (cached_climb H p source m index th k (Suc h))))))"

definition computeRootCached ::
    "(bytes \<Rightarrow> bytes) \<Rightarrow> merkle_path \<Rightarrow> string option \<Rightarrow> leaf_index \<Rightarrow> int \<Rightarrow> string cached" where
  "computeRootCached H p txid source m =
     (let t = (case txid of Some t \<Rightarrow> Some t
               | None \<Rightarrow> (case find has_hash (level_zero p) of None \<Rightarrow> None | Some l \<Rightarrow> lf_hash l))
      in case t of
           None \<Rightarrow> throw (JsTypeError ''Transaction ID is undefined'')
         | Some t \<Rightarrow>
             bnd (lift_result (indexOf p t)) (\<lambda>index.
             bnd (lift_result (assertSingleTransactionOffset (mp_path p))) (\<lambda>_.
               if is_single_transaction p then ret t
               else let th = max (length (mp_path p)) (offsetTreeHeight m)
                    in cached_climb H p source m index th th 0 t)))"

subsection \<open>Construction\<close>

definition legalOffsets :: "merkle_leaf list \<Rightarrow> nat \<Rightarrow> int list" where
  "legalOffsets leaves h =
     map (\<lambda>l. siblingOf (offsetAtHeight (lf_offset l) h))
       (filter (\<lambda>l. lf_duplicate l \<noteq> Some True) leaves)"

text \<open>\<open>Array.from(set).join('', '')\<close> of the numbers added to a set in order.\<close>

fun join_offsets :: "int list \<Rightarrow> string" where
  "join_offsets [] = []"
| "join_offsets [n] = decimal n"
| "join_offsets (n # ns) = decimal n @ '', '' @ join_offsets ns"

fun check_leaves ::
    "bool \<Rightarrow> int list \<Rightarrow> nat \<Rightarrow> int list \<Rightarrow> merkle_leaf list \<Rightarrow> js_error + unit" where
  "check_leaves only legal h seen [] = Inr ()"
| "check_leaves only legal h seen (leaf # leaves) =
     and_then (assertOffset (lf_offset leaf)) (\<lambda>_.
       if lf_offset leaf \<in> set seen
       then Inl (JsError (''Duplicate offset: '' @ decimal (lf_offset leaf) @ '', at height: ''
              @ decimal (int h)))
       else if h \<noteq> 0 \<and> only \<and> lf_offset leaf \<notin> set legal
       then Inl (JsError (''Invalid offset: '' @ decimal (lf_offset leaf) @ '', at height: ''
              @ decimal (int h) @ '', with legal offsets: ''
              @ join_offsets (rev (remdups (rev legal)))))
       else check_leaves only legal h (lf_offset leaf # seen) leaves)"

fun check_levels ::
    "bool \<Rightarrow> merkle_leaf list \<Rightarrow> nat \<Rightarrow> merkle_leaf list list \<Rightarrow> js_error + unit" where
  "check_levels only leaves0 h [] = Inr ()"
| "check_levels only leaves0 h (level # levels) =
     (if level = [] \<and> h = 0 then Inl (JsError (''Empty level at height: '' @ decimal (int h)))
      else and_then (check_leaves only (legalOffsets leaves0 h) h [] level)
             (\<lambda>_. check_levels only leaves0 (Suc h) levels))"

text \<open>The optional validation: every leaf of level zero computes to the same root.\<close>

fun validate_leaves ::
    "(bytes \<Rightarrow> bytes) \<Rightarrow> merkle_path \<Rightarrow> leaf_index \<Rightarrow> int \<Rightarrow> string option \<Rightarrow> merkle_leaf list \<Rightarrow> unit cached" where
  "validate_leaves H p source m root [] = ret ()"
| "validate_leaves H p source m root (leaf # leaves) =
     bnd (computeRootCached H p (lf_hash leaf) source m) (\<lambda>computed.
       let root' = (case root of None \<Rightarrow> computed | Some r \<Rightarrow> r)
       in if root' \<noteq> computed then throw (JsError ''Mismatched roots'')
          else validate_leaves H p source m (Some root') leaves)"

definition validateRoots :: "(bytes \<Rightarrow> bytes) \<Rightarrow> merkle_path \<Rightarrow> js_error + unit" where
  "validateRoots H p =
     fst (validate_leaves H p (createSourceLeafIndex p) (maxOffset (level_zero p)) None
            (level_zero p) empty_caches)"

definition new_MerklePath ::
    "(bytes \<Rightarrow> bytes) \<Rightarrow> int \<Rightarrow> merkle_leaf list list \<Rightarrow> bool \<Rightarrow> bool \<Rightarrow> js_error + merkle_path" where
  "new_MerklePath H height levels legalOffsetsOnly validate =
     (if levels = [] \<or> length levels > 54
      then Inl (JsError ''Merkle Path must contain between 1 and 54 levels'')
      else
        let p = \<lparr>mp_height = height, mp_path = levels\<rparr>
        in and_then (check_levels legalOffsetsOnly (level_zero p) 0 levels) (\<lambda>_.
           and_then (assertSingleTransactionOffset levels) (\<lambda>_.
             if validate then and_then (validateRoots H p) (\<lambda>_. Inr p) else Inr p)))"

definition fromCoinbaseTxidAndHeight :: "(bytes \<Rightarrow> bytes) \<Rightarrow> string \<Rightarrow> int \<Rightarrow> js_error + merkle_path" where
  "fromCoinbaseTxidAndHeight H txid height =
     new_MerklePath H height
       [[\<lparr>lf_offset = 0, lf_hash = Some txid, lf_txid = Some True, lf_duplicate = None\<rparr>]] True True"

subsection \<open>Serialisation\<close>

definition read_leaf :: "merkle_leaf rd" where
  "read_leaf =
     bnd (readVarIntNumStrict False) (\<lambda>n.
     bnd readUInt8 (\<lambda>flags.
       if and flags 1 = 1
       then ret \<lparr>lf_offset = n, lf_hash = None, lf_txid = None, lf_duplicate = Some True\<rparr>
       else bnd (rd_read 32) (\<lambda>bs.
         ret \<lparr>lf_offset = n, lf_hash = Some (toHex (rev bs)),
              lf_txid = (if and flags 2 \<noteq> 0 then Some True else None), lf_duplicate = None\<rparr>)))"

definition read_level :: "merkle_leaf list rd" where
  "read_level =
     bnd (readVarIntNumStrict False) (\<lambda>n.
     bnd (rd_times (nat n) read_leaf) (\<lambda>leaves. ret (sort_key lf_offset leaves)))"

definition mp_fromReader :: "(bytes \<Rightarrow> bytes) \<Rightarrow> bool \<Rightarrow> bool \<Rightarrow> merkle_path rd" where
  "mp_fromReader H only validate =
     bnd (readVarIntNumStrict False) (\<lambda>height.
     bnd readUInt8 (\<lambda>treeHeight.
     bnd (rd_times (unat treeHeight) read_level) (\<lambda>levels.
       lift_result (new_MerklePath H height levels only validate))))"

definition mp_fromBinary :: "(bytes \<Rightarrow> bytes) \<Rightarrow> bytes \<Rightarrow> bool \<Rightarrow> bool \<Rightarrow> js_error + merkle_path" where
  "mp_fromBinary H bump only validate =
     and_then (new_reader bump 0) (\<lambda>r. fst (mp_fromReader H only validate r))"

definition mp_fromHex :: "(bytes \<Rightarrow> bytes) \<Rightarrow> string \<Rightarrow> js_error + merkle_path" where
  "mp_fromHex H s = and_then (hexToArray s) (\<lambda>bs. mp_fromBinary H bs True True)"

definition leaf_flags :: "merkle_leaf \<Rightarrow> int" where
  "leaf_flags leaf =
     (if lf_duplicate leaf = Some True then 1 else 0) + (if lf_txid leaf \<noteq> None then 2 else 0)"

text \<open>\<open>toArray(leaf.hash, 'hex')\<close> throws a \<open>TypeError\<close> on an undefined hash.\<close>

definition write_leaf :: "merkle_leaf \<Rightarrow> wr" where
  "write_leaf leaf =
     thn (writeVarIntNum (lf_offset leaf))
     (thn (writeUInt8 (leaf_flags leaf))
       (if lf_duplicate leaf = Some True then ret ()
        else case lf_hash leaf of
               None \<Rightarrow> throw (JsTypeError ''hash is undefined'')
             | Some x \<Rightarrow> bnd (lift_result (hexToArray x)) (\<lambda>bs. wr_write (rev bs))))"

fun write_each :: "('a \<Rightarrow> wr) \<Rightarrow> 'a list \<Rightarrow> wr" where
  "write_each f [] = ret ()"
| "write_each f (x # xs) = thn (f x) (write_each f xs)"

definition write_level :: "merkle_leaf list \<Rightarrow> wr" where
  "write_level level = thn (writeVarIntNum (int (length level))) (write_each write_leaf level)"

definition mp_toWriter :: "merkle_path \<Rightarrow> wr" where
  "mp_toWriter p =
     thn (writeVarIntNum (mp_height p))
     (thn (writeUInt8 (int (length (mp_path p)))) (write_each write_level (mp_path p)))"

definition mp_toBinary :: "merkle_path \<Rightarrow> js_error + bytes" where
  "mp_toBinary p =
     (case mp_toWriter p (new_writer []) of (Inl e, _) \<Rightarrow> Inl e | (Inr _, w) \<Rightarrow> Inr (wr_toArray w))"

definition mp_toHex :: "merkle_path \<Rightarrow> js_error + string" where
  "mp_toHex p = and_then (mp_toBinary p) (\<lambda>bs. Inr (toHex bs))"

subsection \<open>Verification against a chain tracker\<close>

record chain_tracker =
  currentHeight :: "js_error + int"
  isValidRootForHeight :: "string \<Rightarrow> int \<Rightarrow> js_error + bool"

definition mp_verify ::
    "(bytes \<Rightarrow> bytes) \<Rightarrow> merkle_path \<Rightarrow> string \<Rightarrow> chain_tracker \<Rightarrow> js_error + bool" where
  "mp_verify H p txid tracker =
     (if \<not> is_safe_integer (mp_height p) \<or> mp_height p < 0
      then Inl (JsError ''Merkle Path block height must be a non-negative safe integer'')
      else
        and_then (computeRoot H p (Some txid)) (\<lambda>root.
        and_then (indexOf p txid) (\<lambda>index.
        and_then
          (if index = 0 then
             and_then (currentHeight tracker) (\<lambda>height.
               if \<not> is_safe_integer height \<or> height < 0
               then Inl (JsError ''ChainTracker current height must be a non-negative safe integer'')
               else Inr (mp_height p + 100 \<le> height))
           else Inr True) (\<lambda>mature.
          if \<not> mature then Inr False
          else isValidRootForHeight tracker root (mp_height p)))))"

subsection \<open>Compound paths\<close>

definition pushIfNew :: "int \<Rightarrow> int list \<Rightarrow> int list" where
  "pushIfNew v a = (if a = [] \<or> last a \<noteq> v then a @ [v] else a)"

fun remove_offset :: "int \<Rightarrow> merkle_leaf list \<Rightarrow> merkle_leaf list" where
  "remove_offset n [] = []"
| "remove_offset n (l # ls) = (if lf_offset l = n then ls else l # remove_offset n ls)"

definition dropOffsetsFromLevel :: "int list \<Rightarrow> merkle_leaf list \<Rightarrow> merkle_leaf list" where
  "dropOffsetsFromLevel offsets level = foldr remove_offset offsets level"

definition nextComputedOffsets :: "int list \<Rightarrow> int list" where
  "nextComputedOffsets cos = foldl (\<lambda>a n. pushIfNew (offsetAtHeight n 1) a) [] cos"

text \<open>The pass over level zero: the offsets to compute on level one, the offsets to drop.\<close>

fun trim_scan ::
    "merkle_leaf list \<Rightarrow> nat \<Rightarrow> nat \<Rightarrow> int list \<Rightarrow> int list \<Rightarrow> js_error + int list \<times> int list" where
  "trim_scan level 0 i computed drops = Inr (computed, drops)"
| "trim_scan level (Suc k) i computed drops =
     (let n = level ! i
      in if lf_txid n = Some True
         then trim_scan level k (Suc i) (pushIfNew (offsetAtHeight (lf_offset n) 1) computed) drops
         else
           let isOdd = lf_offset n mod 2 = 1;
               peer = (if isOdd then (if i = 0 then None else Some (level ! (i - 1)))
                       else if i + 1 < length level then Some (level ! (i + 1)) else None)
           in case peer of
                None \<Rightarrow> Inl (JsTypeError ''Cannot read properties of undefined (reading 'txid')'')
              | Some q \<Rightarrow>
                  trim_scan level k (Suc i) computed
                    (if lf_txid q \<noteq> Some True then pushIfNew (lf_offset q) drops else drops))"

fun trim_levels :: "int list \<Rightarrow> merkle_leaf list list \<Rightarrow> merkle_leaf list list" where
  "trim_levels computed [] = []"
| "trim_levels computed (level # levels) =
     dropOffsetsFromLevel computed level # trim_levels (nextComputedOffsets computed) levels"

definition sort_levels :: "merkle_path \<Rightarrow> merkle_path" where
  "sort_levels p = p\<lparr>mp_path := map (sort_key lf_offset) (mp_path p)\<rparr>"

definition trim :: "(merkle_path, js_error, unit) action" where
  "trim = thn (modify sort_levels)
     (bnd (get level_zero) (\<lambda>level.
      bnd (lift_result (trim_scan level (length level) 0 [] [])) (\<lambda>(computed, drops).
        modify (\<lambda>p. p\<lparr>mp_path :=
          dropOffsetsFromLevel drops level # trim_levels computed (tl (mp_path p))\<rparr>))))"

fun merge_leaf :: "merkle_leaf list \<Rightarrow> merkle_leaf \<Rightarrow> merkle_leaf list" where
  "merge_leaf [] new = [new]"
| "merge_leaf (l # ls) new =
     (if lf_offset l = lf_offset new
      then (if lf_txid new \<noteq> None then l\<lparr>lf_txid := Some True\<rparr> else l) # ls
      else l # merge_leaf ls new)"

fun merge_levels :: "merkle_leaf list list \<Rightarrow> merkle_leaf list list \<Rightarrow> js_error + merkle_leaf list list" where
  "merge_levels [] others = Inr []"
| "merge_levels (level # levels) [] = Inl (JsTypeError ''other.path[h] is not iterable'')"
| "merge_levels (level # levels) (other # others) =
     and_then (merge_levels levels others) (\<lambda>rest. Inr (foldl merge_leaf level other # rest))"

definition different_roots :: js_error where
  "different_roots = JsError ''You cannot combine paths which do not have the same root.''"

definition mp_combine :: "(bytes \<Rightarrow> bytes) \<Rightarrow> merkle_path \<Rightarrow> (merkle_path, js_error, unit) action" where
  "mp_combine H other = (\<lambda>this.
     if mp_height this \<noteq> mp_height other
     then (Inl (JsError ''You cannot combine paths which do not have the same block height.''), this)
     else case computeRoot H this None of Inl e \<Rightarrow> (Inl e, this) | Inr root1 \<Rightarrow>
       (case computeRoot H other None of Inl e \<Rightarrow> (Inl e, this) | Inr root2 \<Rightarrow>
         if root1 \<noteq> root2 then (Inl different_roots, this)
         else case merge_levels (mp_path this) (mp_path other) of Inl e \<Rightarrow> (Inl e, this)
           | Inr combined \<Rightarrow>
             (case trim (this\<lparr>mp_path := combined\<rparr>) of
                (Inl e, _) \<Rightarrow> (Inl e, this)
              | (Inr _, trimmed) \<Rightarrow>
                 (case computeRoot H trimmed None of
                    Inl e \<Rightarrow> (Inl e, this)
                  | Inr root \<Rightarrow>
                      if root \<noteq> root1 then (Inl different_roots, this) else (Inr (), trimmed)))))"

subsection \<open>Extraction\<close>

type_synonym needed = "(int \<times> merkle_leaf) list list"

definition createTxidToOffsetIndex :: "merkle_path \<Rightarrow> string \<rightharpoonup> int" where
  "createTxidToOffsetIndex p =
     foldl (\<lambda>m l. case lf_hash l of None \<Rightarrow> m | Some x \<Rightarrow> m(x \<mapsto> lf_offset l)) Map.empty (level_zero p)"

definition createNeededLeafLevels :: "nat \<Rightarrow> needed" where
  "createNeededLeafLevels th = replicate th []"

definition set_needed :: "nat \<Rightarrow> int \<Rightarrow> merkle_leaf \<Rightarrow> needed \<Rightarrow> needed" where
  "set_needed h n leaf need = need[h := AList.update n leaf (need ! h)]"

definition has_needed :: "nat \<Rightarrow> int \<Rightarrow> needed \<Rightarrow> bool" where
  "has_needed h n need \<longleftrightarrow> map_of (need ! h) n \<noteq> None"

record extraction =
  ex_needed :: needed
  ex_caches :: merkle_caches

definition find_leaf ::
    "(bytes \<Rightarrow> bytes) \<Rightarrow> merkle_path \<Rightarrow> nat \<Rightarrow> int \<Rightarrow> (extraction, js_error, merkle_leaf option) action" where
  "find_leaf H p h n = (\<lambda>s.
     case cachedFindLeaf H p (createSourceLeafIndex p) (maxOffset (level_zero p)) h n (ex_caches s) of
       (r, c) \<Rightarrow> (r, s\<lparr>ex_caches := c\<rparr>))"

definition need_leaf :: "nat \<Rightarrow> int \<Rightarrow> merkle_leaf \<Rightarrow> (extraction, js_error, unit) action" where
  "need_leaf h n leaf = modify (\<lambda>s. s\<lparr>ex_needed := set_needed h n leaf (ex_needed s)\<rparr>)"

definition duplicate_leaf :: "int \<Rightarrow> merkle_leaf" where
  "duplicate_leaf n = \<lparr>lf_offset = n, lf_hash = None, lf_txid = None, lf_duplicate = Some True\<rparr>"

text \<open>The loop over the higher levels: \<open>k\<close> levels left, at height \<open>h\<close>.\<close>

fun collect_higher ::
    "(bytes \<Rightarrow> bytes) \<Rightarrow> merkle_path \<Rightarrow> int \<Rightarrow> nat \<Rightarrow> nat \<Rightarrow> (extraction, js_error, unit) action" where
  "collect_higher H p n 0 h = ret ()"
| "collect_higher H p n (Suc k) h =
     bnd (get ex_needed) (\<lambda>need.
     thn
       (let sib = siblingOf (offsetAtHeight n h)
        in if has_needed h sib need then ret ()
           else bnd (find_leaf H p h sib) (\<lambda>sibling.
             case sibling of
               Some leaf \<Rightarrow> need_leaf h sib leaf
             | None \<Rightarrow>
                 if sameNodeAtHeight n (maxOffset (level_zero p)) h
                 then need_leaf h sib (duplicate_leaf sib) else ret ()))
       (collect_higher H p n k (Suc h)))"

definition collectExtractedLeaves ::
    "(bytes \<Rightarrow> bytes) \<Rightarrow> merkle_path \<Rightarrow> string \<Rightarrow> (extraction, js_error, unit) action" where
  "collectExtractedLeaves H p txid =
     (case createTxidToOffsetIndex p txid of
        None \<Rightarrow> throw (JsError (''Transaction ID '' @ txid @ '' not found in the Merkle Path''))
      | Some n \<Rightarrow>
          thn (need_leaf 0 n \<lparr>lf_offset = n, lf_hash = Some txid, lf_txid = Some True, lf_duplicate = None\<rparr>)
          (bnd (get ex_needed) (\<lambda>need.
           thn
             (if has_needed 0 (siblingOf n) need then ret ()
              else bnd (find_leaf H p 0 (siblingOf n)) (\<lambda>sibling.
                case sibling of Some leaf \<Rightarrow> need_leaf 0 (siblingOf n) leaf | None \<Rightarrow> ret ()))
             (collect_higher H p n (tree_height p - 1) 1))))"

fun collect_all :: "(bytes \<Rightarrow> bytes) \<Rightarrow> merkle_path \<Rightarrow> string list \<Rightarrow> (extraction, js_error, unit) action" where
  "collect_all H p [] = ret ()"
| "collect_all H p (txid # txids) = thn (collectExtractedLeaves H p txid) (collect_all H p txids)"

definition buildExtractedPath :: "needed \<Rightarrow> merkle_leaf list list" where
  "buildExtractedPath need = map (\<lambda>level. sort_key lf_offset (map snd level)) need"

definition mp_extract :: "(bytes \<Rightarrow> bytes) \<Rightarrow> merkle_path \<Rightarrow> string list \<Rightarrow> js_error + merkle_path" where
  "mp_extract H p txids =
     (if txids = [] then Inl (JsError ''At least one txid must be provided to extract'')
      else and_then (computeRoot H p None) (\<lambda>originalRoot.
        case collect_all H p txids
               \<lparr>ex_needed = createNeededLeafLevels (tree_height p), ex_caches = empty_caches\<rparr> of
          (Inl e, _) \<Rightarrow> Inl e
        | (Inr _, s) \<Rightarrow>
            and_then (new_MerklePath H (mp_height p) (buildExtractedPath (ex_needed s)) True True)
              (\<lambda>compound.
                case trim compound of
                  (Inl e, _) \<Rightarrow> Inl e
                | (Inr _, trimmed) \<Rightarrow>
                    and_then (computeRoot H trimmed None) (\<lambda>extractedRoot.
                      if extractedRoot \<noteq> originalRoot
                      then Inl (JsError (''Extracted path root '' @ extractedRoot
                             @ '' does not match original root '' @ originalRoot))
                      else Inr trimmed))))"

end
