(* ===== verification/Merkle_Root.thy ===== *)
theory Merkle_Root
  imports Merkle_Path
begin

text \<open>
  The root of a Merkle path. Against the Merkle tree of a block, defined on byte strings:
  the one-level path of a whole block computes the block's root from every transaction.
  Against the caches of the constructor: the shared caches change no result, so a validated
  path has one root. Against forgery: a transaction that climbs to a block's root is in the
  block, unless two of the strings hashed on the way collide.
\<close>

subsection \<open>Offsets and the height of the tree\<close>

lemma offsetTreeHeight_step:
  "offsetTreeHeight (int n) = (if n = 0 then 0 else Suc (offsetTreeHeight (int (n div 2))))"
  by (subst offsetTreeHeight_def, subst binary_string.simps) (auto simp: offsetTreeHeight_def binary_string.simps[of 0] binary_string.simps[of 1] div_eq_0_iff)

lemma lt_two_power_tree_height: "n < 2 ^ offsetTreeHeight (int n)"
proof (induction n rule: less_induct)
  case (less n)
  show ?case
  proof (cases "n = 0")
    case False
    then have "n div 2 < 2 ^ offsetTreeHeight (int (n div 2))" by (intro less) simp
    with False show ?thesis by (subst offsetTreeHeight_step) simp
  qed simp
qed

lemma offsetAtHeight_0 [simp]: "offsetAtHeight n 0 = n"
  by (simp add: offsetAtHeight_def)

lemma offsetAtHeight_Suc: "offsetAtHeight n (Suc h) = offsetAtHeight n h div 2"
  by (simp add: offsetAtHeight_def power_Suc2 zdiv_zmult2_eq del: power_Suc)

lemma offsetAtHeight_nat: "offsetAtHeight (int n) h = int (n div 2 ^ h)"
  by (simp add: offsetAtHeight_def zdiv_int)

lemma offsetAtHeight_bounds:
  "0 \<le> n \<Longrightarrow> 0 \<le> offsetAtHeight n h \<and> offsetAtHeight n h \<le> n"
  using zdiv_mono2[of n 1 "2 ^ h"] by (simp add: offsetAtHeight_def pos_imp_zdiv_nonneg_iff)

lemma siblingOf_nat:
  "siblingOf (int n) = int (if even n then n + 1 else n - 1)"
proof -
  have "int n mod 2 = 0 \<longleftrightarrow> even n" by (metis even_iff_mod_2_eq_zero even_of_nat)
  then show ?thesis by (cases n) (auto simp: siblingOf_def)
qed

lemma siblingOf_admissible:
  "0 \<le> n \<Longrightarrow> is_safe_integer n \<Longrightarrow> 0 \<le> siblingOf n \<and> is_safe_integer (siblingOf n)"
  by (auto simp: siblingOf_def is_safe_integer_def abs_if split: if_splits)+

subsection \<open>Hashes as strings\<close>

text \<open>A hash is displayed as the hexadecimal text of its bytes in reverse order.\<close>

definition display :: "bytes \<Rightarrow> string" where
  "display b = toHex (rev b)"

lemma hashPair_display: "hashPair H (display r) (display l) = Inr (display (H (l @ r)))"
proof -
  have "display r @ display l = toHex (rev (l @ r))"
    by (simp add: display_def toHex_def)
  then show ?thesis by (simp add: hashPair_def hexToArray_toHex display_def)
qed

lemma display_eq_Nil [simp]: "display b = [] \<longleftrightarrow> b = []"
  unfolding display_def by (metis length_0_conv length_rev length_toHex mult_eq_0_iff zero_neq_numeral)

lemma display_inject [simp]: "display a = display b \<longleftrightarrow> a = b"
  unfolding display_def by (metis hex_pairs_toHex rev_rev_ident)

subsection \<open>The Merkle tree of a block\<close>

text \<open>The reference: levels of byte strings, the last node of an odd level paired with itself.\<close>

fun merkle_level :: "(bytes \<Rightarrow> bytes) \<Rightarrow> bytes list \<Rightarrow> bytes list" where
  "merkle_level H [] = []"
| "merkle_level H [x] = [H (x @ x)]"
| "merkle_level H (x # y # rest) = H (x @ y) # merkle_level H rest"

lemma length_merkle_level: "length (merkle_level H xs) = (length xs + 1) div 2"
  by (induction H xs rule: merkle_level.induct) simp_all

function merkle_root :: "(bytes \<Rightarrow> bytes) \<Rightarrow> bytes list \<Rightarrow> bytes" where
  "merkle_root H xs =
     (if length xs \<le> 1 then concat xs else merkle_root H (merkle_level H xs))"
  by auto
termination
  by (relation "measure (\<lambda>(H, xs). length xs)") (auto simp: length_merkle_level)

declare merkle_root.simps [simp del]

definition tree_level :: "(bytes \<Rightarrow> bytes) \<Rightarrow> bytes list \<Rightarrow> nat \<Rightarrow> bytes list" where
  "tree_level H ids h = (merkle_level H ^^ h) ids"

lemma tree_level_0 [simp]: "tree_level H ids 0 = ids"
  by (simp add: tree_level_def)

lemma tree_level_Suc: "tree_level H ids (Suc h) = merkle_level H (tree_level H ids h)"
  by (simp add: tree_level_def)

lemma tree_level_shift: "tree_level H (merkle_level H ids) h = tree_level H ids (Suc h)"
  by (simp add: tree_level_def funpow_swap1)

lemma merkle_level_nth:
  "k < (length xs + 1) div 2 \<Longrightarrow>
   merkle_level H xs ! k = H (xs ! (2 * k) @ xs ! (if 2 * k + 1 < length xs then 2 * k + 1 else 2 * k))"
proof (induction H xs arbitrary: k rule: merkle_level.induct)
  case (3 H x y rest)
  then show ?case by (cases k) auto
qed auto

lemma length_tree_level:
  "ids \<noteq> [] \<Longrightarrow> length (tree_level H ids h) = (length ids - 1) div 2 ^ h + 1"
proof (induction h)
  case 0
  then show ?case by (cases ids) simp_all
next
  case (Suc h)
  then show ?case by (simp add: tree_level_Suc length_merkle_level div_mult2_eq[symmetric] mult.commute)
qed

lemma tree_level_nonempty:
  assumes "\<And>b. H b \<noteq> []" "list_all (\<lambda>b. b \<noteq> []) ids" "k < length (tree_level H ids h)"
  shows "tree_level H ids h ! k \<noteq> []"
proof (cases h)
  case 0
  with assms show ?thesis by (simp add: list_all_length)
next
  case (Suc g)
  with assms show ?thesis by (simp add: tree_level_Suc length_merkle_level merkle_level_nth)
qed

lemma merkle_root_tree_level:
  "ids \<noteq> [] \<Longrightarrow> merkle_root H ids = tree_level H ids (offsetTreeHeight (int (length ids - 1))) ! 0"
proof (induction H ids rule: merkle_root.induct)
  case (1 H ids)
  show ?case
  proof (cases "length ids \<le> 1")
    case True
    with 1 obtain x where "ids = [x]" by (cases ids) auto
    then show ?thesis by (simp add: merkle_root.simps offsetTreeHeight_def)
  next
    case False
    have "length (merkle_level H ids) \<noteq> 0" using False by (simp add: length_merkle_level)
    then have "merkle_level H ids \<noteq> []" by auto
    moreover have "length (merkle_level H ids) - 1 = (length ids - 1) div 2"
      using False by (simp add: length_merkle_level)
    ultimately show ?thesis
      using 1 False
      by (subst merkle_root.simps, subst offsetTreeHeight_step) (simp add: tree_level_shift)
  qed
qed

subsection \<open>A block's transactions as a one-level path\<close>

definition block_leaves :: "bytes list \<Rightarrow> merkle_leaf list" where
  "block_leaves ids = map (\<lambda>i. \<lparr>lf_offset = int i, lf_hash = Some (display (ids ! i)),
     lf_txid = Some True, lf_duplicate = None\<rparr>) [0..<length ids]"

definition block_path :: "int \<Rightarrow> bytes list \<Rightarrow> merkle_path" where
  "block_path height ids = \<lparr>mp_height = height, mp_path = [block_leaves ids]\<rparr>"

lemma block_path_simps [simp]:
  "mp_path (block_path height ids) = [block_leaves ids]"
  "level_zero (block_path height ids) = block_leaves ids"
  "length (block_leaves ids) = length ids"
  by (simp_all add: block_path_def level_zero_def block_leaves_def)

lemma maxOffset_snoc: "maxOffset (ls @ [l]) = max (maxOffset ls) (lf_offset l)"
  by (simp add: maxOffset_def)

lemma maxOffset_enum: "(\<And>i. lf_offset (f i) = int i) \<Longrightarrow> maxOffset (map f [0..<Suc n]) = int n"
proof (induction n)
  case 0
  then show ?case by (simp add: maxOffset_def)
next
  case (Suc n)
  have "map f [0..<Suc (Suc n)] = map f [0..<Suc n] @ [f (Suc n)]" by simp
  with Suc show ?case by (simp only: maxOffset_snoc)
qed

lemma maxOffset_block: "ids \<noteq> [] \<Longrightarrow> maxOffset (block_leaves ids) = int (length ids - 1)"
  using maxOffset_enum[of "\<lambda>i. \<lparr>lf_offset = int i, lf_hash = Some (display (ids ! i)),
     lf_txid = Some True, lf_duplicate = None\<rparr>" "length ids - 1"]
  by (simp add: block_leaves_def)

lemma find_snoc:
  "find P (xs @ [y]) = (case find P xs of None \<Rightarrow> if P y then Some y else None | Some x \<Rightarrow> Some x)"
  by (induction xs) simp_all

lemma find_enum:
  "(\<And>i. lf_offset (f i) = int i) \<Longrightarrow>
   find (\<lambda>l. lf_offset l = int k) (map f [0..<n]) = (if k < n then Some (f k) else None)"
proof (induction n)
  case (Suc n)
  then show ?case by (auto simp: less_Suc_eq find_snoc)
qed simp

text \<open>What is found at a node of the block's tree.\<close>

definition node_leaf :: "(bytes \<Rightarrow> bytes) \<Rightarrow> bytes list \<Rightarrow> nat \<Rightarrow> nat \<Rightarrow> merkle_leaf option" where
  "node_leaf H ids h k =
     (if k < length (tree_level H ids h)
      then Some (if h = 0 then block_leaves ids ! k
                 else computed_leaf (int k) (display (tree_level H ids h ! k)))
      else None)"

lemma node_leaf_hash:
  "node_leaf H ids h k = Some l \<Longrightarrow>
   lf_hash l = Some (display (tree_level H ids h ! k)) \<and> lf_duplicate l = None"
  by (auto simp: node_leaf_def block_leaves_def computed_leaf_def split: if_splits)

lemma level_find_block:
  "level_find (block_path height ids) h (int k) = (if h = 0 then node_leaf H ids 0 k else None)"
  by (auto simp: level_find_def node_leaf_def block_leaves_def find_enum)

lemma findOrComputeLeaf_block:
  assumes H: "\<And>b. H b \<noteq> []" and ids: "list_all (\<lambda>b. b \<noteq> []) ids" "ids \<noteq> []"
    and len: "length ids \<le> 2 ^ 53" and k: "k \<le> max_safe_integer"
  shows "findOrComputeLeaf H (block_path height ids) h (int k) = Inr (node_leaf H ids h k)"
  using k
proof (induction h arbitrary: k)
  case 0
  then show ?case by (simp add: assertOffset_def is_safe_integer_def level_find_block[of _ _ _ _ H])
next
  case (Suc h)
  let ?n = "length (tree_level H ids h)"
  have n: "?n = (length ids - 1) div 2 ^ h + 1" by (rule length_tree_level[OF ids(2)])
  have n': "length (tree_level H ids (Suc h)) = (?n + 1) div 2"
    by (simp add: tree_level_Suc length_merkle_level)
  have last: "last_odd_child (block_path height ids) (int k * 2) h \<longleftrightarrow> 2 * k = ?n - 1"
    using n by (auto simp: last_odd_child_def maxOffset_block[OF ids(2)] offsetAtHeight_nat)
  have nm: "?n \<le> 2 ^ 53"
  proof -
    have "0 < length ids" using ids(2) by simp
    with len n div_le_dividend[of "length ids - 1" "2 ^ h"] show ?thesis by linarith
  qed
  show ?case
  proof (cases "is_safe_integer (int k * 2)")
    case False
    then have "\<not> k < (?n + 1) div 2" using nm by (auto simp: is_safe_integer_def)
    with False Suc.prems show ?thesis
      by (simp add: assertOffset_def is_safe_integer_def level_find_block[of _ _ _ _ H] node_leaf_def n')
  next
    case True
    then have k2: "2 * k \<le> max_safe_integer" "2 * k + 1 \<le> max_safe_integer"
      by (simp_all add: is_safe_integer_def)
    have l0: "findOrComputeLeaf H (block_path height ids) h (int k * 2) = Inr (node_leaf H ids h (2 * k))"
      using Suc.IH[OF k2(1)] by (simp add: mult.commute)
    have l1: "findOrComputeLeaf H (block_path height ids) h (int k * 2 + 1)
        = Inr (node_leaf H ids h (2 * k + 1))"
      using Suc.IH[OF k2(2)] by (simp add: mult.commute algebra_simps)
    show ?thesis
    proof (cases "2 * k < ?n")
      case False
      then have "node_leaf H ids h (2 * k) = None" "node_leaf H ids (Suc h) k = None"
        using n' by (simp_all add: node_leaf_def)
      with l0 True Suc.prems show ?thesis
        by (simp add: assertOffset_def is_safe_integer_def level_find_block[of _ _ _ _ H] nonempty_hash_def)
    next
      case le: True
      then obtain a where a: "node_leaf H ids h (2 * k) = Some a" by (simp add: node_leaf_def)
      have "nonempty_hash (Some a) = Some (display (tree_level H ids h ! (2 * k)))"
        using node_leaf_hash[OF a] tree_level_nonempty[OF H ids(1) le] by (simp add: nonempty_hash_def)
      moreover have "join_children H (last_odd_child (block_path height ids) (int k * 2) h) (int k)
          (display (tree_level H ids h ! (2 * k))) (node_leaf H ids h (2 * k + 1)) = Inr (node_leaf H ids (Suc h) k)"
      proof (cases "2 * k + 1 < ?n")
        case True
        then obtain b where b: "node_leaf H ids h (2 * k + 1) = Some b" by (simp add: node_leaf_def)
        from True le show ?thesis
          unfolding b join_children_def using node_leaf_hash[OF b]
          by (simp add: with_hash_def hashPair_display node_leaf_def n' tree_level_Suc merkle_level_nth length_merkle_level)
      next
        case False
        have "k < (?n + 1) div 2" using le by linarith
        with False le show ?thesis
          by (simp add: last node_leaf_def[of H ids h] join_children_def with_hash_def hashPair_display)
            (simp add: node_leaf_def n' tree_level_Suc merkle_level_nth length_merkle_level)
      qed
      ultimately show ?thesis
        using Suc.prems True l0 l1 a
        by (simp add: assertOffset_def is_safe_integer_def level_find_block[of _ _ _ _ H])
    qed
  qed
qed

lemma climb_step_block:
  assumes H: "\<And>b. H b \<noteq> []" and ids: "list_all (\<lambda>b. b \<noteq> []) ids" "ids \<noteq> []"
    and len: "length ids \<le> 2 ^ 53" and i: "i < length ids"
  shows "climb_step H (block_path height ids) (int i) h (display (tree_level H ids h ! (i div 2 ^ h)))
       = Inr (display (tree_level H ids (Suc h) ! (i div 2 ^ Suc h)))"
proof -
  let ?k = "i div 2 ^ h" and ?n = "length (tree_level H ids h)"
  let ?s = "if even ?k then ?k + 1 else ?k - 1"
  have n: "?n = (length ids - 1) div 2 ^ h + 1" by (rule length_tree_level[OF ids(2)])
  have "i \<le> length ids - 1" using i by linarith
  then have k: "?k < ?n" using n div_le_mono[of i "length ids - 1" "2 ^ h"] by simp
  have half: "i div 2 ^ Suc h = ?k div 2" by (simp add: div_mult2_eq[symmetric] mult.commute)
  have "?k div 2 < (?n + 1) div 2" using k by linarith
  then have next_node: "tree_level H ids (Suc h) ! (?k div 2)
      = H (tree_level H ids h ! (2 * (?k div 2)) @
           tree_level H ids h ! (if 2 * (?k div 2) + 1 < ?n then 2 * (?k div 2) + 1 else 2 * (?k div 2)))"
    by (simp add: tree_level_Suc merkle_level_nth)
  have ki: "?k \<le> i" by (rule div_le_dividend)
  have "length ids \<le> 9007199254740992" using len by simp
  then have kb: "?k \<le> max_safe_integer" using i ki by linarith
  have safe: "?s \<le> max_safe_integer"
  proof (cases "even ?k")
    case True
    then obtain j where j: "?k = 2 * j" by blast
    have "2 * j \<le> max_safe_integer" using kb unfolding j .
    then have "2 * j + 1 \<le> max_safe_integer" by presburger
    with True show ?thesis unfolding j by simp
  qed (use kb in simp)
  have found: "findOrComputeLeaf H (block_path height ids) h (siblingOf (offsetAtHeight (int i) h))
      = Inr (node_leaf H ids h ?s)"
    unfolding offsetAtHeight_nat siblingOf_nat
    by (rule findOrComputeLeaf_block[OF H ids len safe])
  have last: "sameNodeAtHeight (int i) (maxOffset (block_leaves ids)) h \<longleftrightarrow> ?k = ?n - 1"
    using n by (simp add: sameNodeAtHeight_def maxOffset_block[OF ids(2)] offsetAtHeight_nat)
  show ?thesis
  proof (cases "even ?k")
    case True
    then have e: "2 * (?k div 2) = ?k" by simp
    have odd_s: "int (?k + 1) mod 2 = 1" using True by (simp add: mod2_eq_if)
    show ?thesis
    proof (cases "?k + 1 < ?n")
      case lt: True
      then obtain b where b: "node_leaf H ids h (?k + 1) = Some b" by (simp add: node_leaf_def)
      show ?thesis
        unfolding climb_step_def Let_def found half next_node e
        using True b node_leaf_hash[OF b] lt odd_s
        by (simp add: siblingOf_nat offsetAtHeight_nat nextCachedHash_def hash_or_empty_def hashPair_display)
    next
      case False
      with k have "?k = ?n - 1" by simp
      with False True show ?thesis
        unfolding climb_step_def Let_def found half next_node e
        by (simp add: node_leaf_def nextCachedHash_def last hashPair_display)
    qed
  next
    case False
    then have e: "2 * (?k div 2) = ?k - 1" "2 * (?k div 2) + 1 = ?k" "?k - 1 < ?n" using k by simp_all
    then obtain b where b: "node_leaf H ids h (?k - 1) = Some b" by (simp add: node_leaf_def)
    have even_s: "int (?k - 1) mod 2 \<noteq> 1" using False by (simp add: mod2_eq_if)
    show ?thesis
      unfolding climb_step_def Let_def found half next_node e(1)
      using False b node_leaf_hash[OF b] even_s e k
      by (simp add: siblingOf_nat offsetAtHeight_nat nextCachedHash_def hash_or_empty_def hashPair_display)
  qed
qed

subsection \<open>The caches change nothing\<close>

definition distinct_offsets :: "merkle_path \<Rightarrow> bool" where
  "distinct_offsets p \<longleftrightarrow> list_all (\<lambda>level. distinct (map lf_offset level)) (mp_path p)"

definition sound_hashes :: "(bytes \<Rightarrow> bytes) \<Rightarrow> merkle_path \<Rightarrow> merkle_caches \<Rightarrow> bool" where
  "sound_hashes H p c \<longleftrightarrow>
     (\<forall>h n leaf. hash_cache c (h, n) = Some leaf \<longrightarrow> findOrComputeLeaf H p h n = Inr leaf)"

lemma sound_hashesD:
  "sound_hashes H p c \<Longrightarrow> hash_cache c (h, n) = Some leaf \<Longrightarrow> findOrComputeLeaf H p h n = Inr leaf"
  by (simp add: sound_hashes_def)

lemma sound_empty: "sound_hashes H p empty_caches"
  by (simp add: sound_hashes_def empty_caches_def)

lemma sound_node_cache [simp]: "sound_hashes H p (c\<lparr>node_cache := v\<rparr>) = sound_hashes H p c"
  by (simp add: sound_hashes_def)

lemma map_of_find:
  "distinct (map lf_offset ls) \<Longrightarrow>
   map_of (rev (map (\<lambda>l. (lf_offset l, l)) ls)) n = find (\<lambda>l. lf_offset l = n) ls"
proof -
  assume d: "distinct (map lf_offset ls)"
  have "map_of (rev (map (\<lambda>l. (lf_offset l, l)) ls)) = map_of (map (\<lambda>l. (lf_offset l, l)) ls)"
    using d by (intro map_of_inject_set[THEN iffD2]) (simp_all add: rev_map[symmetric] o_def)
  moreover have "map_of (map (\<lambda>l. (lf_offset l, l)) ls) n = find (\<lambda>l. lf_offset l = n) ls"
    by (induction ls) auto
  ultimately show ?thesis by simp
qed

lemma index_find_level:
  "distinct_offsets p \<Longrightarrow> index_find (createSourceLeafIndex p) h n = level_find p h n"
  by (auto simp: index_find_def createSourceLeafIndex_def level_find_def distinct_offsets_def
      list_all_length map_of_find)

lemma remember_leaf_sound:
  assumes "sound_hashes H p c" "findOrComputeLeaf H p h n = Inr leaf"
  shows "\<exists>c'. remember_leaf h n leaf c = (findOrComputeLeaf H p h n, c') \<and> sound_hashes H p c'
    \<and> node_cache c' = node_cache c"
  using assms by (auto simp: remember_leaf_def sound_hashes_def)

lemma cachedFindLeaf_eq:
  assumes p: "distinct_offsets p" and c: "sound_hashes H p c"
    and n: "0 \<le> n" "is_safe_integer n"
  shows "\<exists>c'. cachedFindLeaf H p (createSourceLeafIndex p) (maxOffset (level_zero p)) h n c
      = (findOrComputeLeaf H p h n, c') \<and> sound_hashes H p c' \<and> node_cache c' = node_cache c"
  using c n
proof (induction h arbitrary: n c)
  case 0
  then have f: "findOrComputeLeaf H p 0 n = Inr (level_find p 0 n)" by (simp add: assertOffset_def)
  show ?case
  proof (cases "hash_cache c (0, n)")
    case None
    with remember_leaf_sound[OF 0(1) f] show ?thesis by (simp add: index_find_level[OF p])
  next
    case (Some leaf)
    with 0 sound_hashesD[OF 0(1) Some] show ?thesis by (simp del: findOrComputeLeaf.simps)
  qed
next
  case (Suc h)
  let ?find = "cachedFindLeaf H p (createSourceLeafIndex p) (maxOffset (level_zero p))"
  have off: "assertOffset n = Inr ()" using Suc.prems by (simp add: assertOffset_def)
  show ?case
  proof (cases "hash_cache c (Suc h, n)")
    case (Some leaf)
    with Suc.prems sound_hashesD[OF Suc.prems(1) Some] show ?thesis
      by (simp del: findOrComputeLeaf.simps)
  next
    case miss: None
    show ?thesis
    proof (cases "level_find p (Suc h) n")
      case (Some leaf)
      then have "findOrComputeLeaf H p (Suc h) n = Inr (Some leaf)" by (simp add: off)
      from remember_leaf_sound[OF Suc.prems(1) this] Some miss show ?thesis
        by (simp add: index_find_level[OF p])
    next
      case none: None
      show ?thesis
      proof (cases "is_safe_integer (n * 2)")
        case False
        with none miss Suc.prems off show ?thesis by (simp add: index_find_level[OF p])
      next
        case safe: True
        then have n2: "0 \<le> n * 2" "0 \<le> n * 2 + 1" "is_safe_integer (n * 2 + 1)"
          using Suc.prems(2) by (simp_all add: is_safe_integer_def)
        obtain c1 where c1: "?find h (n * 2) c = (findOrComputeLeaf H p h (n * 2), c1)"
          "sound_hashes H p c1" "node_cache c1 = node_cache c"
          using Suc.IH[OF Suc.prems(1) n2(1) safe] by blast
        obtain c2 where c2: "?find h (n * 2 + 1) c1 = (findOrComputeLeaf H p h (n * 2 + 1), c2)"
          "sound_hashes H p c2" "node_cache c2 = node_cache c"
          using Suc.IH[OF c1(2) n2(2,3)] c1(3) by auto
        note f = findOrComputeLeaf.simps(2)[of H p h n, unfolded off none and_then_simps]
        note g = cachedFindLeaf.simps(2)[of H p "createSourceLeafIndex p" "maxOffset (level_zero p)" h n,
            unfolded index_find_level[OF p] none last_odd_child_def[symmetric]]
        show ?thesis
        proof (cases "findOrComputeLeaf H p h (n * 2)")
          case (Inl e)
          with c1 safe miss show ?thesis unfolding f g by simp
        next
          case leaf0: (Inr leaf0)
          show ?thesis
          proof (cases "nonempty_hash leaf0")
            case None
            then have r: "findOrComputeLeaf H p (Suc h) n = Inr None" unfolding f using safe leaf0 by simp
            from remember_leaf_sound[OF c1(2) r] show ?thesis
              unfolding g using safe miss c1 leaf0 None by simp
          next
            case h0: (Some h0)
            show ?thesis
            proof (cases "findOrComputeLeaf H p h (n * 2 + 1)")
              case (Inl e)
              with c1 c2 safe miss leaf0 h0 show ?thesis unfolding f g by simp
            next
              case leaf1: (Inr leaf1)
              have r: "findOrComputeLeaf H p (Suc h) n
                  = join_children H (last_odd_child p (n * 2) h) n h0 leaf1"
                unfolding f using safe leaf0 h0 leaf1 by simp
              show ?thesis
              proof (cases "join_children H (last_odd_child p (n * 2) h) n h0 leaf1")
                case (Inl e)
                with c1 c2 safe miss leaf0 h0 leaf1 r show ?thesis
                  unfolding g by (simp add: last_odd_child_def bnd_apply)
              next
                case (Inr leaf)
                from remember_leaf_sound[OF c2(2) r[unfolded Inr]] c1 c2 safe miss leaf0 h0 leaf1 Inr show ?thesis
                  unfolding g by (simp add: last_odd_child_def bnd_apply)
              qed
            qed
          qed
        qed
      qed
    qed
  qed
qed

lemma nextCachedHash_index:
  "nextCachedHash H w leaf n i h b = Inr x \<Longrightarrow> nextCachedHash H w leaf n j h b = Inr x"
  by (cases leaf) (auto simp: nextCachedHash_def split: if_splits)

lemma climb_step_offset:
  "climb_step H p i h w = Inr x \<Longrightarrow> offsetAtHeight i h = offsetAtHeight j h \<Longrightarrow>
   climb_step H p j h w = Inr x"
  by (auto simp: climb_step_def Let_def and_then_eq_Inr sameNodeAtHeight_def intro: nextCachedHash_index)

lemma climb_offset:
  "climb H p i k h w = Inr x \<Longrightarrow> offsetAtHeight i h = offsetAtHeight j h \<Longrightarrow>
   climb H p j k h w = Inr x"
proof (induction k arbitrary: h w)
  case (Suc k)
  from Suc.prems obtain w' where "climb_step H p i h w = Inr w'" "climb H p i k (Suc h) w' = Inr x"
    by (auto simp: and_then_eq_Inr)
  with Suc climb_step_offset[of H p i h w w' j] show ?case by (simp add: offsetAtHeight_Suc)
qed simp

text \<open>The node cache from height \<open>h\<close> up: every node climbs to the cached root.\<close>

definition sound_nodes :: "(bytes \<Rightarrow> bytes) \<Rightarrow> merkle_path \<Rightarrow> nat \<Rightarrow> nat \<Rightarrow> (nat \<times> int \<rightharpoonup> string) \<Rightarrow> bool" where
  "sound_nodes H p T h nodes \<longleftrightarrow>
     (\<forall>g n w. h \<le> g \<longrightarrow> nodes (g, n) = Some w \<longrightarrow>
        g \<le> T \<and> (\<exists>r. nodes (T, 0) = Some r \<and>
          (\<forall>i. offsetAtHeight i g = n \<longrightarrow> climb H p i (T - g) g w = Inr r)))"

lemma sound_nodesD:
  "sound_nodes H p T h nodes \<Longrightarrow> h \<le> g \<Longrightarrow> nodes (g, n) = Some w \<Longrightarrow>
   g \<le> T \<and> (\<exists>r. nodes (T, 0) = Some r \<and>
     (\<forall>i. offsetAtHeight i g = n \<longrightarrow> climb H p i (T - g) g w = Inr r))"
  unfolding sound_nodes_def by blast

lemma sound_nodes_top:
  assumes "sound_nodes H p T T nodes" "\<And>r. nodes (T, 0) = Some r \<Longrightarrow> r = w"
  shows "sound_nodes H p T T (nodes((T, 0) \<mapsto> w))"
  unfolding sound_nodes_def
proof (intro allI impI)
  fix g n x
  assume g: "T \<le> g" and x: "(nodes((T, 0) \<mapsto> w)) (g, n) = Some x"
  have "g = T \<and> x = w"
  proof (cases "(g, n) = (T, 0)")
    case False
    then have "nodes (g, n) = Some x" using x by (auto split: if_splits)
    from sound_nodesD[OF assms(1) g this] g obtain r where
      "g = T" "nodes (T, 0) = Some r" "\<forall>i. offsetAtHeight i g = n \<longrightarrow> climb H p i (T - g) g x = Inr r"
      by (metis le_antisym)
    moreover have "offsetAtHeight (n * 2 ^ g) g = n" by (simp add: offsetAtHeight_def)
    ultimately show ?thesis using assms(2) by fastforce
  qed (use x in simp)
  then show "g \<le> T \<and> (\<exists>r. (nodes((T, 0) \<mapsto> w)) (T, 0) = Some r \<and>
      (\<forall>i. offsetAtHeight i g = n \<longrightarrow> climb H p i (T - g) g x = Inr r))"
    by simp
qed

lemma cached_climb_sound:
  assumes p: "distinct_offsets p" and i: "0 \<le> i" "is_safe_integer i"
    and "sound_hashes H p c" "h + k = T" "sound_nodes H p T h (node_cache c)"
    and "cached_climb H p (createSourceLeafIndex p) (maxOffset (level_zero p)) i T k h w c = (Inr r, d)"
  shows "climb H p i k h w = Inr r \<and> sound_hashes H p d \<and> node_cache d (T, 0) = Some r \<and>
    (\<forall>g n. g < h \<longrightarrow> node_cache d (g, n) = node_cache c (g, n)) \<and>
    ((\<forall>r0. node_cache c (T, 0) = Some r0 \<longrightarrow> r0 = r) \<longrightarrow> sound_nodes H p T h (node_cache d))"
  using assms(4-)
proof (induction k arbitrary: h w c)
  case 0
  then have "h = T" "w = r" "d = c\<lparr>node_cache := (node_cache c)((T, 0) \<mapsto> w)\<rparr>"
    by (auto simp: remember_node_def thn_apply)
  with 0 sound_nodes_top[of H p T "node_cache c" r] show ?case by (auto simp: fun_upd_def)
next
  case (Suc k)
  let ?n = "offsetAtHeight i h"
  have n: "0 \<le> ?n" "is_safe_integer ?n"
    using offsetAtHeight_bounds[OF i(1), of h] i by (auto simp: is_safe_integer_def)
  note sib = siblingOf_admissible[OF n]
  have T: "T - h = Suc k" "h < T" using Suc.prems(2) by simp_all
  show ?case
  proof (cases "node_cache c (h, ?n)")
    case (Some x)
    with Suc.prems(4) have x: "x = w" "node_cache c (T, 0) = Some r" "d = c"
      by (auto simp: cachedMerkleRoot_def bnd_apply split: if_splits option.splits)
    from sound_nodesD[OF Suc.prems(3) order_refl Some] x T have "climb H p i (Suc k) h w = Inr r"
      by auto
    with x Suc.prems show ?thesis by simp
  next
    case None
    define c1 where "c1 = c\<lparr>node_cache := (node_cache c)((h, ?n) \<mapsto> w)\<rparr>"
    obtain c2 where c2: "cachedFindLeaf H p (createSourceLeafIndex p) (maxOffset (level_zero p)) h (siblingOf ?n) c1
        = (findOrComputeLeaf H p h (siblingOf ?n), c2)"
      "sound_hashes H p c2" "node_cache c2 = node_cache c1"
      using cachedFindLeaf_eq[OF p, of H c1 "siblingOf ?n" h] sib Suc.prems(1) by (auto simp: c1_def)
    from Suc.prems(4) None obtain leaf w' where leaf: "findOrComputeLeaf H p h (siblingOf ?n) = Inr leaf"
      and w': "nextCachedHash H w leaf (siblingOf ?n) i h
         (length (mp_path p) = 1 \<and> sameNodeAtHeight i (maxOffset (level_zero p)) h) = Inr w'"
      and rest: "cached_climb H p (createSourceLeafIndex p) (maxOffset (level_zero p)) i T k (Suc h) w' c2 = (Inr r, d)"
      by (auto simp: cachedMerkleRoot_def bnd_apply thn_apply remember_node_def c1_def[symmetric] c2(1)
          split: sum.splits)
    have step: "climb_step H p i h w = Inr w'" using w' by (simp add: climb_step_def leaf)
    have nodes1: "node_cache c1 = (node_cache c)((h, ?n) \<mapsto> w)" by (simp add: c1_def)
    have "sound_nodes H p T (Suc h) (node_cache c2)"
      using Suc.prems(3) T(2) unfolding c2(3) nodes1 sound_nodes_def by auto
    from Suc.IH[OF c2(2) _ this rest] Suc.prems(2)
    have IH: "climb H p i k (Suc h) w' = Inr r" "sound_hashes H p d" "node_cache d (T, 0) = Some r"
      "\<And>g n. g < Suc h \<Longrightarrow> node_cache d (g, n) = node_cache c1 (g, n)"
      "(\<forall>r0. node_cache c1 (T, 0) = Some r0 \<longrightarrow> r0 = r) \<longrightarrow> sound_nodes H p T (Suc h) (node_cache d)"
      using c2(3) by auto
    have climb: "climb H p i (Suc k) h w = Inr r" by (simp add: step IH(1))
    have "sound_nodes H p T h (node_cache d)"
      if r0: "\<forall>r0. node_cache c (T, 0) = Some r0 \<longrightarrow> r0 = r"
      unfolding sound_nodes_def
    proof (intro allI impI)
      fix g n x
      assume g: "h \<le> g" and x: "node_cache d (g, n) = Some x"
      have up: "sound_nodes H p T (Suc h) (node_cache d)" using IH(5) r0 T(2) by (auto simp: nodes1)
      show "g \<le> T \<and> (\<exists>r. node_cache d (T, 0) = Some r \<and>
          (\<forall>i. offsetAtHeight i g = n \<longrightarrow> climb H p i (T - g) g x = Inr r))"
      proof (cases "Suc h \<le> g")
        case True
        from sound_nodesD[OF up this x] show ?thesis .
      next
        case False
        with g have gh: "g = h" by simp
        with x IH(4) have x1: "((node_cache c)((h, ?n) \<mapsto> w)) (h, n) = Some x" by (simp add: nodes1)
        show ?thesis
        proof (cases "n = ?n")
          case True
          with x1 have "x = w" by simp
          with climb climb_offset[of H p i "Suc k" h w r] True gh IH(3) T show ?thesis by auto
        next
          case False
          with x1 have "node_cache c (h, n) = Some x" by (auto split: if_splits)
          from sound_nodesD[OF Suc.prems(3) order_refl this] r0 gh IH(3) show ?thesis by auto
        qed
      qed
    qed
    with climb IH(2,3,4) show ?thesis by (auto simp: nodes1)
  qed
qed

subsection \<open>What the constructor checks\<close>

definition admissible_offset :: "int \<Rightarrow> bool" where
  "admissible_offset n \<longleftrightarrow> 0 \<le> n \<and> is_safe_integer n"

lemma assertOffset_eq: "assertOffset n = (if admissible_offset n then Inr () else Inl (JsError ''Invalid offset''))"
  by (auto simp: assertOffset_def admissible_offset_def)

lemma check_leaves_ok:
  "check_leaves only legal h seen ls = Inr u \<longleftrightarrow>
     list_all (\<lambda>l. admissible_offset (lf_offset l)) ls \<and> distinct (map lf_offset ls) \<and>
     set seen \<inter> set (map lf_offset ls) = {} \<and>
     (h \<noteq> 0 \<and> only \<longrightarrow> set (map lf_offset ls) \<subseteq> set legal)"
  by (induction ls arbitrary: seen) (auto simp: assertOffset_eq)

definition legal_levels :: "bool \<Rightarrow> merkle_leaf list \<Rightarrow> nat \<Rightarrow> merkle_leaf list list \<Rightarrow> bool" where
  "legal_levels only leaves0 h levels \<longleftrightarrow>
     list_all (\<lambda>level. list_all (\<lambda>l. admissible_offset (lf_offset l)) level \<and> distinct (map lf_offset level)) levels \<and>
     (\<forall>k < length levels. (h + k = 0 \<longrightarrow> levels ! k \<noteq> []) \<and>
        (h + k \<noteq> 0 \<and> only \<longrightarrow> set (map lf_offset (levels ! k)) \<subseteq> set (legalOffsets leaves0 (h + k))))"

lemma check_levels_ok: "check_levels only leaves0 h levels = Inr u \<longleftrightarrow> legal_levels only leaves0 h levels"
proof (induction levels arbitrary: h)
  case Nil
  then show ?case by (simp add: legal_levels_def)
next
  case (Cons level levels)
  have "check_levels only leaves0 h (level # levels) = Inr u \<longleftrightarrow>
      \<not> (level = [] \<and> h = 0) \<and> check_leaves only (legalOffsets leaves0 h) h [] level = Inr ()
      \<and> legal_levels only leaves0 (Suc h) levels"
    using Cons by (auto simp: and_then_eq_Inr)
  then show ?case
    by (cases h; cases only) (simp_all add: legal_levels_def check_leaves_ok All_less_Suc2 conj_ac)
qed

lemma new_MerklePath_ok:
  "new_MerklePath H height levels only validate = Inr p \<longleftrightarrow>
     p = \<lparr>mp_height = height, mp_path = levels\<rparr> \<and> levels \<noteq> [] \<and> length levels \<le> 54 \<and>
     legal_levels only (hd levels) 0 levels \<and> assertSingleTransactionOffset levels = Inr () \<and>
     (validate \<longrightarrow> validateRoots H p = Inr ())"
  by (auto simp: new_MerklePath_def Let_def and_then_eq_Inr check_levels_ok level_zero_def neq_Nil_conv)

lemma legal_levels_distinct:
  "legal_levels only leaves0 h (mp_path p) \<Longrightarrow> distinct_offsets p"
  by (auto simp: legal_levels_def distinct_offsets_def list_all_iff)

lemma legal_levels_admissible:
  "legal_levels only leaves0 h (mp_path p) \<Longrightarrow> list_all (\<lambda>l. admissible_offset (lf_offset l)) (level_zero p)"
  by (auto simp: legal_levels_def level_zero_def split: list.splits)

lemma indexOf_admissible:
  "list_all (\<lambda>l. admissible_offset (lf_offset l)) (level_zero p) \<Longrightarrow> indexOf p t = Inr i \<Longrightarrow>
   admissible_offset i"
  by (auto simp: indexOf_def list_all_iff find_Some_iff split: option.splits)

lemma computeRootCached_sound:
  assumes p: "distinct_offsets p" "list_all (\<lambda>l. admissible_offset (lf_offset l)) (level_zero p)"
    and c: "sound_hashes H p c" "sound_nodes H p (tree_height p) 0 (node_cache c)"
    and run: "computeRootCached H p t (createSourceLeafIndex p) (maxOffset (level_zero p)) c = (Inr r, d)"
  shows "computeRoot H p t = Inr r \<and> sound_hashes H p d \<and>
    ((\<forall>r0. node_cache c (tree_height p, 0) = Some r0 \<longrightarrow> r0 = r) \<longrightarrow>
       sound_nodes H p (tree_height p) 0 (node_cache d) \<and>
       (\<forall>r0. node_cache d (tree_height p, 0) = Some r0 \<longrightarrow> r0 = r))"
proof -
  obtain x where x: "computeRoot H p t = root_of_txid H p x" and
    run': "computeRootCached H p (Some x) (createSourceLeafIndex p) (maxOffset (level_zero p)) c = (Inr r, d)"
  proof (cases t)
    case None
    with run obtain l x where "find has_hash (level_zero p) = Some l" "lf_hash l = Some x"
      by (auto simp: computeRootCached_def split: option.splits)
    with None run that[of x] show ?thesis by (simp add: computeRoot_def computeRootCached_def)
  next
    case (Some x)
    with run that[of x] show ?thesis by (simp add: computeRoot_def)
  qed
  from run' obtain i where i: "indexOf p x = Inr i"
    by (auto simp: computeRootCached_def bnd_apply split: sum.splits)
  from run' i have single: "assertSingleTransactionOffset (mp_path p) = Inr ()"
    by (auto simp: computeRootCached_def bnd_apply split: sum.splits)
  from indexOf_admissible[OF p(2) i] have adm: "0 \<le> i" "is_safe_integer i"
    by (simp_all add: admissible_offset_def)
  show ?thesis
  proof (cases "is_single_transaction p")
    case True
    with run' i single have "r = x" "d = c" by (auto simp: computeRootCached_def bnd_apply)
    with True i single c show ?thesis by (simp add: x root_of_txid_def)
  next
    case False
    with run' i single have "cached_climb H p (createSourceLeafIndex p) (maxOffset (level_zero p)) i
        (tree_height p) (tree_height p) 0 x c = (Inr r, d)"
      by (simp add: computeRootCached_def bnd_apply tree_height_def Let_def)
    from cached_climb_sound[OF p(1) adm c(1) add_0 c(2) this] False i single show ?thesis
      by (auto simp: x root_of_txid_def)
  qed
qed

lemma validate_leaves_sound:
  assumes p: "distinct_offsets p" "list_all (\<lambda>l. admissible_offset (lf_offset l)) (level_zero p)"
    and "sound_hashes H p c" "sound_nodes H p (tree_height p) 0 (node_cache c)"
    and "\<And>r0 r1. node_cache c (tree_height p, 0) = Some r1 \<Longrightarrow> root = Some r1"
    and "validate_leaves H p (createSourceLeafIndex p) (maxOffset (level_zero p)) root ls c = (Inr (), d)"
  shows "\<exists>r. (root \<noteq> None \<longrightarrow> root = Some r) \<and> (\<forall>l \<in> set ls. computeRoot H p (lf_hash l) = Inr r)"
  using assms(3-)
proof (induction ls arbitrary: root c)
  case Nil
  then show ?case by (cases root) auto
next
  case (Cons l ls)
  from Cons.prems(4) obtain r c' where
    r: "computeRootCached H p (lf_hash l) (createSourceLeafIndex p) (maxOffset (level_zero p)) c = (Inr r, c')"
    by (auto simp: bnd_apply split: prod.splits sum.splits)
  with Cons.prems(4) have root: "root = None \<or> root = Some r"
    and rest: "validate_leaves H p (createSourceLeafIndex p) (maxOffset (level_zero p)) (Some r) ls c' = (Inr (), d)"
    by (auto simp: bnd_apply Let_def split: option.splits if_splits)
  have cond: "\<forall>r0. node_cache c (tree_height p, 0) = Some r0 \<longrightarrow> r0 = r"
    using Cons.prems(3) root by fastforce
  note s = computeRootCached_sound[OF p Cons.prems(1,2) r]
  from s cond have c': "sound_hashes H p c'" "sound_nodes H p (tree_height p) 0 (node_cache c')"
    "\<And>r1. node_cache c' (tree_height p, 0) = Some r1 \<Longrightarrow> Some r = Some r1"
    by auto
  from Cons.IH[OF c'(1,2) c'(3) rest] have "\<forall>l \<in> set ls. computeRoot H p (lf_hash l) = Inr r" by auto
  with s root show ?case by auto
qed

text \<open>C12: A path that passes the constructor's root validation, which runs on shared caches,
  has one root: \<open>computeRoot\<close>, which uses no cache, returns that same root from every leaf
  of level zero.\<close>

theorem validated_path_has_one_root:
  assumes "new_MerklePath H height levels only True = Inr p"
  shows "\<exists>root. \<forall>leaf \<in> set (level_zero p). computeRoot H p (lf_hash leaf) = Inr root"
proof -
  from assms have p: "legal_levels only (hd levels) 0 (mp_path p)" "validateRoots H p = Inr ()"
    by (auto simp: new_MerklePath_ok)
  obtain d where d: "validate_leaves H p (createSourceLeafIndex p) (maxOffset (level_zero p)) None
      (level_zero p) empty_caches = (Inr (), d)"
    using p(2) by (auto simp: validateRoots_def prod_eq_iff)
  have "sound_nodes H p (tree_height p) 0 (node_cache empty_caches)"
    by (simp add: sound_nodes_def empty_caches_def)
  from validate_leaves_sound[OF legal_levels_distinct[OF p(1)] legal_levels_admissible[OF p(1)]
      sound_empty this _ d] show ?thesis
    by (auto simp: empty_caches_def)
qed

subsection \<open>The path of a whole block\<close>

text \<open>What the block theorems ask of the hash function and of the transaction identifiers.\<close>

definition block_ids :: "(bytes \<Rightarrow> bytes) \<Rightarrow> bytes list \<Rightarrow> bool" where
  "block_ids H ids \<longleftrightarrow> (\<forall>b. H b \<noteq> []) \<and> list_all (\<lambda>b. b \<noteq> []) ids \<and> ids \<noteq> [] \<and> length ids \<le> 2 ^ 53"

lemma block_idsD:
  assumes "block_ids H ids"
  shows "\<And>b. H b \<noteq> []" "list_all (\<lambda>b. b \<noteq> []) ids" "ids \<noteq> []" "length ids \<le> 2 ^ 53"
  using assms by (simp_all add: block_ids_def)

lemma climb_block:
  assumes "block_ids H ids" "i < length ids"
  shows "climb H (block_path height ids) (int i) k h (display (tree_level H ids h ! (i div 2 ^ h)))
       = Inr (display (tree_level H ids (h + k) ! (i div 2 ^ (h + k))))"
  by (induction k arbitrary: h)
    (simp_all add: climb_step_block[OF block_idsD[OF assms(1)] assms(2)] del: power_Suc)

lemma tree_height_block:
  assumes "1 < length ids"
  shows "tree_height (block_path height ids) = offsetTreeHeight (int (length ids - 1))"
proof -
  have "ids \<noteq> []" "length ids - 1 \<noteq> 0" using assms by auto
  then show ?thesis
    using offsetTreeHeight_step[of "length ids - 1"] by (simp add: tree_height_def maxOffset_block)
qed

lemma below_tree_height:
  "i < length ids \<Longrightarrow> i div 2 ^ offsetTreeHeight (int (length ids - 1)) = 0"
  using lt_two_power_tree_height[of "length ids - 1"] by (simp add: div_eq_0_iff)

lemma block_leaf_nth:
  "i < length ids \<Longrightarrow> block_leaves ids ! i = \<lparr>lf_offset = int i, lf_hash = Some (display (ids ! i)),
     lf_txid = Some True, lf_duplicate = None\<rparr>"
  by (simp add: block_leaves_def)

lemma indexOf_block:
  "i < length ids \<Longrightarrow>
   \<exists>j < length ids. ids ! j = ids ! i \<and> indexOf (block_path height ids) (display (ids ! i)) = Inr (int j)"
proof -
  assume i: "i < length ids"
  let ?P = "\<lambda>l. lf_hash l = Some (display (ids ! i))"
  have "\<exists>l \<in> set (block_leaves ids). ?P l"
    using i block_leaf_nth[OF i] nth_mem[of i "block_leaves ids"]
    by (intro bexI[of _ "block_leaves ids ! i"]) simp_all
  then have "find ?P (block_leaves ids) \<noteq> None" unfolding find_None_iff by blast
  then obtain l where l: "find ?P (block_leaves ids) = Some l" by blast
  then obtain j where j: "j < length ids" "l = block_leaves ids ! j" "?P l"
    by (auto simp only: find_Some_iff block_path_simps)
  then have "ids ! j = ids ! i" "lf_offset l = int j" by (simp_all add: block_leaf_nth[OF j(1)])
  with l j(1) show ?thesis by (intro exI[of _ j]) (simp add: indexOf_def)
qed

lemma single_block:
  "is_single_transaction (block_path height ids) \<longleftrightarrow> length ids = 1"
  "ids \<noteq> [] \<Longrightarrow> assertSingleTransactionOffset [block_leaves ids] = Inr ()"
proof -
  have len: "length (block_leaves ids) = length ids" by simp
  have hd: "lf_offset (block_leaves ids ! 0) = 0" if "0 < length ids"
    using that block_leaf_nth[of 0 ids] by simp
  show "is_single_transaction (block_path height ids) \<longleftrightarrow> length ids = 1"
    using len hd by (cases "block_leaves ids"; cases "tl (block_leaves ids)")
      (auto simp: is_single_transaction_def length_greater_0_conv[symmetric] simp del: length_greater_0_conv)
  show "assertSingleTransactionOffset [block_leaves ids] = Inr ()" if "ids \<noteq> []"
    using hd that by (auto simp: assertSingleTransactionOffset_def split: list.splits)
qed

lemma root_of_txid_block:
  assumes b: "block_ids H ids" and i: "i < length ids"
  shows "root_of_txid H (block_path height ids) (display (ids ! i)) = Inr (display (merkle_root H ids))"
proof -
  obtain j where j: "j < length ids" "ids ! j = ids ! i"
    "indexOf (block_path height ids) (display (ids ! i)) = Inr (int j)"
    using indexOf_block[OF i] by blast
  note ids = block_idsD[OF b]
  show ?thesis
  proof (cases "length ids = 1")
    case True
    with i obtain x where "ids = [x]" by (auto simp: length_Suc_conv)
    with True i j ids single_block show ?thesis by (simp add: root_of_txid_def merkle_root.simps)
  next
    case False
    with i have "1 < length ids" by linarith
    define T where "T = offsetTreeHeight (int (length ids - 1))"
    have "tree_height (block_path height ids) = T" "merkle_root H ids = tree_level H ids T ! 0"
      "j div 2 ^ T = 0"
      unfolding T_def using tree_height_block[OF \<open>1 < length ids\<close>] merkle_root_tree_level[OF ids(3)]
        below_tree_height[OF j(1)] by blast+
    with climb_block[OF b j(1), of height T 0] j ids(3) False show ?thesis
      by (simp add: root_of_txid_def single_block)
  qed
qed

text \<open>The cached computation over the block meets no mismatch.\<close>

definition tree_nodes :: "(bytes \<Rightarrow> bytes) \<Rightarrow> bytes list \<Rightarrow> nat \<Rightarrow> nat \<Rightarrow> (nat \<times> int \<rightharpoonup> string) \<Rightarrow> bool" where
  "tree_nodes H ids T h nodes \<longleftrightarrow>
     (\<forall>g n w. nodes (g, n) = Some w \<longrightarrow>
        w = display (tree_level H ids g ! nat n) \<and> (h \<le> g \<longrightarrow> nodes (T, 0) \<noteq> None))"

lemma tree_nodesD:
  "tree_nodes H ids T h nodes \<Longrightarrow> nodes (g, n) = Some w \<Longrightarrow>
   w = display (tree_level H ids g ! nat n) \<and> (h \<le> g \<longrightarrow> (\<exists>root. nodes (T, 0) = Some root))"
  by (auto simp: tree_nodes_def)

lemma tree_nodes_mono:
  "tree_nodes H ids T h nodes \<Longrightarrow> nodes (T, 0) \<noteq> None \<Longrightarrow> tree_nodes H ids T g nodes"
  by (auto simp: tree_nodes_def)

lemma block_legal_levels:
  "legal_levels only ls 0 [block_leaves ids] \<longleftrightarrow> ids \<noteq> [] \<and> length ids \<le> 2 ^ 53"
proof -
  have offs: "map lf_offset (block_leaves ids) = map int [0..<length ids]"
    by (simp add: block_leaves_def o_def)
  have adm: "list_all (\<lambda>l. admissible_offset (lf_offset l)) (block_leaves ids)
      \<longleftrightarrow> (\<forall>i < length ids. i \<le> max_safe_integer)"
    by (simp add: list_all_length admissible_offset_def is_safe_integer_def)
      (simp add: block_leaves_def)
  have "(\<forall>i < n. i \<le> max_safe_integer) \<longleftrightarrow> n \<le> 9007199254740992" for n
    by (cases n) auto
  moreover have "distinct (map lf_offset (block_leaves ids))" by (simp add: offs distinct_map)
  moreover have "block_leaves ids \<noteq> [] \<longleftrightarrow> ids \<noteq> []"
    using block_path_simps(3)[of ids] by (metis length_0_conv)
  ultimately show ?thesis using adm by (auto simp: legal_levels_def simp del: block_path_simps)
qed

lemma cached_climb_block:
  assumes b: "block_ids H ids" and i: "i < length ids" and top: "i div 2 ^ T = 0"
    and "sound_hashes H (block_path height ids) c" "h + k = T" "tree_nodes H ids T h (node_cache c)"
  shows "\<exists>d. cached_climb H (block_path height ids) (createSourceLeafIndex (block_path height ids))
        (maxOffset (block_leaves ids)) (int i) T k h (display (tree_level H ids h ! (i div 2 ^ h))) c
      = (Inr (display (tree_level H ids T ! (i div 2 ^ T))), d)
    \<and> sound_hashes H (block_path height ids) d \<and> tree_nodes H ids T 0 (node_cache d)"
  using assms(4-)
proof (induction k arbitrary: h c)
  case 0
  then show ?case
    using top by (auto simp: remember_node_def thn_apply tree_nodes_def)
next
  case (Suc k)
  let ?p = "block_path height ids" and ?w = "\<lambda>h. display (tree_level H ids h ! (i div 2 ^ h))"
  let ?src = "createSourceLeafIndex ?p" and ?m = "maxOffset (block_leaves ids)"
  have p: "distinct_offsets ?p"
    using block_legal_levels[of False "[]" ids] block_idsD(3,4)[OF b]
    by (intro legal_levels_distinct[of False "[]" 0]) simp
  have "i \<le> max_safe_integer" using i block_idsD(4)[OF b] by simp
  then have adm: "0 \<le> int i" "is_safe_integer (int i)" by (simp_all add: is_safe_integer_def)
  let ?n = "offsetAtHeight (int i) h"
  have n: "0 \<le> ?n" "is_safe_integer ?n"
    using offsetAtHeight_bounds[OF adm(1), of h] adm by (auto simp: is_safe_integer_def)
  show ?case
  proof (cases "node_cache c (h, ?n)")
    case (Some x)
    from tree_nodesD[OF Suc.prems(3) Some] obtain root where "x = ?w h" "node_cache c (T, 0) = Some root"
      by (auto simp: offsetAtHeight_nat)
    moreover from tree_nodesD[OF Suc.prems(3) this(2)] have "root = display (tree_level H ids T ! 0)"
      by simp
    ultimately show ?thesis
      using top Suc.prems Some tree_nodes_mono[of H ids T h "node_cache c" 0]
      by (auto simp: bnd_apply cachedMerkleRoot_def)
  next
    case None
    define c1 where "c1 = c\<lparr>node_cache := (node_cache c)((h, ?n) \<mapsto> ?w h)\<rparr>"
    obtain c2 where c2: "cachedFindLeaf H ?p ?src ?m h (siblingOf ?n) c1
        = (findOrComputeLeaf H ?p h (siblingOf ?n), c2)"
      "sound_hashes H ?p c2" "node_cache c2 = node_cache c1"
      using cachedFindLeaf_eq[OF p, of H c1 "siblingOf ?n" h] siblingOf_admissible[OF n] Suc.prems(1)
      by (auto simp: c1_def)
    have "tree_nodes H ids T (Suc h) (node_cache c2)"
      using Suc.prems(2,3) unfolding c2(3) c1_def
      by (auto simp: tree_nodes_def offsetAtHeight_nat)
    from Suc.IH[OF c2(2) _ this] Suc.prems(2) obtain d where
      d: "cached_climb H ?p ?src ?m (int i) T k (Suc h) (?w (Suc h)) c2 = (Inr (?w T), d)"
      "sound_hashes H ?p d" "tree_nodes H ids T 0 (node_cache d)"
      by auto
    from climb_step_block[where H = H and height = height and h = h, OF block_idsD[OF b] i] obtain leaf where
      "findOrComputeLeaf H ?p h (siblingOf ?n) = Inr leaf"
      "nextCachedHash H (?w h) leaf (siblingOf ?n) (int i) h
         (length (mp_path ?p) = 1 \<and> sameNodeAtHeight (int i) (maxOffset (level_zero ?p)) h) = Inr (?w (Suc h))"
      unfolding climb_step_def Let_def and_then_eq_Inr by blast
    with None c2(1) d show ?thesis
      by (auto simp: cachedMerkleRoot_def bnd_apply thn_apply remember_node_def c1_def[symmetric] simp del: power_Suc)
  qed
qed

lemma computeRootCached_block:
  assumes b: "block_ids H ids" and i: "i < length ids"
    and c: "sound_hashes H (block_path height ids) c"
      "tree_nodes H ids (offsetTreeHeight (int (length ids - 1))) 0 (node_cache c)"
  shows "\<exists>d. computeRootCached H (block_path height ids) (Some (display (ids ! i)))
        (createSourceLeafIndex (block_path height ids)) (maxOffset (block_leaves ids)) c
      = (Inr (display (merkle_root H ids)), d)
    \<and> sound_hashes H (block_path height ids) d
    \<and> tree_nodes H ids (offsetTreeHeight (int (length ids - 1))) 0 (node_cache d)"
proof -
  obtain j where j: "j < length ids" "ids ! j = ids ! i"
    "indexOf (block_path height ids) (display (ids ! i)) = Inr (int j)"
    using indexOf_block[OF i] by blast
  note ids = block_idsD(3)[OF b]
  show ?thesis
  proof (cases "length ids = 1")
    case True
    with i obtain x where "ids = [x]" by (auto simp: length_Suc_conv)
    with True i j ids c single_block show ?thesis
      by (simp add: computeRootCached_def bnd_apply merkle_root.simps)
  next
    case False
    with i have "1 < length ids" by linarith
    define T where "T = offsetTreeHeight (int (length ids - 1))"
    have T: "tree_height (block_path height ids) = T" "merkle_root H ids = tree_level H ids T ! 0"
      "j div 2 ^ T = 0"
      unfolding T_def using tree_height_block[OF \<open>1 < length ids\<close>] merkle_root_tree_level[OF ids]
        below_tree_height[OF j(1)] by blast+
    from cached_climb_block[OF b j(1) T(3) c(1) add_0 c(2)[folded T_def]] j ids False T show ?thesis
      unfolding T_def[symmetric]
      by (simp add: computeRootCached_def bnd_apply single_block tree_height_def Let_def)
  qed
qed

lemma validate_block:
  assumes b: "block_ids H ids"
    and "sound_hashes H (block_path height ids) c"
      "tree_nodes H ids (offsetTreeHeight (int (length ids - 1))) 0 (node_cache c)"
    and "\<forall>l \<in> set ls. \<exists>i < length ids. lf_hash l = Some (display (ids ! i))"
    and "root = None \<or> root = Some (display (merkle_root H ids))"
  shows "\<exists>d. validate_leaves H (block_path height ids) (createSourceLeafIndex (block_path height ids))
      (maxOffset (block_leaves ids)) root ls c = (Inr (), d)"
  using assms(2-)
proof (induction ls arbitrary: root c)
  case (Cons l ls)
  then obtain i where i: "i < length ids" "lf_hash l = Some (display (ids ! i))" by auto
  from computeRootCached_block[OF b i(1) Cons.prems(1,2)] i(2) Cons.prems obtain d where
    d: "computeRootCached H (block_path height ids) (lf_hash l)
        (createSourceLeafIndex (block_path height ids)) (maxOffset (block_leaves ids)) c
      = (Inr (display (merkle_root H ids)), d)"
    "sound_hashes H (block_path height ids) d"
    "tree_nodes H ids (offsetTreeHeight (int (length ids - 1))) 0 (node_cache d)"
    by auto
  from Cons.IH[OF d(2,3)] Cons.prems d(1) show ?case by (auto simp: bnd_apply Let_def)
qed simp

lemma block_path_accepted:
  assumes "block_ids H ids"
  shows "new_MerklePath H height [block_leaves ids] only True = Inr (block_path height ids)"
proof -
  note b = block_idsD(3,4)[OF assms]
  have "tree_nodes H ids (offsetTreeHeight (int (length ids - 1))) 0 (node_cache empty_caches)"
    by (simp add: tree_nodes_def empty_caches_def)
  moreover have "\<forall>l \<in> set (block_leaves ids). \<exists>i < length ids. lf_hash l = Some (display (ids ! i))"
    by (auto simp: block_leaves_def)
  ultimately have "validateRoots H (block_path height ids) = Inr ()"
    using validate_block[OF assms sound_empty, of "block_leaves ids" None height]
    by (auto simp: validateRoots_def)
  then show ?thesis
    using b single_block(2)[OF b(1)] block_legal_levels[of only "block_leaves ids" ids]
    by (auto simp: new_MerklePath_ok block_path_def)
qed

text \<open>C10: A whole block as a one-level path. For any nonempty list of at most \<open>2^53\<close> transaction
  identifiers the constructor, root validation included, accepts the path that lists them on
  level zero, and from every transaction \<open>computeRoot\<close> returns the root of the block's Merkle
  tree, odd levels pairing their last node with itself.\<close>

theorem block_path_root:
  assumes "block_ids H ids"
  shows "new_MerklePath H height [block_leaves ids] only True = Inr (block_path height ids) \<and>
    (\<forall>i < length ids. computeRoot H (block_path height ids) (Some (display (ids ! i)))
       = Inr (display (merkle_root H ids)))"
  using block_path_accepted[OF assms] root_of_txid_block[OF assms] by (simp add: computeRoot_def)

lemma block_path_root_witness:
  "new_MerklePath (\<lambda>b. 1 # b) 7 [block_leaves [[1], [2], [3]]] True True
     = Inr (block_path 7 [[1], [2], [3]]) \<and>
   computeRoot (\<lambda>b. 1 # b) (block_path 7 [[1], [2], [3]]) (Some (display [3]))
     = Inr (display [1, 1, 1, 2, 1, 3, 3])"
proof -
  have b: "block_ids (\<lambda>b. 1 # b) [[1], [2], [3]]" by (simp add: block_ids_def)
  note r = block_path_root[OF b, of 7 True]
  show ?thesis using r[THEN conjunct1] r[THEN conjunct2, rule_format, of 2] by (simp add: merkle_root.simps)
qed

lemma validated_path_has_one_root_witness:
  "\<exists>root. \<forall>leaf \<in> set (block_leaves [[1], [2], [3]]).
     computeRoot (\<lambda>b. 1 # b) (block_path 7 [[1], [2], [3]]) (lf_hash leaf) = Inr root"
proof -
  have "block_ids (\<lambda>b. 1 # b) [[1], [2], [3]]" by (simp add: block_ids_def)
  from validated_path_has_one_root[OF block_path_accepted[OF this, of 7 True]] show ?thesis
    by (simp only: block_path_simps)
qed

end
