(* ===== verification/Merkle_Proofs.thy ===== *)
theory Merkle_Proofs
  imports Merkle_Root
begin

text \<open>
  What a Merkle path proves and what its operations promise: a path that climbs to a block's
  root names a transaction of the block, or exhibits two strings with one hash; \<open>verify\<close> and
  coinbase maturity; the binary format; \<open>combine\<close>, \<open>trim\<close> and \<open>extract\<close> on compound paths.
\<close>

subsection \<open>A path that reaches the root names a transaction of the block\<close>

definition well_formed_hash :: "string \<Rightarrow> bool" where
  "well_formed_hash s \<longleftrightarrow> length s = 64 \<and> list_all is_hex_char s \<and> toHex (hex_pairs s) = s"

definition well_formed_path :: "merkle_path \<Rightarrow> bool" where
  "well_formed_path p \<longleftrightarrow>
     list_all (list_all (\<lambda>l. case lf_hash l of None \<Rightarrow> True | Some x \<Rightarrow> well_formed_hash x)) (mp_path p)"

lemma well_formed_display: "well_formed_hash s \<longleftrightarrow> (\<exists>b. length b = 32 \<and> s = display b)"
proof
  assume s: "well_formed_hash s"
  then have "s = display (rev (hex_pairs s))" by (simp add: display_def well_formed_hash_def)
  moreover from s have "length (rev (hex_pairs s)) = 32"
    by (metis length_rev length_toHex mult_cancel_left numeral_times_numeral semiring_norm(12,13) well_formed_hash_def zero_neq_numeral)
  ultimately show "\<exists>b. length b = 32 \<and> s = display b" by blast
next
  show "\<exists>b. length b = 32 \<and> s = display b \<Longrightarrow> well_formed_hash s"
    using toHex_chars by (auto simp: well_formed_hash_def display_def hex_pairs_toHex)
qed

text \<open>The string that \<open>nextCachedHash\<close> hashes, and those of a whole climb.\<close>

definition step_input :: "string \<Rightarrow> merkle_leaf option \<Rightarrow> int \<Rightarrow> bytes" where
  "step_input w leaf n = rev (hex_pairs
     (case leaf of
        None \<Rightarrow> w @ w
      | Some l \<Rightarrow> if lf_duplicate l = Some True then w @ w
          else if n mod 2 = 1 then hash_or_empty l @ w else w @ hash_or_empty l))"

fun climb_inputs :: "(bytes \<Rightarrow> bytes) \<Rightarrow> merkle_path \<Rightarrow> int \<Rightarrow> nat \<Rightarrow> nat \<Rightarrow> string \<Rightarrow> bytes list" where
  "climb_inputs H p index 0 h w = []"
| "climb_inputs H p index (Suc k) h w =
     (case findOrComputeLeaf H p h (siblingOf (offsetAtHeight index h)) of
        Inl e \<Rightarrow> []
      | Inr leaf \<Rightarrow>
          let inp = step_input w leaf (siblingOf (offsetAtHeight index h))
          in inp # climb_inputs H p index k (Suc h) (display (H inp)))"

text \<open>The strings hashed to build a block's tree.\<close>

fun level_inputs :: "bytes list \<Rightarrow> bytes list" where
  "level_inputs [] = []"
| "level_inputs [x] = [x @ x]"
| "level_inputs (x # y # rest) = (x @ y) # level_inputs rest"

definition tree_inputs :: "(bytes \<Rightarrow> bytes) \<Rightarrow> bytes list \<Rightarrow> bytes list" where
  "tree_inputs H ids = concat (map (\<lambda>h. level_inputs (tree_level H ids h))
     [0..<offsetTreeHeight (int (length ids - 1))])"

definition path_levels :: "merkle_path \<Rightarrow> nat" where
  "path_levels p = (if is_single_transaction p then 0 else tree_height p)"

definition path_inputs :: "(bytes \<Rightarrow> bytes) \<Rightarrow> merkle_path \<Rightarrow> string \<Rightarrow> bytes list" where
  "path_inputs H p txid =
     (case indexOf p txid of Inl e \<Rightarrow> [] | Inr i \<Rightarrow> climb_inputs H p i (path_levels p) 0 txid)"

text \<open>Two different strings among those hashed by the proof and by the block have one hash.\<close>

definition collision_among :: "(bytes \<Rightarrow> bytes) \<Rightarrow> bytes list \<Rightarrow> bytes list \<Rightarrow> bool" where
  "collision_among H as bs \<longleftrightarrow> list_ex (\<lambda>a. list_ex (\<lambda>b. a \<noteq> b \<and> H a = H b) bs) as"

lemma merkle_level_inputs: "merkle_level H xs = map H (level_inputs xs)"
  by (induction xs rule: level_inputs.induct) simp_all

lemma level_inputs_parts:
  "t \<in> set (level_inputs xs) \<Longrightarrow> \<exists>x \<in> set xs. \<exists>y \<in> set xs. t = x @ y"
  by (induction xs rule: level_inputs.induct) auto

lemma tree_level_32:
  "(\<And>b. length (H b) = 32) \<Longrightarrow> list_all (\<lambda>b. length b = 32) ids \<Longrightarrow>
   b \<in> set (tree_level H ids h) \<Longrightarrow> length b = 32"
  by (cases h) (auto simp: tree_level_Suc merkle_level_inputs list_all_iff)

definition leaf_ok :: "merkle_leaf option \<Rightarrow> bool" where
  "leaf_ok leaf = (case leaf of None \<Rightarrow> True
     | Some l \<Rightarrow> (case lf_hash l of None \<Rightarrow> True | Some x \<Rightarrow> well_formed_hash x))"

lemma level_find_ok: "well_formed_path p \<Longrightarrow> leaf_ok (level_find p h n)"
  by (auto simp: well_formed_path_def leaf_ok_def level_find_def list_all_length find_Some_iff
      split: option.splits)

lemma join_children_ok:
  assumes "\<And>b. length (H b) = 32" "join_children H b n h0 leaf1 = Inr r"
  shows "leaf_ok r"
proof -
  have "well_formed_hash x" if "hashPair H l r = Inr x" for l r x
    using that assms(1) by (auto simp: hashPair_def and_then_eq_Inr well_formed_display display_def)
  then have made: "leaf_ok r" if "with_hash n (hashPair H l q) = Inr r" for l q r
    using that by (auto simp: with_hash_def and_then_eq_Inr leaf_ok_def computed_leaf_def)
  have none: "leaf_ok None" by (simp add: leaf_ok_def)
  show ?thesis
    using assms(2) by (auto simp: join_children_def none split: option.splits if_splits intro: made)
qed

lemma findOrComputeLeaf_ok:
  assumes "\<And>b. length (H b) = 32" "well_formed_path p"
  shows "findOrComputeLeaf H p h n = Inr leaf \<Longrightarrow> leaf_ok leaf"
proof (cases h)
  case 0
  assume "findOrComputeLeaf H p h n = Inr leaf"
  with 0 assms(2) level_find_ok show ?thesis by (auto simp: and_then_eq_Inr)
next
  case (Suc g)
  assume f: "findOrComputeLeaf H p h n = Inr leaf"
  have none: "leaf_ok None" by (simp add: leaf_ok_def)
  show ?thesis
  proof (cases "level_find p h n")
    case (Some l)
    with f Suc level_find_ok[OF assms(2), of h n] show ?thesis by (auto simp: and_then_eq_Inr)
  next
    case None
    with f Suc none join_children_ok[OF assms(1)] show ?thesis
      by (auto simp: and_then_eq_Inr split: if_splits option.splits)
  qed
qed

lemma nextCachedHash_input:
  assumes "\<And>b. length (H b) = 32" "well_formed_hash w" "leaf_ok leaf"
    "nextCachedHash H w leaf n i h b = Inr x"
  shows "x = display (H (step_input w leaf n))"
    "step_input w leaf n = t1 @ t2 \<Longrightarrow> length t1 = 32 \<Longrightarrow> length t2 = 32 \<Longrightarrow> w = display t1 \<or> w = display t2"
proof -
  obtain wb where wb: "length wb = 32" "w = display wb" using assms(2) by (auto simp: well_formed_display)
  have cat: "display r @ display l = toHex (rev (l @ r))" for l r
    by (simp add: display_def toHex_def)
  have len: "length (display r) = 2 * length r" for r by (simp add: display_def)
  consider (self) "nextCachedHash H w leaf n i h b = hashPair H w w" "step_input w leaf n = wb @ wb"
    | (right) s where "nextCachedHash H w leaf n i h b = hashPair H (display s) w" "step_input w leaf n = wb @ s"
        "length s = 32 \<or> s = []"
    | (left) s where "nextCachedHash H w leaf n i h b = hashPair H w (display s)" "step_input w leaf n = s @ wb"
        "length s = 32 \<or> s = []"
  proof (cases leaf)
    case None
    with assms(4) that(1) show ?thesis
      by (simp add: nextCachedHash_def step_input_def wb cat hex_pairs_toHex split: if_splits)
  next
    case (Some l)
    obtain s where s: "hash_or_empty l = display s" "length s = 32 \<or> s = []"
      using assms(3) Some by (auto simp: leaf_ok_def hash_or_empty_def well_formed_display split: option.splits)
        (metis display_eq_Nil)
    with that Some show ?thesis
      by (cases "lf_duplicate l = Some True"; cases "n mod 2 = 1")
        (simp_all add: nextCachedHash_def step_input_def wb cat hex_pairs_toHex)
  qed
  then have "x = display (H (step_input w leaf n)) \<and>
    (step_input w leaf n = t1 @ t2 \<longrightarrow> length t1 = 32 \<longrightarrow> length t2 = 32 \<longrightarrow> w = display t1 \<or> w = display t2)"
  proof cases
    case self
    with assms(4) show ?thesis by (auto simp: wb hashPair_display)
  next
    case right
    with assms(4) wb(1) show ?thesis by (auto simp: wb(2) hashPair_display append_eq_append_conv)
  next
    case left
    with assms(4) wb(1) show ?thesis by (auto simp: wb(2) hashPair_display append_eq_append_conv)
  qed
  then show "x = display (H (step_input w leaf n))"
    "step_input w leaf n = t1 @ t2 \<Longrightarrow> length t1 = 32 \<Longrightarrow> length t2 = 32 \<Longrightarrow> w = display t1 \<or> w = display t2"
    by blast+
qed

lemma climb_back:
  assumes H: "\<And>b. length (H b) = 32" and p: "well_formed_path p"
    and ids: "list_all (\<lambda>b. length b = 32) ids"
    and "well_formed_hash w" "climb H p i k h w = Inr x" "x = display b" "b \<in> set (tree_level H ids (h + k))"
    and "h + k = offsetTreeHeight (int (length ids - 1))"
    and "\<not> collision_among H (climb_inputs H p i k h w) (tree_inputs H ids)"
  shows "\<exists>c \<in> set (tree_level H ids h). w = display c"
  using assms(4-)
proof (induction k arbitrary: h w)
  case 0
  then show ?case by auto
next
  case (Suc k)
  let ?n = "siblingOf (offsetAtHeight i h)"
  from Suc.prems(2) obtain leaf w' where leaf: "findOrComputeLeaf H p h ?n = Inr leaf" and
    w': "nextCachedHash H w leaf ?n i h
      (length (mp_path p) = 1 \<and> sameNodeAtHeight i (maxOffset (level_zero p)) h) = Inr w'"
    and rest: "climb H p i k (Suc h) w' = Inr x"
    unfolding climb.simps climb_step_def Let_def and_then_eq_Inr by blast
  let ?inp = "step_input w leaf ?n"
  note input = nextCachedHash_input[OF H Suc.prems(1) findOrComputeLeaf_ok[OF H p leaf] w']
  have nc: "\<not> collision_among H (climb_inputs H p i k (Suc h) w') (tree_inputs H ids)"
    "list_all (\<lambda>b. ?inp \<noteq> b \<longrightarrow> H ?inp \<noteq> H b) (tree_inputs H ids)"
    using Suc.prems(6) by (auto simp: leaf Let_def input(1) collision_among_def list_all_iff list_ex_iff)
  have "well_formed_hash w'" using H by (auto simp: input(1) well_formed_display)
  from Suc.IH[OF this rest Suc.prems(3) _ _ nc(1)] Suc.prems(4,5)
  obtain c where c: "c \<in> set (tree_level H ids (Suc h))" "w' = display c" by auto
  then obtain t where t: "t \<in> set (level_inputs (tree_level H ids h))" "c = H t"
    by (auto simp: tree_level_Suc merkle_level_inputs)
  have "h < offsetTreeHeight (int (length ids - 1))" using Suc.prems(5) by simp
  with t(1) have "t \<in> set (tree_inputs H ids)" by (auto simp: tree_inputs_def)
  with nc(2) c(2) t(2) input(1) have inp: "?inp = t" by (auto simp: list_all_iff)
  from level_inputs_parts[OF t(1)] obtain y z where
    yz: "y \<in> set (tree_level H ids h)" "z \<in> set (tree_level H ids h)" "t = y @ z" by blast
  with input(2)[of y z] inp tree_level_32[OF H ids] show ?case by auto
qed

text \<open>C11: Soundness of a Merkle proof. A well-formed path with as many levels as the tree of a
  block, from which \<open>computeRoot\<close> of a transaction identifier gives the block's Merkle root,
  proves that the transaction is in the block, unless a string hashed by the proof and a
  different string hashed by the block have the same hash.\<close>

theorem merkle_proof_sound:
  assumes "\<And>b. length (H b) = 32" "well_formed_path p" "well_formed_hash txid"
    and "list_all (\<lambda>b. length b = 32) ids" "ids \<noteq> []"
    and "path_levels p = offsetTreeHeight (int (length ids - 1))"
    and "computeRoot H p (Some txid) = Inr (display (merkle_root H ids))"
  shows "txid \<in> display ` set ids \<or> collision_among H (path_inputs H p txid) (tree_inputs H ids)"
proof -
  from assms(7) obtain i where i: "indexOf p txid = Inr i"
    by (auto simp: computeRoot_def root_of_txid_def and_then_eq_Inr)
  have root: "merkle_root H ids \<in> set (tree_level H ids (0 + path_levels p))"
    using merkle_root_tree_level[OF assms(5)] length_tree_level[OF assms(5)] assms(6) by simp
  have "climb H p i (path_levels p) 0 txid = Inr (display (merkle_root H ids))"
    using assms(7) i by (auto simp: computeRoot_def root_of_txid_def and_then_eq_Inr path_levels_def split: if_splits)
  from climb_back[OF assms(1,2,4,3) this refl root] assms(6) i show ?thesis
    by (auto simp: path_inputs_def)
qed

subsection \<open>The binary format\<close>

definition valid_leaf :: "merkle_leaf \<Rightarrow> bool" where
  "valid_leaf l \<longleftrightarrow> admissible_offset (lf_offset l) \<and>
     (case lf_hash l of
        None \<Rightarrow> lf_duplicate l = Some True \<and> lf_txid l = None
      | Some x \<Rightarrow> well_formed_hash x \<and> lf_duplicate l = None \<and> lf_txid l \<noteq> Some False)"

definition leaf_bytes :: "merkle_leaf \<Rightarrow> bytes" where
  "leaf_bytes l = compact_size (nat (lf_offset l)) @ le_bytes 1 (nat (leaf_flags l)) @
     (case lf_hash l of None \<Rightarrow> [] | Some x \<Rightarrow> rev (hex_pairs x))"

definition valid_level :: "merkle_leaf list \<Rightarrow> bool" where
  "valid_level ls \<longleftrightarrow> list_all valid_leaf ls \<and> sorted (map lf_offset ls) \<and> length ls \<le> max_safe_integer"

definition level_bytes :: "merkle_leaf list \<Rightarrow> bytes" where
  "level_bytes ls = compact_size (length ls) @ concat (map leaf_bytes ls)"

definition path_bytes :: "merkle_path \<Rightarrow> bytes" where
  "path_bytes p = compact_size (nat (mp_height p)) @ le_bytes 1 (length (mp_path p))
     @ concat (map level_bytes (mp_path p))"

lemma admissible_offset_range: "admissible_offset n \<longleftrightarrow> 0 \<le> n \<and> n \<le> int max_safe_integer"
  by (auto simp: admissible_offset_def is_safe_integer_def)

lemma well_formed_hash_bytes:
  assumes "well_formed_hash x"
  shows "hexToArray x = Inr (hex_pairs x)" "length (hex_pairs x) = 32" "toHex (hex_pairs x) = x"
proof -
  from assms obtain b where "length b = 32" "x = display b" by (auto simp: well_formed_display)
  then show "hexToArray x = Inr (hex_pairs x)" "length (hex_pairs x) = 32" "toHex (hex_pairs x) = x"
    by (simp_all add: display_def hexToArray_toHex hex_pairs_toHex)
qed

lemma read_length_byte: "n < 256 \<Longrightarrow> parses readUInt8 (word_of_nat n) (le_bytes 1 n)"
  by (simp add: parses_readUInt8)

lemma parses_read_leaf:
  assumes "valid_leaf l"
  shows "parses read_leaf l (leaf_bytes l)"
proof -
  have n: "parses (readVarIntNumStrict False) (lf_offset l) (compact_size (nat (lf_offset l)))"
    using assms by (intro strict_varint.get_put) (simp add: valid_leaf_def admissible_offset_range)
  show ?thesis
  proof (cases "lf_hash l")
    case None
    with assms have "l = \<lparr>lf_offset = lf_offset l, lf_hash = None, lf_txid = None, lf_duplicate = Some True\<rparr>"
      "leaf_flags l = 1"
      by (cases l, simp add: valid_leaf_def leaf_flags_def)+
    then show ?thesis
      unfolding read_leaf_def leaf_bytes_def None option.case append_Nil2
      by (intro parses_bnd[OF n] parses_bnd_nil[OF read_length_byte])
        (simp_all add: parses_ret)
  next
    case (Some x)
    note x = well_formed_hash_bytes[of x]
    have v: "well_formed_hash x" "lf_duplicate l = None" "lf_txid l \<noteq> Some False"
      using assms Some by (simp_all add: valid_leaf_def)
    have "parses (rd_read 32) (rev (hex_pairs x)) (rev (hex_pairs x))"
      using parses_read[of 32 "rev (hex_pairs x)"] x(2) v(1) by simp
    moreover have "l = \<lparr>lf_offset = lf_offset l, lf_hash = Some (toHex (rev (rev (hex_pairs x)))),
        lf_txid = (if lf_txid l = None then None else Some True), lf_duplicate = None\<rparr>"
      using v Some x(3) by (cases l) auto
    moreover have "leaf_flags l = (if lf_txid l = None then 0 else 2)" using v by (simp add: leaf_flags_def)
    ultimately show ?thesis
      unfolding read_leaf_def leaf_bytes_def Some option.case
      by (intro parses_bnd[OF n] parses_bnd[OF read_length_byte])
        (auto intro!: parses_bnd_nil parses_ret)
  qed
qed

lemma appends_write_leaf:
  assumes "valid_leaf l"
  shows "appends (write_leaf l) (leaf_bytes l)"
proof -
  have n: "appends (writeVarIntNum (lf_offset l)) (compact_size (nat (lf_offset l)))"
    using assms by (intro strict_varint.write_put) (simp add: valid_leaf_def admissible_offset_range)
  have f: "appends (writeUInt8 (leaf_flags l)) (le_bytes 1 (nat (leaf_flags l)))"
    using appends_writeUInt8[of "nat (leaf_flags l)"] by (simp add: leaf_flags_def split: if_splits)
  show ?thesis
  proof (cases "lf_hash l")
    case None
    with assms have "lf_duplicate l = Some True" by (simp add: valid_leaf_def)
    with appends_thn[OF n appends_thn[OF f appends_ret]] None show ?thesis
      by (simp add: write_leaf_def leaf_bytes_def)
  next
    case (Some x)
    with assms have x: "well_formed_hash x" "lf_duplicate l \<noteq> Some True" by (simp_all add: valid_leaf_def)
    have "appends (bnd (lift_result (hexToArray x)) (\<lambda>bs. wr_write (rev bs))) (rev (hex_pairs x))"
      by (rule appends_lift[OF well_formed_hash_bytes(1)[OF x(1)] appends_write])
    from appends_thn[OF n appends_thn[OF f this]] Some x show ?thesis
      by (simp add: write_leaf_def leaf_bytes_def)
  qed
qed

interpretation leaf_codec: stream_codec leaf_bytes read_leaf valid_leaf write_leaf
  by unfold_locales (simp_all only: parses_read_leaf appends_write_leaf)

lemma appends_write_each:
  "(\<And>x. x \<in> set xs \<Longrightarrow> appends (f x) (put x)) \<Longrightarrow> appends (write_each f xs) (concat (map put xs))"
  by (induction xs) (auto intro!: appends_intros)

interpretation level_codec: stream_codec level_bytes read_level valid_level write_level
proof
  fix ls :: "merkle_leaf list"
  assume v: "valid_level ls"
  then have n: "length ls \<le> max_safe_integer" "list_all valid_leaf ls" "sort_key lf_offset ls = ls"
    by (simp_all add: valid_level_def sort_key_id_if_sorted)
  have "parses (rd_times (nat (int (length ls))) read_leaf) ls (concat (map leaf_bytes ls))"
    using leaf_codec.get_put_list[OF n(2)] by simp
  from parses_bnd_ret[OF this, of "sort_key lf_offset"] n(3)
  show "parses read_level ls (level_bytes ls)"
    unfolding read_level_def level_bytes_def
    by (intro parses_bnd[OF parses_readVarIntNumStrict[OF n(1)]]) simp
  show "appends (write_level ls) (level_bytes ls)"
    unfolding write_level_def level_bytes_def using n
    by (intro appends_intros appends_write_each leaf_codec.write_put) (auto simp: list_all_iff)
qed

lemma parses_fromReader:
  assumes "new_MerklePath H (mp_height p) (mp_path p) only validate = Inr p"
    "list_all valid_level (mp_path p)" "admissible_offset (mp_height p)"
  shows "parses (mp_fromReader H only validate) p (path_bytes p)"
proof -
  have n: "parses (readVarIntNumStrict False) (mp_height p) (compact_size (nat (mp_height p)))"
    using assms(3) by (intro strict_varint.get_put) (simp add: admissible_offset_range)
  have len: "length (mp_path p) < 256" using assms(1) by (simp add: new_MerklePath_ok)
  have "parses (rd_times (unat (word_of_nat (length (mp_path p)) :: byte)) read_level) (mp_path p)
      (concat (map level_bytes (mp_path p)))"
    using level_codec.get_put_list[OF assms(2)] len by simp
  then show ?thesis
    unfolding mp_fromReader_def path_bytes_def
    by (intro parses_bnd[OF n] parses_bnd[OF read_length_byte[OF len]] parses_bnd_nil[OF _ parses_lift])
      (simp, rule assms(1))
qed

lemma toBinary_bytes:
  assumes "list_all valid_level (mp_path p)" "admissible_offset (mp_height p)"
  shows "mp_toBinary p = Inr (path_bytes p)"
proof -
  have "appends (mp_toWriter p) (path_bytes p)"
    unfolding mp_toWriter_def path_bytes_def using assms
    by (intro appends_intros appends_write_each strict_varint.write_put level_codec.write_put)
      (auto simp: list_all_iff admissible_offset_range)
  then show ?thesis
    by (cases "mp_toWriter p (new_writer [])") (auto simp: mp_toBinary_def dest!: appends_new)
qed

text \<open>C13: A constructed path whose levels are sorted and whose leaves are in the form the parser
  makes (a duplicate without hash, or a 32-byte hash with or without the txid mark) survives the
  binary format: \<open>toBinary\<close> succeeds and \<open>fromBinary\<close> with the same options gives the path back.\<close>

theorem merkle_binary_roundtrip:
  assumes "new_MerklePath H (mp_height p) (mp_path p) only validate = Inr p"
    and "list_all valid_level (mp_path p)" "admissible_offset (mp_height p)"
    and "length (path_bytes p) \<le> max_safe_integer"
  shows "\<exists>bs. mp_toBinary p = Inr bs \<and> mp_fromBinary H bs only validate = Inr p"
proof -
  let ?r = "\<lparr>bin = path_bytes p, pos = 0\<rparr>"
  from new_reader_ok[OF assms(4)] have r: "new_reader (path_bytes p) 0 = Inr ?r" "wf_reader ?r" by simp_all
  from parsesD[OF parses_fromReader[OF assms(1-3)] r(2), of "[]"] r(1) toBinary_bytes[OF assms(2,3)]
  show ?thesis by (simp add: mp_fromBinary_def)
qed

subsection \<open>Verification\<close>

text \<open>\<open>verify\<close> answers true exactly when the block height is a safe non-negative integer, the
  path computes a root for the transaction, the chain tracker confirms that root at that height,
  and a coinbase (index 0) is at least 100 blocks deep in the chain the tracker reports.\<close>

theorem verify_accepts_iff:
  "mp_verify H p txid tracker = Inr True \<longleftrightarrow>
     admissible_offset (mp_height p) \<and>
     (\<exists>root index. computeRoot H p (Some txid) = Inr root \<and> indexOf p txid = Inr index \<and>
        isValidRootForHeight tracker root (mp_height p) = Inr True \<and>
        (index = 0 \<longrightarrow> (\<exists>height. currentHeight tracker = Inr height \<and> admissible_offset height \<and>
           mp_height p + 100 \<le> height)))"
  by (cases "computeRoot H p (Some txid)"; cases "indexOf p txid"; cases "currentHeight tracker")
    (auto simp: mp_verify_def admissible_offset_def)

lemma merkle_proof_sound_witness:
  "let H = (\<lambda>b. take 32 (b @ replicate 32 0)); ids = [replicate 32 1, replicate 32 2];
       p = block_path 7 ids; txid = display (replicate 32 2)
   in txid \<in> display ` set ids \<or> collision_among H (path_inputs H p txid) (tree_inputs H ids)"
proof -
  let ?H = "\<lambda>b :: bytes. take 32 (b @ replicate 32 0)"
  let ?ids = "[replicate 32 1, replicate 32 2] :: bytes list"
  have b: "block_ids ?H ?ids" by (simp add: block_ids_def)
  have "\<not> is_single_transaction (block_path 7 ?ids)" by (simp add: single_block)
  then have levels: "path_levels (block_path 7 ?ids) = offsetTreeHeight (int (length ?ids - 1))"
    using tree_height_block[of ?ids 7] by (simp add: path_levels_def)
  have wf: "well_formed_hash (display b)" if "length b = 32" for b
    using that by (auto simp: well_formed_display)
  have p: "well_formed_path (block_path 7 ?ids)"
    by (simp add: well_formed_path_def block_leaves_def wf)
  have root: "computeRoot ?H (block_path 7 ?ids) (Some (display (replicate 32 2)))
      = Inr (display (merkle_root ?H ?ids))"
    using root_of_txid_block[OF b, of 1 7] by (simp add: computeRoot_def)
  show ?thesis
    unfolding Let_def
    by (rule merkle_proof_sound[OF _ p wf _ _ levels root]) simp_all
qed

definition coinbase_path :: merkle_path where
  "coinbase_path = \<lparr>mp_height = 7, mp_path =
     [[\<lparr>lf_offset = 0, lf_hash = Some (display (replicate 32 9)), lf_txid = Some True, lf_duplicate = None\<rparr>]]\<rparr>"

lemma coinbase_accepted: "new_MerklePath H (mp_height coinbase_path) (mp_path coinbase_path) True False = Inr coinbase_path"
  by (simp add: new_MerklePath_def coinbase_path_def Let_def assertOffset_def is_safe_integer_def
      assertSingleTransactionOffset_def level_zero_def)

lemma merkle_binary_roundtrip_witness:
  "\<exists>bs. mp_toBinary coinbase_path = Inr bs \<and> mp_fromBinary (\<lambda>b. b) bs True False = Inr coinbase_path"
proof (rule merkle_binary_roundtrip[OF coinbase_accepted])
  have wf: "well_formed_hash (display (replicate 32 9))"
    unfolding well_formed_display by (rule exI[of _ "replicate 32 9"]) simp
  then have "valid_leaf (hd (hd (mp_path coinbase_path)))"
    by (simp add: coinbase_path_def valid_leaf_def admissible_offset_range)
  then show "list_all valid_level (mp_path coinbase_path)"
    by (simp add: coinbase_path_def valid_level_def)
  show "admissible_offset (mp_height coinbase_path)"
    by (simp add: coinbase_path_def admissible_offset_range)
  have "length (hex_pairs (display (replicate 32 9))) = 32"
    by (rule well_formed_hash_bytes(2)[OF wf])
  then show "length (path_bytes coinbase_path) \<le> max_safe_integer"
    by (simp add: coinbase_path_def path_bytes_def level_bytes_def leaf_bytes_def compact_size_def)
qed

text \<open>A coinbase of height 7 is accepted at chain height 107 and not at 106.\<close>

lemma verify_accepts_iff_witness:
  "mp_verify (\<lambda>b. b) coinbase_path (display (replicate 32 9))
     \<lparr>currentHeight = Inr 107, isValidRootForHeight = \<lambda>r h. Inr True\<rparr> = Inr True \<and>
   mp_verify (\<lambda>b. b) coinbase_path (display (replicate 32 9))
     \<lparr>currentHeight = Inr 106, isValidRootForHeight = \<lambda>r h. Inr True\<rparr> \<noteq> Inr True"
proof -
  have i: "indexOf coinbase_path (display (replicate 32 9)) = Inr 0"
    by (simp add: indexOf_def coinbase_path_def level_zero_def)
  then have r: "computeRoot H coinbase_path (Some (display (replicate 32 9))) = Inr (display (replicate 32 9))" for H
    by (simp add: computeRoot_def root_of_txid_def is_single_transaction_def assertSingleTransactionOffset_def
        coinbase_path_def)
  show ?thesis
    unfolding verify_accepts_iff i r
    by (simp add: admissible_offset_range coinbase_path_def)
qed

subsection \<open>Compound paths\<close>

text \<open>C14: \<open>combine\<close> and \<open>extract\<close> keep the root. A failing \<open>combine\<close>, whatever the failure, leaves
  the path as it was; a successful one has found both roots equal and leaves a path of the
  same height with that same root. A successful \<open>extract\<close> returns a path of the same height
  and root.\<close>

theorem compound_paths_keep_root:
  "(case mp_combine H other this of
      (Inl e, after) \<Rightarrow> after = this
    | (Inr u, after) \<Rightarrow> mp_height after = mp_height this \<and>
        (\<exists>root. computeRoot H this None = Inr root \<and> computeRoot H other None = Inr root \<and>
           computeRoot H after None = Inr root)) \<and>
   (case mp_extract H this txids of
      Inl e \<Rightarrow> True
    | Inr q \<Rightarrow> mp_height q = mp_height this \<and>
        (\<exists>root. computeRoot H this None = Inr root \<and> computeRoot H q None = Inr root))"
proof -
  have trim_height: "mp_height t = mp_height s" if "trim s = (r, t)" for r s t
    using that by (auto simp: trim_def thn_apply bnd_apply sort_levels_def split: prod.splits sum.splits)
  have "case mp_combine H other this of (Inl e, after) \<Rightarrow> after = this
    | (Inr u, after) \<Rightarrow> mp_height after = mp_height this \<and>
        (\<exists>root. computeRoot H this None = Inr root \<and> computeRoot H other None = Inr root \<and>
           computeRoot H after None = Inr root)"
    by (auto simp: mp_combine_def dest!: trim_height split: sum.splits prod.splits if_splits)
  moreover have "mp_height q = mp_height this \<and>
      (\<exists>root. computeRoot H this None = Inr root \<and> computeRoot H q None = Inr root)"
    if "mp_extract H this txids = Inr q" for q
  proof -
    from that obtain root where root: "computeRoot H this None = Inr root"
      by (auto simp: mp_extract_def and_then_eq_Inr split: if_splits)
    let ?s = "\<lparr>ex_needed = createNeededLeafLevels (tree_height this), ex_caches = empty_caches\<rparr>"
    obtain r s where s: "collect_all H this txids ?s = (r, s)" by (cases "collect_all H this txids ?s")
    note run = that[unfolded mp_extract_def root and_then_simps s]
    from run have ne: "txids \<noteq> []" by auto
    from run ne have r: "r = Inr ()" by (cases r) auto
    note run = run[unfolded if_not_P[OF ne] r old.sum.case prod.case]
    from run obtain compound where
      c: "new_MerklePath H (mp_height this) (buildExtractedPath (ex_needed s)) True True = Inr compound"
      unfolding and_then_eq_Inr by blast
    obtain t q' where t: "trim compound = (t, q')" by (cases "trim compound")
    note run = run[unfolded c and_then_simps t prod.case]
    from run have tr: "t = Inr ()" by (cases t) simp_all
    from run[unfolded tr] have q: "q' = q" "computeRoot H q None = Inr root"
      by (cases "computeRoot H q' None"; auto split: if_splits)+
    have "mp_height q = mp_height this"
      using trim_height[OF t] c q(1) by (simp add: new_MerklePath_ok)
    with q(2) root show ?thesis by simp
  qed
  ultimately show ?thesis by (cases "mp_extract H this txids") simp_all
qed

subsection \<open>Extraction of the last transaction of an odd block\<close>

lemma node_leaf_offset: "node_leaf H ids h k = Some l \<Longrightarrow> lf_offset l = int k"
  by (auto simp: node_leaf_def computed_leaf_def block_leaf_nth split: if_splits)

text \<open>Every level collected so far holds the sibling on the way up, or nothing.\<close>

definition sibling_level :: "int \<Rightarrow> nat \<Rightarrow> (int \<times> merkle_leaf) list \<Rightarrow> bool" where
  "sibling_level n h level \<longleftrightarrow>
     level = [] \<or> (\<exists>l. level = [(siblingOf (offsetAtHeight n h), l)] \<and> lf_offset l = siblingOf (offsetAtHeight n h))"

lemma block_sibling_found:
  assumes b: "block_ids H ids" and n: "n < length ids"
  shows "\<exists>leaf. findOrComputeLeaf H (block_path height ids) h (siblingOf (offsetAtHeight (int n) h)) = Inr leaf
    \<and> (\<forall>l. leaf = Some l \<longrightarrow> lf_offset l = siblingOf (offsetAtHeight (int n) h))"
proof -
  have "n \<le> max_safe_integer" using n block_idsD(4)[OF b] by simp
  then have adm: "0 \<le> int n" "is_safe_integer (int n)" by (simp_all add: is_safe_integer_def)
  let ?s = "siblingOf (offsetAtHeight (int n) h)"
  have "0 \<le> offsetAtHeight (int n) h" "is_safe_integer (offsetAtHeight (int n) h)"
    using offsetAtHeight_bounds[OF adm(1), of h] adm(2) by (auto simp: is_safe_integer_def)
  from siblingOf_admissible[OF this] have s: "0 \<le> ?s" "nat ?s \<le> max_safe_integer"
    by (auto simp: is_safe_integer_def nat_le_iff)
  have "findOrComputeLeaf H (block_path height ids) h (int (nat ?s)) = Inr (node_leaf H ids h (nat ?s))"
    using b s(2) by (intro findOrComputeLeaf_block) (auto simp: block_ids_def)
  with s(1) node_leaf_offset[of H ids h "nat ?s"] show ?thesis by auto
qed

lemma find_leaf_block:
  assumes b: "block_ids H ids" and n: "n < length ids"
    and "sound_hashes H (block_path height ids) (ex_caches s)"
  shows "\<exists>leaf s'. find_leaf H (block_path height ids) h (siblingOf (offsetAtHeight (int n) h)) s = (Inr leaf, s')
    \<and> findOrComputeLeaf H (block_path height ids) h (siblingOf (offsetAtHeight (int n) h)) = Inr leaf
    \<and> ex_needed s' = ex_needed s \<and> sound_hashes H (block_path height ids) (ex_caches s')
    \<and> (\<forall>l. leaf = Some l \<longrightarrow> lf_offset l = siblingOf (offsetAtHeight (int n) h))"
proof -
  let ?p = "block_path height ids" and ?s = "siblingOf (offsetAtHeight (int n) h)"
  have p: "distinct_offsets ?p"
    using block_legal_levels[of False "[]" ids] block_idsD(3,4)[OF b]
    by (intro legal_levels_distinct[of False "[]" 0]) simp
  have "n \<le> max_safe_integer" using n block_idsD(4)[OF b] by simp
  then have adm: "0 \<le> int n" "is_safe_integer (int n)" by (simp_all add: is_safe_integer_def)
  have "0 \<le> offsetAtHeight (int n) h" "is_safe_integer (offsetAtHeight (int n) h)"
    using offsetAtHeight_bounds[OF adm(1), of h] adm(2) by (auto simp: is_safe_integer_def)
  note sib = siblingOf_admissible[OF this]
  from cachedFindLeaf_eq[OF p assms(3), of ?s h] sib obtain c where
    c: "cachedFindLeaf H ?p (createSourceLeafIndex ?p) (maxOffset (level_zero ?p)) h ?s (ex_caches s)
      = (findOrComputeLeaf H ?p h ?s, c)" "sound_hashes H ?p c" by blast
  from block_sibling_found[OF b n, of height h] c show ?thesis
    by (auto simp: find_leaf_def)
qed

lemma collect_higher_block:
  assumes b: "block_ids H ids" and n: "n < length ids"
    and "sound_hashes H (block_path height ids) (ex_caches s)"
    and "length (ex_needed s) = h + k" "\<forall>g < k. ex_needed s ! (h + g) = []"
  shows "\<exists>s'. collect_higher H (block_path height ids) (int n) k h s = (Inr (), s') \<and>
    length (ex_needed s') = h + k \<and> (\<forall>g < h. ex_needed s' ! g = ex_needed s ! g) \<and>
    (\<forall>g < k. sibling_level (int n) (h + g) (ex_needed s' ! (h + g)))"
  using assms(3-)
proof (induction k arbitrary: h s)
  case 0
  then show ?case by simp
next
  case (Suc k)
  let ?p = "block_path height ids" and ?s = "siblingOf (offsetAtHeight (int n) h)"
  have empty: "ex_needed s ! h = []" using Suc.prems(3) by auto
  from find_leaf_block[OF b n Suc.prems(1), of h] obtain leaf s1 where
    s1: "find_leaf H ?p h ?s s = (Inr leaf, s1)" "ex_needed s1 = ex_needed s"
      "sound_hashes H ?p (ex_caches s1)" "\<And>l. leaf = Some l \<Longrightarrow> lf_offset l = ?s"
    by blast
  define entry where "entry = (case leaf of Some l \<Rightarrow> [(?s, l)]
    | None \<Rightarrow> if sameNodeAtHeight (int n) (maxOffset (block_leaves ids)) h then [(?s, duplicate_leaf ?s)] else [])"
  have entry: "sibling_level (int n) h entry"
    using s1(4) by (auto simp: entry_def sibling_level_def duplicate_leaf_def split: option.splits)
  define s2 where "s2 = s1\<lparr>ex_needed := (ex_needed s1)[h := entry]\<rparr>"
  have same: "(ex_needed s)[h := []] = ex_needed s" "s1\<lparr>ex_needed := ex_needed s\<rparr> = s1"
    using empty s1(2) by (metis list_update_id, cases s1, simp)
  have run: "collect_higher H ?p (int n) (Suc k) h s = collect_higher H ?p (int n) k (Suc h) s2"
    using s1(1,2) empty Suc.prems(2)
    by (auto simp: has_needed_def bnd_apply thn_apply need_leaf_def set_needed_def s2_def entry_def Let_def
        same split: option.splits)
  have "length (ex_needed s2) = Suc h + k" "\<forall>g < k. ex_needed s2 ! (Suc h + g) = []"
    "sound_hashes H ?p (ex_caches s2)"
    using Suc.prems s1 by (auto simp: s2_def)
  from Suc.IH[OF this(3,1,2)] obtain s' where s': "collect_higher H ?p (int n) k (Suc h) s2 = (Inr (), s')"
    "length (ex_needed s') = Suc h + k" "\<forall>g < Suc h. ex_needed s' ! g = ex_needed s2 ! g"
    "\<forall>g < k. sibling_level (int n) (Suc h + g) (ex_needed s' ! (Suc h + g))"
    by blast
  have "ex_needed s' ! h = entry" using s'(3) Suc.prems(2) s1(2) by (simp add: s2_def)
  moreover have "\<forall>g < h. ex_needed s' ! g = ex_needed s ! g" using s'(3) s1(2) by (simp add: s2_def)
  moreover have "\<forall>g < Suc k. sibling_level (int n) (h + g) (ex_needed s' ! (h + g))"
    using s'(4) entry \<open>ex_needed s' ! h = entry\<close> by (simp add: All_less_Suc2)
  ultimately show ?case
    using s'(2) unfolding run s'(1) by (intro exI[of _ s'] conjI) simp_all
qed

lemma offsetTreeHeight_le: "n < 2 ^ k \<Longrightarrow> offsetTreeHeight (int n) \<le> k"
proof (induction k arbitrary: n)
  case (Suc k)
  then have "n div 2 < 2 ^ k" by (simp add: less_mult_imp_div_less mult.commute)
  from Suc.IH[OF this] show ?case by (subst offsetTreeHeight_step) simp
qed (simp add: offsetTreeHeight_def)

lemma createTxidToOffsetIndex_last:
  assumes "ids \<noteq> []"
  shows "createTxidToOffsetIndex (block_path height ids) (display (last ids)) = Some (int (length ids - 1))"
proof -
  obtain n where n: "length ids = Suc n" using assms by (cases ids) auto
  then have "last ids = ids ! n" using assms by (simp add: last_conv_nth)
  with n show ?thesis by (simp add: createTxidToOffsetIndex_def block_leaves_def)
qed

lemma lone_leaf_rejected:
  assumes leaf: "lf_offset leaf = n" "lf_hash leaf = Some t" "lf_duplicate leaf = None"
    and n: "admissible_offset n" "n mod 2 = 0" "n \<noteq> 0"
    and rest: "rest \<noteq> []" "length rest < 54"
      "\<forall>g < length rest. rest ! g = [] \<or>
         (\<exists>l. rest ! g = [l] \<and> lf_offset l = siblingOf (offsetAtHeight n (Suc g)))"
  shows "new_MerklePath H height ([leaf] # rest) True True = Inl (missing_hash n 0)"
proof -
  let ?p = "\<lparr>mp_height = height, mp_path = [leaf] # rest\<rparr>"
  have sib: "admissible_offset (siblingOf (offsetAtHeight n h))" for h
  proof -
    have "0 \<le> offsetAtHeight n h" "is_safe_integer (offsetAtHeight n h)"
      using offsetAtHeight_bounds[of n h] n(1) by (auto simp: admissible_offset_def is_safe_integer_def)
    from siblingOf_admissible[OF this] show ?thesis by (simp add: admissible_offset_def)
  qed
  have "list_all (\<lambda>level. list_all (\<lambda>l. admissible_offset (lf_offset l)) level \<and> distinct (map lf_offset level)) rest"
    unfolding list_all_length using rest(3) sib by fastforce
  moreover have "\<forall>g < length rest. set (map lf_offset (rest ! g)) \<subseteq> set (legalOffsets [leaf] (Suc g))"
    using rest(3) leaf by (fastforce simp: legalOffsets_def)
  ultimately have "legal_levels True [leaf] 0 ([leaf] # rest)"
    using leaf(1) n(1) by (simp add: legal_levels_def All_less_Suc2)
  then have check: "check_levels True [leaf] 0 ([leaf] # rest) = Inr ()" by (simp only: check_levels_ok)
  have single: "assertSingleTransactionOffset ([leaf] # rest) = Inr ()" "\<not> is_single_transaction ?p"
    using rest(1) by (auto simp: assertSingleTransactionOffset_def is_single_transaction_def neq_Nil_conv)
  obtain k where k: "max (Suc (length rest)) (offsetTreeHeight n) = Suc k"
    by (cases "max (Suc (length rest)) (offsetTreeHeight n)") auto
  have max: "maxOffset [leaf] = n" using leaf(1) n(1) by (simp add: maxOffset_def admissible_offset_def)
  have index: "indexOf ?p t = Inr n" using leaf by (simp add: indexOf_def level_zero_def)
  have none: "index_find (createSourceLeafIndex ?p) 0 (n + 1) = None"
    using leaf(1) by (simp add: index_find_def createSourceLeafIndex_def)
  have "fst (computeRootCached H ?p (Some t) (createSourceLeafIndex ?p) n empty_caches) = Inl (missing_hash n 0)"
    using rest(1) n(2) none
    by (simp add: computeRootCached_def index single k Let_def bnd_apply empty_caches_def cachedMerkleRoot_def
        thn_apply remember_node_def remember_leaf_def siblingOf_def nextCachedHash_def)
  then have "validateRoots H ?p = Inl (missing_hash n 0)"
    by (cases "computeRootCached H ?p (Some t) (createSourceLeafIndex ?p) n empty_caches")
      (simp add: validateRoots_def level_zero_def max leaf(2) bnd_apply)
  with check single rest(2) show ?thesis
    by (simp add: new_MerklePath_def Let_def level_zero_def del: check_levels.simps)
qed

text \<open>C15: Extraction of the last transaction of a block with an odd number of transactions, at
  least three, always fails: from the path listing all the block's transactions on level zero,
  which the constructor accepts, \<open>extract\<close> of that transaction throws a missing-hash error,
  because no duplicate marker is added next to the last leaf of level zero.\<close>

theorem extract_last_of_odd_block_fails:
  assumes b: "block_ids H ids" and odd: "odd (length ids)" "3 \<le> length ids"
  shows "mp_extract H (block_path height ids) [display (last ids)]
    = Inl (missing_hash (int (length ids - 1)) 0)"
proof -
  let ?p = "block_path height ids" and ?L = "length ids - 1"
  let ?leaf = "\<lparr>lf_offset = int ?L, lf_hash = Some (display (last ids)), lf_txid = Some True, lf_duplicate = None\<rparr>"
  define T where "T = tree_height ?p"
  have last: "last ids = ids ! ?L" "?L < length ids" "ids \<noteq> []"
    using odd by (cases "ids = []"; auto simp: last_conv_nth)+
  have Lpos: "?L \<noteq> 0" "?L div 2 \<noteq> 0" using odd by auto
  have sib: "siblingOf (int ?L) = int (length ids)" using odd siblingOf_nat[of ?L] by simp
  have sib': "siblingOf (int (length ids - Suc 0)) = int (length ids)" "length ids \<noteq> length ids - Suc 0"
    using sib last(2) by simp_all
  have T: "T = offsetTreeHeight (int ?L)" unfolding T_def using odd by (intro tree_height_block) simp
  have T2: "2 \<le> T" unfolding T using Lpos offsetTreeHeight_step[of ?L] offsetTreeHeight_step[of "?L div 2"] by simp
  have "?L < 2 ^ 54" using block_idsD(4)[OF b] by simp
  then have T54: "T \<le> 54" unfolding T by (rule offsetTreeHeight_le)
  have first: "block_leaves ids = block_leaves ids ! 0 # tl (block_leaves ids)"
    using last(2) by (cases "block_leaves ids") (auto simp: block_leaves_def)
  have "ids ! 0 \<noteq> []" using block_idsD(2)[OF b] last(3) by (simp add: list_all_length)
  then have "computeRoot H ?p None = root_of_txid H ?p (display (ids ! 0))"
    using block_leaf_nth[of 0 ids] last(2,3) arg_cong[OF first, of "find has_hash"]
    by (simp add: computeRoot_def has_hash_def nonempty_hash_def)
  then obtain root where root: "computeRoot H ?p None = Inr root"
    using root_of_txid_block[OF b, of 0 height] last(2,3) by auto
  let ?s0 = "\<lparr>ex_needed = createNeededLeafLevels T, ex_caches = empty_caches\<rparr>"
  define s1 where "s1 = ?s0\<lparr>ex_needed := (replicate T [])[0 := [(int ?L, ?leaf)]]\<rparr>"
  have "sound_hashes H ?p (ex_caches s1)" by (simp add: s1_def sound_empty)
  from find_leaf_block[OF b last(2) this, of 0, unfolded offsetAtHeight_0 sib] obtain leaf s2 where
    s2: "find_leaf H ?p 0 (int (length ids)) s1 = (Inr leaf, s2)" "ex_needed s2 = ex_needed s1"
      "sound_hashes H ?p (ex_caches s2)" "findOrComputeLeaf H ?p 0 (int (length ids)) = Inr leaf"
    by blast
  then have leaf: "leaf = None"
    by (auto simp: and_then_eq_Inr level_find_block[of _ _ _ _ H] node_leaf_def)
  have "length (ex_needed s2) = 1 + (T - 1)" "\<forall>g < T - 1. ex_needed s2 ! (1 + g) = []"
    using T2 by (auto simp: s2(2) s1_def)
  from collect_higher_block[OF b last(2) s2(3) this] obtain s3 where
    s3: "collect_higher H ?p (int ?L) (T - 1) 1 s2 = (Inr (), s3)" "length (ex_needed s3) = T"
      "ex_needed s3 ! 0 = [(int ?L, ?leaf)]"
      "\<forall>g < T - 1. sibling_level (int ?L) (Suc g) (ex_needed s3 ! Suc g)"
    using T2 by (auto simp: s2(2) s1_def)
  have "collect_all H ?p [display (last ids)] ?s0 = (Inr (), s3)"
    using s2(1) s3(1) T2 createTxidToOffsetIndex_last[OF last(3), of height]
    by (simp add: collectExtractedLeaves_def thn_apply bnd_apply need_leaf_def set_needed_def leaf
        createNeededLeafLevels_def s1_def sib' has_needed_def T_def[symmetric])
  moreover obtain rest where rest: "buildExtractedPath (ex_needed s3) = [?leaf] # rest" "length rest = T - 1"
    "\<forall>g < length rest. rest ! g = [] \<or>
       (\<exists>l. rest ! g = [l] \<and> lf_offset l = siblingOf (offsetAtHeight (int ?L) (Suc g)))"
  proof -
    obtain x xs where x: "ex_needed s3 = x # xs" using s3(2) T2 by (cases "ex_needed s3") auto
    then have "length xs = T - 1" "\<forall>g < T - 1. sibling_level (int ?L) (Suc g) (xs ! g)" "x = [(int ?L, ?leaf)]"
      using s3(2-4) by auto
    then show ?thesis
      by (intro that[of "map (\<lambda>level. sort_key lf_offset (map snd level)) xs"])
        (fastforce simp: buildExtractedPath_def x sibling_level_def)+
  qed
  moreover have "new_MerklePath H height ([?leaf] # rest) True True = Inl (missing_hash (int ?L) 0)"
    using rest T2 T54 odd Lpos block_idsD(4)[OF b]
    by (intro lone_leaf_rejected[where t = "display (last ids)"])
      (auto simp: admissible_offset_range)
  moreover have "mp_height ?p = height" by (simp add: block_path_def)
  ultimately show ?thesis
    by (simp add: mp_extract_def root T_def[symmetric] del: collect_all.simps)
qed

lemma extract_last_of_odd_block_fails_witness:
  "mp_extract (\<lambda>b. 1 # b) (block_path 7 [[1], [2], [3]]) [display [3]] = Inl (missing_hash 2 0)"
proof -
  have "block_ids (\<lambda>b. 1 # b) [[1], [2], [3]]" by (simp add: block_ids_def)
  from extract_last_of_odd_block_fails[OF this, of 7] show ?thesis by simp
qed

text \<open>\<open>trim\<close> reads the neighbour of a leaf that is not there: it throws on a one-level path whose
  last leaf is even and not marked, although the constructor accepts such a path.\<close>

lemma trim_of_odd_level_throws:
  "fst (trim \<lparr>mp_height = h, mp_path = [[\<lparr>lf_offset = 0, lf_hash = Some a, lf_txid = Some True, lf_duplicate = None\<rparr>,
     \<lparr>lf_offset = 1, lf_hash = Some b, lf_txid = None, lf_duplicate = None\<rparr>,
     \<lparr>lf_offset = 2, lf_hash = Some c, lf_txid = None, lf_duplicate = None\<rparr>]]\<rparr>)
   = Inl (JsTypeError ''Cannot read properties of undefined (reading 'txid')'')"
  by (simp add: trim_def thn_apply bnd_apply sort_levels_def level_zero_def Let_def numeral_3_eq_3
      sort_key_id_if_sorted)

end
