(* ===== verification/Beef.thy ===== *)
theory Beef
  imports Merkle_Proofs
begin

text \<open>
  BEEF, the container of transactions with their Merkle paths
  (\<open>packages/sdk/src/transaction/Beef.ts\<close>, \<open>BeefTx.ts\<close>): entries given by raw bytes or by
  their txid alone, the binary formats, the dependency sort, structural validity and its
  verification, and the atomic form. Entries that hold a parsed \<open>Transaction\<close> object, the
  merging methods and the caches keyed by object identity are left out. The hash function
  \<open>hash256\<close> is the parameter \<open>H\<close>.
\<close>

subsection \<open>Entries\<close>

datatype beef_data = RawTx bytes | TxidOnly string

record beef_tx =
  bt_bump :: "int option"
  bt_data :: beef_data
  bt_inputs :: "string list"
  bt_valid :: "bool option"

definition bt_hasProof :: "beef_tx \<Rightarrow> bool" where
  "bt_hasProof t \<longleftrightarrow> bt_bump t \<noteq> None"

definition bt_isTxidOnly :: "beef_tx \<Rightarrow> bool" where
  "bt_isTxidOnly t \<longleftrightarrow> (case bt_data t of TxidOnly s \<Rightarrow> True | RawTx b \<Rightarrow> False)"

definition bt_txid :: "(bytes \<Rightarrow> bytes) \<Rightarrow> beef_tx \<Rightarrow> string" where
  "bt_txid H t = (case bt_data t of TxidOnly s \<Rightarrow> s | RawTx raw \<Rightarrow> toHex (rev (H raw)))"

definition skipBytes :: "int \<Rightarrow> unit rd" where
  "skipBytes n = (\<lambda>r.
     if \<not> is_safe_integer n \<or> n < 0 \<or> int (pos r) + n > int (length (bin r))
     then (Inl (JsRangeError ''Serialized transaction exceeds available BEEF data''), r)
     else (Inr (), advance (nat n) r))"

definition scan_input :: "string rd" where
  "scan_input =
     bnd (readReverse 32) (\<lambda>txid.
     thn (skipBytes 4)
     (bnd (readVarIntNumStrict False) (\<lambda>n. thn (skipBytes (n + 4)) (ret (toHex txid)))))"

definition scan_output :: "unit rd" where
  "scan_output = thn (skipBytes 8) (bnd (readVarIntNumStrict False) skipBytes)"

definition scan_body :: "string list rd" where
  "scan_body =
     thn (skipBytes 4)
     (bnd (readVarIntNumStrict False) (\<lambda>inputCount.
      bnd (rd_times (nat inputCount) scan_input) (\<lambda>txids.
      bnd (readVarIntNumStrict False) (\<lambda>outputCount.
      thn (rd_times (nat outputCount) scan_output)
      (thn (skipBytes 4) (ret (foldl add_key [] txids)))))))"

definition scanRawTransaction :: "(bytes \<times> string list) rd" where
  "scanRawTransaction =
     bnd (get pos) (\<lambda>start.
     bnd scan_body (\<lambda>txids.
     bnd (get (\<lambda>r. take (pos r - start) (drop start (bin r)))) (\<lambda>raw. ret (raw, txids))))"

definition new_raw_beef_tx :: "bytes \<Rightarrow> int option \<Rightarrow> string list \<Rightarrow> beef_tx" where
  "new_raw_beef_tx raw bump txids =
     \<lparr>bt_bump = bump, bt_data = RawTx raw, bt_inputs = (if bump \<noteq> None then [] else txids), bt_valid = None\<rparr>"

definition beef_tx_fromTxid :: "string \<Rightarrow> int option \<Rightarrow> beef_tx" where
  "beef_tx_fromTxid txid bump =
     \<lparr>bt_bump = bump, bt_data = TxidOnly txid, bt_inputs = [], bt_valid = None\<rparr>"

abbreviation BEEF_V1 :: int where "BEEF_V1 \<equiv> 4022206465"
abbreviation BEEF_V2 :: int where "BEEF_V2 \<equiv> 4022206466"
abbreviation ATOMIC_BEEF :: int where "ATOMIC_BEEF \<equiv> 0x01010101"

abbreviation RAWTX :: byte where "RAWTX \<equiv> 0"
abbreviation RAWTX_AND_BUMP_INDEX :: byte where "RAWTX_AND_BUMP_INDEX \<equiv> 1"
abbreviation TXID_ONLY :: byte where "TXID_ONLY \<equiv> 2"

definition beef_tx_fromReader :: "int \<Rightarrow> beef_tx rd" where
  "beef_tx_fromReader version =
     (if version = BEEF_V2 then
        bnd readUInt8 (\<lambda>format.
          if format = TXID_ONLY then bnd (readReverse 32) (\<lambda>bs. ret (beef_tx_fromTxid (toHex bs) None))
          else
            bnd (if format = RAWTX_AND_BUMP_INDEX
                 then bnd (readVarIntNumStrict False) (\<lambda>n. ret (Some n)) else ret None) (\<lambda>bump.
            bnd scanRawTransaction (\<lambda>(raw, txids). ret (new_raw_beef_tx raw bump txids))))
      else
        bnd scanRawTransaction (\<lambda>(raw, txids).
        bnd readUInt8 (\<lambda>b.
        bnd (if b = 0 then ret None else bnd (readVarIntNumStrict False) (\<lambda>n. ret (Some n))) (\<lambda>bump.
          ret (new_raw_beef_tx raw bump txids)))))"

definition write_raw :: "beef_tx \<Rightarrow> wr" where
  "write_raw t = (case bt_data t of
     RawTx raw \<Rightarrow> wr_write raw
   | TxidOnly s \<Rightarrow> throw (JsError ''a valid serialized Transaction is expected''))"

definition beef_tx_toWriter :: "int \<Rightarrow> beef_tx \<Rightarrow> wr" where
  "beef_tx_toWriter version t =
     (if version = BEEF_V2 then
        (case bt_data t of
           TxidOnly s \<Rightarrow>
             thn (writeUInt8 2) (bnd (lift_result (hexToArray s)) writeReverse)
         | RawTx raw \<Rightarrow>
             (case bt_bump t of
                Some n \<Rightarrow> thn (writeUInt8 1) (thn (writeVarIntNum n) (write_raw t))
              | None \<Rightarrow> thn (writeUInt8 0) (write_raw t)))
      else
        thn (write_raw t)
          (case bt_bump t of
             None \<Rightarrow> writeUInt8 0
           | Some n \<Rightarrow> thn (writeUInt8 1) (writeVarIntNum n)))"

subsection \<open>The container\<close>

record beef =
  bf_version :: int
  bf_bumps :: "merkle_path list"
  bf_txs :: "beef_tx list"
  bf_atomic :: "string option"
  bf_raw :: "bytes option"
  bf_needs_sort :: bool

definition new_beef :: "int \<Rightarrow> beef" where
  "new_beef version = \<lparr>bf_version = version, bf_bumps = [], bf_txs = [], bf_atomic = None,
     bf_raw = None, bf_needs_sort = True\<rparr>"

definition beef_toWriter :: "beef \<Rightarrow> wr" where
  "beef_toWriter b =
     thn (writeUInt32LE (bf_version b))
     (thn (writeVarIntNum (int (length (bf_bumps b))))
     (thn (write_each mp_toWriter (bf_bumps b))
     (thn (writeVarIntNum (int (length (bf_txs b))))
       (write_each (beef_tx_toWriter (bf_version b)) (bf_txs b)))))"

definition beef_fromReader :: "(bytes \<Rightarrow> bytes) \<Rightarrow> beef rd" where
  "beef_fromReader H =
     bnd (get pos) (\<lambda>serializedStart.
     bnd readUInt32LE (\<lambda>v0.
     bnd (if v0 = ATOMIC_BEEF then
            bnd (readReverse 32) (\<lambda>txid.
            bnd (get pos) (\<lambda>start.
            bnd readUInt32LE (\<lambda>v. ret (Some (toHex txid), start, v))))
          else ret (None, serializedStart, v0)) (\<lambda>(atomicTxid, beefStart, version).
       if version \<noteq> BEEF_V1 \<and> version \<noteq> BEEF_V2
       then throw (JsError (''Serialized BEEF must start with '' @ decimal BEEF_V1 @ '' or ''
              @ decimal BEEF_V2 @ '' but starts with '' @ decimal version))
       else
         bnd (readVarIntNumStrict False) (\<lambda>bumpsLength.
         bnd (rd_times (nat bumpsLength) (mp_fromReader H False True)) (\<lambda>bumps.
         bnd (readVarIntNumStrict False) (\<lambda>txsLength.
         bnd (rd_times (nat txsLength) (beef_tx_fromReader version)) (\<lambda>txs.
         bnd (get (\<lambda>r. take (pos r - beefStart) (drop beefStart (bin r)))) (\<lambda>raw.
           ret \<lparr>bf_version = version, bf_bumps = bumps, bf_txs = txs, bf_atomic = atomicTxid,
                bf_raw = Some raw, bf_needs_sort = True\<rparr>))))))))"

definition beef_fromBinary :: "(bytes \<Rightarrow> bytes) \<Rightarrow> bytes \<Rightarrow> js_error + beef" where
  "beef_fromBinary H bs = and_then (new_reader bs 0) (\<lambda>r. fst (beef_fromReader H r))"

definition beef_fromBinaryStrict :: "(bytes \<Rightarrow> bytes) \<Rightarrow> bytes \<Rightarrow> js_error + beef" where
  "beef_fromBinaryStrict H bs =
     and_then (new_reader bs 0) (\<lambda>r.
       case beef_fromReader H r of
         (Inl e, _) \<Rightarrow> Inl e
       | (Inr b, r') \<Rightarrow>
           if \<not> eof r' then Inl (JsError ''Serialized BEEF contains trailing data'') else Inr b)"

subsection \<open>The dependency sort\<close>

record sort_result =
  sr_missingInputs :: "string list"
  sr_notValid :: "string list"
  sr_valid :: "string list"
  sr_withMissingInputs :: "string list"
  sr_txidOnly :: "string list"

text \<open>Proven entries, entries by txid only, and the queue of the rest, with the valid txids.\<close>

fun partitionTxs ::
    "(bytes \<Rightarrow> bytes) \<Rightarrow> beef_tx list \<Rightarrow> string list \<Rightarrow> string list \<times> beef_tx list \<times> beef_tx list \<times> beef_tx list" where
  "partitionTxs H [] valid = (valid, [], [], [])"
| "partitionTxs H (t # ts) valid =
     (let t' = t\<lparr>bt_valid := Some (bt_hasProof t)\<rparr>
      in if bt_hasProof t then
           (case partitionTxs H ts (add_key valid (bt_txid H t)) of (v, result, only, queue) \<Rightarrow>
              (v, t' # result, only, queue))
         else if bt_isTxidOnly t \<and> bt_inputs t = [] then
           (case partitionTxs H ts (add_key valid (bt_txid H t)) of (v, result, only, queue) \<Rightarrow>
              (v, result, t' # only, queue))
         else
           (case partitionTxs H ts valid of (v, result, only, queue) \<Rightarrow>
              (v, result, only, t' # queue)))"

fun separateMissingInputs ::
    "string list \<Rightarrow> beef_tx list \<Rightarrow> string list \<Rightarrow> string list \<times> beef_tx list \<times> beef_tx list" where
  "separateMissingInputs known [] missing = (missing, [], [])"
| "separateMissingInputs known (t # ts) missing =
     (let absent = filter (\<lambda>i. i \<notin> set known) (bt_inputs t)
      in case separateMissingInputs known ts (foldl add_key missing absent) of (m, without, rest) \<Rightarrow>
           if absent \<noteq> [] then (m, t # without, rest) else (m, without, t # rest))"

text \<open>The graph: open inputs per txid, and the edges from a parent's txid to its children.\<close>

definition open_inputs :: "string list \<Rightarrow> beef_tx \<Rightarrow> string list" where
  "open_inputs valid t = filter (\<lambda>i. i \<notin> set valid) (bt_inputs t)"

definition topo_indegree :: "(bytes \<Rightarrow> bytes) \<Rightarrow> string list \<Rightarrow> beef_tx list \<Rightarrow> string \<rightharpoonup> int" where
  "topo_indegree H valid queue =
     foldl (\<lambda>m t. m(bt_txid H t \<mapsto> int (length (open_inputs valid t)))) Map.empty queue"

definition topo_edges :: "(bytes \<Rightarrow> bytes) \<Rightarrow> string list \<Rightarrow> beef_tx list \<Rightarrow> (string \<times> beef_tx) list" where
  "topo_edges H valid queue =
     concat (map (\<lambda>t. map (\<lambda>i. (i, t))
       (filter (\<lambda>i. i \<in> bt_txid H ` set queue) (open_inputs valid t))) queue)"

definition topo_dependents :: "(string \<times> beef_tx) list \<Rightarrow> string \<Rightarrow> beef_tx list" where
  "topo_dependents edges txid = map snd (filter (\<lambda>e. fst e = txid) edges)"

definition topo_index :: "(bytes \<Rightarrow> bytes) \<Rightarrow> beef_tx list \<Rightarrow> string \<rightharpoonup> nat" where
  "topo_index H queue = foldl (\<lambda>m (i, t). m(bt_txid H t \<mapsto> i)) Map.empty (enumerate 0 queue)"

definition or_zero :: "'a :: zero option \<Rightarrow> 'a" where
  "or_zero x = (case x of None \<Rightarrow> 0 | Some v \<Rightarrow> v)"

record topo_state =
  tp_indegree :: "string \<rightharpoonup> int"
  tp_round :: "string \<rightharpoonup> nat"

text \<open>The inner loop over the dependents of a processed entry: the entries that become ready.\<close>

fun release ::
    "(bytes \<Rightarrow> bytes) \<Rightarrow> (string \<rightharpoonup> nat) \<Rightarrow> string \<Rightarrow> beef_tx list \<Rightarrow> topo_state \<Rightarrow> topo_state \<times> beef_tx list" where
  "release H index txid [] s = (s, [])"
| "release H index txid (c # cs) s =
     (let cid = bt_txid H c;
          nextRound = or_zero (tp_round s txid)
            + (if or_zero (index txid) > or_zero (index cid) then 1 else 0);
          n = or_zero (tp_indegree s cid) - 1;
          s' = \<lparr>tp_indegree = (tp_indegree s)(cid \<mapsto> n),
                tp_round = (tp_round s)(cid \<mapsto> max (or_zero (tp_round s cid)) nextRound)\<rparr>
      in case release H index txid cs s' of (s'', ready) \<Rightarrow>
           (s'', if n = 0 then c # ready else ready))"

lemma length_release: "length (snd (release H index txid cs s)) \<le> length cs"
proof (induction cs arbitrary: s)
  case (Cons c cs)
  have "length (snd (release H index txid cs s')) \<le> length cs" for s' by (rule Cons.IH)
  then show ?case by (simp add: Let_def case_prod_beta le_SucI)
qed simp

definition pending :: "(string \<times> beef_tx) list \<Rightarrow> string list \<Rightarrow> nat" where
  "pending edges processed = length (filter (\<lambda>e. fst e \<notin> set processed) edges)"

lemma pending_drop:
  "txid \<notin> set processed \<Longrightarrow>
   pending edges (processed @ [txid]) + length (topo_dependents edges txid) = pending edges processed"
  by (induction edges) (auto simp: pending_def topo_dependents_def)

lemma release_decreases:
  "txid \<notin> set processed \<Longrightarrow> release H index txid (topo_dependents edges txid) s = (s', new) \<Longrightarrow>
   pending edges (processed @ [txid]) + length new \<le> pending edges processed"
  using length_release[of H index txid "topo_dependents edges txid" s] pending_drop[of txid processed edges]
  by simp

text \<open>The loop over the growing list of ready entries.\<close>

function processTopoSortQueue ::
    "(bytes \<Rightarrow> bytes) \<Rightarrow> (string \<times> beef_tx) list \<Rightarrow> (string \<rightharpoonup> nat) \<Rightarrow> beef_tx list \<Rightarrow> string list \<Rightarrow>
     topo_state \<Rightarrow> string list \<times> topo_state" where
  "processTopoSortQueue H edges index [] processed s = (processed, s)"
| "processTopoSortQueue H edges index (t # ready) processed s =
     (let txid = bt_txid H t
      in if txid \<in> set processed then processTopoSortQueue H edges index ready processed s
         else case release H index txid (topo_dependents edges txid) s of (s', new) \<Rightarrow>
           processTopoSortQueue H edges index (ready @ new) (processed @ [txid]) s')"
  by pat_completeness auto

termination
proof (relation "measure (\<lambda>(H, edges, index, ready, processed, s). pending edges processed + length ready)", goal_cases)
  case 3
  from release_decreases[OF 3(2) 3(3)[symmetric]] show ?case by simp
qed simp_all

definition appendTopoSortResult ::
    "(bytes \<Rightarrow> bytes) \<Rightarrow> beef_tx list \<Rightarrow> string list \<Rightarrow> (string \<rightharpoonup> nat) \<Rightarrow> beef_tx list" where
  "appendTopoSortResult H queue processed round =
     (let done = filter (\<lambda>t. bt_txid H t \<in> set processed) queue;
          rnd = (\<lambda>t. or_zero (round (bt_txid H t)))
      in concat (map (\<lambda>k. filter (\<lambda>t. rnd t = k) done) [0..<Suc (foldr (\<lambda>t m. max (rnd t) m) done 0)]))"

definition topoSort ::
    "(bytes \<Rightarrow> bytes) \<Rightarrow> beef_tx list \<Rightarrow> string list \<Rightarrow> string list \<times> beef_tx list \<times> beef_tx list" where
  "topoSort H queue valid =
     (let edges = topo_edges H valid queue;
          index = topo_index H queue;
          indeg = topo_indegree H valid queue;
          s0 = \<lparr>tp_indegree = indeg, tp_round = foldl (\<lambda>m t. m(bt_txid H t \<mapsto> 0)) Map.empty queue\<rparr>;
          ready = filter (\<lambda>t. indeg (bt_txid H t) = Some 0) queue
      in case processTopoSortQueue H edges index ready [] s0 of (processed, s) \<Rightarrow>
           let ordered = appendTopoSortResult H queue processed (tp_round s)
           in (foldl add_key valid (map (bt_txid H) ordered), ordered,
               filter (\<lambda>t. bt_txid H t \<notin> set processed) queue))"

definition sortTxs :: "(bytes \<Rightarrow> bytes) \<Rightarrow> beef \<Rightarrow> sort_result \<times> beef" where
  "sortTxs H b =
     (case partitionTxs H (bf_txs b) [] of (valid, result, only, queue) \<Rightarrow>
      case separateMissingInputs (map (bt_txid H) (bf_txs b)) queue [] of (missing, without, rest) \<Rightarrow>
      case topoSort H rest valid of (valid', ordered, notValid) \<Rightarrow>
        (\<lparr>sr_missingInputs = missing, sr_notValid = map (bt_txid H) notValid, sr_valid = valid',
          sr_withMissingInputs = map (bt_txid H) without, sr_txidOnly = map (bt_txid H) only\<rparr>,
         b\<lparr>bf_txs := without @ notValid @ only @ result @ ordered, bf_needs_sort := False, bf_raw := None\<rparr>))"

subsection \<open>Lookup, atomic closure\<close>

text \<open>The position index, rebuilt in order: a later entry with the same txid takes its place.\<close>

definition txPositionIndex :: "(bytes \<Rightarrow> bytes) \<Rightarrow> beef_tx list \<Rightarrow> string \<rightharpoonup> nat" where
  "txPositionIndex H txs = foldl (\<lambda>m (i, t). m(bt_txid H t \<mapsto> i)) Map.empty (enumerate 0 txs)"

definition findTxid :: "(bytes \<Rightarrow> bytes) \<Rightarrow> beef \<Rightarrow> string \<Rightarrow> beef_tx option" where
  "findTxid H b txid = map_option (\<lambda>i. bf_txs b ! i) (txPositionIndex H (bf_txs b) txid)"

definition hasMatchingBump :: "(bytes \<Rightarrow> bytes) \<Rightarrow> beef \<Rightarrow> beef_tx \<Rightarrow> bool" where
  "hasMatchingBump H b t =
     (case bt_bump t of None \<Rightarrow> False
      | Some n \<Rightarrow>
          is_safe_integer n \<and> 0 \<le> n \<and> n < int (length (bf_bumps b)) \<and>
          list_ex (\<lambda>l. lf_hash l = Some (bt_txid H t)) (level_zero (bf_bumps b ! nat n)))"

text \<open>The positions collected from a stack of positions.\<close>

definition outside :: "beef_tx list \<Rightarrow> nat list \<Rightarrow> nat" where
  "outside txs included =
     sum_list (map (\<lambda>i. if i \<in> set included then 0 else Suc (length (bt_inputs (txs ! i)))) [0..<length txs])"

lemma length_map_filter: "length (List.map_filter f xs) \<le> length xs"
  by (induction xs) (auto simp: List.map_filter_simps split: option.splits)

lemma outside_sum: "outside txs included =
    (\<Sum>i \<leftarrow> [0..<length txs]. if i \<in> set included then 0 else Suc (length (bt_inputs (txs ! i))))"
  by (simp add: outside_def)

lemma outside_insert:
  assumes "i < length txs" "i \<notin> set included"
  shows "outside txs (included @ [i]) + Suc (length (bt_inputs (txs ! i))) = outside txs included"
proof -
  let ?f = "\<lambda>inc j. if j \<in> set inc then 0 else Suc (length (bt_inputs (txs ! j)))"
  have sum: "outside txs inc = (\<Sum>j \<in> {0..<length txs}. ?f inc j)" for inc
    unfolding outside_def by (subst sum_list_distinct_conv_sum_set) (simp_all add: distinct_upt)
  have i: "i \<in> {0..<length txs}" using assms(1) by simp
  have "(\<Sum>j \<in> {0..<length txs} - {i}. ?f (included @ [i]) j) = (\<Sum>j \<in> {0..<length txs} - {i}. ?f included j)"
    by (rule sum.cong) auto
  then show ?thesis
    unfolding sum sum.remove[OF finite_atLeastLessThan i, of "?f _"] using assms(2) by simp
qed

function collect_atomic :: "(bytes \<Rightarrow> bytes) \<Rightarrow> beef \<Rightarrow> nat list \<Rightarrow> nat list \<Rightarrow> nat list" where
  "collect_atomic H b [] included = included"
| "collect_atomic H b (i # stack) included =
     (if i \<in> set included \<or> length (bf_txs b) \<le> i then collect_atomic H b stack included
      else
        let t = bf_txs b ! i
        in if hasMatchingBump H b t \<or> bt_isTxidOnly t
           then collect_atomic H b stack (included @ [i])
           else collect_atomic H b
                  (rev (List.map_filter (txPositionIndex H (bf_txs b)) (bt_inputs t)) @ stack)
                  (included @ [i]))"
  by pat_completeness auto

termination
proof (relation "measure (\<lambda>(H, b, stack, included). outside (bf_txs b) included + length stack)", goal_cases)
  case (3 H b i stack included t)
  then have "i < length (bf_txs b)" "i \<notin> set included" by simp_all
  from outside_insert[OF this] show ?case by simp
next
  case (4 H b i stack included t)
  then have "i < length (bf_txs b)" "i \<notin> set included" by simp_all
  from outside_insert[OF this] length_map_filter[of "txPositionIndex H (bf_txs b)" "bt_inputs t"] 4(2)
  show ?case by simp
qed simp_all

definition isAtomic :: "(bytes \<Rightarrow> bytes) \<Rightarrow> beef \<Rightarrow> string \<Rightarrow> bool" where
  "isAtomic H b txid =
     (txid \<noteq> [] \<and> distinct (map (bt_txid H) (bf_txs b)) \<and>
      (case txPositionIndex H (bf_txs b) txid of
         None \<Rightarrow> False
       | Some i \<Rightarrow> length (collect_atomic H b [i] []) = length (bf_txs b)))"

text \<open>The bumps that the selected entries use, renumbered, and copies of the entries.\<close>

fun select_bumps ::
    "(bytes \<Rightarrow> bytes) \<Rightarrow> beef \<Rightarrow> nat list \<Rightarrow> (nat \<times> beef_tx) list \<Rightarrow> (int \<times> int) list \<Rightarrow> merkle_path list \<Rightarrow>
     (int \<times> int) list \<times> merkle_path list" where
  "select_bumps H b included [] index bumps = (index, bumps)"
| "select_bumps H b included ((i, t) # ts) index bumps =
     (case bt_bump t of
        Some n \<Rightarrow>
          if i \<in> set included \<and> hasMatchingBump H b t \<and> map_of index n = None
          then select_bumps H b included ts (index @ [(n, int (length bumps))]) (bumps @ [bf_bumps b ! nat n])
          else select_bumps H b included ts index bumps
      | None \<Rightarrow> select_bumps H b included ts index bumps)"

definition copy_entry :: "(int \<times> int) list \<Rightarrow> beef_tx \<Rightarrow> beef_tx" where
  "copy_entry index t =
     (let bump = (case bt_bump t of None \<Rightarrow> None | Some n \<Rightarrow> map_of index n)
      in case bt_data t of
           RawTx raw \<Rightarrow> new_raw_beef_tx raw bump (bt_inputs t)
         | TxidOnly s \<Rightarrow> beef_tx_fromTxid s bump)"

definition copySelectedTransactions :: "(bytes \<Rightarrow> bytes) \<Rightarrow> beef \<Rightarrow> nat list \<Rightarrow> beef" where
  "copySelectedTransactions H b included =
     (let entries = enumerate 0 (bf_txs b)
      in case select_bumps H b included entries [] [] of (index, bumps) \<Rightarrow>
           (new_beef (bf_version b))\<lparr>bf_bumps := bumps,
             bf_txs := map (\<lambda>(i, t). copy_entry index t) (filter (\<lambda>(i, t). i \<in> set included) entries)\<rparr>)"

definition getBeefForAtomic :: "(bytes \<Rightarrow> bytes) \<Rightarrow> beef \<Rightarrow> string \<Rightarrow> js_error + beef" where
  "getBeefForAtomic H b txid =
     (case txPositionIndex H (bf_txs b) txid of
        None \<Rightarrow> Inl (JsError (txid @ '' does not exist in this Beef''))
      | Some i \<Rightarrow> Inr (snd (sortTxs H (copySelectedTransactions H b (collect_atomic H b [i] [])))))"

subsection \<open>Serialisation\<close>

text \<open>A parsed container keeps its bytes until it is changed or sorted.\<close>

definition beef_toBinary :: "(bytes \<Rightarrow> bytes) \<Rightarrow> beef \<Rightarrow> (js_error + bytes) \<times> beef" where
  "beef_toBinary H b =
     (case bf_raw b of
        Some raw \<Rightarrow> (Inr raw, b)
      | None \<Rightarrow>
          let s = (if bf_needs_sort b then snd (sortTxs H b) else b)
          in case beef_toWriter s (new_writer []) of
               (Inl e, _) \<Rightarrow> (Inl e, s)
             | (Inr _, w) \<Rightarrow> (Inr (wr_toArray w), s\<lparr>bf_raw := Some (wr_toArray w)\<rparr>))"

definition beef_toBinaryAtomic :: "(bytes \<Rightarrow> bytes) \<Rightarrow> beef \<Rightarrow> string \<Rightarrow> js_error + bytes" where
  "beef_toBinaryAtomic H b txid =
     and_then (getBeefForAtomic H b txid) (\<lambda>sub.
     and_then (fst (beef_toBinary H sub)) (\<lambda>bytes.
     and_then (hexToUint8Array txid) (\<lambda>id.
       Inr (le_bytes 4 (nat ATOMIC_BEEF) @ rev id @ bytes))))"

subsection \<open>Validity\<close>

type_synonym roots = "(int \<times> string) list"

definition confirmComputedRoot ::
    "(bytes \<Rightarrow> bytes) \<Rightarrow> merkle_path \<Rightarrow> string \<Rightarrow> roots \<Rightarrow> js_error + (bool \<times> roots)" where
  "confirmComputedRoot H p txid roots =
     and_then (computeRoot H p (Some txid)) (\<lambda>root.
       let roots' = (if map_of roots (mp_height p) \<in> {None, Some []}
                     then AList.update (mp_height p) root roots else roots)
       in Inr (map_of roots' (mp_height p) = Some root, roots'))"

fun collect_leaf_txids ::
    "(bytes \<Rightarrow> bytes) \<Rightarrow> merkle_path \<Rightarrow> merkle_leaf list \<Rightarrow> string list \<Rightarrow> roots \<Rightarrow>
     js_error + (bool \<times> string list \<times> roots)" where
  "collect_leaf_txids H p [] txids roots = Inr (True, txids, roots)"
| "collect_leaf_txids H p (l # ls) txids roots =
     (if lf_txid l \<noteq> Some True then collect_leaf_txids H p ls txids roots
      else case nonempty_hash (Some l) of
        None \<Rightarrow> collect_leaf_txids H p ls txids roots
      | Some x \<Rightarrow> and_then (confirmComputedRoot H p x roots) (\<lambda>(ok, roots').
          if ok then collect_leaf_txids H p ls (add_key txids x) roots'
          else Inr (False, add_key txids x, roots')))"

fun collectBumpTxids ::
    "(bytes \<Rightarrow> bytes) \<Rightarrow> merkle_path list \<Rightarrow> string list \<Rightarrow> roots \<Rightarrow>
     js_error + (bool \<times> string list \<times> roots)" where
  "collectBumpTxids H [] txids roots = Inr (True, txids, roots)"
| "collectBumpTxids H (p # ps) txids roots =
     and_then (collect_leaf_txids H p (level_zero p) txids roots) (\<lambda>(ok, txids', roots').
       if ok then collectBumpTxids H ps txids' roots' else Inr (False, txids', roots'))"

definition verifyBumpIndexLeaves :: "(bytes \<Rightarrow> bytes) \<Rightarrow> beef \<Rightarrow> bool" where
  "verifyBumpIndexLeaves H b \<longleftrightarrow>
     list_all (\<lambda>t. bt_bump t = None \<or> hasMatchingBump H b t) (bf_txs b)"

fun verifyInputDependencies :: "(bytes \<Rightarrow> bytes) \<Rightarrow> beef_tx list \<Rightarrow> string list \<Rightarrow> bool" where
  "verifyInputDependencies H [] txids = True"
| "verifyInputDependencies H (t # ts) txids =
     (list_all (\<lambda>i. i \<in> set txids) (bt_inputs t) \<and>
      verifyInputDependencies H ts (add_key txids (bt_txid H t)))"

definition hasDuplicateTxids :: "(bytes \<Rightarrow> bytes) \<Rightarrow> beef_tx list \<Rightarrow> bool" where
  "hasDuplicateTxids H txs \<longleftrightarrow> \<not> distinct (map (bt_txid H) txs)"

definition txidOnly_txids :: "(bytes \<Rightarrow> bytes) \<Rightarrow> beef_tx list \<Rightarrow> string list" where
  "txidOnly_txids H txs = foldl add_key [] (map (bt_txid H) (filter bt_isTxidOnly txs))"

definition verifyValid :: "(bytes \<Rightarrow> bytes) \<Rightarrow> bool \<Rightarrow> beef \<Rightarrow> (js_error + (bool \<times> roots)) \<times> beef" where
  "verifyValid H allowTxidOnly b =
     (if bf_atomic b \<noteq> None \<and> \<not> isAtomic H b (the (bf_atomic b)) then (Inr (False, []), b)
      else case sortTxs H b of (sr, s) \<Rightarrow>
        if hasDuplicateTxids H (bf_txs s) then (Inr (False, []), s)
        else if sr_missingInputs sr \<noteq> [] \<or> sr_notValid sr \<noteq> []
            \<or> (sr_txidOnly sr \<noteq> [] \<and> \<not> allowTxidOnly) \<or> sr_withMissingInputs sr \<noteq> []
        then (Inr (False, []), s)
        else if list_ex bt_isTxidOnly (bf_txs s) \<and> \<not> allowTxidOnly then (Inr (False, []), s)
        else
          (and_then (collectBumpTxids H (bf_bumps s) (txidOnly_txids H (bf_txs s)) []) (\<lambda>(ok, txids, roots).
             if \<not> ok then Inr (False, roots)
             else Inr (verifyBumpIndexLeaves H s \<and> verifyInputDependencies H (bf_txs s) txids, roots)), s))"

definition beef_isValid :: "(bytes \<Rightarrow> bytes) \<Rightarrow> bool \<Rightarrow> beef \<Rightarrow> (js_error + bool) \<times> beef" where
  "beef_isValid H allowTxidOnly b =
     (case verifyValid H allowTxidOnly b of (r, s) \<Rightarrow> (and_then r (\<lambda>(valid, roots). Inr valid), s))"

text \<open>\<open>Object.keys\<close> of a record with numeric keys: array indices ascending, then the others.\<close>

definition height_keys :: "roots \<Rightarrow> int list" where
  "height_keys roots =
     sort (filter (\<lambda>h. 0 \<le> h \<and> h < 4294967295) (map fst roots)) @
     filter (\<lambda>h. \<not> (0 \<le> h \<and> h < 4294967295)) (map fst roots)"

fun check_roots :: "(string \<Rightarrow> int \<Rightarrow> js_error + bool) \<Rightarrow> roots \<Rightarrow> int list \<Rightarrow> js_error + bool" where
  "check_roots isValidRoot roots [] = Inr True"
| "check_roots isValidRoot roots (h # hs) =
     and_then (isValidRoot (the (map_of roots h)) h) (\<lambda>ok.
       if ok then check_roots isValidRoot roots hs else Inr False)"

definition beef_verify ::
    "(bytes \<Rightarrow> bytes) \<Rightarrow> chain_tracker \<Rightarrow> bool \<Rightarrow> beef \<Rightarrow> (js_error + bool) \<times> beef" where
  "beef_verify H tracker allowTxidOnly b =
     (case verifyValid H allowTxidOnly b of (r, s) \<Rightarrow>
        (and_then r (\<lambda>(valid, roots).
           if \<not> valid then Inr False
           else check_roots (isValidRootForHeight tracker) roots (height_keys roots)), s))"

subsection \<open>Removing known transactions\<close>

text \<open>The entries are renumbered in order; the first index without a place stops the loop and is reported.\<close>

fun remap_bumps :: "(int \<times> int) list \<Rightarrow> beef_tx list \<Rightarrow> int option \<times> beef_tx list" where
  "remap_bumps index [] = (None, [])"
| "remap_bumps index (t # ts) =
     (case bt_bump t of
        None \<Rightarrow> (case remap_bumps index ts of (lost, ts') \<Rightarrow> (lost, t # ts'))
      | Some k \<Rightarrow>
          (case map_of index k of
             None \<Rightarrow> (Some k, t # ts)
           | Some n \<Rightarrow> (case remap_bumps index ts of (lost, ts') \<Rightarrow>
               (lost, t\<lparr>bt_bump := Some n, bt_inputs := []\<rparr> # ts'))))"

definition reindexBumps :: "beef \<Rightarrow> (js_error + bool) \<times> beef" where
  "reindexBumps b =
     (let refs = remdups (List.map_filter bt_bump (bf_txs b));
          n = length (bf_bumps b);
          keep = filter (\<lambda>i. int i \<in> set refs) [0..<n];
          index = map (\<lambda>(new, old). (int old, int new)) (enumerate 0 keep)
      in if n \<le> length refs then (Inr False, b)
         else case remap_bumps index (bf_txs b) of (lost, txs) \<Rightarrow>
           (case lost of None \<Rightarrow> Inr True
            | Some k \<Rightarrow> Inl (JsError (''Internal error: bumpIndex '' @ decimal k @ '' not found in indexMap'')),
            b\<lparr>bf_bumps := map (\<lambda>i. bf_bumps b ! i) keep, bf_txs := txs\<rparr>))"

definition trimKnownTxids :: "(bytes \<Rightarrow> bytes) \<Rightarrow> string list \<Rightarrow> beef \<Rightarrow> (js_error + unit) \<times> beef" where
  "trimKnownTxids H known b =
     (let kept = filter (\<lambda>t. \<not> (bt_isTxidOnly t \<and> bt_txid H t \<in> set known)) (bf_txs b);
          b' = b\<lparr>bf_txs := kept\<rparr>
      in case reindexBumps b' of
           (Inl e, b'') \<Rightarrow> (Inl e, b'')
         | (Inr moved, b'') \<Rightarrow>
             (Inr (), if moved \<or> length kept \<noteq> length (bf_txs b)
                      then b''\<lparr>bf_needs_sort := True, bf_raw := None\<rparr> else b''))"

definition removeExistingTxid :: "(bytes \<Rightarrow> bytes) \<Rightarrow> string \<Rightarrow> beef \<Rightarrow> beef" where
  "removeExistingTxid H txid b =
     (case txPositionIndex H (bf_txs b) txid of
        None \<Rightarrow> b
      | Some i \<Rightarrow> b\<lparr>bf_txs := take i (bf_txs b) @ drop (Suc i) (bf_txs b),
                    bf_needs_sort := True, bf_raw := None\<rparr>)"

end
