(* ===== verification/Beef_Sort.thy ===== *)
theory Beef_Sort
  imports Beef "HOL-Library.Multiset"
begin

text \<open>
  The dependency sort of a BEEF. The linear algorithm of \<open>#topoSort\<close> gives, element by
  element, the order of the repeated scan it replaces; from the scan follow what is sorted,
  what is left and that dependencies come before dependents.
\<close>

subsection \<open>The repeated scan\<close>

text \<open>One pass: every entry whose inputs are all valid joins the valid ones at once.\<close>

fun scan :: "(bytes \<Rightarrow> bytes) \<Rightarrow> string list \<Rightarrow> beef_tx list \<Rightarrow> beef_tx list \<times> beef_tx list" where
  "scan H valid [] = ([], [])"
| "scan H valid (t # ts) =
     (if list_all (\<lambda>i. i \<in> set valid) (bt_inputs t)
      then (case scan H (bt_txid H t # valid) ts of (moved, left) \<Rightarrow> (t # moved, left))
      else (case scan H valid ts of (moved, left) \<Rightarrow> (moved, t # left)))"

lemma length_scan: "scan H valid ts = (moved, left) \<Longrightarrow> length moved + length left = length ts"
  by (induction ts arbitrary: valid moved left) (auto split: if_splits prod.splits)

function rescan :: "(bytes \<Rightarrow> bytes) \<Rightarrow> string list \<Rightarrow> beef_tx list \<Rightarrow> beef_tx list \<times> beef_tx list" where
  "rescan H valid queue =
     (case scan H valid queue of (moved, left) \<Rightarrow>
        if moved = [] then ([], left)
        else case rescan H (map (bt_txid H) moved @ valid) left of (moved2, rest) \<Rightarrow> (moved @ moved2, rest))"
  by auto
termination
proof (relation "measure (\<lambda>(H, valid, queue). length queue)", goal_cases)
  case 2
  from length_scan[OF 2(1)[symmetric]] 2(2) show ?case by (simp flip: length_greater_0_conv)
qed simp

declare rescan.simps [simp del]

subsection \<open>The inner loop\<close>

lemma or_zero_simps [simp]: "or_zero None = 0" "or_zero (Some x) = x"
  by (simp_all add: or_zero_def)

definition later :: "(string \<rightharpoonup> nat) \<Rightarrow> string \<Rightarrow> string \<Rightarrow> nat" where
  "later index x k = (if or_zero (index x) > or_zero (index k) then 1 else 0)"

lemma release_subset: "set (snd (release H index x cs s)) \<subseteq> set cs"
  by (induction cs arbitrary: s) (auto simp: Let_def case_prod_beta split: if_splits)

lemma release_indegree:
  "or_zero (tp_indegree (fst (release H index x cs s)) k)
     = or_zero (tp_indegree s k) - int (count_list (map (bt_txid H) cs) k)"
  by (induction cs arbitrary: s) (auto simp: Let_def case_prod_beta)

lemma release_round:
  "x \<notin> bt_txid H ` set cs \<Longrightarrow>
   or_zero (tp_round (fst (release H index x cs s)) k) =
     (if k \<in> bt_txid H ` set cs
      then max (or_zero (tp_round s k)) (or_zero (tp_round s x) + later index x k)
      else or_zero (tp_round s k))"
  by (induction cs arbitrary: s) (auto simp: Let_def case_prod_beta later_def)

lemma release_ready:
  assumes "\<And>k. k \<in> bt_txid H ` set cs \<Longrightarrow>
    int (count_list (map (bt_txid H) cs) k) \<le> or_zero (tp_indegree s k)"
  shows "k \<in> bt_txid H ` set (snd (release H index x cs s)) \<longleftrightarrow>
    k \<in> bt_txid H ` set cs \<and> or_zero (tp_indegree s k) = int (count_list (map (bt_txid H) cs) k)"
  using assms
proof (induction cs arbitrary: s)
  case (Cons c cs)
  let ?c = "bt_txid H c"
  let ?n = "or_zero (tp_indegree s ?c) - 1"
  define s' where "s' = \<lparr>tp_indegree = (tp_indegree s)(?c \<mapsto> ?n),
    tp_round = (tp_round s)(?c \<mapsto> max (or_zero (tp_round s ?c))
      (or_zero (tp_round s x) + (if or_zero (index x) > or_zero (index ?c) then 1 else 0)))\<rparr>"
  have le: "int (count_list (map (bt_txid H) cs) j) \<le> or_zero (tp_indegree s' j)"
    if "j \<in> bt_txid H ` set cs" for j
    using Cons.prems[of j] that by (auto simp: s'_def split: if_splits)
  have zero: "count_list (map (bt_txid H) cs) ?c = 0" if "?c \<notin> bt_txid H ` set cs"
    using that by (simp add: count_list_0_iff)
  have c: "int (count_list (map (bt_txid H) cs) ?c) \<le> ?n" using Cons.prems[of ?c] by simp
  have "k \<in> bt_txid H ` set (snd (release H index x (c # cs) s)) \<longleftrightarrow>
      (?n = 0 \<and> k = ?c) \<or> k \<in> bt_txid H ` set (snd (release H index x cs s'))"
    by (auto simp: Let_def case_prod_beta s'_def)
  also have "\<dots> \<longleftrightarrow> (?n = 0 \<and> k = ?c) \<or>
      (k \<in> bt_txid H ` set cs \<and> or_zero (tp_indegree s' k) = int (count_list (map (bt_txid H) cs) k))"
    using Cons.IH[OF le] by blast
  also have "\<dots> \<longleftrightarrow> k \<in> bt_txid H ` set (c # cs) \<and>
      or_zero (tp_indegree s k) = int (count_list (map (bt_txid H) (c # cs)) k)"
  proof (cases "k = ?c")
    case True
    then show ?thesis using c zero by (cases "?c \<in> bt_txid H ` set cs") (auto simp: s'_def)
  next
    case False
    then show ?thesis by (auto simp: s'_def)
  qed
  finally show ?case .
qed simp

subsection \<open>The graph\<close>

lemma count_list_filter: "count_list (filter P xs) k = (if P k then count_list xs k else 0)"
  by (induction xs) auto

lemma map_snd_pairs: "map snd (map (\<lambda>i. (i, t)) xs) = replicate (length xs) t"
  by (induction xs) auto

lemma dependents_concat:
  "topo_dependents (concat (map (\<lambda>t. map (\<lambda>i. (i, t)) (f t)) ts)) x
     = concat (map (\<lambda>t. replicate (count_list (f t) x) t) ts)"
proof -
  have "map snd (filter (\<lambda>e. fst e = x) (map (\<lambda>i. (i, t)) xs)) = replicate (count_list xs x) t"
    for xs and t :: beef_tx
    by (induction xs) auto
  then show ?thesis by (induction ts) (simp_all add: topo_dependents_def)
qed

lemma dependents_eq:
  "x \<in> bt_txid H ` set queue \<Longrightarrow>
   topo_dependents (topo_edges H valid queue) x
     = concat (map (\<lambda>t. replicate (count_list (open_inputs valid t) x) t) queue)"
  by (simp add: topo_edges_def dependents_concat count_list_filter)

lemma set_dependents:
  "x \<in> bt_txid H ` set queue \<Longrightarrow>
   set (topo_dependents (topo_edges H valid queue) x) = {t \<in> set queue. x \<in> set (open_inputs valid t)}"
  by (auto simp: dependents_eq count_list_0_iff split: if_splits)

lemma count_list_concat: "count_list (concat xss) k = sum_list (map (\<lambda>xs. count_list xs k) xss)"
  by (induction xss) (simp_all add: count_list_append)

lemma count_list_replicate: "count_list (replicate n x) k = (if x = k then n else 0)"
  by (induction n) auto

lemma sum_list_single:
  "distinct (map f xs) \<Longrightarrow> t \<in> set xs \<Longrightarrow> (\<Sum>u \<leftarrow> xs. if f u = f t then g u else (0 :: nat)) = g t"
proof (induction xs)
  case (Cons u xs)
  show ?case
  proof (cases "u = t")
    case True
    have "(\<Sum>u \<leftarrow> xs. if f u = f t then g u else 0) = (\<Sum>u \<leftarrow> xs. 0)"
      using Cons.prems(1) True by (intro arg_cong[of _ _ sum_list] map_cong) (auto simp: image_iff)
    with True show ?thesis by simp
  next
    case False
    with Cons show ?thesis by (auto simp: image_iff)
  qed
qed simp

lemma count_dependents:
  assumes "distinct (map (bt_txid H) queue)" "x \<in> bt_txid H ` set queue" "t \<in> set queue"
  shows "count_list (map (bt_txid H) (topo_dependents (topo_edges H valid queue) x)) (bt_txid H t)
    = count_list (open_inputs valid t) x"
proof -
  have "count_list (map (bt_txid H) (topo_dependents (topo_edges H valid queue) x)) (bt_txid H t)
      = (\<Sum>u \<leftarrow> queue. if bt_txid H u = bt_txid H t then count_list (open_inputs valid u) x else 0)"
    by (simp add: dependents_eq[OF assms(2)] map_concat count_list_concat o_def count_list_replicate)
  with sum_list_single[OF assms(1,3), of "\<lambda>u. count_list (open_inputs valid u) x"] show ?thesis by simp
qed

lemma foldl_upd_other:
  "k \<notin> f ` set xs \<Longrightarrow> foldl (\<lambda>m t. m(f t \<mapsto> g t)) m xs k = m k"
  by (induction xs arbitrary: m) auto

lemma foldl_upd:
  "distinct (map f xs) \<Longrightarrow> t \<in> set xs \<Longrightarrow> foldl (\<lambda>m t. m(f t \<mapsto> g t)) m xs (f t) = Some (g t)"
  by (induction xs arbitrary: m) (auto simp: foldl_upd_other)

lemma topo_indegree_at:
  "distinct (map (bt_txid H) queue) \<Longrightarrow> t \<in> set queue \<Longrightarrow>
   topo_indegree H valid queue (bt_txid H t) = Some (int (length (open_inputs valid t)))"
  unfolding topo_indegree_def by (rule foldl_upd)

lemma topo_index_at:
  assumes "distinct (map (bt_txid H) queue)" "k < length queue"
  shows "topo_index H queue (bt_txid H (queue ! k)) = Some k"
proof -
  have "foldl (\<lambda>m (i, t). m(bt_txid H t \<mapsto> i)) Map.empty (enumerate 0 queue)
      = foldl (\<lambda>m e. m(bt_txid H (snd e) \<mapsto> fst e)) Map.empty (enumerate 0 queue)"
    by (simp add: case_prod_unfold)
  moreover have "distinct (map (\<lambda>e. bt_txid H (snd e)) (enumerate 0 queue))"
    using assms(1) by (simp add: map_snd_enumerate[unfolded comp_def, symmetric] flip: map_map[unfolded comp_def])
  moreover have "(k, queue ! k) \<in> set (enumerate 0 queue)"
    using assms(2) by (auto simp: in_set_enumerate_eq)
  ultimately show ?thesis
    using foldl_upd[of "\<lambda>e. bt_txid H (snd e)" "enumerate 0 queue" "(k, queue ! k)" fst Map.empty]
    by (simp add: topo_index_def)
qed

subsection \<open>The invariant of the worklist\<close>

text \<open>The txids that chain back to the valid ones through the queue.\<close>

inductive chained :: "(bytes \<Rightarrow> bytes) \<Rightarrow> string set \<Rightarrow> beef_tx list \<Rightarrow> string \<Rightarrow> bool"
  for H valid queue where
  chainedI: "t \<in> set queue \<Longrightarrow> (\<And>i. i \<in> set (bt_inputs t) \<Longrightarrow> i \<in> valid \<or> chained H valid queue i)
    \<Longrightarrow> chained H valid queue (bt_txid H t)"

definition worklist_inv ::
    "(bytes \<Rightarrow> bytes) \<Rightarrow> string list \<Rightarrow> beef_tx list \<Rightarrow> beef_tx list \<Rightarrow> string list \<Rightarrow> topo_state \<Rightarrow> bool" where
  "worklist_inv H valid queue ready processed s \<longleftrightarrow>
     set ready \<subseteq> set queue \<and> set processed \<subseteq> bt_txid H ` set queue \<and>
     (\<forall>x \<in> set processed. chained H (set valid) queue x) \<and>
     (\<forall>t \<in> set queue.
        or_zero (tp_indegree s (bt_txid H t))
          = int (length (filter (\<lambda>i. i \<notin> set processed) (open_inputs valid t))) \<and>
        (bt_txid H t \<in> set processed \<or> bt_txid H t \<in> bt_txid H ` set ready
          \<longleftrightarrow> set (open_inputs valid t) \<subseteq> set processed) \<and>
        (bt_txid H t \<in> set processed \<longrightarrow> bt_txid H t \<notin> set (open_inputs valid t)) \<and>
        (\<forall>r. or_zero (tp_round s (bt_txid H t)) \<le> r \<longleftrightarrow>
          (\<forall>i \<in> set (open_inputs valid t) \<inter> set processed.
             or_zero (tp_round s i) + later (topo_index H queue) i (bt_txid H t) \<le> r)))"

lemma worklist_invD:
  assumes "worklist_inv H valid queue ready processed s"
  shows "set ready \<subseteq> set queue" "set processed \<subseteq> bt_txid H ` set queue"
    "\<And>x. x \<in> set processed \<Longrightarrow> chained H (set valid) queue x"
    "\<And>t. t \<in> set queue \<Longrightarrow> or_zero (tp_indegree s (bt_txid H t))
          = int (length (filter (\<lambda>i. i \<notin> set processed) (open_inputs valid t)))"
    "\<And>t. t \<in> set queue \<Longrightarrow> bt_txid H t \<in> set processed \<or> bt_txid H t \<in> bt_txid H ` set ready
          \<longleftrightarrow> set (open_inputs valid t) \<subseteq> set processed"
    "\<And>t. t \<in> set queue \<Longrightarrow> bt_txid H t \<in> set processed \<Longrightarrow> bt_txid H t \<notin> set (open_inputs valid t)"
    "\<And>t r. t \<in> set queue \<Longrightarrow> or_zero (tp_round s (bt_txid H t)) \<le> r \<longleftrightarrow>
          (\<forall>i \<in> set (open_inputs valid t) \<inter> set processed.
             or_zero (tp_round s i) + later (topo_index H queue) i (bt_txid H t) \<le> r)"
  using assms by (simp_all add: worklist_inv_def)

lemma same_entry:
  "distinct (map (bt_txid H) queue) \<Longrightarrow> t \<in> set queue \<Longrightarrow> u \<in> set queue \<Longrightarrow> bt_txid H t = bt_txid H u \<Longrightarrow> t = u"
  by (auto simp: distinct_map inj_on_def)

lemma filter_notin_length:
  "x \<notin> P \<Longrightarrow> int (length (filter (\<lambda>i. i \<notin> insert x P) xs)) = int (length (filter (\<lambda>i. i \<notin> P) xs)) - int (count_list xs x)"
  by (induction xs) auto

lemma only_x_left:
  "x \<notin> P \<Longrightarrow> length (filter (\<lambda>i. i \<notin> P) xs) = count_list xs x \<longleftrightarrow> set xs \<subseteq> insert x P"
proof -
  assume x: "x \<notin> P"
  have "length (filter (\<lambda>i. i \<notin> P) xs) = count_list xs x \<longleftrightarrow> length (filter (\<lambda>i. i \<notin> insert x P) xs) = 0"
    using filter_notin_length[OF x, of xs] by linarith
  also have "\<dots> \<longleftrightarrow> set xs \<subseteq> insert x P" by (auto simp: filter_empty_conv)
  finally show ?thesis .
qed

lemma chained_open:
  "t \<in> set queue \<Longrightarrow> (\<And>i. i \<in> set (open_inputs valid t) \<Longrightarrow> chained H (set valid) queue i) \<Longrightarrow>
   chained H (set valid) queue (bt_txid H t)"
  by (rule chainedI) (auto simp: open_inputs_def)

lemma worklist_step:
  assumes d: "distinct (map (bt_txid H) queue)"
    and inv: "worklist_inv H valid queue (t # ready) processed s"
    and new: "bt_txid H t \<notin> set processed"
    and rel: "release H (topo_index H queue) (bt_txid H t)
      (topo_dependents (topo_edges H valid queue) (bt_txid H t)) s = (s', released)"
  shows "worklist_inv H valid queue (ready @ released) (processed @ [bt_txid H t]) s'"
proof -
  let ?id = "bt_txid H" and ?P = "set processed" and ?open = "\<lambda>u. set (open_inputs valid u)"
  let ?x = "?id t" and ?cs = "topo_dependents (topo_edges H valid queue) (?id t)"
  note I = worklist_invD[OF inv]
  have t: "t \<in> set queue" using I(1) by simp
  then have x: "?x \<in> ?id ` set queue" by simp
  have open_t: "?open t \<subseteq> ?P" using I(5)[OF t] by simp
  then have self: "?x \<notin> ?open t" using new by blast
  have cs: "set ?cs = {u \<in> set queue. ?x \<in> ?open u}" by (rule set_dependents[OF x])
  have in_cs: "?id u \<in> ?id ` set ?cs \<longleftrightarrow> ?x \<in> ?open u" if "u \<in> set queue" for u
    using cs same_entry[OF d that] that by auto
  have x_cs: "?x \<notin> ?id ` set ?cs" using in_cs[OF t] self by simp
  have P_cs: "i \<notin> ?id ` set ?cs" if "i \<in> insert ?x ?P" for i
  proof
    assume "i \<in> ?id ` set ?cs"
    then obtain u where u: "u \<in> set queue" "i = ?id u" "?x \<in> ?open u" using cs by auto
    with I(5)[OF u(1)] new have "i \<notin> ?P" by blast
    with that have "i = ?x" by simp
    with u(2) same_entry[OF d t u(1)] u(3) self show False by simp
  qed
  have count: "count_list (map ?id ?cs) (?id u) = count_list (open_inputs valid u) ?x" if "u \<in> set queue" for u
    by (rule count_dependents[OF d x that])
  have s': "s' = fst (release H (topo_index H queue) ?x ?cs s)" and
    released: "released = snd (release H (topo_index H queue) ?x ?cs s)" using rel by simp_all
  have deg: "or_zero (tp_indegree s' (?id u)) = int (length (filter (\<lambda>i. i \<notin> insert ?x ?P) (open_inputs valid u)))"
    if "u \<in> set queue" for u
    unfolding s' release_indegree count[OF that] I(4)[OF that] filter_notin_length[OF new] ..
  have rnd: "or_zero (tp_round s' k) = (if k \<in> ?id ` set ?cs
      then max (or_zero (tp_round s k)) (or_zero (tp_round s ?x) + later (topo_index H queue) ?x k)
      else or_zero (tp_round s k))" for k
    unfolding s' by (rule release_round[OF x_cs])
  have ready: "?id u \<in> ?id ` set released \<longleftrightarrow> ?x \<in> ?open u \<and> ?open u \<subseteq> insert ?x ?P" if u: "u \<in> set queue" for u
  proof -
    have "int (count_list (map ?id ?cs) k) \<le> or_zero (tp_indegree s k)" if "k \<in> ?id ` set ?cs" for k
    proof -
      from that cs obtain v where v: "v \<in> set queue" "k = ?id v" by auto
      have "0 \<le> or_zero (tp_indegree s' (?id v))" using deg[OF v(1)] by simp
      then show ?thesis unfolding s' release_indegree v(2) by simp
    qed
    from release_ready[OF this, of "?id u" "topo_index H queue" ?x]
    have "?id u \<in> ?id ` set released \<longleftrightarrow>
        ?x \<in> ?open u \<and> or_zero (tp_indegree s (?id u)) = int (count_list (open_inputs valid u) ?x)"
      unfolding released in_cs[OF u] count[OF u] by blast
    also have "\<dots> \<longleftrightarrow> ?x \<in> ?open u \<and> ?open u \<subseteq> insert ?x ?P"
      unfolding I(4)[OF u] using only_x_left[OF new, of "open_inputs valid u"] by simp
    finally show ?thesis .
  qed
  have "set (ready @ released) \<subseteq> set queue"
    using I(1) release_subset[of H "topo_index H queue" ?x ?cs s] cs unfolding released by auto
  moreover have "\<forall>y \<in> set (processed @ [?x]). chained H (set valid) queue y"
    using I(3) open_t by (auto intro!: chained_open[OF t])
  moreover have "(?id u \<in> set (processed @ [?x]) \<or> ?id u \<in> ?id ` set (ready @ released)
      \<longleftrightarrow> ?open u \<subseteq> set (processed @ [?x]))" if u: "u \<in> set queue" for u
  proof (cases "?x \<in> ?open u")
    case True
    then have "?id u \<notin> ?P \<and> ?id u \<notin> ?id ` set (t # ready)" using I(5)[OF u] new by blast
    with True ready[OF u] show ?thesis by auto
  next
    case False
    then have "?open u \<subseteq> set (processed @ [?x]) \<longleftrightarrow> ?open u \<subseteq> ?P" by auto
    with False ready[OF u] I(5)[OF u] show ?thesis by auto
  qed
  moreover have "?id u \<notin> ?open u" if "u \<in> set queue" "?id u \<in> set (processed @ [?x])" for u
  proof (cases "?id u = ?x")
    case True
    with same_entry[OF d t that(1)] have "u = t" by simp
    with self show ?thesis by simp
  next
    case False
    with that I(6) show ?thesis by simp
  qed
  moreover have "or_zero (tp_round s' (?id u)) \<le> r \<longleftrightarrow>
      (\<forall>i \<in> ?open u \<inter> set (processed @ [?x]).
         or_zero (tp_round s' i) + later (topo_index H queue) i (?id u) \<le> r)" if u: "u \<in> set queue" for u r
  proof -
    have same: "or_zero (tp_round s' i) = or_zero (tp_round s i)" if "i \<in> insert ?x ?P" for i
      using rnd[of i] P_cs[OF that] by simp
    have "(\<forall>i \<in> ?open u \<inter> set (processed @ [?x]).
        or_zero (tp_round s' i) + later (topo_index H queue) i (?id u) \<le> r) \<longleftrightarrow>
      (\<forall>i \<in> ?open u \<inter> insert ?x ?P.
        or_zero (tp_round s i) + later (topo_index H queue) i (?id u) \<le> r)"
      using same by auto
    also have "\<dots> \<longleftrightarrow> or_zero (tp_round s (?id u)) \<le> r \<and>
        (?x \<in> ?open u \<longrightarrow> or_zero (tp_round s ?x) + later (topo_index H queue) ?x (?id u) \<le> r)"
      unfolding I(7)[OF u] by auto
    also have "\<dots> \<longleftrightarrow> or_zero (tp_round s' (?id u)) \<le> r"
      unfolding rnd in_cs[OF u] by auto
    finally show ?thesis by simp
  qed
  moreover have "set (processed @ [?x]) \<subseteq> ?id ` set queue" using I(2) x by simp
  ultimately show ?thesis
    unfolding worklist_inv_def using deg by (auto simp: insert_commute)
qed

lemma worklist_skip:
  assumes "worklist_inv H valid queue (t # ready) processed s" "bt_txid H t \<in> set processed"
  shows "worklist_inv H valid queue ready processed s"
  using assms unfolding worklist_inv_def by auto

lemma worklist_end:
  assumes "distinct (map (bt_txid H) queue)" "worklist_inv H valid queue ready processed s"
    "processTopoSortQueue H edges index ready processed s = (done, final)"
    "edges = topo_edges H valid queue" "index = topo_index H queue"
  shows "worklist_inv H valid queue [] done final"
  using assms
proof (induction H edges index ready processed s rule: processTopoSortQueue.induct)
  case (1 H edges index processed s)
  then show ?case by simp
next
  case (2 H edges index t ready processed s)
  show ?case
  proof (cases "bt_txid H t \<in> set processed")
    case True
    from 2(1)[OF refl True 2(3) worklist_skip[OF 2(4) True] _ 2(6,7)] 2(5) True show ?thesis by simp
  next
    case False
    obtain s' new where rel: "release H index (bt_txid H t) (topo_dependents edges (bt_txid H t)) s = (s', new)"
      by (cases "release H index (bt_txid H t) (topo_dependents edges (bt_txid H t)) s")
    from worklist_step[OF 2(3,4) False rel[unfolded 2(6,7)]]
      2(2)[OF refl False rel[symmetric] 2(3) _ _ 2(6,7)] 2(5) False rel show ?thesis by simp
  qed
qed

lemma worklist_start:
  assumes d: "distinct (map (bt_txid H) queue)"
  shows "worklist_inv H valid queue
      (filter (\<lambda>t. topo_indegree H valid queue (bt_txid H t) = Some 0) queue) []
      \<lparr>tp_indegree = topo_indegree H valid queue,
       tp_round = foldl (\<lambda>m t. m(bt_txid H t \<mapsto> 0)) Map.empty queue\<rparr>"
proof -
  have "bt_txid H t \<in> bt_txid H ` {u \<in> set queue. open_inputs valid u = []} \<longleftrightarrow> open_inputs valid t = []"
    if "t \<in> set queue" for t
    using that same_entry[OF d that] by auto
  moreover have "filter (\<lambda>t. topo_indegree H valid queue (bt_txid H t) = Some 0) queue
      = filter (\<lambda>t. open_inputs valid t = []) queue"
    by (rule filter_cong) (simp_all add: topo_indegree_at[OF d])
  moreover have "foldl (\<lambda>m t. m(bt_txid H t \<mapsto> (0 :: nat))) Map.empty queue (bt_txid H t) = Some 0"
    if "t \<in> set queue" for t
    using that by (rule foldl_upd[OF d])
  ultimately show ?thesis
    by (auto simp: worklist_inv_def topo_indegree_at[OF d])
qed

subsection \<open>The buckets are the passes of the scan\<close>

definition rank :: "(bytes \<Rightarrow> bytes) \<Rightarrow> topo_state \<Rightarrow> beef_tx \<Rightarrow> nat" where
  "rank H s t = or_zero (tp_round s (bt_txid H t))"

definition ranked :: "(bytes \<Rightarrow> bytes) \<Rightarrow> string list \<Rightarrow> topo_state \<Rightarrow> nat \<Rightarrow> beef_tx list \<Rightarrow> beef_tx list" where
  "ranked H done s r = filter (\<lambda>t. bt_txid H t \<in> set done \<and> rank H s t = r)"

definition unranked :: "(bytes \<Rightarrow> bytes) \<Rightarrow> string list \<Rightarrow> topo_state \<Rightarrow> nat \<Rightarrow> beef_tx list \<Rightarrow> beef_tx list" where
  "unranked H done s r = filter (\<lambda>t. \<not> (bt_txid H t \<in> set done \<and> rank H s t < r))"

lemma scan_ranked:
  assumes d: "distinct (map (bt_txid H) queue)" and inv: "worklist_inv H valid queue [] done s"
    and fresh: "set valid \<inter> bt_txid H ` set queue = {}"
    and "queue = before @ rest"
    and "set v = set valid \<union> bt_txid H ` {t \<in> set queue. bt_txid H t \<in> set done \<and> rank H s t < r}
      \<union> bt_txid H ` set (ranked H done s r before)"
  shows "scan H v (unranked H done s r rest) = (ranked H done s r rest, unranked H done s (Suc r) rest)"
  using assms(4,5)
proof (induction rest arbitrary: before v)
  case Nil
  then show ?case by (simp add: unranked_def ranked_def)
next
  case (Cons t rest)
  let ?id = "bt_txid H"
  note I = worklist_invD[OF inv]
  have t: "t \<in> set queue" using Cons.prems(1) by simp
  have index_t: "topo_index H queue (?id t) = Some (length before)"
    using topo_index_at[OF d, of "length before"] Cons.prems(1) by simp
  show ?case
  proof (cases "?id t \<in> set done \<and> rank H s t < r")
    case True
    from Cons.IH[of "before @ [t]" v] Cons.prems True show ?thesis
      by (simp add: unranked_def ranked_def)
  next
    case left: False
    have ready: "list_all (\<lambda>i. i \<in> set v) (bt_inputs t) \<longleftrightarrow> ?id t \<in> set done \<and> rank H s t = r"
    proof -
      have before: "(or_zero (topo_index H queue (?id u)) < length before \<longleftrightarrow> u \<in> set before) \<and>
          or_zero (topo_index H queue (?id u)) \<noteq> length before"
        if "u \<in> set queue" "u \<noteq> t" for u
      proof -
        from that(1) obtain k where k: "k < length queue" "queue ! k = u" by (auto simp: in_set_conv_nth)
        then have "topo_index H queue (?id u) = Some k" using topo_index_at[OF d] by blast
        moreover have "u \<in> set before \<longleftrightarrow> k < length before"
        proof
          assume "u \<in> set before"
          then obtain j where "j < length before" "before ! j = u" by (auto simp: in_set_conv_nth)
          then have "queue ! j = queue ! k" "j < length queue" using k Cons.prems(1) by (simp_all add: nth_append)
          then have "j = k" using d k(1) by (metis distinct_map nth_eq_iff_index_eq)
          with \<open>j < length before\<close> show "k < length before" by simp
        next
          assume "k < length before"
          with k Cons.prems(1) show "u \<in> set before" by (auto simp: nth_append)
        qed
        moreover have "k \<noteq> length before" using k that(2) Cons.prems(1) by auto
        ultimately show ?thesis by simp
      qed
      have in_v: "i \<in> set v \<longleftrightarrow> i \<in> set done \<and> or_zero (tp_round s i) + later (topo_index H queue) i (?id t) \<le> r"
        if i: "i \<in> set (open_inputs valid t)" "i \<noteq> ?id t" for i
      proof (cases "i \<in> set done")
        case False
        then show ?thesis using i Cons.prems(2) by (auto simp: open_inputs_def ranked_def)
      next
        case True
        then obtain u where u: "u \<in> set queue" "i = ?id u" using I(2) by auto
        have "u \<noteq> t" using u(2) i(2) by blast
        have one: "w = u" if "w \<in> set queue" "?id w = i" for w
          using same_entry[OF d that(1) u(1)] that(2) u(2) by simp
        have "set before \<subseteq> set queue" using Cons.prems(1) by auto
        have "i \<notin> set valid" using i(1) by (simp add: open_inputs_def)
        then have "i \<in> set v \<longleftrightarrow> (\<exists>w \<in> set queue. ?id w = i \<and> ?id w \<in> set done \<and>
            (rank H s w < r \<or> w \<in> set before \<and> rank H s w = r))"
          using \<open>set before \<subseteq> set queue\<close> unfolding Cons.prems(2) ranked_def set_filter by blast
        then have "i \<in> set v \<longleftrightarrow> rank H s u < r \<or> (rank H s u = r \<and> u \<in> set before)"
          using u True one by blast
        also have "\<dots> \<longleftrightarrow> or_zero (tp_round s i) + later (topo_index H queue) i (?id t) \<le> r"
          using before[OF u(1) \<open>u \<noteq> t\<close>] unfolding u(2) by (auto simp: rank_def later_def index_t)
        finally show ?thesis using True by simp
      qed
      have inputs: "list_all (\<lambda>i. i \<in> set v) (bt_inputs t) \<longleftrightarrow> (\<forall>i \<in> set (open_inputs valid t). i \<in> set v)"
        using Cons.prems(2) by (auto simp: list_all_iff open_inputs_def)
      have self: "?id t \<notin> set v"
      proof
        assume "?id t \<in> set v"
        moreover have "?id t \<notin> set valid" using t fresh by blast
        moreover have "set before \<subseteq> set queue" "t \<notin> set before"
          using Cons.prems(1) d by (auto simp: distinct_map)
        ultimately obtain u where u: "u \<in> set queue" "?id t = ?id u"
          "?id u \<in> set done \<and> rank H s u < r \<or> u \<in> set before"
          unfolding Cons.prems(2) by (auto simp: ranked_def)
        with same_entry[OF d t u(1,2)] left \<open>t \<notin> set before\<close> show False by blast
      qed
      show ?thesis
      proof
        assume "list_all (\<lambda>i. i \<in> set v) (bt_inputs t)"
        then have v: "\<forall>i \<in> set (open_inputs valid t). i \<in> set v" by (simp only: inputs)
        then have own: "\<forall>i \<in> set (open_inputs valid t). i \<noteq> ?id t" using self by blast
        have "set (open_inputs valid t) \<subseteq> set done" using v own in_v by blast
        then have mem: "?id t \<in> set done" using I(5)[OF t] by simp
        have "rank H s t \<le> r" unfolding rank_def I(7)[OF t] using v own in_v by blast
        with mem left show "?id t \<in> set done \<and> rank H s t = r" by simp
      next
        assume r: "?id t \<in> set done \<and> rank H s t = r"
        then have "?id t \<notin> set (open_inputs valid t)" "set (open_inputs valid t) \<subseteq> set done"
          using I(6)[OF t] I(5)[OF t] by blast+
        moreover have "rank H s t \<le> r" using r by simp
        ultimately have "\<forall>i \<in> set (open_inputs valid t). i \<in> set v"
          unfolding rank_def I(7)[OF t] using in_v by blast
        then show "list_all (\<lambda>i. i \<in> set v) (bt_inputs t)" by (simp only: inputs)
      qed
    qed
    show ?thesis
    proof (cases "?id t \<in> set done \<and> rank H s t = r")
      case True
      have "scan H (?id t # v) (unranked H done s r rest) = (ranked H done s r rest, unranked H done s (Suc r) rest)"
        using Cons.prems True by (intro Cons.IH[of "before @ [t]"]) (auto simp: ranked_def)
      with True ready left show ?thesis by (simp add: unranked_def ranked_def)
    next
      case False
      have "scan H v (unranked H done s r rest) = (ranked H done s r rest, unranked H done s (Suc r) rest)"
        using Cons.prems False by (intro Cons.IH[of "before @ [t]"]) (auto simp: ranked_def)
      with False ready left show ?thesis by (auto simp: unranked_def ranked_def less_Suc_eq)
    qed
  qed
qed

lemma ranks_below:
  assumes inv: "worklist_inv H valid queue [] done s" and empty: "ranked H done s r queue = []"
    and chain: "chained H (set valid) queue x"
  shows "\<forall>t \<in> set queue. bt_txid H t = x \<and> x \<in> set done \<longrightarrow> rank H s t < r"
  using chain
proof induction
  case (chainedI t)
  note I = worklist_invD[OF inv]
  show ?case
  proof (intro ballI impI)
    fix u assume u: "u \<in> set queue" and id: "bt_txid H u = bt_txid H t \<and> bt_txid H t \<in> set done"
    have "rank H s t \<le> r" if mem: "bt_txid H t \<in> set done"
    proof -
      have "or_zero (tp_round s i) + later (topo_index H queue) i (bt_txid H t) \<le> r"
        if i: "i \<in> set (open_inputs valid t) \<inter> set done" for i
      proof -
        obtain w where w: "w \<in> set queue" "i = bt_txid H w" using i I(2) by auto
        have "i \<in> set (bt_inputs t)" "i \<notin> set valid" using i by (auto simp: open_inputs_def)
        with chainedI.IH[of i] w i have "rank H s w < r" by auto
        then show ?thesis by (simp add: rank_def w(2) later_def)
      qed
      then show ?thesis unfolding rank_def using I(7)[OF chainedI.hyps(1), of r] by blast
    qed
    moreover have "rank H s t \<noteq> r"
      using empty chainedI.hyps(1) id by (auto simp: ranked_def filter_empty_conv)
    moreover have "rank H s u = rank H s t" using id by (simp add: rank_def)
    ultimately show "rank H s u < r" using id by simp
  qed
qed

lemma rescan_ranked:
  assumes d: "distinct (map (bt_txid H) queue)" and inv: "worklist_inv H valid queue [] done s"
    and fresh: "set valid \<inter> bt_txid H ` set queue = {}"
    and "set v = set valid \<union> bt_txid H ` {t \<in> set queue. bt_txid H t \<in> set done \<and> rank H s t < r}"
    and "\<forall>t \<in> set queue. bt_txid H t \<in> set done \<longrightarrow> rank H s t < r + n"
  shows "rescan H v (unranked H done s r queue) =
    (concat (map (\<lambda>k. ranked H done s k queue) [r..<r + n]), filter (\<lambda>t. bt_txid H t \<notin> set done) queue)"
  using assms(4,5)
proof (induction n arbitrary: r v)
  case n: 0
  have scan: "scan H v (unranked H done s r queue) = (ranked H done s r queue, unranked H done s (Suc r) queue)"
    by (rule scan_ranked[OF d inv fresh, of "[]"]) (simp_all add: n.prems(1) ranked_def)
  have "ranked H done s r queue = []" "unranked H done s (Suc r) queue = filter (\<lambda>t. bt_txid H t \<notin> set done) queue"
    using n.prems(2) by (auto simp: ranked_def unranked_def filter_empty_conv intro!: filter_cong)
  with scan show ?case by (subst rescan.simps) simp
next
  case n: (Suc n)
  have scan: "scan H v (unranked H done s r queue) = (ranked H done s r queue, unranked H done s (Suc r) queue)"
    by (rule scan_ranked[OF d inv fresh, of "[]"]) (simp_all add: n.prems(1) ranked_def)
  show ?case
  proof (cases "ranked H done s r queue = []")
    case True
    have below: "rank H s t < r" if "t \<in> set queue" "bt_txid H t \<in> set done" for t
      using ranks_below[OF inv True worklist_invD(3)[OF inv that(2)]] that by blast
    then have "ranked H done s k queue = []" if "r \<le> k" for k
      using that by (fastforce simp: ranked_def filter_empty_conv)
    then have "concat (map (\<lambda>k. ranked H done s k queue) [r..<r + Suc n]) = []" by auto
    moreover have "unranked H done s (Suc r) queue = filter (\<lambda>t. bt_txid H t \<notin> set done) queue"
      using below by (fastforce simp: unranked_def intro!: filter_cong)
    ultimately show ?thesis using scan True by (subst rescan.simps) simp
  next
    case False
    have "rescan H (map (bt_txid H) (ranked H done s r queue) @ v) (unranked H done s (Suc r) queue)
        = (concat (map (\<lambda>k. ranked H done s k queue) [Suc r..<Suc r + n]), filter (\<lambda>t. bt_txid H t \<notin> set done) queue)"
      using n.prems by (intro n.IH) (auto simp: ranked_def less_Suc_eq)
    moreover have "[r..<r + Suc n] = r # [Suc r..<Suc r + n]" by (simp add: upt_conv_Cons)
    ultimately show ?thesis using scan False by (subst rescan.simps) simp
  qed
qed

lemma foldr_max_ge: "t \<in> set ts \<Longrightarrow> f t \<le> foldr (\<lambda>t m. max (f t) m) ts (0 :: nat)"
  by (induction ts) auto

lemma topoSort_rescan:
  assumes d: "distinct (map (bt_txid H) queue)"
    and fresh: "set valid \<inter> bt_txid H ` set queue = {}"
  shows "topoSort H queue valid =
    (case rescan H valid queue of (moved, left) \<Rightarrow>
       (foldl add_key valid (map (bt_txid H) moved), moved, left))"
proof -
  let ?ready = "filter (\<lambda>t. topo_indegree H valid queue (bt_txid H t) = Some 0) queue"
  let ?s0 = "\<lparr>tp_indegree = topo_indegree H valid queue,
       tp_round = foldl (\<lambda>m t. m(bt_txid H t \<mapsto> 0)) Map.empty queue\<rparr>"
  obtain P s where run: "processTopoSortQueue H (topo_edges H valid queue) (topo_index H queue) ?ready [] ?s0 = (P, s)"
    by (cases "processTopoSortQueue H (topo_edges H valid queue) (topo_index H queue) ?ready [] ?s0")
  have inv: "worklist_inv H valid queue [] P s"
    by (rule worklist_end[OF d worklist_start[OF d] run refl refl])
  let ?done = "filter (\<lambda>t. bt_txid H t \<in> set P) queue"
  let ?n = "Suc (foldr (\<lambda>t m. max (rank H s t) m) ?done 0)"
  have "\<forall>t \<in> set queue. bt_txid H t \<in> set P \<longrightarrow> rank H s t < 0 + ?n"
    using foldr_max_ge[of _ ?done "rank H s"] by (auto simp: less_Suc_eq_le)
  from rescan_ranked[OF d inv fresh, of valid 0 ?n] this
  have scan: "rescan H valid queue = (concat (map (\<lambda>k. ranked H P s k queue) [0..<?n]),
      filter (\<lambda>t. bt_txid H t \<notin> set P) queue)"
    by (simp add: unranked_def del: upt_Suc)
  have "appendTopoSortResult H queue P (tp_round s) = concat (map (\<lambda>k. ranked H P s k queue) [0..<?n])"
    by (simp add: appendTopoSortResult_def ranked_def rank_def Let_def conj_commute del: upt_Suc)
  with run scan show ?thesis by (simp add: topoSort_def Let_def del: upt_Suc)
qed

text \<open>C18: The linear topological sort does what its comment claims. On a queue of entries with
  different txids, none of them valid yet, it moves the same entries, in the same order, as the
  repeated scan of the queue that appends every entry whose inputs are all valid, and it leaves
  the same entries behind.\<close>

theorem topoSort_is_rescan:
  assumes "distinct (map (bt_txid H) queue)" and "set valid \<inter> bt_txid H ` set queue = {}"
  shows "topoSort H queue valid =
    (case rescan H valid queue of (moved, left) \<Rightarrow>
       (foldl add_key valid (map (bt_txid H) moved), moved, left))"
  by (rule topoSort_rescan[OF assms])

subsection \<open>What the scan does\<close>

lemma verifyInputDependencies_mono:
  "verifyInputDependencies H ts v \<Longrightarrow> set v \<subseteq> set w \<Longrightarrow> verifyInputDependencies H ts w"
proof (induction ts arbitrary: v w)
  case (Cons t ts)
  have "set (add_key v (bt_txid H t)) \<subseteq> set (add_key w (bt_txid H t))" using Cons.prems(2) by auto
  from Cons.IH[OF _ this] Cons.prems show ?case by (simp add: list_all_iff subset_iff)
qed simp

lemma verifyInputDependencies_append:
  "verifyInputDependencies H (xs @ ys) v \<longleftrightarrow>
   verifyInputDependencies H xs v \<and> verifyInputDependencies H ys (foldl add_key v (map (bt_txid H) xs))"
  by (induction xs arbitrary: v) auto

lemma scan_props:
  assumes "scan H v ts = (moved, left)"
  shows "mset moved + mset left = mset ts \<and> verifyInputDependencies H moved v \<and>
    (moved = [] \<longrightarrow> (\<forall>t \<in> set left. \<not> set (bt_inputs t) \<subseteq> set v))"
  using assms
proof (induction ts arbitrary: v moved left)
  case (Cons t ts)
  show ?case
  proof (cases "list_all (\<lambda>i. i \<in> set v) (bt_inputs t)")
    case True
    then obtain m where m: "scan H (bt_txid H t # v) ts = (m, left)" "moved = t # m"
      using Cons.prems by (auto split: prod.splits)
    from Cons.IH[OF m(1)] have "verifyInputDependencies H m (add_key v (bt_txid H t))"
      by (auto elim!: verifyInputDependencies_mono)
    with Cons.IH[OF m(1)] m(2) True show ?thesis by simp
  next
    case False
    then obtain l where l: "scan H v ts = (moved, l)" "left = t # l"
      using Cons.prems by (auto split: prod.splits)
    from Cons.IH[OF l(1)] l(2) False show ?thesis by (auto simp: list_all_iff)
  qed
qed simp

lemma rescan_props:
  assumes "rescan H v queue = (moved, left)"
  shows "mset moved + mset left = mset queue \<and> verifyInputDependencies H moved v \<and>
    (\<forall>t \<in> set left. \<not> set (bt_inputs t) \<subseteq> set v \<union> bt_txid H ` set moved)"
  using assms
proof (induction H v queue arbitrary: moved left rule: rescan.induct)
  case (1 H v queue)
  obtain m l where s: "scan H v queue = (m, l)" by (cases "scan H v queue")
  note sp = scan_props[OF s]
  show ?case
  proof (cases "m = []")
    case True
    with 1(2) s have "moved = []" "left = l" by (subst (asm) rescan.simps, simp)+
    with sp True show ?thesis by simp
  next
    case False
    obtain m2 l2 where r: "rescan H (map (bt_txid H) m @ v) l = (m2, l2)"
      by (cases "rescan H (map (bt_txid H) m @ v) l")
    with 1(2) s False have eq: "moved = m @ m2" "left = l2" by (subst (asm) rescan.simps, simp)+
    from 1(1)[OF s[symmetric] False r] have
      IH: "mset m2 + mset l2 = mset l" "verifyInputDependencies H m2 (map (bt_txid H) m @ v)"
        "\<forall>t \<in> set l2. \<not> set (bt_inputs t) \<subseteq> set (map (bt_txid H) m @ v) \<union> bt_txid H ` set m2"
      by blast+
    have "mset m + mset l = mset queue" using sp by blast
    with IH(1) have "mset moved + mset left = mset queue" unfolding eq mset_append by (metis add.assoc)
    moreover have "verifyInputDependencies H moved v"
      unfolding eq verifyInputDependencies_append using sp IH(2)
      by (auto elim!: verifyInputDependencies_mono)
    moreover have "set (map (bt_txid H) m @ v) \<union> bt_txid H ` set m2 = set v \<union> bt_txid H ` set moved"
      by (auto simp: eq)
    ultimately show ?thesis using IH(3) by (simp add: eq(2))
  qed
qed

subsection \<open>The whole sort\<close>

definition mark :: "beef_tx \<Rightarrow> beef_tx" where
  "mark t = t\<lparr>bt_valid := Some (bt_hasProof t)\<rparr>"

lemma mark_simps [simp]:
  "bt_txid H (mark t) = bt_txid H t" "bt_inputs (mark t) = bt_inputs t"
  "bt_hasProof (mark t) = bt_hasProof t" "bt_isTxidOnly (mark t) = bt_isTxidOnly t"
  by (simp_all add: mark_def bt_txid_def bt_hasProof_def bt_isTxidOnly_def)

definition by_txid_only :: "beef_tx \<Rightarrow> bool" where
  "by_txid_only t \<longleftrightarrow> \<not> bt_hasProof t \<and> bt_isTxidOnly t \<and> bt_inputs t = []"

definition queued :: "beef_tx \<Rightarrow> bool" where
  "queued t \<longleftrightarrow> \<not> bt_hasProof t \<and> \<not> (bt_isTxidOnly t \<and> bt_inputs t = [])"

lemma partitionTxs_eq:
  "snd (partitionTxs H ts v) = (map mark (filter bt_hasProof ts), map mark (filter by_txid_only ts),
     map mark (filter queued ts))"
  "set (fst (partitionTxs H ts v)) = set v \<union> bt_txid H ` {t \<in> set ts. \<not> queued t}"
  by (induction ts arbitrary: v)
    (auto simp: by_txid_only_def queued_def Let_def mark_def case_prod_beta)

lemma separateMissingInputs_eq:
  "snd (separateMissingInputs known ts m) = (filter (\<lambda>t. \<not> set (bt_inputs t) \<subseteq> set known) ts,
     filter (\<lambda>t. set (bt_inputs t) \<subseteq> set known) ts)"
  by (induction ts arbitrary: m)
    (auto simp: Let_def filter_empty_conv subset_iff case_prod_beta)

lemma mset_parts:
  "mset (map mark (filter bt_hasProof ts)) + mset (map mark (filter by_txid_only ts))
     + mset (map mark (filter queued ts)) = mset (map mark ts)"
  by (induction ts) (auto simp: by_txid_only_def queued_def)

lemma mset_split: "mset (filter (\<lambda>x. \<not> P x) xs) + mset (filter P xs) = mset xs"
  by (induction xs) auto

lemma rearranged:
  "A + R = Q \<Longrightarrow> U + V + Q = T \<Longrightarrow> M + L = R \<Longrightarrow> A + (L + (V + (U + M))) = (T :: 'a multiset)"
  by (auto simp: ac_simps)

text \<open>A transaction is grounded if it has a proof, is known by its txid, or spends only outputs of
  grounded transactions.\<close>

inductive grounded :: "(bytes \<Rightarrow> bytes) \<Rightarrow> beef_tx list \<Rightarrow> string \<Rightarrow> bool" for H txs where
  anchored: "t \<in> set txs \<Longrightarrow> bt_hasProof t \<or> by_txid_only t \<Longrightarrow> grounded H txs (bt_txid H t)"
| spends: "t \<in> set txs \<Longrightarrow> (\<And>i. i \<in> set (bt_inputs t) \<Longrightarrow> grounded H txs i) \<Longrightarrow> grounded H txs (bt_txid H t)"

definition proofs_end_search :: "beef_tx list \<Rightarrow> bool" where
  "proofs_end_search txs \<longleftrightarrow> list_all (\<lambda>t. bt_hasProof t \<longrightarrow> bt_inputs t = []) txs"

lemma dependencies_grounded:
  assumes "verifyInputDependencies H ts v" "set ts \<subseteq> mark ` set txs" "\<And>x. x \<in> set v \<Longrightarrow> grounded H txs x"
  shows "\<forall>t \<in> set ts. grounded H txs (bt_txid H t)"
  using assms
proof (induction ts arbitrary: v)
  case (Cons t ts)
  then obtain u where u: "u \<in> set txs" "t = mark u" by auto
  have "grounded H txs (bt_txid H u)"
    using Cons.prems(1,3) u by (intro spends) (auto simp: list_all_iff)
  moreover from this have "\<forall>t \<in> set ts. grounded H txs (bt_txid H t)"
    using Cons.prems u by (intro Cons.IH[of "add_key v (bt_txid H t)"]) auto
  ultimately show ?case by (simp add: u(2))
qed simp

text \<open>C19: The sort of a BEEF whose entries have different txids and whose proven entries list no
  inputs. The entries are permuted (and marked with whether they have a proof); the txids
  reported valid are exactly the grounded ones; and behind the entries with missing inputs and
  the unsortable ones every entry comes after all the entries it spends.\<close>

theorem sortTxs_orders:
  assumes "distinct (map (bt_txid H) (bf_txs b))" "proofs_end_search (bf_txs b)"
    and "sortTxs H b = (sr, s)"
  shows "mset (bf_txs s) = mset (map mark (bf_txs b)) \<and>
    (\<forall>x. x \<in> set (sr_valid sr) \<longleftrightarrow> grounded H (bf_txs b) x) \<and>
    verifyInputDependencies H
      (drop (length (sr_withMissingInputs sr) + length (sr_notValid sr)) (bf_txs s)) []"
proof -
  let ?txs = "bf_txs b" and ?id = "bt_txid H"
  let ?queue = "map mark (filter queued ?txs)" and ?proven = "map mark (filter bt_hasProof ?txs)"
    and ?only = "map mark (filter by_txid_only ?txs)"
  let ?known = "map ?id ?txs"
  let ?without = "filter (\<lambda>t. \<not> set (bt_inputs t) \<subseteq> set ?known) ?queue"
    and ?rest = "filter (\<lambda>t. set (bt_inputs t) \<subseteq> set ?known) ?queue"
  obtain v where part: "partitionTxs H ?txs [] = (v, ?proven, ?only, ?queue)"
    and v: "set v = ?id ` {t \<in> set ?txs. \<not> queued t}"
    using partitionTxs_eq[of H ?txs "[]"] by (cases "partitionTxs H ?txs []") auto
  obtain missing where sep: "separateMissingInputs ?known ?queue [] = (missing, ?without, ?rest)"
    using separateMissingInputs_eq[of ?known ?queue "[]"] by (cases "separateMissingInputs ?known ?queue []") auto
  obtain moved left where scan: "rescan H v ?rest = (moved, left)" by (cases "rescan H v ?rest")
  have inj: "inj_on ?id (set ?txs)" using assms(1) by (simp add: distinct_map)
  have distinct: "distinct (map ?id ?rest)"
    using assms(1) by (simp add: filter_map o_def distinct_map distinct_filter inj_on_def)
  have fresh: "set v \<inter> ?id ` set ?rest = {}" using inj unfolding v by (auto dest: inj_onD)
  from topoSort_rescan[OF distinct fresh] have
    topo: "topoSort H ?rest v = (foldl add_key v (map ?id moved), moved, left)" by (simp only: scan prod.case)
  have sr: "sr_valid sr = foldl add_key v (map ?id moved)" "length (sr_withMissingInputs sr) = length ?without"
    "length (sr_notValid sr) = length left" "bf_txs s = ?without @ left @ ?only @ ?proven @ moved"
    using assms(3) unfolding sortTxs_def part sep prod.case topo by auto
  from rescan_props[OF scan] have r: "mset moved + mset left = mset ?rest"
    "verifyInputDependencies H moved v" "\<forall>t \<in> set left. \<not> set (bt_inputs t) \<subseteq> set v \<union> ?id ` set moved" by blast+
  have rest_sub: "set moved \<union> set left = set ?rest" using r(1) by (metis set_mset_mset set_mset_union)
  show ?thesis
  proof (intro conjI allI)
    have "mset ?without + mset ?rest = mset ?queue" by (rule mset_split)
    moreover note mset_parts[of ?txs]
    ultimately show "mset (bf_txs s) = mset (map mark ?txs)"
      unfolding sr(4) mset_append by (intro rearranged[OF _ _ r(1)])
  next
    fix x
    show "x \<in> set (sr_valid sr) \<longleftrightarrow> grounded H ?txs x"
    proof
      assume "x \<in> set (sr_valid sr)"
      moreover have gv: "grounded H ?txs y" if "y \<in> set v" for y
        using that unfolding v by (auto simp: queued_def by_txid_only_def intro!: anchored)
      moreover have "\<forall>t \<in> set moved. grounded H ?txs (?id t)"
        using rest_sub by (intro dependencies_grounded[OF r(2) _ gv]) auto
      ultimately show "grounded H ?txs x" by (auto simp: sr(1))
    next
      assume "grounded H ?txs x"
      then show "x \<in> set (sr_valid sr)"
      proof induction
        case (anchored t)
        then show ?case unfolding sr(1) set_foldl_add_key v by (auto simp: queued_def by_txid_only_def)
      next
        case (spends t)
        have ins: "set (bt_inputs t) \<subseteq> set v \<union> ?id ` set moved" using spends.IH by (auto simp: sr(1))
        show ?case
        proof (cases "queued t")
          case False
          then show ?thesis using spends.hyps(1) unfolding sr(1) set_foldl_add_key v by auto
        next
          case True
          have "set moved \<subseteq> mark ` set ?txs" using rest_sub by auto
          then have "?id ` set moved \<subseteq> set ?known" by fastforce
          then have "set v \<union> ?id ` set moved \<subseteq> set ?known" unfolding v by auto
          with ins have "set (bt_inputs t) \<subseteq> set ?known" by (rule subset_trans)
          with True spends.hyps(1) have "mark t \<in> set ?rest" by simp
          moreover have "mark t \<notin> set left" using r(3) ins by force
          ultimately have "mark t \<in> set moved" using rest_sub by blast
          then show ?thesis unfolding sr(1) by (auto intro!: image_eqI[of _ _ "mark t"])
        qed
      qed
    qed
  next
    have none: "verifyInputDependencies H ts w" if "\<forall>t \<in> set ts. bt_inputs t = []" for ts w
      using that by (induction ts arbitrary: w) auto
    have "verifyInputDependencies H (?only @ ?proven @ moved) []"
      unfolding append.assoc[symmetric] verifyInputDependencies_append[of H "?only @ ?proven"]
    proof
      show "verifyInputDependencies H (?only @ ?proven) []"
        using assms(2) by (intro none) (auto simp: by_txid_only_def proofs_end_search_def list_all_iff)
      show "verifyInputDependencies H moved (foldl add_key [] (map ?id (?only @ ?proven)))"
        using r(2) by (rule verifyInputDependencies_mono) (auto simp: v queued_def by_txid_only_def image_iff)
    qed
    then show "verifyInputDependencies H (drop (length (sr_withMissingInputs sr) + length (sr_notValid sr)) (bf_txs s)) []"
      unfolding sr by simp
  qed
qed

end
