(* ===== verification/Beef_Verify.thy ===== *)
theory Beef_Verify
  imports Beef_Sort
begin

text \<open>
  What the verification of a BEEF establishes: the roots that \<open>verifyValid\<close> collects and the
  tracker's answers in \<open>verify\<close>, the entries that rest on them, the entries that no root covers,
  and the closure that the atomic form carries.
\<close>

subsection \<open>The roots that are confirmed\<close>

definition flagged_leaf :: "merkle_leaf \<Rightarrow> bool" where
  "flagged_leaf l \<longleftrightarrow> lf_txid l = Some True \<and> has_hash l"

definition leaf_hash :: "merkle_leaf \<Rightarrow> string" where
  "leaf_hash l = (case lf_hash l of None \<Rightarrow> [] | Some x \<Rightarrow> x)"

lemma nonempty_hash_leaf: "nonempty_hash (Some l) = (if has_hash l then Some (leaf_hash l) else None)"
  by (auto simp: nonempty_hash_def has_hash_def leaf_hash_def split: option.splits)

text \<open>Every flagged leaf of the path computes to the root recorded for its height.\<close>

definition path_confirmed :: "(bytes \<Rightarrow> bytes) \<Rightarrow> roots \<Rightarrow> merkle_path \<Rightarrow> bool" where
  "path_confirmed H roots p \<longleftrightarrow>
     (\<forall>l \<in> set (level_zero p). flagged_leaf l \<longrightarrow>
        (\<exists>root. computeRoot H p (Some (leaf_hash l)) = Inr root \<and> map_of roots (mp_height p) = Some root))"

text \<open>Roots are only added: a recorded root that is not empty stays.\<close>

definition roots_extend :: "roots \<Rightarrow> roots \<Rightarrow> bool" where
  "roots_extend r r' \<longleftrightarrow> (\<forall>h x. map_of r h = Some x \<longrightarrow> x \<noteq> [] \<longrightarrow> map_of r' h = Some x)"

lemma roots_extend_refl [simp]: "roots_extend r r"
  by (simp add: roots_extend_def)

lemma roots_extend_trans: "roots_extend r s \<Longrightarrow> roots_extend s t \<Longrightarrow> roots_extend r t"
  by (auto simp: roots_extend_def)

lemma hashPair_nonempty:
  assumes "\<forall>b. H b \<noteq> []" "hashPair H l r = Inr x"
  shows "x \<noteq> []"
  using assms display_eq_Nil[of "H _"] by (auto simp: hashPair_def and_then_eq_Inr display_def[symmetric])

lemma climb_nonempty:
  assumes "\<forall>b. H b \<noteq> []"
  shows "climb H p i k h w = Inr x \<Longrightarrow> w \<noteq> [] \<Longrightarrow> x \<noteq> []"
proof (induction k arbitrary: h w)
  case (Suc k)
  then obtain y where y: "climb_step H p i h w = Inr y" "climb H p i k (Suc h) y = Inr x"
    by (auto simp: and_then_eq_Inr)
  from y(1) have "y \<noteq> []"
    by (auto simp: climb_step_def and_then_eq_Inr Let_def nextCachedHash_def
        split: option.splits if_splits dest: hashPair_nonempty[of H, OF assms])
  with Suc.IH[OF y(2)] show ?case by simp
qed simp

lemma computeRoot_nonempty:
  "\<forall>b. H b \<noteq> [] \<Longrightarrow> computeRoot H p (Some x) = Inr root \<Longrightarrow> x \<noteq> [] \<Longrightarrow> root \<noteq> []"
  by (auto dest: climb_nonempty simp: computeRoot_def root_of_txid_def and_then_eq_Inr split: if_splits)

lemma confirmComputedRoot_ok:
  assumes "confirmComputedRoot H p x roots = Inr (True, roots')"
  shows "\<exists>root. computeRoot H p (Some x) = Inr root \<and> map_of roots' (mp_height p) = Some root"
    and "roots_extend roots roots'"
  using assms
  by (auto simp: confirmComputedRoot_def and_then_eq_Inr roots_extend_def Let_def update_conv'
      split: if_splits)

lemma collect_leaf_txids_ok:
  assumes "\<forall>b. H b \<noteq> []"
  shows "collect_leaf_txids H p ls txids roots = Inr (True, txids', roots') \<Longrightarrow>
    roots_extend roots roots' \<and> set txids' = set txids \<union> leaf_hash ` {l \<in> set ls. flagged_leaf l} \<and>
    (\<forall>l \<in> set ls. flagged_leaf l \<longrightarrow>
       (\<exists>root. computeRoot H p (Some (leaf_hash l)) = Inr root \<and> map_of roots' (mp_height p) = Some root))"
proof (induction ls arbitrary: txids roots)
  case (Cons l ls)
  show ?case
  proof (cases "flagged_leaf l")
    case False
    with Cons.prems have "collect_leaf_txids H p ls txids roots = Inr (True, txids', roots')"
      by (auto simp: flagged_leaf_def nonempty_hash_leaf split: if_splits)
    from Cons.IH[OF this] False show ?thesis by auto
  next
    case True
    with Cons.prems obtain r where r: "confirmComputedRoot H p (leaf_hash l) roots = Inr (True, r)"
      "collect_leaf_txids H p ls (add_key txids (leaf_hash l)) r = Inr (True, txids', roots')"
      by (auto simp: flagged_leaf_def nonempty_hash_leaf and_then_eq_Inr split: if_splits)
    obtain root where root: "computeRoot H p (Some (leaf_hash l)) = Inr root" "map_of r (mp_height p) = Some root"
      using confirmComputedRoot_ok(1)[OF r(1)] by blast
    have "leaf_hash l \<noteq> []"
      using True by (auto simp: flagged_leaf_def leaf_hash_def has_hash_def nonempty_hash_def split: option.splits if_splits)
    with assms root(1) have "root \<noteq> []" by (rule computeRoot_nonempty)
    with Cons.IH[OF r(2)] root(2) have "map_of roots' (mp_height p) = Some root" by (simp add: roots_extend_def)
    with Cons.IH[OF r(2)] root(1) True roots_extend_trans[OF confirmComputedRoot_ok(2)[OF r(1)]]
    show ?thesis by auto
  qed
qed simp

lemma path_confirmed_mono:
  assumes "\<forall>b. H b \<noteq> []" "roots_extend r r'" "path_confirmed H r p"
  shows "path_confirmed H r' p"
  unfolding path_confirmed_def
proof (intro ballI impI)
  fix l
  assume l: "l \<in> set (level_zero p)" "flagged_leaf l"
  with assms(3) obtain root where root: "computeRoot H p (Some (leaf_hash l)) = Inr root"
    "map_of r (mp_height p) = Some root" by (auto simp: path_confirmed_def)
  have "leaf_hash l \<noteq> []"
    using l(2) by (auto simp: flagged_leaf_def leaf_hash_def has_hash_def nonempty_hash_def split: option.splits if_splits)
  with assms(1) root(1) have "root \<noteq> []" using computeRoot_nonempty by metis
  with assms(2) root show "\<exists>root. computeRoot H p (Some (leaf_hash l)) = Inr root \<and> map_of r' (mp_height p) = Some root"
    by (auto simp: roots_extend_def)
qed

lemma collectBumpTxids_ok:
  assumes "\<forall>b. H b \<noteq> []"
  shows "collectBumpTxids H ps txids roots = Inr (True, txids', roots') \<Longrightarrow>
    roots_extend roots roots' \<and> (\<forall>p \<in> set ps. path_confirmed H roots' p) \<and>
    set txids' = set txids \<union> (\<Union>p \<in> set ps. leaf_hash ` {l \<in> set (level_zero p). flagged_leaf l})"
proof (induction ps arbitrary: txids roots)
  case (Cons p ps)
  then obtain t r where c: "collect_leaf_txids H p (level_zero p) txids roots = Inr (True, t, r)"
    "collectBumpTxids H ps t r = Inr (True, txids', roots')"
    by (auto simp: and_then_eq_Inr split: if_splits)
  note ok = collect_leaf_txids_ok[OF assms c(1)]
  note IH = Cons.IH[OF c(2)]
  have "path_confirmed H r p" using ok by (simp add: path_confirmed_def)
  with IH have "path_confirmed H roots' p" using path_confirmed_mono[OF assms] by blast
  with ok IH show ?case using roots_extend_trans[of roots r roots'] by auto
qed simp

lemma set_height_keys: "set (height_keys roots) = set (map fst roots)"
  by (auto simp: height_keys_def)

lemma check_roots_ok:
  "check_roots valid roots hs = Inr True \<Longrightarrow> h \<in> set hs \<Longrightarrow> valid (the (map_of roots h)) h = Inr True"
  by (induction hs) (auto simp: and_then_eq_Inr split: if_splits)

subsection \<open>The sort keeps the entries\<close>

lemma topoSort_set:
  "topoSort H queue valid = (v, moved, left) \<Longrightarrow> set moved \<union> set left = set queue"
proof -
  assume topo: "topoSort H queue valid = (v, moved, left)"
  then obtain ps f where "moved = appendTopoSortResult H queue ps f" "left = filter (\<lambda>t. bt_txid H t \<notin> set ps) queue"
    by (auto simp: topoSort_def Let_def split: prod.splits)
  moreover have "set (appendTopoSortResult H queue ps f) = {t \<in> set queue. bt_txid H t \<in> set ps}"
    using foldr_max_ge[of _ "filter (\<lambda>t. bt_txid H t \<in> set ps) queue" "\<lambda>t. or_zero (f (bt_txid H t))"]
    by (auto simp: appendTopoSortResult_def Let_def less_Suc_eq_le simp del: upt_Suc)
  ultimately show ?thesis by auto
qed

lemma sortTxs_set:
  assumes "sortTxs H b = (sr, s)"
  shows "set (bf_txs s) = mark ` set (bf_txs b)" and "bf_bumps s = bf_bumps b"
proof -
  let ?txs = "bf_txs b" and ?known = "map (bt_txid H) (bf_txs b)"
  let ?queue = "map mark (filter queued ?txs)"
  let ?without = "filter (\<lambda>t. \<not> set (bt_inputs t) \<subseteq> set ?known) ?queue"
    and ?rest = "filter (\<lambda>t. set (bt_inputs t) \<subseteq> set ?known) ?queue"
  obtain v where part: "partitionTxs H ?txs [] = (v, map mark (filter bt_hasProof ?txs), map mark (filter by_txid_only ?txs), ?queue)"
    using partitionTxs_eq[of H ?txs "[]"] by (cases "partitionTxs H ?txs []") auto
  obtain missing where sep: "separateMissingInputs ?known ?queue [] = (missing, ?without, ?rest)"
    using separateMissingInputs_eq[of ?known ?queue "[]"] by (cases "separateMissingInputs ?known ?queue []") auto
  obtain v' moved left where topo: "topoSort H ?rest v = (v', moved, left)" by (cases "topoSort H ?rest v")
  have s: "bf_txs s = ?without @ left @ map mark (filter by_txid_only ?txs) @ map mark (filter bt_hasProof ?txs) @ moved"
    "bf_bumps s = bf_bumps b"
    using assms unfolding sortTxs_def part sep prod.case topo by auto
  have "set (bf_txs s) = set ?without \<union> (set moved \<union> set left) \<union> mark ` {t \<in> set ?txs. by_txid_only t \<or> bt_hasProof t}"
    unfolding s by auto
  also have "\<dots> = set ?queue \<union> mark ` {t \<in> set ?txs. by_txid_only t \<or> bt_hasProof t}"
    unfolding topoSort_set[OF topo] by auto
  also have "\<dots> = mark ` set ?txs" by (auto simp: queued_def by_txid_only_def)
  finally show "set (bf_txs s) = mark ` set (bf_txs b)" .
  show "bf_bumps s = bf_bumps b" by (rule s)
qed

lemma bt_bump_mark [simp]: "bt_bump (mark t) = bt_bump t"
  by (simp add: mark_def)

subsection \<open>What an accepted container rests on\<close>

text \<open>A txid is confirmed by a chain tracker if it is a flagged leaf of a path whose root the
  tracker accepts at the path's height, or the txid of an entry without a bump index all of
  whose inputs are confirmed.\<close>

inductive confirmed :: "(bytes \<Rightarrow> bytes) \<Rightarrow> chain_tracker \<Rightarrow> beef \<Rightarrow> string \<Rightarrow> bool" for H tracker b where
  proven: "p \<in> set (bf_bumps b) \<Longrightarrow> l \<in> set (level_zero p) \<Longrightarrow> flagged_leaf l \<Longrightarrow>
    computeRoot H p (Some (leaf_hash l)) = Inr root \<Longrightarrow>
    isValidRootForHeight tracker root (mp_height p) = Inr True \<Longrightarrow> confirmed H tracker b (leaf_hash l)"
| spent: "t \<in> set (bf_txs b) \<Longrightarrow> bt_bump t = None \<Longrightarrow>
    (\<And>i. i \<in> set (bt_inputs t) \<Longrightarrow> confirmed H tracker b i) \<Longrightarrow> confirmed H tracker b (bt_txid H t)"

text \<open>Every entry with a bump index has a flagged leaf in that bump.\<close>

definition entries_flagged :: "(bytes \<Rightarrow> bytes) \<Rightarrow> beef \<Rightarrow> bool" where
  "entries_flagged H b \<longleftrightarrow>
     list_all (\<lambda>t. case bt_bump t of None \<Rightarrow> True
       | Some n \<Rightarrow> list_ex (\<lambda>p. list_ex (\<lambda>l. flagged_leaf l \<and> leaf_hash l = bt_txid H t) (level_zero p)) (bf_bumps b))
       (bf_txs b)"

lemma dependencies_confirmed:
  assumes "verifyInputDependencies H ts v" "set ts \<subseteq> mark ` set (bf_txs b)"
    and "\<And>x. x \<in> set v \<Longrightarrow> confirmed H tracker b x"
    and "\<And>t. t \<in> set (bf_txs b) \<Longrightarrow> bt_bump t \<noteq> None \<Longrightarrow> confirmed H tracker b (bt_txid H t)"
  shows "\<forall>t \<in> set ts. confirmed H tracker b (bt_txid H t)"
  using assms(1-3)
proof (induction ts arbitrary: v)
  case (Cons t ts)
  then obtain u where u: "u \<in> set (bf_txs b)" "t = mark u" by auto
  have "confirmed H tracker b (bt_txid H u)"
  proof (cases "bt_bump u = None")
    case True
    with Cons.prems(1,3) u show ?thesis by (intro spent) (auto simp: list_all_iff)
  qed (rule assms(4)[OF u(1)])
  moreover from this have "\<forall>t \<in> set ts. confirmed H tracker b (bt_txid H t)"
    using Cons.prems u by (intro Cons.IH[of "add_key v (bt_txid H t)"]) auto
  ultimately show ?case by (simp add: u(2))
qed simp

lemma verifyValid_parts:
  assumes "verifyValid H False b = (Inr (True, roots), s)"
  obtains sr txids where "sortTxs H b = (sr, s)" "\<not> list_ex bt_isTxidOnly (bf_txs s)"
    "collectBumpTxids H (bf_bumps s) [] [] = Inr (True, txids, roots)"
    "verifyBumpIndexLeaves H s" "verifyInputDependencies H (bf_txs s) txids"
    "\<not> hasDuplicateTxids H (bf_txs s)"
proof -
  from assms obtain sr where sr: "sortTxs H b = (sr, s)" "\<not> list_ex bt_isTxidOnly (bf_txs s)" "\<not> hasDuplicateTxids H (bf_txs s)"
    and c: "and_then (collectBumpTxids H (bf_bumps s) (txidOnly_txids H (bf_txs s)) []) (\<lambda>(ok, txids, roots).
             if \<not> ok then Inr (False, roots)
             else Inr (verifyBumpIndexLeaves H s \<and> verifyInputDependencies H (bf_txs s) txids, roots)) = Inr (True, roots)"
    by (auto simp: verifyValid_def split: if_splits prod.splits)
  have "filter bt_isTxidOnly (bf_txs s) = []" using sr(2) by (auto simp: filter_empty_conv list_ex_iff)
  then have "txidOnly_txids H (bf_txs s) = []" by (simp add: txidOnly_txids_def)
  with c sr that show ?thesis by (auto simp: and_then_eq_Inr split: if_splits)
qed

text \<open>C16: Soundness of the verification of a BEEF whose entries with a bump index all have a
  flagged leaf. If \<open>verify\<close> accepts without entries by txid only, then every transaction of the
  container is confirmed: it is a leaf of a path whose root the tracker accepted, or it spends
  only outputs of confirmed transactions.\<close>

theorem beef_verify_sound:
  assumes "\<forall>b. H b \<noteq> []" "entries_flagged H b" "fst (beef_verify H tracker False b) = Inr True"
  shows "\<forall>t \<in> set (bf_txs b). confirmed H tracker b (bt_txid H t)"
proof -
  from assms(3) obtain roots s where v: "verifyValid H False b = (Inr (True, roots), s)"
    and ok: "check_roots (isValidRootForHeight tracker) roots (height_keys roots) = Inr True"
    by (auto simp: beef_verify_def and_then_eq_Inr split: prod.splits if_splits)
  from v obtain sr txids where p: "sortTxs H b = (sr, s)"
    "collectBumpTxids H (bf_bumps s) [] [] = Inr (True, txids, roots)"
    "verifyInputDependencies H (bf_txs s) txids" by (rule verifyValid_parts)
  note set_s = sortTxs_set[OF p(1)]
  note bumps = collectBumpTxids_ok[OF assms(1) p(2), unfolded set_s(2)]
  have flagged: "confirmed H tracker b (leaf_hash l)"
    if l: "q \<in> set (bf_bumps b)" "l \<in> set (level_zero q)" "flagged_leaf l" for q l
  proof -
    have "path_confirmed H roots q" using bumps l(1) by blast
    with l(2,3) obtain root where root: "computeRoot H q (Some (leaf_hash l)) = Inr root"
      "map_of roots (mp_height q) = Some root" unfolding path_confirmed_def by blast
    then have "mp_height q \<in> set (height_keys roots)" by (force simp: set_height_keys dest: map_of_SomeD)
    from check_roots_ok[OF ok this] root(2) show ?thesis by (intro proven[OF l root(1)]) simp
  qed
  have "confirmed H tracker b x" if "x \<in> set txids" for x using bumps that flagged by auto
  moreover have "confirmed H tracker b (bt_txid H t)" if t: "t \<in> set (bf_txs b)" "bt_bump t \<noteq> None" for t
  proof -
    from assms(2) t obtain q l where "q \<in> set (bf_bumps b)" "l \<in> set (level_zero q)" "flagged_leaf l" "leaf_hash l = bt_txid H t"
      by (fastforce simp: entries_flagged_def list_all_iff list_ex_iff)
    with flagged show ?thesis by metis
  qed
  ultimately have "\<forall>t \<in> set (bf_txs s). confirmed H tracker b (bt_txid H t)"
    by (intro dependencies_confirmed[OF p(3)]) (simp_all add: set_s)
  with set_s(1) show ?thesis by auto
qed

subsection \<open>Entries that no root covers\<close>

text \<open>A one-leaf path that names a transaction but does not flag it.\<close>

definition unflagged_path :: "int \<Rightarrow> string \<Rightarrow> merkle_path" where
  "unflagged_path height txid = \<lparr>mp_height = height,
     mp_path = [[\<lparr>lf_offset = 0, lf_hash = Some txid, lf_txid = None, lf_duplicate = None\<rparr>]]\<rparr>"

definition unproven_beef :: "(bytes \<Rightarrow> bytes) \<Rightarrow> int \<Rightarrow> bytes \<Rightarrow> string list \<Rightarrow> beef" where
  "unproven_beef H height raw inputs = (let t = new_raw_beef_tx raw (Some 0) inputs in
     (new_beef BEEF_V2)\<lparr>bf_bumps := [unflagged_path height (bt_txid H t)], bf_txs := [t]\<rparr>)"

lemma sort_proven: "bf_txs b = [t] \<Longrightarrow> bt_hasProof t \<Longrightarrow> sortTxs H b =
  (\<lparr>sr_missingInputs = [], sr_notValid = [], sr_valid = [bt_txid H t], sr_withMissingInputs = [], sr_txidOnly = []\<rparr>,
   b\<lparr>bf_txs := [mark t], bf_needs_sort := False, bf_raw := None\<rparr>)"
  by (simp add: sortTxs_def topoSort_def Let_def mark_def appendTopoSortResult_def add_key_def)

lemma unproven_raw [simp]:
  "bt_hasProof (new_raw_beef_tx raw (Some n) i)" "\<not> bt_isTxidOnly (new_raw_beef_tx raw m i)"
  "bt_bump (new_raw_beef_tx raw m i) = m" "bt_inputs (new_raw_beef_tx raw (Some n) i) = []"
  by (simp_all add: new_raw_beef_tx_def bt_hasProof_def bt_isTxidOnly_def)

lemma unproven_valid: "fst (verifyValid H False (unproven_beef H height raw inputs)) = Inr (True, [])"
proof -
  let ?t = "new_raw_beef_tx raw (Some 0) inputs" and ?b = "unproven_beef H height raw inputs"
  have b: "bf_txs ?b = [?t]" "bf_bumps ?b = [unflagged_path height (bt_txid H ?t)]" "bf_atomic ?b = None"
    by (simp_all add: unproven_beef_def new_beef_def Let_def)
  have "verifyBumpIndexLeaves H (?b\<lparr>bf_txs := [mark ?t], bf_needs_sort := False, bf_raw := None\<rparr>)"
    by (simp add: verifyBumpIndexLeaves_def hasMatchingBump_def is_safe_integer_def b(2) unflagged_path_def level_zero_def)
  then show ?thesis
    by (simp add: verifyValid_def sort_proven[OF b(1)] b(2,3) hasDuplicateTxids_def txidOnly_txids_def
        unflagged_path_def level_zero_def)
qed

text \<open>A raw transaction without inputs needs no proof at all.\<close>

lemma beef_verify_accepts_without_inputs:
  "fst (beef_verify H tracker False ((new_beef BEEF_V2)\<lparr>bf_txs := [new_raw_beef_tx raw None []]\<rparr>)) = Inr True"
proof -
  let ?t = "new_raw_beef_tx raw None []" and ?b = "(new_beef BEEF_V2)\<lparr>bf_txs := [new_raw_beef_tx raw None []]\<rparr>"
  have t: "bt_bump ?t = None" "bt_inputs ?t = []" "\<not> bt_hasProof ?t" "\<not> bt_isTxidOnly ?t"
    by (simp_all add: new_raw_beef_tx_def bt_hasProof_def bt_isTxidOnly_def)
  obtain sr s where s: "sortTxs H ?b = (sr, s)" by (cases "sortTxs H ?b")
  have "bf_txs s = [mark ?t] \<and> bf_bumps s = [] \<and> sr_missingInputs sr = [] \<and> sr_notValid sr = [] \<and>
      sr_txidOnly sr = [] \<and> sr_withMissingInputs sr = []"
    using s t by (auto simp: sortTxs_def topoSort_def Let_def mark_def[symmetric] new_beef_def topo_indegree_def open_inputs_def
        topo_edges_def topo_dependents_def appendTopoSortResult_def mark_def bt_txid_def)
  then show ?thesis using s t
    by (simp add: beef_verify_def verifyValid_def new_beef_def hasDuplicateTxids_def txidOnly_txids_def
        verifyBumpIndexLeaves_def height_keys_def)
qed

text \<open>C17: A BEEF in which no root covers its transaction passes the verification. For every raw
  transaction and every chain tracker, the container whose only bump has a single leaf with the
  transaction's txid, but without the txid flag, is accepted: the path passes its constructor
  with all checks, no root is computed from it, and so the tracker is never asked.\<close>

theorem beef_verify_skips_unflagged_bump:
  "fst (beef_verify H tracker False (unproven_beef H height raw inputs)) = Inr True \<and>
   (\<exists>p. bf_bumps (unproven_beef H height raw inputs) = [p] \<and> 
      new_MerklePath H (mp_height p) (mp_path p) True True = Inr p)"
proof
  show "fst (beef_verify H tracker False (unproven_beef H height raw inputs)) = Inr True"
    using unproven_valid[of H height raw inputs]
    by (auto simp: beef_verify_def height_keys_def split: prod.splits)
  show "\<exists>p. bf_bumps (unproven_beef H height raw inputs) = [p] \<and> 
      new_MerklePath H (mp_height p) (mp_path p) True True = Inr p"
    by (simp add: unproven_beef_def new_beef_def new_MerklePath_def unflagged_path_def level_zero_def Let_def assertOffset_def is_safe_integer_def assertSingleTransactionOffset_def validateRoots_def
      computeRootCached_def maxOffset_def is_single_transaction_def indexOf_def)
qed

subsection \<open>The atomic closure\<close>

text \<open>The positions an entry is reached from: an entry with a proof in the container, or known by
  its txid, ends the search.\<close>

definition ends_search :: "(bytes \<Rightarrow> bytes) \<Rightarrow> beef \<Rightarrow> beef_tx \<Rightarrow> bool" where
  "ends_search H b t \<longleftrightarrow> hasMatchingBump H b t \<or> bt_isTxidOnly t"

inductive depends_on :: "(bytes \<Rightarrow> bytes) \<Rightarrow> beef \<Rightarrow> nat \<Rightarrow> nat \<Rightarrow> bool" for H b i where
  itself: "depends_on H b i i"
| input: "depends_on H b i j \<Longrightarrow> \<not> ends_search H b (bf_txs b ! j) \<Longrightarrow> x \<in> set (bt_inputs (bf_txs b ! j)) \<Longrightarrow>
    txPositionIndex H (bf_txs b) x = Some k \<Longrightarrow> depends_on H b i k"

definition inputs_at :: "(bytes \<Rightarrow> bytes) \<Rightarrow> beef \<Rightarrow> nat \<Rightarrow> nat list" where
  "inputs_at H b j = (if ends_search H b (bf_txs b ! j) then []
     else rev (List.map_filter (txPositionIndex H (bf_txs b)) (bt_inputs (bf_txs b ! j))))"

lemma set_map_filter: "set (List.map_filter f xs) = {y. \<exists>x \<in> set xs. f x = Some y}"
  by (induction xs) (auto simp: List.map_filter_simps split: option.splits)

lemma set_inputs_at: "k \<in> set (inputs_at H b j) \<longleftrightarrow> \<not> ends_search H b (bf_txs b ! j) \<and>
    (\<exists>x \<in> set (bt_inputs (bf_txs b ! j)). txPositionIndex H (bf_txs b) x = Some k)"
  by (auto simp: inputs_at_def set_map_filter)

lemma depends_on_step: "depends_on H b i j \<Longrightarrow> k \<in> set (inputs_at H b j) \<Longrightarrow> depends_on H b i k"
  by (auto simp: set_inputs_at intro: depends_on.input)

lemma foldl_index_range:
  "\<forall>k \<in> ran m. k < n + length ts \<Longrightarrow> \<forall>k \<in> ran (foldl (\<lambda>m (i, t). m(f t \<mapsto> i)) m (enumerate n ts)). k < n + length ts"
proof (induction ts arbitrary: n m)
  case (Cons t ts)
  have "\<forall>k \<in> ran (m(f t \<mapsto> n)). k < Suc n + length ts" using Cons.prems by (auto simp: ran_def)
  from Cons.IH[OF this] show ?case by simp
qed simp

lemma position_in_range: "txPositionIndex H txs x = Some k \<Longrightarrow> k < length txs"
  using foldl_index_range[of Map.empty 0 txs "bt_txid H"] by (auto simp: txPositionIndex_def ran_def)

lemma collect_atomic_step:
  "collect_atomic H b (i # stack) inc =
     (if i \<in> set inc \<or> length (bf_txs b) \<le> i then collect_atomic H b stack inc
      else collect_atomic H b (inputs_at H b i @ stack) (inc @ [i]))"
  by (simp add: inputs_at_def ends_search_def Let_def)

lemma collect_atomic_induct:
  assumes "\<And>inc. Q [] inc"
    and "\<And>i stack inc. i \<in> set inc \<or> length (bf_txs b) \<le> i \<Longrightarrow> Q stack inc \<Longrightarrow> Q (i # stack) inc"
    and "\<And>i stack inc. i \<notin> set inc \<Longrightarrow> i < length (bf_txs b) \<Longrightarrow> Q (inputs_at H b i @ stack) (inc @ [i]) \<Longrightarrow> Q (i # stack) inc"
  shows "Q stack inc"
proof (induction H \<equiv> H b \<equiv> b stack inc rule: collect_atomic.induct)
  case (2 i stack inc)
  show ?case
  proof (cases "i \<in> set inc \<or> length (bf_txs b) \<le> i")
    case True
    with 2(1) assms(2) show ?thesis by blast
  next
    case False
    with 2(2,3) have "Q (inputs_at H b i @ stack) (inc @ [i])"
      by (cases "ends_search H b (bf_txs b ! i)") (auto simp: inputs_at_def ends_search_def)
    with False assms(3) show ?thesis by (meson not_le)
  qed
qed (rule assms(1))

declare collect_atomic.simps(2) [simp del]

lemma inputs_at_range: "k \<in> set (inputs_at H b j) \<Longrightarrow> k < length (bf_txs b)"
  by (auto simp: set_inputs_at dest: position_in_range)

lemma collect_atomic_distinct:
  "distinct inc \<Longrightarrow> set inc \<subseteq> {..<length (bf_txs b)} \<Longrightarrow>
   distinct (collect_atomic H b stack inc) \<and> set (collect_atomic H b stack inc) \<subseteq> {..<length (bf_txs b)}"
  by (induction stack inc rule: collect_atomic_induct[where H = H and b = b])
    (simp_all add: collect_atomic_step)

lemma collect_atomic_closed:
  "(\<And>j. j \<in> set inc \<Longrightarrow> set (inputs_at H b j) \<subseteq> set inc \<union> set stack) \<Longrightarrow>
   set inc \<union> {j \<in> set stack. j < length (bf_txs b)} \<subseteq> set (collect_atomic H b stack inc) \<and>
   (\<forall>j \<in> set (collect_atomic H b stack inc). set (inputs_at H b j) \<subseteq> set (collect_atomic H b stack inc))"
proof (induction stack inc rule: collect_atomic_induct[where H = H and b = b])
  case (2 i stack inc)
  have "set (inputs_at H b j) \<subseteq> set inc \<union> set stack" if "j \<in> set inc" for j
    using 2(3)[OF that] 2(1) inputs_at_range[of _ H b j] by fastforce
  from 2(2)[OF this] 2(1) show ?case by (auto simp: collect_atomic_step)
next
  case (3 i stack inc)
  have "set (inputs_at H b j) \<subseteq> set (inc @ [i]) \<union> set (inputs_at H b i @ stack)" if "j \<in> set (inc @ [i])" for j
    using 3(4)[of j] that by auto
  from 3(3)[OF this] 3(1,2) show ?case by (auto simp: collect_atomic_step)
qed simp

lemma collect_atomic_least:
  assumes "\<And>j k. P j \<Longrightarrow> k \<in> set (inputs_at H b j) \<Longrightarrow> P k"
  shows "(\<And>j. j \<in> set inc \<union> set stack \<Longrightarrow> P j) \<Longrightarrow> j \<in> set (collect_atomic H b stack inc) \<Longrightarrow> P j"
proof (induction stack inc rule: collect_atomic_induct[where H = H and b = b])
  case (3 i stack inc)
  have "P j" if "j \<in> set (inc @ [i]) \<union> set (inputs_at H b i @ stack)" for j
    using that 3(4) assms[OF 3(4)[of i]] by auto
  from 3(3)[OF this] 3(1,2,5) show ?case by (simp add: collect_atomic_step)
qed (simp_all add: collect_atomic_step)

lemma collect_atomic_depends:
  assumes "i < length (bf_txs b)"
  shows "j \<in> set (collect_atomic H b [i] []) \<longleftrightarrow> depends_on H b i j"
proof
  assume "j \<in> set (collect_atomic H b [i] [])"
  then show "depends_on H b i j"
    by (rule collect_atomic_least[rotated 2, where P = "depends_on H b i"]) (auto intro: depends_on.itself depends_on_step)
next
  have c: "i \<in> set (collect_atomic H b [i] [])"
    "\<forall>j \<in> set (collect_atomic H b [i] []). set (inputs_at H b j) \<subseteq> set (collect_atomic H b [i] [])"
    using collect_atomic_closed[of "[]" H b "[i]"] assms by auto
  assume "depends_on H b i j"
  then show "j \<in> set (collect_atomic H b [i] [])"
  proof induction
    case (input j x k)
    then have "k \<in> set (inputs_at H b j)" by (auto simp: set_inputs_at)
    with input.IH c(2) show ?case by blast
  qed (rule c(1))
qed

lemma isAtomic_iff:
  "isAtomic H b txid \<longleftrightarrow> txid \<noteq> [] \<and> distinct (map (bt_txid H) (bf_txs b)) \<and>
   (\<exists>i. txPositionIndex H (bf_txs b) txid = Some i \<and> (\<forall>j < length (bf_txs b). depends_on H b i j))"
proof -
  have "length (collect_atomic H b [i] []) = length (bf_txs b) \<longleftrightarrow> (\<forall>j < length (bf_txs b). depends_on H b i j)"
    if "txPositionIndex H (bf_txs b) txid = Some i" for i
  proof -
    have d: "distinct (collect_atomic H b [i] [])" "set (collect_atomic H b [i] []) \<subseteq> {..<length (bf_txs b)}"
      using collect_atomic_distinct[of "[]" b H "[i]"] by auto
    have "length (collect_atomic H b [i] []) = card (set (collect_atomic H b [i] []))"
      using distinct_card[OF d(1)] by simp
    also have "\<dots> = length (bf_txs b) \<longleftrightarrow> set (collect_atomic H b [i] []) = {..<length (bf_txs b)}"
      by (metis card_lessThan card_subset_eq d(2) finite_lessThan)
    also have "\<dots> \<longleftrightarrow> (\<forall>j < length (bf_txs b). depends_on H b i j)"
      using d(2) collect_atomic_depends[OF position_in_range[OF that]] by blast
    finally show ?thesis .
  qed
  then show ?thesis by (auto simp: isAtomic_def split: option.splits)
qed

subsection \<open>The atomic form\<close>

text \<open>The bumps copied so far: each number in the index names a copy of that bump.\<close>

definition bumps_copied :: "beef \<Rightarrow> (int \<times> int) list \<Rightarrow> merkle_path list \<Rightarrow> bool" where
  "bumps_copied b index bumps \<longleftrightarrow>
     distinct (map fst index) \<and> length index = length bumps \<and>
     (\<forall>(n, k) \<in> set index. 0 \<le> n \<and> n < int (length (bf_bumps b)) \<and>
        0 \<le> k \<and> k < int (length bumps) \<and> bumps ! nat k = bf_bumps b ! nat n)"

lemma bumps_copiedD:
  assumes "bumps_copied b index bumps" "map_of index n = Some k"
  shows "0 \<le> k \<and> k < int (length bumps) \<and> bumps ! nat k = bf_bumps b ! nat n \<and> k < int (length (bf_bumps b))"
proof -
  have n: "(n, k) \<in> set index" using assms(2) by (rule map_of_SomeD)
  have "set (map fst index) \<subseteq> {0..<int (length (bf_bumps b))}"
    using assms(1) by (auto simp: bumps_copied_def)
  then have "card (set (map fst index)) \<le> length (bf_bumps b)"
    using card_mono[of "{0..<int (length (bf_bumps b))}" "set (map fst index)"] by simp
  then have "length bumps \<le> length (bf_bumps b)"
    using assms(1) distinct_card[of "map fst index"] by (simp add: bumps_copied_def)
  with n assms(1) show ?thesis by (auto simp: bumps_copied_def)
qed

lemma bumps_copied_snoc:
  assumes "bumps_copied b index bumps" "map_of index n = None" "0 \<le> n" "n < int (length (bf_bumps b))"
  shows "bumps_copied b (index @ [(n, int (length bumps))]) (bumps @ [bf_bumps b ! nat n])"
proof -
  have "n \<notin> set (map fst index)" using assms(2) by (simp add: map_of_eq_None_iff)
  with assms show ?thesis by (auto simp: bumps_copied_def nth_append)
qed

lemma hasMatchingBumpD:
  "hasMatchingBump H b t \<Longrightarrow> \<exists>n. bt_bump t = Some n \<and> 0 \<le> n \<and> n < int (length (bf_bumps b))"
  by (auto simp: hasMatchingBump_def split: option.splits)

lemma select_bumps_props:
  "bumps_copied b index bumps \<Longrightarrow> select_bumps H b inc ts index bumps = (index', bumps') \<Longrightarrow>
   bumps_copied b index' bumps' \<and> dom (map_of index) \<subseteq> dom (map_of index') \<and>
   (\<forall>(i, t) \<in> set ts. i \<in> set inc \<longrightarrow> hasMatchingBump H b t \<longrightarrow> the (bt_bump t) \<in> dom (map_of index')) \<and>
   (\<forall>p \<in> set bumps'. p \<in> set bumps \<or> (\<exists>(i, t) \<in> set ts. i \<in> set inc \<and> hasMatchingBump H b t \<and>
      p = bf_bumps b ! nat (the (bt_bump t))))"
proof (induction ts arbitrary: index bumps)
  case (Cons e ts)
  obtain i t where e: "e = (i, t)" by (cases e)
  show ?case
  proof (cases "i \<in> set inc \<and> hasMatchingBump H b t \<and> map_of index (the (bt_bump t)) = None")
    case True
    then obtain n where n: "bt_bump t = Some n" "0 \<le> n" "n < int (length (bf_bumps b))"
      using hasMatchingBumpD by blast
    let ?index = "index @ [(n, int (length bumps))]" and ?bumps = "bumps @ [bf_bumps b ! nat n]"
    have "bumps_copied b ?index ?bumps" using True n by (intro bumps_copied_snoc[OF Cons.prems(1)]) simp_all
    moreover have "select_bumps H b inc ts ?index ?bumps = (index', bumps')" using Cons.prems(2) True n by (simp add: e)
    ultimately have IH: "bumps_copied b index' bumps' \<and> dom (map_of ?index) \<subseteq> dom (map_of index') \<and>
      (\<forall>(i, t) \<in> set ts. i \<in> set inc \<longrightarrow> hasMatchingBump H b t \<longrightarrow> the (bt_bump t) \<in> dom (map_of index')) \<and>
      (\<forall>p \<in> set bumps'. p \<in> set ?bumps \<or> (\<exists>(i, t) \<in> set ts. i \<in> set inc \<and> hasMatchingBump H b t \<and>
        p = bf_bumps b ! nat (the (bt_bump t))))" by (rule Cons.IH)
    moreover have "dom (map_of ?index) = insert n (dom (map_of index))"
      by (simp add: dom_map_of_conv_image_fst)
    ultimately show ?thesis using True n(1) by (auto simp: e)
  next
    case False
    then have "select_bumps H b inc ts index bumps = (index', bumps')"
      using Cons.prems(2) by (auto simp: e split: option.splits if_splits)
    note IH = Cons.IH[OF Cons.prems(1) this]
    have "i \<in> set inc \<longrightarrow> hasMatchingBump H b t \<longrightarrow> the (bt_bump t) \<in> dom (map_of index')"
      using IH False by blast
    with IH show ?thesis unfolding e by (simp add: bex_Un) blast
  qed
qed auto

text \<open>An entry and its copy: the same data, and a proof in the copy's container exactly when the
  original has one, by the same bump.\<close>

definition copied_entry :: "(bytes \<Rightarrow> bytes) \<Rightarrow> beef \<Rightarrow> beef \<Rightarrow> beef_tx \<Rightarrow> beef_tx \<Rightarrow> bool" where
  "copied_entry H b s u t \<longleftrightarrow> bt_data t = bt_data u \<and> hasMatchingBump H s t = hasMatchingBump H b u \<and>
     (hasMatchingBump H b u \<longrightarrow>
       bf_bumps s ! nat (the (bt_bump t)) = bf_bumps b ! nat (the (bt_bump u)))"

lemma copy_entry_copied:
  assumes "bumps_copied b index bumps" "bf_bumps s = bumps" "length (bf_bumps b) \<le> max_safe_integer"
    and "hasMatchingBump H b u \<Longrightarrow> the (bt_bump u) \<in> dom (map_of index)"
  shows "copied_entry H b s u (mark (copy_entry index u))"
proof -
  let ?t = "copy_entry index u" and ?k = "case bt_bump u of None \<Rightarrow> None | Some n \<Rightarrow> map_of index n"
  have t: "bt_data ?t = bt_data u" "bt_bump ?t = ?k" "bt_txid H ?t = bt_txid H u"
    by (auto simp: copy_entry_def Let_def new_raw_beef_tx_def beef_tx_fromTxid_def bt_txid_def split: beef_data.splits)
  have range: "0 \<le> k \<and> k < int (length (bf_bumps s)) \<and> bf_bumps s ! nat k = bf_bumps b ! nat n \<and> is_safe_integer k
      \<and> 0 \<le> n \<and> n < int (length (bf_bumps b)) \<and> is_safe_integer n"
    if "bt_bump u = Some n" "map_of index n = Some k" for n k
  proof -
    have "0 \<le> n \<and> n < int (length (bf_bumps b))"
      using assms(1) map_of_SomeD[OF that(2)] by (auto simp: bumps_copied_def)
    with bumps_copiedD[OF assms(1) that(2)] assms(2,3) show ?thesis by (auto simp: is_safe_integer_def)
  qed
  have m: "bt_data (mark ?t) = bt_data u" by (simp add: mark_def t(1))
  show ?thesis
  proof (cases "bt_bump u")
    case None
    then show ?thesis using t m by (simp add: copied_entry_def hasMatchingBump_def)
  next
    case (Some n)
    show ?thesis
    proof (cases "map_of index n")
      case None
      with Some assms(4) t m show ?thesis by (auto simp: copied_entry_def hasMatchingBump_def)
    next
      case k: (Some k)
      from range[OF Some k] show ?thesis using Some k t m by (simp add: copied_entry_def hasMatchingBump_def)
    qed
  qed
qed

lemma enumerate_mem: "(j, u) \<in> set (enumerate 0 ts) \<longleftrightarrow> j < length ts \<and> u = ts ! j"
  by (auto simp: in_set_enumerate_eq)

text \<open>C20: The atomic form of a container for a transaction carries the transaction's dependency
  closure. The closure follows inputs from the transaction to entries of the container and stops
  at entries with a matching bump or known by their txid only. Every entry of the closure has a
  copy with the same bytes and the same proof, every entry of the result is such a copy, and
  every bump of the result proves an entry of the closure.\<close>

theorem atomic_form_is_the_closure:
  assumes "getBeefForAtomic H b txid = Inr s" "length (bf_bumps b) \<le> max_safe_integer"
  shows "\<exists>i. txPositionIndex H (bf_txs b) txid = Some i \<and>
    (\<forall>j. depends_on H b i j \<longrightarrow> list_ex (copied_entry H b s (bf_txs b ! j)) (bf_txs s)) \<and>
    (\<forall>t \<in> set (bf_txs s). \<exists>j. depends_on H b i j \<and> copied_entry H b s (bf_txs b ! j) t) \<and>
    (\<forall>p \<in> set (bf_bumps s). \<exists>j. depends_on H b i j \<and> hasMatchingBump H b (bf_txs b ! j) \<and>
       p = bf_bumps b ! nat (the (bt_bump (bf_txs b ! j))))"
proof -
  from assms(1) obtain i where i: "txPositionIndex H (bf_txs b) txid = Some i"
    and s: "s = snd (sortTxs H (copySelectedTransactions H b (collect_atomic H b [i] [])))"
    by (auto simp: getBeefForAtomic_def split: option.splits)
  let ?inc = "collect_atomic H b [i] []" and ?entries = "enumerate 0 (bf_txs b)"
  obtain index bumps where sel: "select_bumps H b ?inc ?entries [] [] = (index, bumps)"
    by (cases "select_bumps H b ?inc ?entries [] []")
  have "bumps_copied b [] []" by (simp add: bumps_copied_def)
  note props = select_bumps_props[OF this sel]
  have inc: "j \<in> set ?inc \<longleftrightarrow> depends_on H b i j" for j by (rule collect_atomic_depends[OF position_in_range[OF i]])
  have below: "j < length (bf_txs b)" if "j \<in> set ?inc" for j
    using collect_atomic_distinct[of "[]" b H "[i]"] that by auto
  obtain sr where "sortTxs H (copySelectedTransactions H b ?inc) = (sr, s)" by (cases "sortTxs H (copySelectedTransactions H b ?inc)") (simp add: s)
  note sorted = sortTxs_set[OF this]
  have "{e \<in> set ?entries. case e of (j, t) \<Rightarrow> j \<in> set ?inc} = (\<lambda>j. (j, bf_txs b ! j)) ` set ?inc"
    using below by (auto simp: enumerate_mem)
  then have
    txs: "set (bf_txs s) = (\<lambda>j. mark (copy_entry index (bf_txs b ! j))) ` set ?inc" and bumps: "bf_bumps s = bumps"
    using sorted by (simp_all add: copySelectedTransactions_def sel new_beef_def image_image)
  have copied: "copied_entry H b s (bf_txs b ! j) (mark (copy_entry index (bf_txs b ! j)))" if "j \<in> set ?inc" for j
    using props that below[OF that] by (intro copy_entry_copied[OF _ bumps assms(2)]) (auto simp: enumerate_mem)
  show ?thesis
  proof (intro exI[of _ i] conjI i)
    show "\<forall>j. depends_on H b i j \<longrightarrow> list_ex (copied_entry H b s (bf_txs b ! j)) (bf_txs s)"
      using copied by (auto simp: list_ex_iff txs inc[symmetric])
    show "\<forall>t \<in> set (bf_txs s). \<exists>j. depends_on H b i j \<and> copied_entry H b s (bf_txs b ! j) t"
      using copied by (auto simp: txs inc[symmetric])
    show "\<forall>p \<in> set (bf_bumps s). \<exists>j. depends_on H b i j \<and> hasMatchingBump H b (bf_txs b ! j) \<and>
       p = bf_bumps b ! nat (the (bt_bump (bf_txs b ! j)))"
      using props below by (fastforce simp: bumps enumerate_mem inc[symmetric])
  qed
qed

subsection \<open>A small container\<close>

text \<open>A proven transaction and one that spends it, the child first; the hash prefixes a byte.\<close>

abbreviation sample_hash :: "bytes \<Rightarrow> bytes" where "sample_hash \<equiv> (\<lambda>b. 7 # b)"

definition sample_parent :: beef_tx where
  "sample_parent = new_raw_beef_tx [1] (Some 0) []"

definition sample_child :: beef_tx where
  "sample_child = new_raw_beef_tx [2] None [''0107'']"

definition sample_beef :: beef where
  "sample_beef = (new_beef BEEF_V2)\<lparr>
     bf_bumps := [\<lparr>mp_height = 5, mp_path =
       [[\<lparr>lf_offset = 0, lf_hash = Some ''0107'', lf_txid = Some True, lf_duplicate = None\<rparr>]]\<rparr>],
     bf_txs := [sample_child, sample_parent]\<rparr>"

definition sample_tracker :: chain_tracker where
  "sample_tracker = \<lparr>currentHeight = Inr 6, isValidRootForHeight = (\<lambda>root h. Inr (root = ''0107'' \<and> h = 5))\<rparr>"

lemma sample_txid: "bt_txid sample_hash sample_parent = ''0107''" "bt_txid sample_hash sample_child = ''0207''"
  by code_simp+

lemma sample_sort: "sortTxs sample_hash sample_beef =
  (\<lparr>sr_missingInputs = [], sr_notValid = [], sr_valid = [''0107'', ''0207''], sr_withMissingInputs = [], sr_txidOnly = []\<rparr>,
   sample_beef\<lparr>bf_txs := [mark sample_parent, mark sample_child], bf_needs_sort := False, bf_raw := None\<rparr>)"
  by code_simp

lemma sample_parts: "bt_bump sample_parent = Some 0" "bt_bump sample_child = None"
  "bt_inputs sample_parent = []" "bt_inputs sample_child = [''0107'']"
  "\<not> bt_isTxidOnly sample_parent" "\<not> bt_isTxidOnly sample_child" "bf_atomic sample_beef = None"
  by (simp_all add: sample_parent_def sample_child_def sample_beef_def new_beef_def new_raw_beef_tx_def bt_isTxidOnly_def)

lemma sample_bump: "bf_bumps sample_beef = [\<lparr>mp_height = 5, mp_path =
       [[\<lparr>lf_offset = 0, lf_hash = Some ''0107'', lf_txid = Some True, lf_duplicate = None\<rparr>]]\<rparr>]"
  by (simp add: sample_beef_def)

lemma sample_verifies: "fst (beef_verify sample_hash sample_tracker False sample_beef) = Inr True"
  by (simp add: beef_verify_def verifyValid_def sample_sort sample_parts sample_bump hasDuplicateTxids_def txidOnly_txids_def
      sample_txid verifyBumpIndexLeaves_def hasMatchingBump_def is_safe_integer_def level_zero_def
      confirmComputedRoot_def computeRoot_def root_of_txid_def indexOf_def assertSingleTransactionOffset_def
      is_single_transaction_def nonempty_hash_def add_key_def height_keys_def sample_tracker_def)

lemma beef_verify_sound_witness:
  "list_all (\<lambda>t. confirmed sample_hash sample_tracker sample_beef (bt_txid sample_hash t)) (bf_txs sample_beef)"
proof -
  have "entries_flagged sample_hash sample_beef" by code_simp
  from beef_verify_sound[OF _ this sample_verifies] show ?thesis by (simp add: list_all_iff)
qed

lemma topoSort_is_rescan_witness:
  "topoSort sample_hash [sample_child] [''0107''] = ([''0107'', ''0207''], [sample_child], [])"
proof -
  have "rescan sample_hash [''0107''] [sample_child] = ([sample_child], [])" by code_simp
  then show ?thesis
    using topoSort_is_rescan[of sample_hash "[sample_child]" "[''0107'']"]
    by (simp add: sample_txid add_key_def)
qed

lemma sortTxs_orders_witness:
  "bf_txs (snd (sortTxs sample_hash sample_beef)) = [mark sample_parent, mark sample_child] \<and>
   grounded sample_hash (bf_txs sample_beef) ''0207''"
proof -
  have "distinct (map (bt_txid sample_hash) (bf_txs sample_beef))" "proofs_end_search (bf_txs sample_beef)"
    by code_simp+
  from sortTxs_orders[OF this sample_sort] have
    "''0207'' \<in> set [''0107'', ''0207''] \<longleftrightarrow> grounded sample_hash (bf_txs sample_beef) ''0207''" by (simp only: sort_result.simps)
  then show ?thesis by (simp add: sample_sort)
qed

lemma atomic_form_is_the_closure_witness:
  "\<exists>s. getBeefForAtomic sample_hash sample_beef ''0207'' = Inr s \<and>
    list_ex (copied_entry sample_hash sample_beef s sample_child) (bf_txs s)"
proof -
  have p: "txPositionIndex sample_hash (bf_txs sample_beef) ''0207'' = Some 0" by code_simp
  then obtain s where s: "getBeefForAtomic sample_hash sample_beef ''0207'' = Inr s"
    by (simp add: getBeefForAtomic_def)
  have "length (bf_bumps sample_beef) \<le> max_safe_integer" by (simp add: sample_beef_def new_beef_def)
  from atomic_form_is_the_closure[OF s this] p depends_on.itself[of sample_hash sample_beef 0]
  show ?thesis using s by (auto simp: sample_beef_def)
qed

end
