(* ===== verification/Beef_Codec.thy ===== *)
theory Beef_Codec
  imports Beef_Verify Transaction_Codec
begin

text \<open>
  The binary format of a BEEF: the scan over a raw transaction agrees with the transaction
  parser, every entry form of both versions is read back from its bytes, and a whole container
  survives its writer and the strict reader, with and without the atomic prefix.
\<close>

subsection \<open>The scan of a raw transaction\<close>

lemma parses_skip: "n = int (length bs) \<Longrightarrow> parses (skipBytes n) () bs"
proof (rule parsesI)
  fix r rest
  assume "n = int (length bs)" "wf_reader r" "drop (pos r) (bin r) = bs @ rest" "pos r + length bs \<le> length (bin r)"
  then show "skipBytes n r = (Inr (), advance (length bs) r)"
    by (auto simp: skipBytes_def is_safe_integer_def wf_reader_def)
qed

definition source_txid :: "tx_input \<Rightarrow> string" where
  "source_txid i = (case i of TxInput src txid idx unlocking sq \<Rightarrow> the txid)"

lemma parses_scan_input:
  assumes "valid_input i"
  shows "parses scan_input (source_txid i) (input_bytes i)"
proof -
  obtain d idx b sq where i: "i = TxInput None (Some (toHex d)) idx (Some b) (Some sq)"
    and v: "length d = 32" "length b \<le> max_safe_integer"
    using assms by (cases i) auto
  have r: "parses (readReverse 32) d (rev d)"
    using parses_readReverse[of 32 "rev d"] v(1) by simp
  have s: "parses (skipBytes (int (length b) + 4)) () (b @ le_bytes 4 (nat sq))" by (rule parses_skip) simp
  have q: "parses (skipBytes 4) () (le_bytes 4 (nat idx))" by (rule parses_skip) simp
  have "parses scan_input (toHex d)
      (rev d @ le_bytes 4 (nat idx) @ compact_size (length b) @ (b @ le_bytes 4 (nat sq)) @ [])"
    unfolding scan_input_def
    by (intro parses_bnd[OF r] parses_thn[OF q] parses_bnd[OF parses_length[OF v(2)]] parses_thn[OF s] parses_ret)
  then show ?thesis by (simp add: i source_txid_def hex_pairs_toHex)
qed

lemma parses_scan_output:
  assumes "valid_output o1"
  shows "parses scan_output () (output_bytes o1)"
proof -
  have q: "parses (skipBytes 8) () (le_bytes 8 n)" for n by (rule parses_skip) simp
  have "length (lockingScript o1) \<le> max_safe_integer" using assms by (simp add: valid_output_def)
  then show ?thesis unfolding scan_output_def output_bytes_def
    by (intro parses_thn[OF q] parses_bnd[OF parses_length] parses_skip refl)
qed

definition input_txids :: "transaction \<Rightarrow> string list" where
  "input_txids t = foldl add_key [] (map source_txid (tx_inputs t))"

lemma parses_times:
  "(\<And>x. x \<in> set xs \<Longrightarrow> parses m (f x) (put x)) \<Longrightarrow>
   parses (rd_times (length xs) m) (map f xs) (concat (map put xs))"
proof (induction xs)
  case (Cons x xs)
  then have "parses m (f x) (put x)" "parses (rd_times (length xs) m) (map f xs) (concat (map put xs))" by auto
  from parses_bnd[OF this(1), of "\<lambda>y. bnd (rd_times (length xs) m) (\<lambda>ys. ret (y # ys))", OF parses_bnd_ret[OF this(2), of "\<lambda>ys. f x # ys"]]
  show ?case by (simp only: length_Cons list.map rd_times.simps concat.simps)
qed (simp add: parses_ret)

lemma parses_scan_body:
  assumes "plain_tx t"
  shows "parses scan_body (input_txids t) (tx_bytes t)"
proof -
  obtain os where os: "tx_outputs t = map Some os" "list_all valid_output os"
    using assms by (auto simp: plain_tx_def)
  have v: "list_all valid_input (tx_inputs t)" "length (tx_inputs t) \<le> max_safe_integer"
    "length os \<le> max_safe_integer"
    using assms os(1) by (auto simp: plain_tx_def)
  have ins: "parses (rd_times (nat (int (length (tx_inputs t)))) scan_input) (map source_txid (tx_inputs t))
      (concat (map input_bytes (tx_inputs t)))"
    using v(1) parses_times[of "tx_inputs t" scan_input source_txid input_bytes] parses_scan_input by (simp add: list_all_iff)
  have outs: "parses (rd_times (nat (int (length os))) scan_output) (map (\<lambda>o1. ()) os) (concat (map output_bytes os))"
    using os(2) parses_times[of os scan_output "\<lambda>o1. ()" output_bytes] parses_scan_output by (simp add: list_all_iff)
  have q: "parses (skipBytes 4) () (le_bytes 4 n)" for n by (rule parses_skip) simp
  have "parses scan_body (foldl add_key [] (map source_txid (tx_inputs t)))
     (le_bytes 4 (nat (tx_version t)) @ compact_size (length (tx_inputs t)) @ concat (map input_bytes (tx_inputs t))
      @ compact_size (length os) @ concat (map output_bytes os) @ le_bytes 4 (nat (tx_lockTime t)) @ [])"
    unfolding scan_body_def
    by (intro parses_thn[OF q] parses_bnd[OF parses_length[OF v(2)]] parses_bnd[OF ins]
        parses_bnd[OF parses_length[OF v(3)]] parses_thn[OF outs] parses_ret)
  then show ?thesis by (simp add: tx_bytes_def os(1) comp_def input_txids_def)
qed

lemma parses_scanRaw:
  assumes "plain_tx t"
  shows "parses scanRawTransaction (tx_bytes t, input_txids t) (tx_bytes t)"
proof (rule parsesI)
  fix r rest
  assume r: "wf_reader r" "drop (pos r) (bin r) = tx_bytes t @ rest"
  from parsesD[OF parses_scan_body[OF assms] r] r(2)
  show "scanRawTransaction r = (Inr (tx_bytes t, input_txids t), advance (length (tx_bytes t)) r)"
    by (simp add: scanRawTransaction_def bnd_def advance_def)
qed

subsection \<open>Entries\<close>

definition optional_index :: "int option \<Rightarrow> bool" where
  "optional_index n \<longleftrightarrow> (case n of None \<Rightarrow> True | Some k \<Rightarrow> admissible_offset k)"

text \<open>The entries that the reader makes: a transaction with the txids it spends, and with or without
  a bump index; in the second version also a bare txid.\<close>

definition valid_entry :: "int \<Rightarrow> beef_tx \<Rightarrow> bool" where
  "valid_entry version t \<longleftrightarrow>
     (\<exists>tx n. plain_tx tx \<and> optional_index n \<and> t = new_raw_beef_tx (tx_bytes tx) n (input_txids tx)) \<or>
     (version = BEEF_V2 \<and> (\<exists>x. well_formed_hash x \<and> t = beef_tx_fromTxid x None))"

definition index_bytes :: "int option \<Rightarrow> bytes" where
  "index_bytes n = (case n of None \<Rightarrow> [0] | Some k \<Rightarrow> 1 # compact_size (nat k))"

definition entry_bytes :: "int \<Rightarrow> beef_tx \<Rightarrow> bytes" where
  "entry_bytes version t =
     (case bt_data t of
        TxidOnly x \<Rightarrow> 2 # rev (hex_pairs x)
      | RawTx raw \<Rightarrow> if version = BEEF_V2 then index_bytes (bt_bump t) @ raw else raw @ index_bytes (bt_bump t))"

lemma parses_optional_index:
  assumes "admissible_offset k"
  shows "parses (bnd (readVarIntNumStrict False) (\<lambda>n. ret (Some n))) (Some k) (compact_size (nat k))"
proof -
  have "parses (readVarIntNumStrict False) k (compact_size (nat k))"
    using assms by (intro strict_varint.get_put) (simp add: admissible_offset_range)
  from parses_bnd_ret[OF this] show ?thesis .
qed

lemma parses_pure: "parses (k x) y cs \<Longrightarrow> parses (bnd (ret x) k) y cs"
  by (simp add: bnd_def ret_def parses_def)

lemma parses_flag: "parses (k b) y cs \<Longrightarrow> parses (bnd readUInt8 k) y (b # cs)"
  by (rule parses_bnd_Cons[OF parses_readUInt8])

lemma parses_scan_then:
  "plain_tx tx \<Longrightarrow> parses (k (tx_bytes tx) (input_txids tx)) y cs \<Longrightarrow>
   parses (bnd scanRawTransaction (\<lambda>(raw, txids). k raw txids)) y (tx_bytes tx @ cs)"
  by (rule parses_bnd[OF parses_scanRaw]) simp_all

lemma parses_entry_raw:
  assumes "plain_tx tx" "optional_index n"
  shows "parses (beef_tx_fromReader version) (new_raw_beef_tx (tx_bytes tx) n (input_txids tx))
    (entry_bytes version (new_raw_beef_tx (tx_bytes tx) n (input_txids tx)))"
proof -
  let ?t = "new_raw_beef_tx (tx_bytes tx) n (input_txids tx)"
  have t: "bt_data ?t = RawTx (tx_bytes tx)" "bt_bump ?t = n" by (simp_all add: new_raw_beef_tx_def)
  show ?thesis
  proof (cases "version = BEEF_V2")
    case True
    have scan: "parses (bnd scanRawTransaction (\<lambda>(raw, txids). ret (new_raw_beef_tx raw n txids))) ?t (tx_bytes tx)"
      using parses_scan_then[OF assms(1), of "\<lambda>raw txids. ret (new_raw_beef_tx raw n txids)" ?t "[]"] by (simp add: parses_ret)
    show ?thesis
    proof (cases n)
      case None
      from parses_pure[of "\<lambda>bump. bnd scanRawTransaction (\<lambda>(raw, txids). ret (new_raw_beef_tx raw bump txids))" n, OF scan]
      have "parses (beef_tx_fromReader BEEF_V2) ?t (0 # tx_bytes tx)"
        unfolding beef_tx_fromReader_def if_P[OF refl] by (intro parses_flag) (simp add: None)
      then show ?thesis using True by (simp add: entry_bytes_def t[unfolded None] None index_bytes_def)
    next
      case (Some k)
      from parses_optional_index[of k] assms(2) Some
      have "parses (bnd (readVarIntNumStrict False) (\<lambda>n. ret (Some n))) n (compact_size (nat k))"
        by (simp add: optional_index_def)
      from parses_bnd[OF this, of "\<lambda>bump. bnd scanRawTransaction (\<lambda>(raw, txids). ret (new_raw_beef_tx raw bump txids))", OF scan]
      have "parses (bnd readUInt8 (\<lambda>format.
          if format = TXID_ONLY then bnd (readReverse 32) (\<lambda>bs. ret (beef_tx_fromTxid (toHex bs) None))
          else
            bnd (if format = RAWTX_AND_BUMP_INDEX
                 then bnd (readVarIntNumStrict False) (\<lambda>n. ret (Some n)) else ret None) (\<lambda>bump.
            bnd scanRawTransaction (\<lambda>(raw, txids). ret (new_raw_beef_tx raw bump txids)))))
         ?t (1 # compact_size (nat k) @ tx_bytes tx)" by (intro parses_flag) simp
      with True show ?thesis by (simp add: beef_tx_fromReader_def entry_bytes_def t[unfolded Some] Some index_bytes_def)
    qed
  next
    case False
    have idx: "parses (bnd readUInt8 (\<lambda>b.
        bnd (if b = 0 then ret None else bnd (readVarIntNumStrict False) (\<lambda>n. ret (Some n))) (\<lambda>bump.
          ret (new_raw_beef_tx (tx_bytes tx) bump (input_txids tx))))) ?t (index_bytes n)"
    proof (cases n)
      case None
      have "parses (bnd (ret None) (\<lambda>bump. ret (new_raw_beef_tx (tx_bytes tx) bump (input_txids tx)))) ?t []"
        unfolding None by (rule parses_bnd_ret[OF parses_ret])
      then show ?thesis unfolding index_bytes_def None option.case by (intro parses_flag) simp
    next
      case (Some k)
      from parses_optional_index[of k] assms(2) Some
      have "parses (bnd (readVarIntNumStrict False) (\<lambda>n. ret (Some n))) n (compact_size (nat k))"
        by (simp add: optional_index_def)
      from parses_bnd_ret[OF this, of "\<lambda>bump. new_raw_beef_tx (tx_bytes tx) bump (input_txids tx)"]
      show ?thesis unfolding index_bytes_def Some option.case by (intro parses_flag) simp
    qed
    from parses_scan_then[OF assms(1), of "\<lambda>raw txids. bnd readUInt8 (\<lambda>b.
        bnd (if b = 0 then ret None else bnd (readVarIntNumStrict False) (\<lambda>n. ret (Some n))) (\<lambda>bump.
          ret (new_raw_beef_tx raw bump txids)))", OF idx] False
    show ?thesis by (simp add: beef_tx_fromReader_def entry_bytes_def t)
  qed
qed

lemma parses_entry:
  assumes "valid_entry version t"
  shows "parses (beef_tx_fromReader version) t (entry_bytes version t)"
proof -
  consider tx n where "plain_tx tx" "optional_index n" "t = new_raw_beef_tx (tx_bytes tx) n (input_txids tx)"
    | x where "version = BEEF_V2" "well_formed_hash x" "t = beef_tx_fromTxid x None"
    using assms by (auto simp: valid_entry_def)
  then show ?thesis
  proof cases
    case 1
    from parses_entry_raw[OF 1(1,2)] show ?thesis by (simp add: 1(3))
  next
    case 2
    note x = well_formed_hash_bytes[OF 2(2)]
    have "parses (readReverse 32) (hex_pairs x) (rev (hex_pairs x))"
      using parses_readReverse[of 32 "rev (hex_pairs x)"] x(2) by simp
    from parses_bnd_ret[OF this, of "\<lambda>bs. beef_tx_fromTxid (toHex bs) None"]
    have "parses (beef_tx_fromReader BEEF_V2) (beef_tx_fromTxid x None) (2 # rev (hex_pairs x))"
      unfolding beef_tx_fromReader_def if_P[OF refl] x(3) by (intro parses_flag) simp
    then show ?thesis by (simp add: 2 entry_bytes_def beef_tx_fromTxid_def)
  qed
qed

lemma appends_index:
  assumes "optional_index n"
  shows "appends (case n of None \<Rightarrow> writeUInt8 0 | Some k \<Rightarrow> thn (writeUInt8 1) (writeVarIntNum k)) (index_bytes n)"
proof (cases n)
  case None
  with appends_writeUInt8[of 0] show ?thesis by (simp add: index_bytes_def)
next
  case (Some k)
  have "appends (writeVarIntNum k) (compact_size (nat k))"
    using assms Some by (intro strict_varint.write_put) (simp add: optional_index_def admissible_offset_range)
  from appends_thn[OF appends_writeUInt8[of 1] this] Some show ?thesis by (simp add: index_bytes_def)
qed

lemma appends_entry:
  assumes "valid_entry version t"
  shows "appends (beef_tx_toWriter version t) (entry_bytes version t)"
proof -
  consider tx n where "optional_index n" "t = new_raw_beef_tx (tx_bytes tx) n (input_txids tx)"
    | x where "version = BEEF_V2" "well_formed_hash x" "t = beef_tx_fromTxid x None"
    using assms by (auto simp: valid_entry_def)
  then show ?thesis
  proof cases
    case 1
    have t: "bt_data t = RawTx (tx_bytes tx)" "bt_bump t = n" by (simp_all add: 1 new_raw_beef_tx_def)
    have raw: "appends (write_raw t) (tx_bytes tx)" by (simp add: write_raw_def t appends_write)
    show ?thesis
    proof (cases "version = BEEF_V2")
      case False
      with appends_thn[OF raw appends_index[OF 1(1)]] show ?thesis
        by (simp add: beef_tx_toWriter_def entry_bytes_def t)
    next
      case True
      have "appends (case n of Some k \<Rightarrow> thn (writeUInt8 1) (thn (writeVarIntNum k) (write_raw t))
          | None \<Rightarrow> thn (writeUInt8 0) (write_raw t)) (index_bytes n @ tx_bytes tx)"
      proof (cases n)
        case None
        with appends_thn[OF appends_writeUInt8[of 0] raw] show ?thesis by (simp add: index_bytes_def)
      next
        case (Some k)
        have "appends (writeVarIntNum k) (compact_size (nat k))"
          using 1(1) Some by (intro strict_varint.write_put) (simp add: optional_index_def admissible_offset_range)
        from appends_thn[OF appends_writeUInt8[of 1] appends_thn[OF this raw]] Some show ?thesis by (simp add: index_bytes_def)
      qed
      with True show ?thesis by (simp add: beef_tx_toWriter_def entry_bytes_def t)
    qed
  next
    case 2
    have "appends (bnd (lift_result (hexToArray x)) writeReverse) (rev (hex_pairs x))"
      by (rule appends_lift[OF well_formed_hash_bytes(1)[OF 2(2)] appends_writeReverse])
    from appends_thn[OF appends_writeUInt8[of 2] this] show ?thesis
      by (simp add: 2 beef_tx_toWriter_def entry_bytes_def beef_tx_fromTxid_def)
  qed
qed

interpretation entry_codec: stream_codec "entry_bytes version" "beef_tx_fromReader version" "valid_entry version"
  "beef_tx_toWriter version" for version
  by unfold_locales (simp_all only: parses_entry appends_entry)

subsection \<open>The container\<close>

text \<open>What a container must hold to be written and read back.\<close>

definition valid_bump :: "(bytes \<Rightarrow> bytes) \<Rightarrow> merkle_path \<Rightarrow> bool" where
  "valid_bump H p \<longleftrightarrow> new_MerklePath H (mp_height p) (mp_path p) False True = Inr p \<and>
     list_all valid_level (mp_path p) \<and> admissible_offset (mp_height p)"

definition valid_beef :: "(bytes \<Rightarrow> bytes) \<Rightarrow> beef \<Rightarrow> bool" where
  "valid_beef H b \<longleftrightarrow> bf_version b \<in> {BEEF_V1, BEEF_V2} \<and>
     list_all (valid_bump H) (bf_bumps b) \<and> length (bf_bumps b) \<le> max_safe_integer \<and>
     list_all (valid_entry (bf_version b)) (bf_txs b) \<and> length (bf_txs b) \<le> max_safe_integer"

definition body_bytes :: "beef \<Rightarrow> bytes" where
  "body_bytes b = compact_size (length (bf_bumps b)) @ concat (map path_bytes (bf_bumps b)) @
     compact_size (length (bf_txs b)) @ concat (map (entry_bytes (bf_version b)) (bf_txs b))"

definition beef_bytes :: "beef \<Rightarrow> bytes" where
  "beef_bytes b = le_bytes 4 (nat (bf_version b)) @ body_bytes b"

definition body_reader :: "(bytes \<Rightarrow> bytes) \<Rightarrow> int \<Rightarrow> (merkle_path list \<times> beef_tx list) rd" where
  "body_reader H version =
     bnd (readVarIntNumStrict False) (\<lambda>n.
     bnd (rd_times (nat n) (mp_fromReader H False True)) (\<lambda>bumps.
     bnd (readVarIntNumStrict False) (\<lambda>m.
     bnd (rd_times (nat m) (beef_tx_fromReader version)) (\<lambda>txs. ret (bumps, txs)))))"

lemma parses_body:
  assumes "valid_beef H b"
  shows "parses (body_reader H (bf_version b)) (bf_bumps b, bf_txs b) (body_bytes b)"
proof -
  have n: "length (bf_bumps b) \<le> max_safe_integer" "length (bf_txs b) \<le> max_safe_integer"
    using assms by (simp_all add: valid_beef_def)
  have bumps: "parses (rd_times (nat (int (length (bf_bumps b)))) (mp_fromReader H False True)) (bf_bumps b)
      (concat (map path_bytes (bf_bumps b)))"
    using assms parses_times[of "bf_bumps b" "mp_fromReader H False True" id path_bytes] parses_fromReader
    by (simp add: valid_beef_def list_all_iff valid_bump_def)
  have txs: "parses (rd_times (nat (int (length (bf_txs b)))) (beef_tx_fromReader (bf_version b))) (bf_txs b)
      (concat (map (entry_bytes (bf_version b)) (bf_txs b)))"
    using entry_codec.get_put_list[of "bf_version b" "bf_txs b"] assms by (simp add: valid_beef_def)
  show ?thesis
    unfolding body_reader_def body_bytes_def
    by (intro parses_bnd[OF parses_length[OF n(1)]] parses_bnd[OF bumps] parses_bnd[OF parses_length[OF n(2)]]
        parses_bnd_nil[OF txs] parses_ret)
qed

text \<open>The reader after its prefix: the version has been read, the container began at \<open>start\<close>.\<close>

definition tail_reader :: "(bytes \<Rightarrow> bytes) \<Rightarrow> string option \<times> nat \<times> int \<Rightarrow> beef rd" where
  "tail_reader H = (\<lambda>(atomicTxid, beefStart, version).
     bnd (body_reader H version) (\<lambda>(bumps, txs).
     bnd (get (\<lambda>r. take (pos r - beefStart) (drop beefStart (bin r)))) (\<lambda>raw.
       ret \<lparr>bf_version = version, bf_bumps = bumps, bf_txs = txs, bf_atomic = atomicTxid,
            bf_raw = Some raw, bf_needs_sort = True\<rparr>)))"

definition prefix_reader :: "(string option \<times> nat \<times> int) rd" where
  "prefix_reader = bnd (get pos) (\<lambda>serializedStart. bnd readUInt32LE (\<lambda>v0.
     if v0 = ATOMIC_BEEF then
       bnd (readReverse 32) (\<lambda>txid. bnd (get pos) (\<lambda>start.
       bnd readUInt32LE (\<lambda>v. ret (Some (toHex txid), start, v))))
     else ret (None, serializedStart, v0)))"

lemma tail_reader_eq: "tail_reader H (atomicTxid, beefStart, version) =
     bnd (readVarIntNumStrict False) (\<lambda>n.
     bnd (rd_times (nat n) (mp_fromReader H False True)) (\<lambda>bumps.
     bnd (readVarIntNumStrict False) (\<lambda>m.
     bnd (rd_times (nat m) (beef_tx_fromReader version)) (\<lambda>txs.
     bnd (get (\<lambda>r. take (pos r - beefStart) (drop beefStart (bin r)))) (\<lambda>raw.
       ret \<lparr>bf_version = version, bf_bumps = bumps, bf_txs = txs, bf_atomic = atomicTxid,
            bf_raw = Some raw, bf_needs_sort = True\<rparr>)))))"
  by (simp only: tail_reader_def body_reader_def bnd_assoc bnd_ret prod.case)

lemma beef_fromReader_known:
  assumes "prefix_reader r = (Inr (atomicTxid, start, version), r')" "version \<in> {BEEF_V1, BEEF_V2}"
  shows "beef_fromReader H r = tail_reader H (atomicTxid, start, version) r'"
proof -
  have "beef_fromReader H = bnd prefix_reader (\<lambda>(atomicTxid, beefStart, version).
       if version \<noteq> BEEF_V1 \<and> version \<noteq> BEEF_V2
       then throw (JsError (''Serialized BEEF must start with '' @ decimal BEEF_V1 @ '' or ''
              @ decimal BEEF_V2 @ '' but starts with '' @ decimal version))
       else tail_reader H (atomicTxid, beefStart, version))"
    by (simp only: beef_fromReader_def prefix_reader_def bnd_assoc tail_reader_eq)
  with assms show ?thesis by (auto simp: bnd_ok)
qed

lemma tail_reads:
  assumes "valid_beef H b" "wf_reader r" "drop (pos r) (bin r) = body_bytes b"
    and "drop start (bin r) = raw"
  shows "tail_reader H (atomicTxid, start, bf_version b) r =
    (Inr (b\<lparr>bf_atomic := atomicTxid, bf_raw := Some raw, bf_needs_sort := True\<rparr>), \<lparr>bin = bin r, pos = length (bin r)\<rparr>)"
proof -
  have d: "drop (pos r) (bin r) = body_bytes b @ []" using assms(3) by simp
  have "pos r + length (body_bytes b) = length (bin r)"
    using assms(2,3) by (metis add_diff_inverse_nat length_drop not_less wf_reader_def)
  moreover have "length raw = length (bin r) - start" using assms(4) by auto
  ultimately show ?thesis using parsesD[OF parses_body[OF assms(1)] assms(2) d] assms(4)
    by (cases b) (simp add: tail_reader_def bnd_def advance_def)
qed

lemma beef_toWriter_bytes:
  assumes "valid_beef H b"
  shows "beef_toWriter b (new_writer []) = (Inr (), w) \<Longrightarrow> wr_toArray w = beef_bytes b"
    and "\<exists>w. beef_toWriter b (new_writer []) = (Inr (), w)"
proof -
  have v: "0 \<le> bf_version b" using assms by (auto simp: valid_beef_def)
  have "appends (beef_toWriter b) (beef_bytes b)"
    unfolding beef_toWriter_def beef_bytes_def body_bytes_def
  proof (intro appends_intros appends_write_each appends_thn)
    show "appends (writeUInt32LE (bf_version b)) (le_bytes 4 (nat (bf_version b)))"
      using appends_writeUInt32LE[of "nat (bf_version b)"] v by simp
    show "appends (mp_toWriter p) (path_bytes p)" if "p \<in> set (bf_bumps b)" for p
    proof -
      have "list_all valid_level (mp_path p)" "admissible_offset (mp_height p)"
        using assms that by (auto simp: valid_beef_def valid_bump_def list_all_iff)
      then show ?thesis unfolding mp_toWriter_def path_bytes_def
        by (intro appends_intros appends_write_each strict_varint.write_put level_codec.write_put)
          (auto simp: list_all_iff admissible_offset_range)
    qed
    show "appends (beef_tx_toWriter (bf_version b) t) (entry_bytes (bf_version b) t)" if "t \<in> set (bf_txs b)" for t
      using assms that by (intro appends_entry) (auto simp: valid_beef_def list_all_iff)
  qed (use assms in \<open>auto simp: valid_beef_def\<close>)
  then show "beef_toWriter b (new_writer []) = (Inr (), w) \<Longrightarrow> wr_toArray w = beef_bytes b"
    and "\<exists>w. beef_toWriter b (new_writer []) = (Inr (), w)"
    using appends_new[of "beef_toWriter b" "beef_bytes b"] by (auto, cases "beef_toWriter b (new_writer [])", auto)
qed

lemma version_bytes: "version \<in> {BEEF_V1, BEEF_V2, ATOMIC_BEEF} \<Longrightarrow> parses readUInt32LE version (le_bytes 4 (nat version))"
  by (rule parses_u32) auto

lemma strict_reads:
  assumes "valid_beef H b" "length bs \<le> max_safe_integer"
    and "bs = beef_bytes b \<and> atomic = None \<or>
      bs = le_bytes 4 (nat ATOMIC_BEEF) @ rev subj @ beef_bytes b \<and> length subj = 32 \<and> atomic = Some (toHex subj)"
  shows "beef_fromBinaryStrict H bs = Inr (b\<lparr>bf_atomic := atomic, bf_raw := Some (beef_bytes b), bf_needs_sort := True\<rparr>)"
proof -
  let ?r = "\<lparr>bin = bs, pos = 0\<rparr>"
  have r: "new_reader bs 0 = Inr ?r" "wf_reader ?r" using new_reader_ok[OF assms(2)] by simp_all
  have ver: "bf_version b \<in> {BEEF_V1, BEEF_V2}" "bf_version b \<noteq> ATOMIC_BEEF" using assms(1) by (auto simp: valid_beef_def)
  note pv = version_bytes[of "bf_version b"]
  have "\<exists>start p. prefix_reader ?r = (Inr (atomic, start, bf_version b), \<lparr>bin = bs, pos = p\<rparr>) \<and>
     drop p bs = body_bytes b \<and> drop start bs = beef_bytes b \<and> p \<le> length bs"
    using assms(3)
  proof (elim disjE conjE)
    assume bs: "bs = beef_bytes b" "atomic = None"
    have "readUInt32LE ?r = (Inr (bf_version b), advance 4 ?r)"
      using parsesD[OF pv r(2), of "body_bytes b"] ver by (auto simp: bs beef_bytes_def)
    then have "prefix_reader ?r = (Inr (None, 0, bf_version b), \<lparr>bin = bs, pos = 4\<rparr>)"
      using ver(2) by (simp add: prefix_reader_def bnd_def advance_def)
    then show ?thesis by (intro exI[of _ 0] exI[of _ 4]) (simp add: bs beef_bytes_def)
  next
    assume bs: "bs = le_bytes 4 (nat ATOMIC_BEEF) @ rev subj @ beef_bytes b" "length subj = 32" "atomic = Some (toHex subj)"
    let ?r1 = "advance 4 ?r" and ?r2 = "advance 36 ?r"
    have w: "wf_reader ?r1" "wf_reader ?r2" using r(2) bs by (auto simp: wf_reader_def beef_bytes_def)
    have "readUInt32LE ?r = (Inr ATOMIC_BEEF, ?r1)"
      using parsesD[OF version_bytes[of ATOMIC_BEEF] r(2), of "rev subj @ beef_bytes b"] by (simp add: bs)
    moreover have "parses (readReverse 32) subj (rev subj)" using parses_readReverse[of 32 "rev subj"] bs(2) by simp
    from parsesD[OF this w(1), of "beef_bytes b"] have "readReverse 32 ?r1 = (Inr subj, ?r2)"
      by (simp add: bs advance_def)
    moreover have "readUInt32LE ?r2 = (Inr (bf_version b), advance 4 ?r2)"
      using parsesD[OF pv w(2), of "body_bytes b"] ver by (auto simp: bs beef_bytes_def)
    ultimately have "prefix_reader ?r = (Inr (Some (toHex subj), 36, bf_version b), \<lparr>bin = bs, pos = 40\<rparr>)"
      by (simp add: prefix_reader_def bnd_def advance_def)
    then show ?thesis by (intro exI[of _ 36] exI[of _ 40]) (simp add: bs beef_bytes_def)
  qed
  then obtain start p where p: "prefix_reader ?r = (Inr (atomic, start, bf_version b), \<lparr>bin = bs, pos = p\<rparr>)"
    "drop p bs = body_bytes b" "drop start bs = beef_bytes b" "p \<le> length bs" by blast
  have w: "wf_reader \<lparr>bin = bs, pos = p\<rparr>" using p(4) assms(2) by (simp add: wf_reader_def)
  from beef_fromReader_known[OF p(1) ver(1), of H] tail_reads[OF assms(1) w, of start "beef_bytes b" atomic] p(2,3)
  show ?thesis by (simp add: beef_fromBinaryStrict_def r(1) eof_def)
qed

text \<open>C21: The binary format of a BEEF is read back. For a container of either version whose bumps are
  constructed paths and whose entries are serialised transactions (or bare txids in the second
  version), the writer succeeds, and the strict reader gives the container back from the written
  bytes, which it keeps; behind the atomic prefix of a 32-byte txid it also reports that txid.\<close>

theorem beef_binary_roundtrip:
  assumes "valid_beef H b" "length (beef_bytes b) + 36 \<le> max_safe_integer" "length subj = 32"
  shows "\<exists>w. beef_toWriter b (new_writer []) = (Inr (), w) \<and>
    beef_fromBinaryStrict H (wr_toArray w) =
      Inr (b\<lparr>bf_atomic := None, bf_raw := Some (wr_toArray w), bf_needs_sort := True\<rparr>) \<and>
    beef_fromBinaryStrict H (le_bytes 4 (nat ATOMIC_BEEF) @ rev subj @ wr_toArray w) =
      Inr (b\<lparr>bf_atomic := Some (toHex subj), bf_raw := Some (wr_toArray w), bf_needs_sort := True\<rparr>)"
proof -
  obtain w where w: "beef_toWriter b (new_writer []) = (Inr (), w)" using beef_toWriter_bytes(2)[OF assms(1)] by blast
  note bytes = beef_toWriter_bytes(1)[OF assms(1) w]
  have "length (le_bytes 4 (nat ATOMIC_BEEF) @ rev subj @ beef_bytes b) \<le> max_safe_integer" using assms(2,3) by simp
  from strict_reads[OF assms(1) this] strict_reads[OF assms(1), of "beef_bytes b" None] assms(2,3) w bytes
  show ?thesis by auto
qed

lemma beef_binary_roundtrip_witness:
  "let b = (new_beef BEEF_V2)\<lparr>bf_txs := [new_raw_beef_tx (tx_bytes (sample_tx None)) None (input_txids (sample_tx None)),
       beef_tx_fromTxid (toHex (replicate 32 7)) None]\<rparr> in
   \<exists>w. beef_toWriter b (new_writer []) = (Inr (), w) \<and>
     beef_fromBinaryStrict id (wr_toArray w) = Inr (b\<lparr>bf_raw := Some (wr_toArray w)\<rparr>)"
proof -
  let ?b = "(new_beef BEEF_V2)\<lparr>bf_txs := [new_raw_beef_tx (tx_bytes (sample_tx None)) None (input_txids (sample_tx None)),
       beef_tx_fromTxid (toHex (replicate 32 7)) None]\<rparr>"
  have "well_formed_hash (toHex (replicate 32 7))"
    using well_formed_display[of "toHex (replicate 32 7)"] by (auto simp: display_def intro!: exI[of _ "replicate 32 7"])
  then have "valid_entry BEEF_V2 (beef_tx_fromTxid (toHex (replicate 32 7)) None)"
    unfolding valid_entry_def by blast
  moreover have "valid_entry BEEF_V2 (new_raw_beef_tx (tx_bytes (sample_tx None)) None (input_txids (sample_tx None)))"
    unfolding valid_entry_def
    by (intro disjI1 exI[of _ "sample_tx None"] exI[of _ None]) (simp add: plain_sample_tx optional_index_def)
  ultimately have v: "valid_beef id ?b" by (simp add: valid_beef_def new_beef_def)
  have l: "length (beef_bytes ?b) + 36 \<le> max_safe_integer" 
    by (simp add: beef_bytes_def body_bytes_def new_beef_def entry_bytes_def new_raw_beef_tx_def beef_tx_fromTxid_def
        index_bytes_def compact_size_def tx_bytes_def sample_tx_def output_bytes_def hex_pairs_toHex)
  from beef_binary_roundtrip[OF v l, of "replicate 32 0"] show ?thesis by (auto simp: Let_def new_beef_def)
qed

end
