(* ===== verification/Session_Manager.thy ===== *)
theory Session_Manager
  imports TS_Prelude "HOL-Library.AList"
begin

text \<open>
  The in-process store of authentication sessions, \<open>packages/sdk/src/auth/SessionManager.ts\<close>:
  sessions by nonce and by identity key, one-time message nonces, and the bounded window of
  initial-request nonces. A \<open>Map\<close> whose order the code uses is an association list in insertion
  order, any other one a function. The clock is an argument of each operation: the number that
  \<open>now()\<close> returns in it.
\<close>

subsection \<open>State\<close>

record peer_session =
  ps_isAuthenticated :: bool
  ps_sessionNonce :: "string option"
  ps_peerNonce :: "string option"
  ps_peerIdentityKey :: "string option"
  ps_lastUpdate :: int
  ps_certificatesRequired :: "bool option"
  ps_certificatesValidated :: "bool option"

record session_manager =
  sm_sessions :: "(string \<times> peer_session) list"
  sm_identities :: "string \<rightharpoonup> string list"
  sm_nonce_identity :: "string \<rightharpoonup> string"
  sm_consumed :: "string \<rightharpoonup> string list"
  sm_initial :: "(string \<times> int) list"
  sm_initial_keys :: "string \<rightharpoonup> string list"
  sm_maxSessions :: int
  sm_maxSessionIdleMs :: int
  sm_maxMessageNonces :: int
  sm_maxInitialNonces :: int
  sm_maxInitialPerIdentity :: int

definition positiveSafeInteger :: "int \<Rightarrow> string \<Rightarrow> js_error + int" where
  "positiveSafeInteger n name =
     (if \<not> is_safe_integer n \<or> n < 1
      then Inl (JsRangeError (name @ '' must be a positive safe integer'')) else Inr n)"

definition or_default :: "int option \<Rightarrow> int \<Rightarrow> int" where
  "or_default n d = (case n of None \<Rightarrow> d | Some k \<Rightarrow> k)"

definition new_SessionManager ::
    "int option \<Rightarrow> int option \<Rightarrow> int option \<Rightarrow> int option \<Rightarrow> int option \<Rightarrow> js_error + session_manager" where
  "new_SessionManager maxSessions maxSessionIdleMs maxMessageNonces maxInitialNonces maxPerIdentity =
     and_then (positiveSafeInteger (or_default maxSessions 10000) ''maxSessions'') (\<lambda>sessions.
     and_then (positiveSafeInteger (or_default maxSessionIdleMs (30 * 60 * 1000)) ''maxSessionIdleMs'') (\<lambda>idle.
     and_then (positiveSafeInteger (or_default maxMessageNonces 100000) ''maxMessageNoncesPerSession'') (\<lambda>nonces.
     and_then (positiveSafeInteger (or_default maxInitialNonces 100000) ''maxInitialRequestNonces'') (\<lambda>initial.
     and_then (positiveSafeInteger (or_default maxPerIdentity 256) ''maxInitialRequestNoncesPerIdentity'') (\<lambda>each.
       Inr \<lparr>sm_sessions = [], sm_identities = Map.empty, sm_nonce_identity = Map.empty,
            sm_consumed = Map.empty, sm_initial = [], sm_initial_keys = Map.empty,
            sm_maxSessions = sessions, sm_maxSessionIdleMs = idle, sm_maxMessageNonces = nonces,
            sm_maxInitialNonces = initial, sm_maxInitialPerIdentity = min initial each\<rparr>)))))"

definition currentTime :: "int \<Rightarrow> js_error + int" where
  "currentTime now =
     (if \<not> is_safe_integer now \<or> now < 0
      then Inl (JsTypeError ''now must return a non-negative safe integer'') else Inr now)"

definition isAuthorizationReady :: "peer_session \<Rightarrow> bool" where
  "isAuthorizationReady s \<longleftrightarrow> ps_isAuthenticated s \<and>
     (ps_certificatesRequired s \<noteq> Some True \<or> ps_certificatesValidated s = Some True)"

definition isExpired :: "session_manager \<Rightarrow> peer_session \<Rightarrow> int \<Rightarrow> bool" where
  "isExpired sm s now \<longleftrightarrow>
     \<not> is_safe_integer (ps_lastUpdate s) \<or> ps_lastUpdate s \<le> now - sm_maxSessionIdleMs sm"

subsection \<open>Removing sessions\<close>

text \<open>A set without members is removed from the map that holds it.\<close>

definition drop_member :: "(string \<rightharpoonup> string list) \<Rightarrow> string \<Rightarrow> string \<Rightarrow> (string \<rightharpoonup> string list)" where
  "drop_member m k x =
     (case m k of None \<Rightarrow> m
      | Some xs \<Rightarrow> m(k := (if removeAll x xs = [] then None else Some (removeAll x xs))))"

definition removeSessionIndexes :: "peer_session \<Rightarrow> session_manager \<Rightarrow> session_manager" where
  "removeSessionIndexes s sm =
     (case ps_sessionNonce s of None \<Rightarrow> sm
      | Some n \<Rightarrow>
          let sm' = sm\<lparr>sm_nonce_identity := (sm_nonce_identity sm)(n := None)\<rparr>
          in case sm_nonce_identity sm n of None \<Rightarrow> sm'
             | Some k \<Rightarrow> sm'\<lparr>sm_identities := drop_member (sm_identities sm) k n\<rparr>)"

definition removeSession :: "peer_session \<Rightarrow> session_manager \<Rightarrow> session_manager" where
  "removeSession s sm =
     (case ps_sessionNonce s of None \<Rightarrow> sm
      | Some n \<Rightarrow>
          let sm' = (case map_of (sm_sessions sm) n of None \<Rightarrow> sm | Some e \<Rightarrow> removeSessionIndexes e sm)
          in sm'\<lparr>sm_sessions := AList.delete n (sm_sessions sm'),
                sm_consumed := (sm_consumed sm')(n := None)\<rparr>)"

definition deleteInitialRequestNonce :: "string \<Rightarrow> string \<Rightarrow> session_manager \<Rightarrow> session_manager" where
  "deleteInitialRequestNonce identityKey key sm =
     sm\<lparr>sm_initial := AList.delete key (sm_initial sm),
        sm_initial_keys := drop_member (sm_initial_keys sm) identityKey key\<rparr>"

text \<open>The text before the first NUL of a claim's key, or nothing when there is none.\<close>

definition claim_identity :: "string \<Rightarrow> string" where
  "claim_identity key = (if CHR 0x00 \<in> set key then takeWhile (\<lambda>c. c \<noteq> CHR 0x00) key else [])"

definition pruneExpiredInitialRequestNonces :: "int \<Rightarrow> session_manager \<Rightarrow> session_manager" where
  "pruneExpiredInitialRequestNonces now sm =
     foldl (\<lambda>sm (key, claimedAt).
         if claimedAt \<le> now - sm_maxSessionIdleMs sm
         then deleteInitialRequestNonce (claim_identity key) key sm else sm)
       sm (sm_initial sm)"

definition pruneSessions :: "int \<Rightarrow> session_manager \<Rightarrow> session_manager" where
  "pruneSessions now sm =
     foldl (\<lambda>sm' (n, s). if isExpired sm s now then removeSession s sm' else sm') sm (sm_sessions sm)"

definition pruneExpiredSessions :: "int \<Rightarrow> session_manager \<Rightarrow> int \<times> session_manager" where
  "pruneExpiredSessions now sm =
     (int (length (filter (\<lambda>(n, s). isExpired sm s now) (sm_sessions sm))),
      pruneExpiredInitialRequestNonces now (pruneSessions now sm))"

text \<open>The first of the unauthenticated sessions with the least \<open>lastUpdate\<close>.\<close>

definition older :: "peer_session option \<Rightarrow> string \<times> peer_session \<Rightarrow> peer_session option" where
  "older oldest e =
     (if ps_isAuthenticated (snd e) then oldest
      else case oldest of None \<Rightarrow> Some (snd e)
           | Some o1 \<Rightarrow> if ps_lastUpdate (snd e) < ps_lastUpdate o1 then Some (snd e) else oldest)"

definition evictLeastRecentlyUsedSession :: "session_manager \<Rightarrow> (js_error + unit) \<times> session_manager" where
  "evictLeastRecentlyUsedSession sm =
     (case foldl older None (sm_sessions sm) of
        None \<Rightarrow> (Inl (JsError ''BRC-103 session capacity exhausted; authenticated sessions were preserved''), sm)
      | Some s \<Rightarrow> (Inr (), removeSession s sm))"

subsection \<open>Adding and updating\<close>

definition store_session :: "string \<Rightarrow> peer_session \<Rightarrow> session_manager \<Rightarrow> session_manager" where
  "store_session n s sm =
     (let sm' = sm\<lparr>sm_sessions := AList.update n s (sm_sessions sm)\<rparr>
      in case ps_peerIdentityKey s of None \<Rightarrow> sm'
         | Some k \<Rightarrow>
             sm'\<lparr>sm_identities := (sm_identities sm)(k \<mapsto>
                   add_key (case sm_identities sm k of None \<Rightarrow> [] | Some ns \<Rightarrow> ns) n),
                 sm_nonce_identity := (sm_nonce_identity sm)(n \<mapsto> k)\<rparr>)"

definition full :: "session_manager \<Rightarrow> bool" where
  "full sm \<longleftrightarrow> int (length (sm_sessions sm)) \<ge> sm_maxSessions sm"

definition addSession :: "int \<Rightarrow> peer_session \<Rightarrow> session_manager \<Rightarrow> (js_error + unit) \<times> session_manager" where
  "addSession time s sm =
     (case ps_sessionNonce s of
        None \<Rightarrow> (Inl (JsTypeError ''Invalid session: sessionNonce is required to add a session.''), sm)
      | Some n \<Rightarrow>
          if n = [] then (Inl (JsTypeError ''Invalid session: sessionNonce is required to add a session.''), sm)
          else if \<not> is_safe_integer (ps_lastUpdate s) \<or> ps_lastUpdate s < 0
          then (Inl (JsTypeError ''Invalid session: lastUpdate must be a non-negative safe integer.''), sm)
          else case currentTime time of Inl e \<Rightarrow> (Inl e, sm)
          | Inr now \<Rightarrow>
              if ps_lastUpdate s \<le> now - sm_maxSessionIdleMs sm
              then (Inl (JsError ''Cannot add an already-expired BRC-103 session.''), sm)
              else case map_of (sm_sessions sm) n of
                Some e \<Rightarrow> (Inr (), store_session n s (removeSessionIndexes e sm))
              | None \<Rightarrow>
                  let sm1 = (if full sm then snd (pruneExpiredSessions now sm) else sm)
                  in case (if full sm1 then evictLeastRecentlyUsedSession sm1 else (Inr (), sm1)) of
                       (Inl e, sm2) \<Rightarrow> (Inl e, sm2)
                     | (Inr _, sm2) \<Rightarrow> (Inr (), store_session n s sm2))"

definition updateSession :: "int \<Rightarrow> peer_session \<Rightarrow> session_manager \<Rightarrow> (js_error + unit) \<times> session_manager" where
  "updateSession time s sm =
     (case ps_sessionNonce s of
        None \<Rightarrow> (Inl (JsTypeError ''Invalid session: sessionNonce is required to update a session.''), sm)
      | Some n \<Rightarrow>
          if n = [] then (Inl (JsTypeError ''Invalid session: sessionNonce is required to update a session.''), sm)
          else addSession time s
            (case map_of (sm_sessions sm) n of None \<Rightarrow> sm | Some e \<Rightarrow> removeSessionIndexes e sm))"

subsection \<open>Lookup\<close>

definition better :: "peer_session \<Rightarrow> peer_session \<Rightarrow> bool" where
  "better s best \<longleftrightarrow>
     (ps_isAuthenticated s \<and> \<not> ps_isAuthenticated best) \<or>
     (ps_isAuthenticated s = ps_isAuthenticated best \<and>
        isAuthorizationReady s \<and> \<not> isAuthorizationReady best) \<or>
     (ps_isAuthenticated s = ps_isAuthenticated best \<and>
        isAuthorizationReady s = isAuthorizationReady best \<and> ps_lastUpdate s > ps_lastUpdate best)"

text \<open>The loop over the nonces of an identity: missing sessions are dropped from the set, expired
  ones removed from the store.\<close>

fun best_session ::
    "int \<Rightarrow> string \<Rightarrow> string list \<Rightarrow> peer_session option \<Rightarrow> session_manager \<Rightarrow>
     peer_session option \<times> session_manager" where
  "best_session now k [] best sm = (best, sm)"
| "best_session now k (n # ns) best sm =
     (case map_of (sm_sessions sm) n of
        None \<Rightarrow> best_session now k ns best
          (sm\<lparr>sm_identities := (sm_identities sm)(k := map_option (removeAll n) (sm_identities sm k))\<rparr>)
      | Some s \<Rightarrow>
          if isExpired sm s now then best_session now k ns best (removeSession s sm)
          else best_session now k ns
            (case best of None \<Rightarrow> Some s | Some b \<Rightarrow> if better s b then Some s else best) sm)"

definition lookup_identity ::
    "int \<Rightarrow> string \<Rightarrow> session_manager \<Rightarrow> (js_error + peer_session option) \<times> session_manager" where
  "lookup_identity now identifier sm =
     (case sm_identities sm identifier of
        None \<Rightarrow> (Inr None, sm)
      | Some ns \<Rightarrow> (case best_session now identifier ns None sm of (best, sm') \<Rightarrow> (Inr best, sm')))"

definition getSession ::
    "int \<Rightarrow> string \<Rightarrow> session_manager \<Rightarrow> (js_error + peer_session option) \<times> session_manager" where
  "getSession time identifier sm =
     (case currentTime time of Inl e \<Rightarrow> (Inl e, sm)
      | Inr now \<Rightarrow>
          (case map_of (sm_sessions sm) identifier of
             None \<Rightarrow> lookup_identity now identifier sm
           | Some d \<Rightarrow> if isExpired sm d now then lookup_identity now identifier (removeSession d sm)
                       else (Inr (Some d), sm)))"

definition hasSession :: "int \<Rightarrow> string \<Rightarrow> session_manager \<Rightarrow> (js_error + bool) \<times> session_manager" where
  "hasSession time identifier sm =
     (case getSession time identifier sm of
        (Inl e, sm') \<Rightarrow> (Inl e, sm')
      | (Inr s, sm') \<Rightarrow> (Inr (s \<noteq> None), sm'))"

subsection \<open>One-time nonces\<close>

definition claimMessageNonce ::
    "int \<Rightarrow> string \<Rightarrow> string \<Rightarrow> session_manager \<Rightarrow> (js_error + bool) \<times> session_manager" where
  "claimMessageNonce time sessionNonce messageNonce sm =
     (if sessionNonce = [] then (Inl (JsTypeError ''sessionNonce must be a non-empty string''), sm)
      else if messageNonce = [] then (Inl (JsTypeError ''messageNonce must be a non-empty string''), sm)
      else case getSession time sessionNonce sm of
        (Inl e, sm') \<Rightarrow> (Inl e, sm')
      | (Inr s, sm') \<Rightarrow>
          if s = None \<or> ps_sessionNonce (the s) \<noteq> Some sessionNonce
          then (Inl (JsError (''Session not found for nonce: '' @ sessionNonce)), sm')
          else
            let consumed = (case sm_consumed sm' sessionNonce of None \<Rightarrow> [] | Some c \<Rightarrow> c);
                sm1 = sm'\<lparr>sm_consumed := (sm_consumed sm')(sessionNonce \<mapsto> consumed)\<rparr>
            in if messageNonce \<in> set consumed then (Inr False, sm1)
               else if int (length consumed) \<ge> sm_maxMessageNonces sm'
               then (Inl (JsError ''BRC-103 session message nonce capacity exhausted''), sm1)
               else (Inr True, sm'\<lparr>sm_consumed :=
                      (sm_consumed sm')(sessionNonce \<mapsto> consumed @ [messageNonce])\<rparr>))"

definition claim_key :: "string \<Rightarrow> string \<Rightarrow> string" where
  "claim_key identityKey initialNonce = identityKey @ [CHR 0x00] @ initialNonce"

definition forget_oldest_of_identity :: "string \<Rightarrow> session_manager \<Rightarrow> session_manager" where
  "forget_oldest_of_identity identityKey sm =
     (let keys = (case sm_initial_keys sm identityKey of None \<Rightarrow> [] | Some ks \<Rightarrow> ks);
          sm' = sm\<lparr>sm_initial_keys := (sm_initial_keys sm)(identityKey \<mapsto> keys)\<rparr>
      in if int (length keys) \<ge> sm_maxInitialPerIdentity sm \<and> keys \<noteq> []
         then deleteInitialRequestNonce identityKey (hd keys) sm' else sm')"

definition forget_oldest :: "session_manager \<Rightarrow> session_manager" where
  "forget_oldest sm =
     (if int (length (sm_initial sm)) \<ge> sm_maxInitialNonces sm \<and> sm_initial sm \<noteq> []
      then let oldest = fst (hd (sm_initial sm))
           in deleteInitialRequestNonce (claim_identity oldest) oldest sm
      else sm)"

definition record_claim :: "string \<Rightarrow> string \<Rightarrow> int \<Rightarrow> session_manager \<Rightarrow> session_manager" where
  "record_claim identityKey key now sm =
     sm\<lparr>sm_initial := AList.update key now (sm_initial sm),
        sm_initial_keys := (sm_initial_keys sm)(identityKey \<mapsto>
          add_key (case sm_initial_keys sm identityKey of None \<Rightarrow> [] | Some ks \<Rightarrow> ks) key)\<rparr>"

definition claimInitialRequestNonce ::
    "int \<Rightarrow> string \<Rightarrow> string \<Rightarrow> session_manager \<Rightarrow> (js_error + bool) \<times> session_manager" where
  "claimInitialRequestNonce time identityKey initialNonce sm =
     (if identityKey = [] then (Inl (JsTypeError ''identityKey must be a non-empty string''), sm)
      else if initialNonce = [] then (Inl (JsTypeError ''initialNonce must be a non-empty string''), sm)
      else case currentTime time of Inl e \<Rightarrow> (Inl e, sm)
      | Inr now \<Rightarrow>
          let key = claim_key identityKey initialNonce
          in case map_of (sm_initial sm) key of
               Some claimedAt \<Rightarrow>
                 if claimedAt > now - sm_maxSessionIdleMs sm then (Inr False, sm)
                 else (Inr True, record_claim identityKey key now (forget_oldest
                        (forget_oldest_of_identity identityKey (deleteInitialRequestNonce identityKey key sm))))
             | None \<Rightarrow>
                 (Inr True, record_claim identityKey key now (forget_oldest
                    (forget_oldest_of_identity identityKey sm))))"

end
