(* ===== verification/Session_Invariants.thy ===== *)
theory Session_Invariants
  imports Session_Manager
begin

text \<open>
  What the session store keeps: its indexes agree with the sessions, its sets stay within their
  bounds, capacity never removes an authenticated session, a message nonce is accepted once in
  the life of a session, the lookup by identity returns a best session, and an unclaimed
  initial request is always accepted. The steps of the store are those of its methods, and
  changes that the owner of a stored session object makes to it in place.
\<close>

subsection \<open>An index from owners to the sets of what they own\<close>

definition index_ok :: "(string \<rightharpoonup> string) \<Rightarrow> (string \<rightharpoonup> string list) \<Rightarrow> bool" where
  "index_ok owner m \<longleftrightarrow>
     (\<forall>k. case m k of None \<Rightarrow> \<forall>x. owner x \<noteq> Some k
      | Some xs \<Rightarrow> xs \<noteq> [] \<and> distinct xs \<and> (\<forall>x. x \<in> set xs \<longleftrightarrow> owner x = Some k))"

lemma index_okD:
  assumes "index_ok owner m"
  shows "m k = Some xs \<Longrightarrow> xs \<noteq> [] \<and> distinct xs \<and> (\<forall>x. x \<in> set xs \<longleftrightarrow> owner x = Some k)"
    and "m k = None \<Longrightarrow> owner x \<noteq> Some k"
    and "owner x = Some k \<Longrightarrow> \<exists>xs. m k = Some xs \<and> x \<in> set xs"
proof -
  have *: "case m k of None \<Rightarrow> \<forall>x. owner x \<noteq> Some k
      | Some xs \<Rightarrow> xs \<noteq> [] \<and> distinct xs \<and> (\<forall>x. x \<in> set xs \<longleftrightarrow> owner x = Some k)"
    using assms unfolding index_ok_def by blast
  then show "m k = Some xs \<Longrightarrow> xs \<noteq> [] \<and> distinct xs \<and> (\<forall>x. x \<in> set xs \<longleftrightarrow> owner x = Some k)"
    and "m k = None \<Longrightarrow> owner x \<noteq> Some k"
    and "owner x = Some k \<Longrightarrow> \<exists>xs. m k = Some xs \<and> x \<in> set xs"
    by (auto split: option.splits)
qed

lemma index_drop:
  assumes "index_ok owner m" "owner x = Some k \<or> owner x = None"
  shows "index_ok (owner(x := None)) (drop_member m k x)"
  unfolding index_ok_def
proof
  fix j
  show "case drop_member m k x j of None \<Rightarrow> \<forall>y. (owner(x := None)) y \<noteq> Some j
      | Some xs \<Rightarrow> xs \<noteq> [] \<and> distinct xs \<and> (\<forall>y. y \<in> set xs \<longleftrightarrow> (owner(x := None)) y = Some j)"
  proof (cases "j = k \<and> m k \<noteq> None")
    case True
    then obtain xs where xs: "m k = Some xs" by auto
    note ok = index_okD(1)[OF assms(1) xs]
    from True xs show ?thesis using ok
      by (auto simp: drop_member_def distinct_removeAll) (metis empty_iff empty_set insert_Diff_single insert_absorb insert_iff set_removeAll)
  next
    case False
    then have "drop_member m k x j = m j" by (auto simp: drop_member_def split: option.splits)
    with False index_okD[OF assms(1), of j] assms(2) show ?thesis by (auto split: option.splits)
  qed
qed

lemma index_add:
  assumes "index_ok owner m" "owner x = None"
  shows "index_ok (owner(x \<mapsto> k)) (m(k \<mapsto> add_key (case m k of None \<Rightarrow> [] | Some xs \<Rightarrow> xs) x))"
  unfolding index_ok_def
proof
  fix j
  show "case (m(k \<mapsto> add_key (case m k of None \<Rightarrow> [] | Some xs \<Rightarrow> xs) x)) j of None \<Rightarrow> \<forall>y. (owner(x \<mapsto> k)) y \<noteq> Some j
      | Some xs \<Rightarrow> xs \<noteq> [] \<and> distinct xs \<and> (\<forall>y. y \<in> set xs \<longleftrightarrow> (owner(x \<mapsto> k)) y = Some j)"
    using index_okD[OF assms(1), of j] assms(2)
    by (cases "m j") (auto simp: add_key_def split: option.splits)
qed

lemma removeAll_length_less: "x \<in> set xs \<Longrightarrow> length (removeAll x xs) < length xs"
  by (rule length_removeAll_less)

subsection \<open>The invariant of the sessions\<close>

definition sessions_ok :: "session_manager \<Rightarrow> bool" where
  "sessions_ok sm \<longleftrightarrow>
     distinct (map fst (sm_sessions sm)) \<and> int (length (sm_sessions sm)) \<le> sm_maxSessions sm \<and>
     (\<forall>n s. map_of (sm_sessions sm) n = Some s \<longrightarrow> ps_sessionNonce s = Some n) \<and>
     index_ok (sm_nonce_identity sm) (sm_identities sm) \<and>
     dom (sm_nonce_identity sm) \<subseteq> dom (map_of (sm_sessions sm)) \<and>
     dom (sm_consumed sm) \<subseteq> dom (map_of (sm_sessions sm)) \<and>
     (\<forall>n c. sm_consumed sm n = Some c \<longrightarrow> distinct c \<and> int (length c) \<le> sm_maxMessageNonces sm) \<and>
     0 < sm_maxSessions sm \<and> 0 < sm_maxMessageNonces sm"

lemma sessions_okD:
  assumes "sessions_ok sm"
  shows "distinct (map fst (sm_sessions sm))" "map_of (sm_sessions sm) n = Some s \<Longrightarrow> ps_sessionNonce s = Some n"
    "index_ok (sm_nonce_identity sm) (sm_identities sm)" "dom (sm_nonce_identity sm) \<subseteq> dom (map_of (sm_sessions sm))"
    "dom (sm_consumed sm) \<subseteq> dom (map_of (sm_sessions sm))"
    "int (length (sm_sessions sm)) \<le> sm_maxSessions sm"
    "sm_consumed sm n = Some c \<Longrightarrow> distinct c \<and> int (length c) \<le> sm_maxMessageNonces sm"
    "0 < sm_maxSessions sm" "0 < sm_maxMessageNonces sm"
  using assms by (simp_all add: sessions_ok_def)

definition same_config :: "session_manager \<Rightarrow> session_manager \<Rightarrow> bool" where
  "same_config a b \<longleftrightarrow> sm_maxSessions a = sm_maxSessions b \<and> sm_maxSessionIdleMs a = sm_maxSessionIdleMs b \<and>
     sm_maxMessageNonces a = sm_maxMessageNonces b \<and> sm_maxInitialNonces a = sm_maxInitialNonces b \<and>
     sm_maxInitialPerIdentity a = sm_maxInitialPerIdentity b"

lemma removeSessionIndexes_fields [simp]:
  "sm_sessions (removeSessionIndexes s sm) = sm_sessions sm"
  "sm_consumed (removeSessionIndexes s sm) = sm_consumed sm"
  "sm_initial (removeSessionIndexes s sm) = sm_initial sm"
  "sm_initial_keys (removeSessionIndexes s sm) = sm_initial_keys sm"
  "sm_maxSessions (removeSessionIndexes s sm) = sm_maxSessions sm"
  "sm_maxSessionIdleMs (removeSessionIndexes s sm) = sm_maxSessionIdleMs sm"
  "sm_maxMessageNonces (removeSessionIndexes s sm) = sm_maxMessageNonces sm"
  "sm_maxInitialNonces (removeSessionIndexes s sm) = sm_maxInitialNonces sm"
  "sm_maxInitialPerIdentity (removeSessionIndexes s sm) = sm_maxInitialPerIdentity sm"
  by (simp_all add: removeSessionIndexes_def Let_def split: option.splits)

lemma removeSessionIndexes_nonce:
  "ps_sessionNonce s = Some n \<Longrightarrow> sm_nonce_identity (removeSessionIndexes s sm) = (sm_nonce_identity sm)(n := None)"
  by (simp add: removeSessionIndexes_def Let_def split: option.splits)

lemma removeSessionIndexes_index:
  assumes "index_ok (sm_nonce_identity sm) (sm_identities sm)"
  shows "index_ok (sm_nonce_identity (removeSessionIndexes s sm)) (sm_identities (removeSessionIndexes s sm))"
proof (cases "ps_sessionNonce s")
  case (Some n)
  show ?thesis
  proof (cases "sm_nonce_identity sm n")
    case None
    then have "(sm_nonce_identity sm)(n := None) = sm_nonce_identity sm" by auto
    with Some None assms show ?thesis by (simp add: removeSessionIndexes_def)
  next
    case k: (Some k)
    with index_drop[OF assms, of n k] Some show ?thesis by (simp add: removeSessionIndexes_def)
  qed
qed (simp add: removeSessionIndexes_def assms)

lemma removeSessionIndexes_ok: "sessions_ok sm \<Longrightarrow> sessions_ok (removeSessionIndexes s sm)"
proof (cases "ps_sessionNonce s")
  case (Some n)
  assume "sessions_ok sm"
  with removeSessionIndexes_index[of sm s] Some show ?thesis
    by (auto simp: sessions_ok_def removeSessionIndexes_nonce)
qed (simp add: removeSessionIndexes_def)

lemma map_of_delete [simp]: "map_of (AList.delete k xs) = (map_of xs)(k := None)"
  by (simp add: delete_conv')

lemma removeSession_effect:
  assumes "sessions_ok sm" "ps_sessionNonce s = Some n"
  shows "sm_sessions (removeSession s sm) = AList.delete n (sm_sessions sm)"
    "sm_consumed (removeSession s sm) = (sm_consumed sm)(n := None)"
    "sm_nonce_identity (removeSession s sm) = (sm_nonce_identity sm)(n := None)"
proof -
  show "sm_sessions (removeSession s sm) = AList.delete n (sm_sessions sm)"
    "sm_consumed (removeSession s sm) = (sm_consumed sm)(n := None)"
    using assms(2) by (simp_all add: removeSession_def Let_def split: option.splits)
  show "sm_nonce_identity (removeSession s sm) = (sm_nonce_identity sm)(n := None)"
  proof (cases "map_of (sm_sessions sm) n")
    case None
    with sessions_okD(4)[OF assms(1)] have "sm_nonce_identity sm n = None" by auto
    then show ?thesis using None assms(2) by (auto simp: removeSession_def)
  next
    case (Some e)
    from sessions_okD(2)[OF assms(1) Some] Some assms(2) show ?thesis
      by (simp add: removeSession_def removeSessionIndexes_nonce)
  qed
qed

lemma removeSession_fields [simp]:
  "sm_initial (removeSession s sm) = sm_initial sm" "sm_initial_keys (removeSession s sm) = sm_initial_keys sm"
  "sm_maxSessions (removeSession s sm) = sm_maxSessions sm"
  "sm_maxSessionIdleMs (removeSession s sm) = sm_maxSessionIdleMs sm"
  "sm_maxMessageNonces (removeSession s sm) = sm_maxMessageNonces sm"
  "sm_maxInitialNonces (removeSession s sm) = sm_maxInitialNonces sm"
  "sm_maxInitialPerIdentity (removeSession s sm) = sm_maxInitialPerIdentity sm"
  by (simp_all add: removeSession_def Let_def split: option.splits)

lemma removeSession_ok:
  assumes "sessions_ok sm"
  shows "sessions_ok (removeSession s sm)"
proof (cases "ps_sessionNonce s")
  case (Some n)
  have "index_ok (sm_nonce_identity (removeSession s sm)) (sm_identities (removeSession s sm))"
    using Some removeSessionIndexes_index sessions_okD(3)[OF assms]
    by (simp add: removeSession_def Let_def split: option.splits)
  with assms show ?thesis
    using length_delete_le[of n "sm_sessions sm"]
    by (auto simp: sessions_ok_def removeSession_effect[OF assms Some] distinct_delete)
qed (simp add: removeSession_def assms)

lemma store_session_fields [simp]:
  "sm_sessions (store_session n s sm) = AList.update n s (sm_sessions sm)"
  "sm_consumed (store_session n s sm) = sm_consumed sm"
  "sm_initial (store_session n s sm) = sm_initial sm" "sm_initial_keys (store_session n s sm) = sm_initial_keys sm"
  "sm_maxSessions (store_session n s sm) = sm_maxSessions sm"
  "sm_maxSessionIdleMs (store_session n s sm) = sm_maxSessionIdleMs sm"
  "sm_maxMessageNonces (store_session n s sm) = sm_maxMessageNonces sm"
  "sm_maxInitialNonces (store_session n s sm) = sm_maxInitialNonces sm"
  "sm_maxInitialPerIdentity (store_session n s sm) = sm_maxInitialPerIdentity sm"
  by (simp_all add: store_session_def Let_def split: option.splits)

lemma length_update: "length (AList.update k v xs) = (if k \<in> fst ` set xs then length xs else Suc (length xs))"
  by (induction xs) auto

lemma store_session_ok:
  assumes "sessions_ok sm" "ps_sessionNonce s = Some n" "sm_nonce_identity sm n = None"
    and "map_of (sm_sessions sm) n = None \<Longrightarrow> \<not> full sm"
  shows "sessions_ok (store_session n s sm)"
proof -
  have idx: "index_ok (sm_nonce_identity (store_session n s sm)) (sm_identities (store_session n s sm))"
    using sessions_okD(3)[OF assms(1)] index_add[OF sessions_okD(3)[OF assms(1)] assms(3)]
    by (simp add: store_session_def Let_def split: option.splits)
  have "int (length (AList.update n s (sm_sessions sm))) \<le> sm_maxSessions sm"
    using assms(4) sessions_okD(6)[OF assms(1)]
    by (auto simp: length_update full_def map_of_eq_None_iff)
  moreover have "dom (sm_nonce_identity (store_session n s sm)) \<subseteq> insert n (dom (sm_nonce_identity sm))"
    by (auto simp: store_session_def Let_def split: option.splits if_splits)
  then have "dom (sm_nonce_identity (store_session n s sm)) \<subseteq> dom (map_of (AList.update n s (sm_sessions sm)))"
    using sessions_okD(4)[OF assms(1)] unfolding update_conv' by auto
  ultimately show ?thesis using assms(1,2) idx
    by (auto simp: sessions_ok_def distinct_update update_conv')
qed

lemma isExpired_config: "sm_maxSessionIdleMs a = sm_maxSessionIdleMs b \<Longrightarrow> isExpired a s now = isExpired b s now"
  by (simp add: isExpired_def)

lemma pruneSessions_induct:
  assumes "Q sm" "\<And>n s sm'. (n, s) \<in> set (sm_sessions sm) \<Longrightarrow> isExpired sm s now \<Longrightarrow> Q sm' \<Longrightarrow> Q (removeSession s sm')"
  shows "Q (pruneSessions now sm)"
proof -
  have "Q sm' \<Longrightarrow> set es \<subseteq> set (sm_sessions sm) \<Longrightarrow>
      Q (foldl (\<lambda>sm' (n, s). if isExpired sm s now then removeSession s sm' else sm') sm' es)" for es sm'
  proof (induction es arbitrary: sm')
    case (Cons e es)
    obtain n s where e: "e = (n, s)" by (cases e)
    have "Q (if isExpired sm s now then removeSession s sm' else sm')"
      using Cons.prems assms(2)[of n s sm'] by (simp add: e)
    from Cons.IH[OF this] Cons.prems(2) show ?case by (simp add: e)
  qed simp
  with assms(1) show ?thesis by (simp add: pruneSessions_def)
qed

lemma pruneInitial_induct:
  assumes "Q sm" "\<And>k c sm'. (k, c) \<in> set (sm_initial sm) \<Longrightarrow> Q sm' \<Longrightarrow> Q (deleteInitialRequestNonce (claim_identity k) k sm')"
  shows "Q (pruneExpiredInitialRequestNonces now sm)"
proof -
  have "Q sm' \<Longrightarrow> set es \<subseteq> set (sm_initial sm) \<Longrightarrow>
      Q (foldl (\<lambda>sm (key, claimedAt). if claimedAt \<le> now - sm_maxSessionIdleMs sm
         then deleteInitialRequestNonce (claim_identity key) key sm else sm) sm' es)" for es sm'
  proof (induction es arbitrary: sm')
    case (Cons e es)
    obtain k c where e: "e = (k, c)" by (cases e)
    have "Q (if c \<le> now - sm_maxSessionIdleMs sm' then deleteInitialRequestNonce (claim_identity k) k sm' else sm')"
      using Cons.prems assms(2)[of k c sm'] by (simp add: e)
    from Cons.IH[OF this] Cons.prems(2) show ?case by (simp add: e)
  qed simp
  with assms(1) show ?thesis by (simp add: pruneExpiredInitialRequestNonces_def)
qed

lemma deleteInitial_fields [simp]:
  "sm_sessions (deleteInitialRequestNonce k x sm) = sm_sessions sm"
  "sm_identities (deleteInitialRequestNonce k x sm) = sm_identities sm"
  "sm_nonce_identity (deleteInitialRequestNonce k x sm) = sm_nonce_identity sm"
  "sm_consumed (deleteInitialRequestNonce k x sm) = sm_consumed sm"
  "sm_maxSessions (deleteInitialRequestNonce k x sm) = sm_maxSessions sm"
  "sm_maxSessionIdleMs (deleteInitialRequestNonce k x sm) = sm_maxSessionIdleMs sm"
  "sm_maxMessageNonces (deleteInitialRequestNonce k x sm) = sm_maxMessageNonces sm"
  "sm_maxInitialNonces (deleteInitialRequestNonce k x sm) = sm_maxInitialNonces sm"
  "sm_maxInitialPerIdentity (deleteInitialRequestNonce k x sm) = sm_maxInitialPerIdentity sm"
  by (simp_all add: deleteInitialRequestNonce_def)

text \<open>What the session part of a store holds, beside the window of initial requests.\<close>

definition session_part :: "session_manager \<Rightarrow>
    (string \<times> peer_session) list \<times> (string \<rightharpoonup> string list) \<times> (string \<rightharpoonup> string) \<times> (string \<rightharpoonup> string list) \<times> int \<times> int \<times> int" where
  "session_part sm = (sm_sessions sm, sm_identities sm, sm_nonce_identity sm, sm_consumed sm,
     sm_maxSessions sm, sm_maxSessionIdleMs sm, sm_maxMessageNonces sm)"

lemma sessions_ok_part: "session_part a = session_part b \<Longrightarrow> sessions_ok a = sessions_ok b"
  by (simp add: session_part_def sessions_ok_def)

lemma pruneInitial_part: "session_part (pruneExpiredInitialRequestNonces now sm) = session_part sm"
  by (rule pruneInitial_induct) (simp_all add: session_part_def)

lemma pruneSessions_ok: "sessions_ok sm \<Longrightarrow> sessions_ok (pruneSessions now sm)"
  by (rule pruneSessions_induct) (simp_all add: removeSession_ok)

lemma pruneExpired_ok: "sessions_ok sm \<Longrightarrow> sessions_ok (snd (pruneExpiredSessions now sm))"
  using sessions_ok_part[OF pruneInitial_part] pruneSessions_ok by (simp add: pruneExpiredSessions_def)

lemma older_step:
  assumes "older o1 e = Some s"
  shows "\<not> ps_isAuthenticated (snd e) \<Longrightarrow> ps_lastUpdate s \<le> ps_lastUpdate (snd e)"
    and "o1 = Some t \<Longrightarrow> ps_lastUpdate s \<le> ps_lastUpdate t"
    and "o1 = Some s \<or> s = snd e \<and> \<not> ps_isAuthenticated (snd e)"
  using assms by (auto simp: older_def split: option.splits if_splits)

lemma older_none: "foldl older None es = None \<Longrightarrow> (n, t) \<in> set es \<Longrightarrow> ps_isAuthenticated t"
proof (induction es rule: rev_induct)
  case (snoc e es)
  then have "older (foldl older None es) e = None" by simp
  then have "foldl older None es = None" "ps_isAuthenticated (snd e)"
    by (auto simp: older_def split: option.splits if_splits)
  with snoc show ?case by auto
qed simp

lemma older_props:
  "foldl older None es = Some s \<Longrightarrow> (\<exists>n. (n, s) \<in> set es) \<and> \<not> ps_isAuthenticated s \<and>
    (\<forall>(n, t) \<in> set es. \<not> ps_isAuthenticated t \<longrightarrow> ps_lastUpdate s \<le> ps_lastUpdate t)"
proof (induction es arbitrary: s rule: rev_induct)
  case (snoc e es)
  then have step: "older (foldl older None es) e = Some s" by simp
  show ?case
  proof (cases "foldl older None es")
    case None
    with older_step[OF step] older_none[OF None] show ?thesis by (cases e) auto
  next
    case (Some o1)
    note IH = snoc.IH[OF Some]
    have "ps_lastUpdate s \<le> ps_lastUpdate o1" by (rule older_step(2)[OF step Some])
    with IH have "\<forall>(n, t) \<in> set es. \<not> ps_isAuthenticated t \<longrightarrow> ps_lastUpdate s \<le> ps_lastUpdate t"
      by fastforce
    with IH older_step(1,3)[OF step] Some show ?thesis by (cases e) auto
  qed
qed simp

lemma evict_ok: "sessions_ok sm \<Longrightarrow> sessions_ok (snd (evictLeastRecentlyUsedSession sm))"
  by (simp add: evictLeastRecentlyUsedSession_def removeSession_ok split: option.splits)

lemma evict_makes_room:
  assumes "sessions_ok sm" "evictLeastRecentlyUsedSession sm = (Inr u, sm')"
  shows "\<not> full sm'"
proof -
  from assms(2) obtain s where s: "foldl older None (sm_sessions sm) = Some s" "sm' = removeSession s sm"
    by (auto simp: evictLeastRecentlyUsedSession_def split: option.splits)
  then obtain n where n: "(n, s) \<in> set (sm_sessions sm)" using older_props by blast
  then have "map_of (sm_sessions sm) n = Some s" using sessions_okD(1)[OF assms(1)] by simp
  from sessions_okD(2)[OF assms(1) this] have e: "sm_sessions sm' = AList.delete n (sm_sessions sm)"
    by (simp add: s(2) removeSession_effect(1)[OF assms(1)])
  have "length (removeAll n (map fst (sm_sessions sm))) < length (map fst (sm_sessions sm))"
    using n by (intro length_removeAll_less) (auto intro: rev_image_eqI)
  then have "length (AList.delete n (sm_sessions sm)) < length (sm_sessions sm)"
    by (metis delete_keys length_map)
  with e s(2) sessions_okD(6)[OF assms(1)] show ?thesis by (simp add: full_def)
qed

definition addable :: "int \<Rightarrow> peer_session \<Rightarrow> session_manager \<Rightarrow> bool" where
  "addable time s sm \<longleftrightarrow> ps_sessionNonce s \<noteq> None \<and> ps_sessionNonce s \<noteq> Some [] \<and>
     is_safe_integer (ps_lastUpdate s) \<and> 0 \<le> ps_lastUpdate s \<and> is_safe_integer time \<and> 0 \<le> time \<and>
     time - sm_maxSessionIdleMs sm < ps_lastUpdate s"

definition admit :: "int \<Rightarrow> string \<Rightarrow> peer_session \<Rightarrow> session_manager \<Rightarrow> (js_error + unit) \<times> session_manager" where
  "admit time n s sm = (case map_of (sm_sessions sm) n of
       Some e \<Rightarrow> (Inr (), store_session n s (removeSessionIndexes e sm))
     | None \<Rightarrow>
         let sm1 = (if full sm then snd (pruneExpiredSessions time sm) else sm)
         in case (if full sm1 then evictLeastRecentlyUsedSession sm1 else (Inr (), sm1)) of
              (Inl e, sm2) \<Rightarrow> (Inl e, sm2)
            | (Inr _, sm2) \<Rightarrow> (Inr (), store_session n s sm2))"

lemma addSession_addable:
  "addable time s sm \<Longrightarrow> ps_sessionNonce s = Some n \<Longrightarrow> addSession time s sm = admit time n s sm"
  by (auto simp: addSession_def addable_def admit_def currentTime_def)

lemma addSession_refused:
  assumes "\<not> addable time s sm"
  shows "\<exists>e. addSession time s sm = (Inl e, sm)"
proof (cases "ps_sessionNonce s")
  case (Some n)
  consider "n = []" | "n \<noteq> []" "\<not> is_safe_integer (ps_lastUpdate s) \<or> ps_lastUpdate s < 0"
    | "n \<noteq> []" "is_safe_integer (ps_lastUpdate s)" "0 \<le> ps_lastUpdate s" "\<not> is_safe_integer time \<or> time < 0"
    | "n \<noteq> []" "is_safe_integer (ps_lastUpdate s)" "0 \<le> ps_lastUpdate s" "is_safe_integer time" "0 \<le> time"
      "ps_lastUpdate s \<le> time - sm_maxSessionIdleMs sm"
    using assms Some unfolding addable_def by fastforce
  then show ?thesis by cases (simp_all add: addSession_def Some currentTime_def)
qed (simp add: addSession_def)

text \<open>The ways through \<open>addSession\<close>: an error before anything is stored, a replacement, or an
  insertion into a store with room.\<close>

lemma addSession_cases:
  assumes "addSession time s sm = (r, sm')"
  obtains (error) e where "r = Inl e" "sm' = sm"
    | (no_room) e where "r = Inl e" "full sm" "sm' = snd (pruneExpiredSessions time sm)"
    | (replaced) n e where "r = Inr ()" "ps_sessionNonce s = Some n" "map_of (sm_sessions sm) n = Some e"
        "sm' = store_session n s (removeSessionIndexes e sm)"
    | (inserted) n sm1 sm2 where "r = Inr ()" "ps_sessionNonce s = Some n" "map_of (sm_sessions sm) n = None"
        "sm1 = (if full sm then snd (pruneExpiredSessions time sm) else sm)"
        "(if full sm1 then evictLeastRecentlyUsedSession sm1 else (Inr (), sm1)) = (Inr (), sm2)"
        "sm' = store_session n s sm2"
proof (cases "addable time s sm")
  case False
  from addSession_refused[OF this] assms error show ?thesis by auto
next
  case True
  then obtain n where n: "ps_sessionNonce s = Some n" by (auto simp: addable_def)
  note body = addSession_addable[OF True n]
  show ?thesis
  proof (cases "map_of (sm_sessions sm) n")
    case (Some e)
    with assms n body replaced show ?thesis by (simp add: admit_def)
  next
    case None
    let ?sm1 = "if full sm then snd (pruneExpiredSessions time sm) else sm"
    obtain v sm2 where e: "(if full ?sm1 then evictLeastRecentlyUsedSession ?sm1 else (Inr (), ?sm1)) = (v, sm2)"
      by (cases "if full ?sm1 then evictLeastRecentlyUsedSession ?sm1 else (Inr (), ?sm1)")
    show ?thesis
    proof (cases v)
      case (Inl x)
      with e have "full ?sm1" "sm2 = ?sm1"
        by (auto simp: evictLeastRecentlyUsedSession_def split: option.splits if_splits)
      then have full: "full sm" "sm2 = snd (pruneExpiredSessions time sm)" by (auto split: if_splits)
      from assms body None e Inl have "r = Inl x" "sm' = sm2" by (simp_all only: admit_def Let_def option.case prod.case sum.case prod.inject)
      with full no_room show ?thesis by simp
    next
      case (Inr u)
      from assms body None e Inr have "r = Inr ()" "sm' = store_session n s sm2"
        by (simp_all only: admit_def Let_def option.case prod.case sum.case prod.inject)
      with n None e Inr inserted[OF _ n None refl] show ?thesis by simp
    qed
  qed
qed

lemma addSession_ok:
  assumes "sessions_ok sm"
  shows "sessions_ok (snd (addSession time s sm))"
proof -
  obtain r sm' where a: "addSession time s sm = (r, sm')" by (cases "addSession time s sm")
  then show ?thesis
  proof (cases rule: addSession_cases)
    case error
    with a assms show ?thesis by simp
  next
    case no_room
    with a pruneExpired_ok[OF assms] show ?thesis by simp
  next
    case (replaced n e)
    have e: "ps_sessionNonce e = Some n" by (rule sessions_okD(2)[OF assms replaced(3)])
    have "sessions_ok (store_session n s (removeSessionIndexes e sm))"
      using replaced(2,3) by (intro store_session_ok removeSessionIndexes_ok assms) (simp_all add: removeSessionIndexes_nonce[OF e])
    with a replaced show ?thesis by simp
  next
    case (inserted n sm1 sm2)
    have sm1: "sessions_ok sm1" using inserted(4) assms pruneExpired_ok by simp
    have sm2: "sessions_ok sm2 \<and> \<not> full sm2"
      using inserted(5) sm1 evict_ok[OF sm1] evict_makes_room[OF sm1] by (auto split: if_splits)
    have "map_of (sm_sessions sm2) n = None"
    proof -
      have sub: "dom (map_of (sm_sessions (snd (pruneExpiredSessions time sm)))) \<subseteq> dom (map_of (sm_sessions sm))"
      proof -
        have "sessions_ok (pruneSessions time sm) \<and> dom (map_of (sm_sessions (pruneSessions time sm))) \<subseteq> dom (map_of (sm_sessions sm))"
        proof (rule pruneSessions_induct)
          fix m t sm'
          assume "sessions_ok sm' \<and> dom (map_of (sm_sessions sm')) \<subseteq> dom (map_of (sm_sessions sm))"
          then show "sessions_ok (removeSession t sm') \<and> dom (map_of (sm_sessions (removeSession t sm'))) \<subseteq> dom (map_of (sm_sessions sm))"
            by (cases "ps_sessionNonce t") (auto simp: removeSession_ok removeSession_effect, auto simp: removeSession_def)
        qed (simp add: assms)
        then show ?thesis using pruneInitial_part[of time "pruneSessions time sm"]
          by (simp add: pruneExpiredSessions_def session_part_def)
      qed
      have evict: "dom (map_of (sm_sessions sm2)) \<subseteq> dom (map_of (sm_sessions sm1))"
        using inserted(5) sm1
        by (auto simp: evictLeastRecentlyUsedSession_def removeSession_def Let_def
            split: if_splits option.splits)
      have "dom (map_of (sm_sessions sm1)) \<subseteq> dom (map_of (sm_sessions sm))" using inserted(4) sub by simp
      with evict inserted(3) show ?thesis by auto
    qed
    then have "sm_nonce_identity sm2 n = None" using sessions_okD(4)[of sm2] sm2 by auto
    with sm2 inserted(2) have "sessions_ok (store_session n s sm2)" by (intro store_session_ok) simp_all
    with a inserted show ?thesis by simp
  qed
qed

lemma updateSession_ok: "sessions_ok sm \<Longrightarrow> sessions_ok (snd (updateSession time s sm))"
  by (simp add: updateSession_def addSession_ok removeSessionIndexes_ok split: option.splits)

text \<open>Under the invariant the loop over an identity's nonces never meets a missing session.\<close>

lemma best_session_ok:
  "sessions_ok sm \<Longrightarrow> set ns \<subseteq> dom (map_of (sm_sessions sm)) \<Longrightarrow> distinct ns \<Longrightarrow>
   sessions_ok (snd (best_session now k ns best sm))"
proof (induction ns arbitrary: best sm)
  case (Cons n ns)
  then obtain s where s: "map_of (sm_sessions sm) n = Some s" by auto
  note nonce = sessions_okD(2)[OF Cons.prems(1) s]
  show ?case
  proof (cases "isExpired sm s now")
    case True
    have "set ns \<subseteq> dom (map_of (sm_sessions (removeSession s sm)))"
      using Cons.prems(2,3) by (auto simp: removeSession_effect[OF Cons.prems(1) nonce])
    with Cons.IH[OF removeSession_ok[OF Cons.prems(1)] this] Cons.prems(3) True s show ?thesis by simp
  qed (use Cons s in simp)
qed simp

lemma nonces_present:
  assumes "sessions_ok sm" "sm_identities sm k = Some ns"
  shows "set ns \<subseteq> dom (map_of (sm_sessions sm))" "distinct ns" "ns \<noteq> []"
  using index_okD(1)[OF sessions_okD(3)[OF assms(1)] assms(2)] sessions_okD(4)[OF assms(1)] by auto

lemma lookup_identity_ok:
  assumes "sessions_ok sm"
  shows "sessions_ok (snd (lookup_identity now x sm))"
proof (cases "sm_identities sm x")
  case (Some ns)
  from best_session_ok[OF assms nonces_present(1,2)[OF assms Some], of now x None] Some show ?thesis
    by (simp add: lookup_identity_def case_prod_beta)
qed (simp add: lookup_identity_def assms)

lemma getSession_ok: "sessions_ok sm \<Longrightarrow> sessions_ok (snd (getSession time x sm))"
  by (simp add: getSession_def lookup_identity_ok removeSession_ok split: sum.splits option.splits)

subsection \<open>Operations that only remove sessions\<close>

text \<open>A session and its message nonces stay as they are, or go together; those that go satisfy \<open>P\<close>.\<close>

definition pruned :: "(peer_session \<Rightarrow> bool) \<Rightarrow> session_manager \<Rightarrow> session_manager \<Rightarrow> bool" where
  "pruned P a b \<longleftrightarrow> same_config a b \<and>
     (\<forall>n. map_of (sm_sessions b) n = map_of (sm_sessions a) n \<and> sm_consumed b n = sm_consumed a n \<or>
        map_of (sm_sessions b) n = None \<and> sm_consumed b n = None \<and>
        (\<exists>s. map_of (sm_sessions a) n = Some s \<and> P s))"

lemma pruned_refl [simp]: "pruned P a a"
  by (simp add: pruned_def same_config_def)

lemma pruned_trans: "pruned P a b \<Longrightarrow> pruned P b c \<Longrightarrow> pruned P a c"
  unfolding pruned_def same_config_def by (metis option.distinct(1))

lemma pruned_mono: "pruned P a b \<Longrightarrow> (\<And>s. P s \<Longrightarrow> Q s) \<Longrightarrow> pruned Q a b"
  unfolding pruned_def by metis

lemma prunedD:
  assumes "pruned P a b"
  shows "map_of (sm_sessions b) n = Some s \<Longrightarrow> map_of (sm_sessions a) n = Some s"
    and "map_of (sm_sessions a) n = Some s \<Longrightarrow> \<not> P s \<Longrightarrow> map_of (sm_sessions b) n = Some s"
    and "map_of (sm_sessions b) n \<noteq> None \<Longrightarrow> sm_consumed b n = sm_consumed a n"
    and "same_config a b"
  using assms unfolding pruned_def by (metis option.distinct(1) option.inject)+

lemma pruned_removeSession:
  assumes "sessions_ok sm" "map_of (sm_sessions sm) n = Some s" "P s"
  shows "pruned P sm (removeSession s sm)"
proof -
  from sessions_okD(2)[OF assms(1,2)] have "ps_sessionNonce s = Some n" .
  from removeSession_effect[OF assms(1) this] assms(2,3) show ?thesis
    by (auto simp: pruned_def same_config_def)
qed

lemma pruned_pruneSessions:
  assumes "sessions_ok sm"
  shows "pruned (\<lambda>s. isExpired sm s now) sm (pruneSessions now sm)"
proof -
  have "sessions_ok (pruneSessions now sm) \<and> pruned (\<lambda>s. isExpired sm s now) sm (pruneSessions now sm)"
  proof (rule pruneSessions_induct)
    fix n s sm'
    assume e: "(n, s) \<in> set (sm_sessions sm)" "isExpired sm s now"
      and Q: "sessions_ok sm' \<and> pruned (\<lambda>s. isExpired sm s now) sm sm'"
    from e(1) have s: "map_of (sm_sessions sm) n = Some s" using sessions_okD(1)[OF assms] by simp
    have nonce: "ps_sessionNonce s = Some n" by (rule sessions_okD(2)[OF assms s])
    have "pruned (\<lambda>s. isExpired sm s now) sm (removeSession s sm')"
      using conjunct2[OF Q] e(2) s unfolding pruned_def
      by (auto simp: removeSession_effect[OF conjunct1[OF Q] nonce] same_config_def)
    with Q show "sessions_ok (removeSession s sm') \<and> pruned (\<lambda>s. isExpired sm s now) sm (removeSession s sm')"
      by (simp add: removeSession_ok)
  qed (simp add: assms)
  then show ?thesis ..
qed

lemma pruned_part: "session_part a = session_part b \<Longrightarrow> same_config a b \<Longrightarrow> pruned P a b"
  by (simp add: pruned_def session_part_def)

lemma same_config_pruneInitial: "same_config sm (pruneExpiredInitialRequestNonces now sm)"
  by (rule pruneInitial_induct) (simp_all add: same_config_def)

lemma pruned_pruneExpired:
  assumes "sessions_ok sm"
  shows "pruned (\<lambda>s. isExpired sm s now) sm (snd (pruneExpiredSessions now sm))"
  unfolding pruneExpiredSessions_def snd_conv
  by (rule pruned_trans[OF pruned_pruneSessions[OF assms] pruned_part[OF pruneInitial_part[symmetric] same_config_pruneInitial]])

lemma pruned_evict:
  assumes "sessions_ok sm"
  shows "pruned (\<lambda>s. \<not> ps_isAuthenticated s) sm (snd (evictLeastRecentlyUsedSession sm))"
proof (cases "foldl older None (sm_sessions sm)")
  case (Some s)
  with older_props obtain n where "(n, s) \<in> set (sm_sessions sm)" "\<not> ps_isAuthenticated s" by blast
  with sessions_okD(1)[OF assms] Some show ?thesis
    by (auto simp: evictLeastRecentlyUsedSession_def intro!: pruned_removeSession[OF assms])
qed (simp add: evictLeastRecentlyUsedSession_def)

definition pick :: "peer_session option \<Rightarrow> peer_session \<Rightarrow> peer_session option" where
  "pick best s = (case best of None \<Rightarrow> Some s | Some b \<Rightarrow> if better s b then Some s else best)"

lemma best_session_effect:
  "sessions_ok sm \<Longrightarrow> set ns \<subseteq> dom (map_of (sm_sessions sm)) \<Longrightarrow> distinct ns \<Longrightarrow>
   pruned (\<lambda>s. isExpired sm s now) sm (snd (best_session now k ns best sm)) \<and>
   fst (best_session now k ns best sm) =
     foldl pick best (filter (\<lambda>s. \<not> isExpired sm s now) (map (\<lambda>n. the (map_of (sm_sessions sm) n)) ns))"
proof (induction ns arbitrary: best sm)
  case (Cons n ns)
  then obtain s where s: "map_of (sm_sessions sm) n = Some s" by auto
  note nonce = sessions_okD(2)[OF Cons.prems(1) s]
  show ?case
  proof (cases "isExpired sm s now")
    case True
    let ?sm = "removeSession s sm"
    have sub: "set ns \<subseteq> dom (map_of (sm_sessions ?sm))"
      using Cons.prems(2,3) by (auto simp: removeSession_effect[OF Cons.prems(1) nonce])
    have same: "map (\<lambda>n. the (map_of (sm_sessions ?sm) n)) ns = map (\<lambda>n. the (map_of (sm_sessions sm) n)) ns"
      using Cons.prems(3) by (auto simp: removeSession_effect[OF Cons.prems(1) nonce])
    have ex: "isExpired ?sm t now = isExpired sm t now" for t by (rule isExpired_config) simp
    have "pruned (\<lambda>s. isExpired sm s now) sm ?sm" using True by (intro pruned_removeSession[OF Cons.prems(1) s])
    with Cons.IH[OF removeSession_ok[OF Cons.prems(1)] sub] Cons.prems(3) True s show ?thesis
      unfolding ex same by (auto intro: pruned_trans)
  next
    case False
    with Cons.IH[OF Cons.prems(1)] Cons.prems(2,3) s show ?thesis by (simp add: pick_def)
  qed
qed simp

lemma pruned_lookup_identity:
  assumes "sessions_ok sm"
  shows "pruned (\<lambda>s. isExpired sm s now) sm (snd (lookup_identity now x sm))"
proof (cases "sm_identities sm x")
  case (Some ns)
  from best_session_effect[OF assms nonces_present(1,2)[OF assms Some], of now x None] Some show ?thesis
    by (simp add: lookup_identity_def case_prod_beta)
qed (simp add: lookup_identity_def)

lemma pruned_getSession:
  assumes "sessions_ok sm"
  shows "pruned (\<lambda>s. isExpired sm s time) sm (snd (getSession time x sm))"
proof (cases "currentTime time")
  case (Inr now)
  then have now: "now = time" by (simp add: currentTime_def split: if_splits)
  show ?thesis
  proof (cases "map_of (sm_sessions sm) x")
    case None
    with pruned_lookup_identity[OF assms] Inr now show ?thesis by (simp add: getSession_def)
  next
    case (Some d)
    show ?thesis
    proof (cases "isExpired sm d time")
      case True
      have ex: "isExpired (removeSession d sm) t time = isExpired sm t time" for t by (rule isExpired_config) simp
      from pruned_trans[OF pruned_removeSession[OF assms Some, of "\<lambda>s. isExpired sm s time"]
          pruned_lookup_identity[OF removeSession_ok[OF assms], of d time x, unfolded ex]] True Some Inr now
      show ?thesis by (simp add: getSession_def)
    qed (use Some Inr now in \<open>simp add: getSession_def\<close>)
  qed
qed (simp add: getSession_def)

subsection \<open>The best session\<close>

definition session_rank :: "peer_session \<Rightarrow> nat" where
  "session_rank s = of_bool (ps_isAuthenticated s) + of_bool (isAuthorizationReady s)"

lemma better_rank: "better s b \<longleftrightarrow>
    session_rank b < session_rank s \<or> session_rank b = session_rank s \<and> ps_lastUpdate b < ps_lastUpdate s"
  by (auto simp: better_def session_rank_def isAuthorizationReady_def)

lemma not_better_trans: "\<not> better a b \<Longrightarrow> better c b \<Longrightarrow> \<not> better a c"
  by (auto simp: better_rank)

lemma foldl_pick_Some:
  "foldl pick (Some b) xs \<noteq> None \<and>
   (\<forall>s. foldl pick (Some b) xs = Some s \<longrightarrow> s \<in> insert b (set xs) \<and> (\<forall>t \<in> insert b (set xs). \<not> better t s))"
proof (induction xs arbitrary: b)
  case (Cons x xs)
  have irrefl: "\<not> better a a" for a by (simp add: better_rank)
  show ?case
  proof (cases "better x b")
    case True
    have "\<not> better b s" if "\<not> better x s" for s using True that by (auto simp: better_rank)
    with Cons.IH[of x] True show ?thesis by (auto simp: pick_def)
  next
    case False
    have "\<not> better x s" if "\<not> better b s" for s using False that by (auto simp: better_rank)
    with Cons.IH[of b] False show ?thesis by (auto simp: pick_def)
  qed
qed (simp add: better_rank)

lemma foldl_pick:
  "foldl pick None xs = None \<longleftrightarrow> xs = []"
  "foldl pick None xs = Some s \<Longrightarrow> s \<in> set xs \<and> (\<forall>t \<in> set xs. \<not> better t s)"
  using foldl_pick_Some[of "hd xs" "tl xs"] by (cases xs; auto simp: pick_def)+

definition live_sessions :: "session_manager \<Rightarrow> string \<Rightarrow> int \<Rightarrow> peer_session set" where
  "live_sessions sm k now = {s. \<exists>n. sm_nonce_identity sm n = Some k \<and>
     map_of (sm_sessions sm) n = Some s \<and> \<not> isExpired sm s now}"

lemma lookup_identity_best:
  assumes "sessions_ok sm"
  shows "\<exists>r. fst (lookup_identity now k sm) = Inr r \<and>
    (case r of None \<Rightarrow> live_sessions sm k now = {}
     | Some s \<Rightarrow> s \<in> live_sessions sm k now \<and> (\<forall>t \<in> live_sessions sm k now. \<not> better t s))"
proof (cases "sm_identities sm k")
  case None
  then have "live_sessions sm k now = {}"
    using index_okD(2)[OF sessions_okD(3)[OF assms] None] by (auto simp: live_sessions_def)
  with None show ?thesis by (simp add: lookup_identity_def)
next
  case (Some ns)
  let ?live = "filter (\<lambda>s. \<not> isExpired sm s now) (map (\<lambda>n. the (map_of (sm_sessions sm) n)) ns)"
  note present = nonces_present[OF assms Some]
  have live: "set ?live = live_sessions sm k now"
    using index_okD(1)[OF sessions_okD(3)[OF assms] Some] present(1) by (force simp: live_sessions_def)
  have "fst (lookup_identity now k sm) = Inr (foldl pick None ?live)"
    using best_session_effect[OF assms present(1,2), of now k None] Some by (simp add: lookup_identity_def case_prod_beta)
  moreover have "case foldl pick None ?live of None \<Rightarrow> live_sessions sm k now = {}
     | Some s \<Rightarrow> s \<in> live_sessions sm k now \<and> (\<forall>t \<in> live_sessions sm k now. \<not> better t s)"
    unfolding live[symmetric]
    using foldl_pick(1)[of ?live] foldl_pick(2)[of ?live] by (cases "foldl pick None ?live") auto
  ultimately show ?thesis by blast
qed

lemma lookup_identity_nonce:
  assumes "sessions_ok sm" "lookup_identity now k sm = (Inr (Some s), sm')" "ps_sessionNonce s = Some n"
  shows "map_of (sm_sessions sm) n = Some s"
proof -
  from lookup_identity_best[OF assms(1), of now k] assms(2) have "s \<in> live_sessions sm k now" by auto
  then obtain m where m: "map_of (sm_sessions sm) m = Some s" by (auto simp: live_sessions_def)
  with sessions_okD(2)[OF assms(1) m] assms(3) show ?thesis by simp
qed

lemma getSession_nonce:
  assumes "sessions_ok sm" "getSession time n sm = (Inr (Some s), sm')" "ps_sessionNonce s = Some n"
  shows "map_of (sm_sessions sm') n = Some s \<and> sm' = sm \<and> \<not> isExpired sm s time"
proof (cases "currentTime time")
  case (Inl e)
  with assms(2) show ?thesis by (simp add: getSession_def)
next
  case (Inr now)
  then have now: "now = time" by (simp add: currentTime_def split: if_splits)
  show ?thesis
  proof (cases "map_of (sm_sessions sm) n")
    case None
    with assms Inr lookup_identity_nonce[OF assms(1) _ assms(3), of now n sm'] show ?thesis by (simp add: getSession_def)
  next
    case (Some d)
    show ?thesis
    proof (cases "isExpired sm d now")
      case True
      with assms(2) Inr Some have "lookup_identity now n (removeSession d sm) = (Inr (Some s), sm')" by (simp add: getSession_def)
      from lookup_identity_nonce[OF removeSession_ok[OF assms(1)] this assms(3)] show ?thesis
        by (simp add: removeSession_effect[OF assms(1) sessions_okD(2)[OF assms(1) Some]])
    qed (use assms(2) Inr Some now in \<open>simp add: getSession_def\<close>)
  qed
qed

subsection \<open>Message nonces\<close>

definition claimed :: "session_manager \<Rightarrow> string \<Rightarrow> string \<Rightarrow> bool" where
  "claimed sm n m \<longleftrightarrow> (\<exists>c. sm_consumed sm n = Some c \<and> m \<in> set c)"

text \<open>The outcomes of a claim: no session, a store whose set of consumed nonces is filled in, or
  one nonce more.\<close>

lemma claimMessageNonce_cases:
  assumes "sessions_ok sm" "claimMessageNonce time n m sm = (r, sm')"
  obtains (bad) e where "r = Inl e" "sm' = sm"
    | (absent) e where "r = Inl e" "sm' = snd (getSession time n sm)"
    | (known) s c where "map_of (sm_sessions sm) n = Some s" "\<not> isExpired sm s time"
        "c = (case sm_consumed sm n of None \<Rightarrow> [] | Some c \<Rightarrow> c)"
        "sm' = sm\<lparr>sm_consumed := (sm_consumed sm)(n \<mapsto> c)\<rparr>" "r = Inr False \<longleftrightarrow> m \<in> set c" "r \<noteq> Inr True"
    | (fresh) s c where "map_of (sm_sessions sm) n = Some s" "\<not> isExpired sm s time"
        "c = (case sm_consumed sm n of None \<Rightarrow> [] | Some c \<Rightarrow> c)" "m \<notin> set c" "int (length c) < sm_maxMessageNonces sm"
        "sm' = sm\<lparr>sm_consumed := (sm_consumed sm)(n \<mapsto> c @ [m])\<rparr>" "r = Inr True"
proof (cases "n = [] \<or> m = []")
  case True
  with assms(2) bad show ?thesis by (auto simp: claimMessageNonce_def split: if_splits)
next
  case False
  obtain g sm1 where g: "getSession time n sm = (g, sm1)" by (cases "getSession time n sm")
  show ?thesis
  proof (cases "\<exists>s. g = Inr (Some s) \<and> ps_sessionNonce s = Some n")
    case False
    with \<open>\<not> (n = [] \<or> m = [])\<close> assms(2) g absent show ?thesis
      by (auto simp: claimMessageNonce_def split: sum.splits if_splits)
  next
    case True
    then obtain s where s: "g = Inr (Some s)" "ps_sessionNonce s = Some n" by blast
    note st = getSession_nonce[OF assms(1) g[unfolded s(1)] s(2)]
    define c where "c = (case sm_consumed sm n of None \<Rightarrow> [] | Some c \<Rightarrow> c)"
    have eq: "claimMessageNonce time n m sm =
       (if m \<in> set c then (Inr False, sm\<lparr>sm_consumed := (sm_consumed sm)(n \<mapsto> c)\<rparr>)
        else if sm_maxMessageNonces sm \<le> int (length c)
        then (Inl (JsError ''BRC-103 session message nonce capacity exhausted''), sm\<lparr>sm_consumed := (sm_consumed sm)(n \<mapsto> c)\<rparr>)
        else (Inr True, sm\<lparr>sm_consumed := (sm_consumed sm)(n \<mapsto> c @ [m])\<rparr>))"
      using \<open>\<not> (n = [] \<or> m = [])\<close> g s st
      by (cases "sm_consumed sm n") (simp_all add: claimMessageNonce_def c_def Let_def)
    show ?thesis
    proof (cases "m \<in> set c \<or> sm_maxMessageNonces sm \<le> int (length c)")
      case True
      with eq assms(2) have "sm' = sm\<lparr>sm_consumed := (sm_consumed sm)(n \<mapsto> c)\<rparr>"
        "r = Inr False \<longleftrightarrow> m \<in> set c" "r \<noteq> Inr True" by (auto split: if_splits)
      with st known[OF _ _ c_def] show ?thesis by blast
    next
      case not: False
      with eq assms(2) have "sm' = sm\<lparr>sm_consumed := (sm_consumed sm)(n \<mapsto> c @ [m])\<rparr>" "r = Inr True" by simp_all
      with st not fresh[OF _ _ c_def] show ?thesis by force
    qed
  qed
qed

lemma consumed_update_ok:
  assumes "sessions_ok sm" "map_of (sm_sessions sm) n = Some s" "distinct c" "int (length c) \<le> sm_maxMessageNonces sm"
  shows "sessions_ok (sm\<lparr>sm_consumed := (sm_consumed sm)(n \<mapsto> c)\<rparr>)"
  using assms by (auto simp: sessions_ok_def)

lemma consumed_default:
  assumes "sessions_ok sm"
  shows "distinct (case sm_consumed sm n of None \<Rightarrow> [] | Some c \<Rightarrow> c)"
    "int (length (case sm_consumed sm n of None \<Rightarrow> [] | Some c \<Rightarrow> c)) \<le> sm_maxMessageNonces sm"
  using sessions_okD(7,9)[OF assms] by (auto split: option.splits)

lemma claimMessageNonce_ok:
  assumes "sessions_ok sm"
  shows "sessions_ok (snd (claimMessageNonce time n m sm))"
proof -
  obtain r sm' where c: "claimMessageNonce time n m sm = (r, sm')" by (cases "claimMessageNonce time n m sm")
  from assms c show ?thesis
  proof (cases rule: claimMessageNonce_cases)
    case absent
    with c getSession_ok[OF assms] show ?thesis by simp
  next
    case (known s cs)
    have "sessions_ok (sm\<lparr>sm_consumed := (sm_consumed sm)(n \<mapsto> cs)\<rparr>)"
      using consumed_default[OF assms, of n] known(3) by (intro consumed_update_ok[OF assms known(1)]) simp_all
    with c known show ?thesis by simp
  next
    case (fresh s cs)
    have "sessions_ok (sm\<lparr>sm_consumed := (sm_consumed sm)(n \<mapsto> cs @ [m])\<rparr>)"
      using consumed_default[OF assms, of n] fresh(3-5) by (intro consumed_update_ok[OF assms fresh(1)]) simp_all
    with c fresh show ?thesis by simp
  qed (use c assms in simp)
qed

subsection \<open>The window of initial requests\<close>

definition keys_of :: "(string \<rightharpoonup> string list) \<Rightarrow> string \<Rightarrow> string list" where
  "keys_of m k = (case m k of None \<Rightarrow> [] | Some ks \<Rightarrow> ks)"

text \<open>An index in which the set of \<open>k\<close> may be empty.\<close>

definition index_except :: "string \<Rightarrow> (string \<rightharpoonup> string) \<Rightarrow> (string \<rightharpoonup> string list) \<Rightarrow> bool" where
  "index_except k owner m \<longleftrightarrow> (\<forall>j. j \<noteq> k \<longrightarrow> m j \<noteq> Some []) \<and>
     (\<forall>j. distinct (keys_of m j) \<and> (\<forall>x. x \<in> set (keys_of m j) \<longleftrightarrow> owner x = Some j))"

lemma index_ok_except: "index_ok owner m \<longleftrightarrow> index_except k owner m \<and> m k \<noteq> Some []"
  unfolding index_ok_def index_except_def keys_of_def
  by (auto split: option.splits; metis option.exhaust empty_iff empty_set option.inject)

lemma keys_of_drop: "keys_of (drop_member m k x) j = (if j = k then removeAll x (keys_of m k) else keys_of m j)"
  by (auto simp: keys_of_def drop_member_def split: option.splits)

lemma drop_nonempty: "m j \<noteq> Some [] \<or> j = k \<Longrightarrow> drop_member m k x j \<noteq> Some []"
  by (auto simp: drop_member_def split: option.splits)

lemma except_drop:
  assumes "index_except i owner m" "owner x = Some k \<or> owner x = None"
  shows "index_except i (owner(x := None)) (drop_member m k x)"
proof -
  have "drop_member m k x j \<noteq> Some []" if "j \<noteq> i" for j
    using assms(1) that by (intro drop_nonempty) (auto simp: index_except_def)
  moreover have "distinct (keys_of (drop_member m k x) j) \<and>
      (\<forall>y. y \<in> set (keys_of (drop_member m k x) j) \<longleftrightarrow> (owner(x := None)) y = Some j)" for j
    using assms by (auto simp: keys_of_drop index_except_def distinct_removeAll)
  ultimately show ?thesis by (simp add: index_except_def)
qed

lemma keys_of_upd: "keys_of (m(k \<mapsto> ks)) j = (if j = k then ks else keys_of m j)"
  by (simp add: keys_of_def)

lemma except_touch: "index_except k owner m \<Longrightarrow> index_except k owner (m(k \<mapsto> keys_of m k))"
  by (auto simp: index_except_def keys_of_upd)

lemma except_add:
  assumes "index_except k owner m" "owner x = None"
  shows "index_ok (owner(x \<mapsto> k)) (m(k \<mapsto> add_key (keys_of m k) x))"
proof -
  have "index_except k (owner(x \<mapsto> k)) (m(k \<mapsto> add_key (keys_of m k) x))"
    using assms by (auto simp: index_except_def keys_of_upd add_key_def)
  then show ?thesis by (auto simp: index_ok_except[of _ _ k] add_key_def)
qed

definition claim_owner :: "session_manager \<Rightarrow> (string \<rightharpoonup> string)" where
  "claim_owner sm x = (if map_of (sm_initial sm) x = None then None else Some (claim_identity x))"

definition window_except :: "string \<Rightarrow> session_manager \<Rightarrow> bool" where
  "window_except k sm \<longleftrightarrow> distinct (map fst (sm_initial sm)) \<and>
     int (length (sm_initial sm)) \<le> sm_maxInitialNonces sm \<and>
     index_except k (claim_owner sm) (sm_initial_keys sm) \<and>
     (\<forall>j. int (length (keys_of (sm_initial_keys sm) j)) \<le> sm_maxInitialPerIdentity sm) \<and>
     0 < sm_maxInitialNonces sm \<and> 0 < sm_maxInitialPerIdentity sm"

definition window_ok :: "session_manager \<Rightarrow> bool" where
  "window_ok sm \<longleftrightarrow> (\<forall>k. window_except k sm \<and> sm_initial_keys sm k \<noteq> Some [])"

lemma claim_owner_delete: "claim_owner (deleteInitialRequestNonce k x sm) = (claim_owner sm)(x := None)"
  by (rule ext) (simp add: claim_owner_def deleteInitialRequestNonce_def)

lemma length_removeAll_le: "length (removeAll x xs) \<le> length xs"
  by (induction xs) (auto intro: le_SucI)

lemma int_removeAll_le: "int (length (removeAll x xs)) \<le> int (length xs)"
  by (simp add: length_removeAll_le)

lemma length_keys_drop: "int (length (keys_of (sm_initial_keys sm) j)) \<le> b \<Longrightarrow>
    int (length (keys_of (sm_initial_keys (deleteInitialRequestNonce k x sm)) j)) \<le> b"
  by (auto simp: deleteInitialRequestNonce_def keys_of_drop intro: order_trans[OF int_removeAll_le])

lemma window_delete:
  assumes "window_except i sm" "claim_owner sm x = Some k \<or> claim_owner sm x = None"
  shows "window_except i (deleteInitialRequestNonce k x sm)"
proof -
  have "index_except i ((claim_owner sm)(x := None)) (drop_member (sm_initial_keys sm) k x)"
    using assms by (intro except_drop) (simp_all add: window_except_def)
  moreover have "length (AList.delete x (sm_initial sm)) \<le> length (sm_initial sm)" by (rule length_delete_le)
  ultimately show ?thesis
    using assms(1) length_keys_drop[of sm _ _ k x]
    unfolding window_except_def claim_owner_delete
    by (simp add: deleteInitialRequestNonce_def distinct_delete)
qed

lemma window_delete_ok:
  assumes "window_ok sm" "claim_owner sm x = Some k \<or> claim_owner sm x = None"
  shows "window_ok (deleteInitialRequestNonce k x sm)"
  using assms window_delete[of _ sm x k] drop_nonempty[of "sm_initial_keys sm" _ k x]
  by (simp add: window_ok_def) (simp add: deleteInitialRequestNonce_def)

lemma window_prune:
  assumes "window_ok sm"
  shows "window_ok (pruneExpiredInitialRequestNonces now sm)"
proof (rule pruneInitial_induct[of window_ok])
  fix x c sm'
  assume "window_ok sm'"
  then show "window_ok (deleteInitialRequestNonce (claim_identity x) x sm')"
    by (rule window_delete_ok) (simp add: claim_owner_def)
qed (rule assms)

lemma window_forget_identity:
  assumes "window_ok sm"
  shows "window_except k (forget_oldest_of_identity k sm) \<and>
    int (length (keys_of (sm_initial_keys (forget_oldest_of_identity k sm)) k)) < sm_maxInitialPerIdentity sm \<and>
    (\<forall>x. claim_owner sm x = None \<longrightarrow> claim_owner (forget_oldest_of_identity k sm) x = None)"
proof -
  let ?keys = "keys_of (sm_initial_keys sm) k"
  let ?sm = "sm\<lparr>sm_initial_keys := (sm_initial_keys sm)(k \<mapsto> ?keys)\<rparr>"
  have w: "window_except k sm" using assms by (simp add: window_ok_def)
  have own: "claim_owner ?sm = claim_owner sm" by (rule ext) (simp add: claim_owner_def)
  have w': "window_except k ?sm"
    using w except_touch[of k "claim_owner sm" "sm_initial_keys sm"] by (simp add: window_except_def own keys_of_upd)
  have bound: "int (length ?keys) \<le> sm_maxInitialPerIdentity sm" "0 < sm_maxInitialPerIdentity sm"
    using w by (simp_all add: window_except_def)
  show ?thesis
  proof (cases "int (length ?keys) \<ge> sm_maxInitialPerIdentity sm \<and> ?keys \<noteq> []")
    case True
    let ?x = "hd ?keys"
    have f: "forget_oldest_of_identity k sm = deleteInitialRequestNonce k ?x ?sm"
      using True by (simp add: forget_oldest_of_identity_def Let_def keys_of_def[symmetric])
    have x: "?x \<in> set ?keys" using True by simp
    then have own_x: "claim_owner sm ?x = Some k"
      using w unfolding window_except_def index_except_def by blast
    have "length (removeAll ?x ?keys) < length ?keys" by (rule length_removeAll_less[OF x])
    with bound(1) have "int (length (removeAll ?x ?keys)) < sm_maxInitialPerIdentity sm" by simp
    moreover have "keys_of (sm_initial_keys (forget_oldest_of_identity k sm)) k = removeAll ?x ?keys"
      unfolding f by (simp add: deleteInitialRequestNonce_def keys_of_drop keys_of_upd)
    ultimately show ?thesis
      using window_delete[OF w', of ?x k] own_x unfolding f claim_owner_delete own by simp
  next
    case False
    then have "forget_oldest_of_identity k sm = ?sm"
      by (auto simp: forget_oldest_of_identity_def Let_def keys_of_def[symmetric])
    with w' False bound own show ?thesis by (auto simp: keys_of_upd)
  qed
qed

lemma deleteInitial_config: "same_config sm (deleteInitialRequestNonce k x sm)"
  by (simp add: same_config_def)

lemma window_forget_oldest:
  assumes "window_except k sm" "int (length (keys_of (sm_initial_keys sm) k)) < sm_maxInitialPerIdentity sm"
  shows "window_except k (forget_oldest sm) \<and> int (length (sm_initial (forget_oldest sm))) < sm_maxInitialNonces sm \<and>
    int (length (keys_of (sm_initial_keys (forget_oldest sm)) k)) < sm_maxInitialPerIdentity sm \<and>
    (\<forall>x. claim_owner sm x = None \<longrightarrow> claim_owner (forget_oldest sm) x = None)"
proof (cases "int (length (sm_initial sm)) \<ge> sm_maxInitialNonces sm \<and> sm_initial sm \<noteq> []")
  case True
  let ?x = "fst (hd (sm_initial sm))"
  have f: "forget_oldest sm = deleteInitialRequestNonce (claim_identity ?x) ?x sm"
    using True by (simp add: forget_oldest_def Let_def)
  have mem: "?x \<in> set (map fst (sm_initial sm))" using True by auto
  have "length (removeAll ?x (map fst (sm_initial sm))) < length (map fst (sm_initial sm))"
    by (rule length_removeAll_less[OF mem])
  then have "length (AList.delete ?x (sm_initial sm)) < length (sm_initial sm)"
    by (metis delete_keys length_map)
  moreover have "int (length (sm_initial sm)) \<le> sm_maxInitialNonces sm" using assms(1) by (simp add: window_except_def)
  ultimately have "int (length (sm_initial (forget_oldest sm))) < sm_maxInitialNonces sm"
    unfolding f by (simp add: deleteInitialRequestNonce_def)
  moreover have "window_except k (forget_oldest sm)"
    unfolding f by (rule window_delete[OF assms(1)]) (simp add: claim_owner_def)
  moreover have "int (length (keys_of (sm_initial_keys (forget_oldest sm)) k)) < sm_maxInitialPerIdentity sm"
    using assms(2) unfolding f
    by (auto simp: deleteInitialRequestNonce_def keys_of_drop intro: le_less_trans[OF int_removeAll_le])
  ultimately show ?thesis unfolding f claim_owner_delete by simp
next
  case False
  then have "forget_oldest sm = sm" by (auto simp: forget_oldest_def Let_def)
  with False assms show ?thesis by (auto simp: window_except_def)
qed

lemma claim_identity_key: "CHR 0x00 \<notin> set k \<Longrightarrow> claim_identity (claim_key k n) = k"
  by (auto simp: claim_identity_def claim_key_def takeWhile_append)

lemma window_record:
  assumes "window_except k sm" "int (length (sm_initial sm)) < sm_maxInitialNonces sm"
    and "int (length (keys_of (sm_initial_keys sm) k)) < sm_maxInitialPerIdentity sm"
    and "claim_owner sm x = None" "claim_identity x = k"
  shows "window_ok (record_claim k x now sm)"
proof -
  let ?m = "(sm_initial_keys sm)(k \<mapsto> add_key (keys_of (sm_initial_keys sm) k) x)"
  have none: "map_of (sm_initial sm) x = None" using assms(4) by (simp add: claim_owner_def split: if_splits)
  have own: "claim_owner (record_claim k x now sm) = (claim_owner sm)(x \<mapsto> k)"
    using assms(5) by (auto simp: claim_owner_def record_claim_def update_conv')
  have "index_ok ((claim_owner sm)(x \<mapsto> k)) ?m"
    using assms(1,4) by (intro except_add) (simp_all add: window_except_def)
  then have idx: "index_except j ((claim_owner sm)(x \<mapsto> k)) ?m \<and> ?m j \<noteq> Some []" for j
    by (simp add: index_ok_except[of _ _ j])
  have len: "length (AList.update x now (sm_initial sm)) = Suc (length (sm_initial sm))"
    using none by (simp add: length_update map_of_eq_None_iff)
  have keys: "int (length (keys_of ?m j)) \<le> sm_maxInitialPerIdentity sm" for j
    using assms(1,3) by (auto simp: keys_of_upd add_key_def window_except_def)
  have fields: "sm_initial (record_claim k x now sm) = AList.update x now (sm_initial sm)"
    "sm_initial_keys (record_claim k x now sm) = ?m"
    "sm_maxInitialNonces (record_claim k x now sm) = sm_maxInitialNonces sm"
    "sm_maxInitialPerIdentity (record_claim k x now sm) = sm_maxInitialPerIdentity sm"
    by (simp_all add: record_claim_def keys_of_def)
  show ?thesis
    unfolding window_ok_def window_except_def own fields
    using idx keys assms(1,2) len by (auto simp: window_except_def distinct_update)
qed

lemma forget_config:
  "same_config sm (forget_oldest_of_identity k sm)" "same_config sm (forget_oldest sm)"
  by (simp_all add: same_config_def forget_oldest_of_identity_def forget_oldest_def Let_def split: option.splits)

text \<open>The claim itself, on a store that does not know the key.\<close>

definition enter_claim :: "string \<Rightarrow> string \<Rightarrow> int \<Rightarrow> session_manager \<Rightarrow> session_manager" where
  "enter_claim k x now sm = record_claim k x now (forget_oldest (forget_oldest_of_identity k sm))"

lemma window_enter:
  assumes "window_ok sm" "claim_owner sm x = None" "claim_identity x = k"
  shows "window_ok (enter_claim k x now sm)"
proof -
  let ?a = "forget_oldest_of_identity k sm"
  note a = window_forget_identity[OF assms(1), of k]
  have cfg: "sm_maxInitialPerIdentity ?a = sm_maxInitialPerIdentity sm" using forget_config(1)[of sm k] by (simp add: same_config_def)
  have cfg2: "sm_maxInitialNonces (forget_oldest ?a) = sm_maxInitialNonces ?a"
    "sm_maxInitialPerIdentity (forget_oldest ?a) = sm_maxInitialPerIdentity ?a"
    using forget_config(2)[of ?a] by (simp_all add: same_config_def)
  have b: "int (length (keys_of (sm_initial_keys ?a) k)) < sm_maxInitialPerIdentity ?a" using a cfg by simp
  note o1 = window_forget_oldest[OF conjunct1[OF a] b]
  show ?thesis unfolding enter_claim_def
    using o1 a assms(2) cfg cfg2 by (intro window_record[OF _ _ _ _ assms(3)]) simp_all
qed

text \<open>The claim in one formula.\<close>

definition recently_claimed :: "session_manager \<Rightarrow> string \<Rightarrow> int \<Rightarrow> bool" where
  "recently_claimed sm key now \<longleftrightarrow>
     (\<exists>c. map_of (sm_initial sm) key = Some c \<and> now - sm_maxSessionIdleMs sm < c)"

lemma claimInitial_eq:
  assumes "k \<noteq> []" "n \<noteq> []" "currentTime time = Inr time"
  shows "claimInitialRequestNonce time k n sm =
    (if recently_claimed sm (claim_key k n) time then (Inr False, sm)
     else (Inr True, enter_claim k (claim_key k n) time
       (if map_of (sm_initial sm) (claim_key k n) = None then sm else deleteInitialRequestNonce k (claim_key k n) sm)))"
  using assms
  by (auto simp: claimInitialRequestNonce_def recently_claimed_def enter_claim_def Let_def split: option.splits)

lemma claimInitial_error: "k = [] \<or> n = [] \<or> currentTime time \<noteq> Inr time \<Longrightarrow> snd (claimInitialRequestNonce time k n sm) = sm"
  by (auto simp: claimInitialRequestNonce_def currentTime_def split: if_splits)

lemma claimInitial_window:
  assumes "window_ok sm" "CHR 0x00 \<notin> set k"
  shows "window_ok (snd (claimInitialRequestNonce time k n sm))"
proof (cases "k = [] \<or> n = [] \<or> currentTime time \<noteq> Inr time")
  case True
  with assms(1) claimInitial_error[OF True] show ?thesis by simp
next
  case False
  let ?key = "claim_key k n"
  let ?sm = "if map_of (sm_initial sm) ?key = None then sm else deleteInitialRequestNonce k ?key sm"
  have id: "claim_identity ?key = k" by (rule claim_identity_key[OF assms(2)])
  have "window_ok ?sm \<and> claim_owner ?sm ?key = None"
    using assms(1) window_delete_ok[OF assms(1), of ?key k] id
    by (auto simp: claim_owner_delete) (auto simp: claim_owner_def)
  then have "window_ok (enter_claim k ?key time ?sm)" using id by (intro window_enter) simp_all
  with assms(1) claimInitial_eq[of k n time sm] False show ?thesis by auto
qed

subsection \<open>The steps of the store\<close>

datatype store_op =
    Add_session peer_session | Update_session peer_session | Remove_session peer_session
  | Get_session string | Claim_message string string | Claim_initial string string
  | Prune_expired | In_place string peer_session

text \<open>\<open>In_place n s\<close>: the owner of the object stored under \<open>n\<close> changes its fields, not its nonce.\<close>

definition in_place :: "string \<Rightarrow> peer_session \<Rightarrow> session_manager \<Rightarrow> session_manager" where
  "in_place n s sm =
     (if map_of (sm_sessions sm) n \<noteq> None \<and> ps_sessionNonce s = Some n
      then sm\<lparr>sm_sessions := AList.update n s (sm_sessions sm)\<rparr> else sm)"

primrec apply_op :: "int \<Rightarrow> store_op \<Rightarrow> session_manager \<Rightarrow> session_manager" where
  "apply_op time (Add_session s) sm = snd (addSession time s sm)"
| "apply_op time (Update_session s) sm = snd (updateSession time s sm)"
| "apply_op time (Remove_session s) sm = removeSession s sm"
| "apply_op time (Get_session x) sm = snd (getSession time x sm)"
| "apply_op time (Claim_message n m) sm = snd (claimMessageNonce time n m sm)"
| "apply_op time (Claim_initial k n) sm = snd (claimInitialRequestNonce time k n sm)"
| "apply_op time Prune_expired sm = snd (pruneExpiredSessions time sm)"
| "apply_op time (In_place n s) sm = in_place n s sm"

text \<open>Identity keys are hexadecimal, so they hold no NUL.\<close>

definition plain_op :: "store_op \<Rightarrow> bool" where
  "plain_op op \<longleftrightarrow> (case op of Claim_initial k n \<Rightarrow> CHR 0x00 \<notin> set k | _ \<Rightarrow> True)"

inductive reachable_store :: "session_manager \<Rightarrow> bool" where
  created: "new_SessionManager a b c d e = Inr sm \<Longrightarrow> reachable_store sm"
| stepped: "reachable_store sm \<Longrightarrow> plain_op op \<Longrightarrow> reachable_store (apply_op time op sm)"

definition window_part :: "session_manager \<Rightarrow> (string \<times> int) list \<times> (string \<rightharpoonup> string list) \<times> int \<times> int" where
  "window_part sm = (sm_initial sm, sm_initial_keys sm, sm_maxInitialNonces sm, sm_maxInitialPerIdentity sm)"

lemma window_ok_part: "window_part a = window_part b \<Longrightarrow> window_ok a = window_ok b"
proof -
  assume w: "window_part a = window_part b"
  then have "claim_owner a = claim_owner b" by (intro ext) (simp add: window_part_def claim_owner_def)
  with w show ?thesis by (simp add: window_part_def window_ok_def window_except_def)
qed

lemma window_part_simps [simp]:
  "window_part (removeSession s sm) = window_part sm"
  "window_part (removeSessionIndexes s sm) = window_part sm"
  "window_part (store_session n s sm) = window_part sm"
  "window_part (in_place n s sm) = window_part sm"
  "window_part (sm\<lparr>sm_consumed := c\<rparr>) = window_part sm"
  "window_part (sm\<lparr>sm_identities := i\<rparr>) = window_part sm"
  by (simp_all add: window_part_def in_place_def)

lemma window_part_best [simp]: "window_part (snd (best_session now k ns best sm)) = window_part sm"
  by (induction ns arbitrary: best sm) (auto split: option.splits)

lemma window_part_lookup [simp]: "window_part (snd (lookup_identity now k sm)) = window_part sm"
  by (simp add: lookup_identity_def case_prod_beta split: option.splits)

lemma window_part_get [simp]: "window_part (snd (getSession time x sm)) = window_part sm"
  by (simp add: getSession_def split: option.splits sum.splits)

lemma window_part_evict [simp]: "window_part (snd (evictLeastRecentlyUsedSession sm)) = window_part sm"
  by (simp add: evictLeastRecentlyUsedSession_def split: option.splits)

lemma window_part_prune [simp]: "window_part (pruneSessions now sm) = window_part sm"
  by (rule pruneSessions_induct) simp_all

lemma window_pruneExpired: "window_ok sm \<Longrightarrow> window_ok (snd (pruneExpiredSessions now sm))"
  using window_prune window_ok_part[OF window_part_prune] by (simp add: pruneExpiredSessions_def)

lemma window_addSession:
  assumes "window_ok sm"
  shows "window_ok (snd (addSession time s sm))"
proof -
  obtain r sm' where a: "addSession time s sm = (r, sm')" by (cases "addSession time s sm")
  then show ?thesis
  proof (cases rule: addSession_cases)
    case (inserted n sm1 sm2)
    have "window_ok sm1" using inserted(4) assms window_pruneExpired by simp
    moreover have "window_part sm2 = window_part sm1"
    proof (cases "full sm1")
      case True
      with inserted(5) have "sm2 = snd (evictLeastRecentlyUsedSession sm1)" by simp
      then show ?thesis by simp
    qed (use inserted(5) in simp)
    ultimately have "window_ok sm'" using window_ok_part[of sm' sm1] inserted(6) by simp
    with a show ?thesis by simp
  next
    case (replaced n e)
    then have "window_part sm' = window_part sm" by simp
    with a window_ok_part assms show ?thesis by (metis snd_conv)
  qed (use a assms window_pruneExpired in simp_all)
qed

lemma window_claimMessage:
  assumes "window_ok sm"
  shows "window_ok (snd (claimMessageNonce time n m sm))"
proof -
  have "window_part (snd (claimMessageNonce time n m sm)) = window_part sm"
  proof -
    obtain r sm1 where g: "getSession time n sm = (r, sm1)" by (cases "getSession time n sm")
    then have "sm1 = snd (getSession time n sm)" by simp
    then have "window_part sm1 = window_part sm" by simp
    with g show ?thesis by (auto simp: claimMessageNonce_def Let_def split: sum.splits)
  qed
  with assms window_ok_part show ?thesis by metis
qed

lemma window_step: "window_ok sm \<Longrightarrow> plain_op op \<Longrightarrow> window_ok (apply_op time op sm)"
proof (cases op)
  case (Update_session s)
  assume w: "window_ok sm"
  have "window_ok (removeSessionIndexes e sm)" for e using w window_ok_part[of "removeSessionIndexes e sm" sm] by simp
  with w Update_session show ?thesis by (simp add: updateSession_def window_addSession split: option.splits)
next
  case (Remove_session s)
  assume "window_ok sm"
  with Remove_session window_ok_part[of "removeSession s sm" sm] show ?thesis by simp
next
  case (Get_session x)
  assume "window_ok sm"
  with Get_session window_ok_part[of "snd (getSession time x sm)" sm] show ?thesis by simp
next
  case (In_place n s)
  assume "window_ok sm"
  with In_place window_ok_part[of "in_place n s sm" sm] show ?thesis by simp
next
  case (Claim_initial k n)
  assume "window_ok sm" "plain_op op"
  with Claim_initial show ?thesis by (simp add: claimInitial_window plain_op_def)
qed (simp_all add: window_addSession window_claimMessage window_pruneExpired)

lemma session_part_window [simp]:
  "session_part (deleteInitialRequestNonce k x sm) = session_part sm"
  "session_part (sm\<lparr>sm_initial_keys := m\<rparr>) = session_part sm"
  by (simp_all add: session_part_def)

lemma session_part_enter [simp]: "session_part (enter_claim k x now sm) = session_part sm"
proof -
  have "session_part (forget_oldest sm) = session_part sm" for sm by (simp add: forget_oldest_def Let_def)
  moreover have "session_part (forget_oldest_of_identity k sm) = session_part sm" by (simp add: forget_oldest_of_identity_def Let_def)
  moreover have "session_part (record_claim k x now sm) = session_part sm" for sm by (simp add: record_claim_def session_part_def)
  ultimately show ?thesis by (simp add: enter_claim_def)
qed

lemma claimInitial_part: "session_part (snd (claimInitialRequestNonce time k n sm)) = session_part sm"
proof (cases "k = [] \<or> n = [] \<or> currentTime time \<noteq> Inr time")
  case True
  then show ?thesis by (simp only: claimInitial_error)
qed (simp add: claimInitial_eq)

lemma in_place_ok:
  assumes "sessions_ok sm"
  shows "sessions_ok (in_place n s sm)"
proof (cases "map_of (sm_sessions sm) n \<noteq> None \<and> ps_sessionNonce s = Some n")
  case True
  then have "n \<in> fst ` set (sm_sessions sm)" by (simp add: map_of_eq_None_iff)
  with True assms show ?thesis
    by (auto simp: in_place_def sessions_ok_def update_conv' distinct_update length_update simp del: map_of_eq_Some_iff)
qed (auto simp: in_place_def assms)

lemma sessions_step: "sessions_ok sm \<Longrightarrow> sessions_ok (apply_op time op sm)"
  using sessions_ok_part[OF claimInitial_part]
  by (cases op) (simp_all add: addSession_ok updateSession_ok removeSession_ok getSession_ok claimMessageNonce_ok
      pruneExpired_ok in_place_ok)

lemma created_ok: "new_SessionManager a b c d e = Inr sm \<Longrightarrow> sessions_ok sm \<and> window_ok sm"
  by (auto simp: new_SessionManager_def and_then_eq_Inr positiveSafeInteger_def sessions_ok_def window_ok_def
      window_except_def index_ok_def index_except_def keys_of_def claim_owner_def split: if_splits)

lemma reachable_ok: "reachable_store sm \<Longrightarrow> sessions_ok sm \<and> window_ok sm"
  by (induction rule: reachable_store.induct) (simp_all add: created_ok sessions_step window_step)

subsection \<open>Admission\<close>

lemma removeSession_sessions:
  "ps_sessionNonce s = Some n \<Longrightarrow> sm_sessions (removeSession s sm) = AList.delete n (sm_sessions sm)"
  by (simp add: removeSession_def Let_def split: option.splits)

lemma pruneSessions_removes:
  assumes "sessions_ok sm" "map_of (sm_sessions sm) n = Some s" "isExpired sm s now"
  shows "map_of (sm_sessions (pruneSessions now sm)) n = None"
proof -
  let ?f = "\<lambda>sm' (n, s). if isExpired sm s now then removeSession s sm' else sm'"
  have dom: "dom (map_of (sm_sessions (?f sm' e))) \<subseteq> dom (map_of (sm_sessions sm'))" for sm' e
    by (cases e; cases "ps_sessionNonce (snd e)") (auto simp: removeSession_sessions, auto simp: removeSession_def)
  have doms: "dom (map_of (sm_sessions (foldl ?f sm' es))) \<subseteq> dom (map_of (sm_sessions sm'))" for sm' es
    by (induction es arbitrary: sm') (use dom in \<open>fastforce+\<close>)
  have "n \<notin> dom (map_of (sm_sessions (foldl ?f sm' es)))" if "(n, s) \<in> set es" for sm' es
    using that
  proof (induction es arbitrary: sm')
    case (Cons e es)
    show ?case
    proof (cases "e = (n, s)")
      case True
      have "n \<notin> dom (map_of (sm_sessions (?f sm' e)))"
        using True assms(3) sessions_okD(2)[OF assms(1,2)] by (simp add: removeSession_sessions)
      with doms[of "?f sm' e" es] show ?thesis by auto
    next
      case False
      with Cons show ?thesis by simp
    qed
  qed simp
  from this[OF map_of_SomeD[OF assms(2)], of sm] show ?thesis by (simp add: pruneSessions_def domIff)
qed

lemma sessions_card: "sessions_ok sm \<Longrightarrow> length (sm_sessions sm) = card (dom (map_of (sm_sessions sm)))"
  using sessions_okD(1)[of sm] distinct_card[of "map fst (sm_sessions sm)"] by (simp add: dom_map_of_conv_image_fst)

lemma pruned_length:
  assumes "pruned P a b" "sessions_ok a" "sessions_ok b" "map_of (sm_sessions a) n \<noteq> None" "map_of (sm_sessions b) n = None"
  shows "length (sm_sessions b) < length (sm_sessions a)"
proof -
  have "dom (map_of (sm_sessions b)) \<subset> dom (map_of (sm_sessions a))"
    using prunedD(1)[OF assms(1)] assms(4,5) by auto
  then show ?thesis
    using psubset_card_mono[OF finite_dom_map_of] by (simp add: sessions_card assms(2,3))
qed

lemma pruneExpired_sessions: "sm_sessions (snd (pruneExpiredSessions now sm)) = sm_sessions (pruneSessions now sm)"
  using pruneInitial_part[of now "pruneSessions now sm"] by (simp add: pruneExpiredSessions_def session_part_def)

lemma pruneExpired_full:
  assumes "sessions_ok sm" "map_of (sm_sessions sm) n = Some s" "isExpired sm s now"
  shows "\<not> full (snd (pruneExpiredSessions now sm))"
proof -
  let ?sm = "snd (pruneExpiredSessions now sm)"
  have "length (sm_sessions ?sm) < length (sm_sessions sm)"
    using pruned_length[OF pruned_pruneExpired[OF assms(1)] assms(1) pruneExpired_ok[OF assms(1)], of n now]
      pruneSessions_removes[OF assms] assms(2) by (simp add: pruneExpired_sessions)
  moreover have "sm_maxSessions ?sm = sm_maxSessions sm"
    using prunedD(4)[OF pruned_pruneExpired[OF assms(1)], of now] by (simp add: same_config_def)
  ultimately show ?thesis using sessions_okD(6)[OF assms(1)] by (simp add: full_def)
qed

definition admissible :: "int \<Rightarrow> peer_session \<Rightarrow> session_manager \<Rightarrow> bool" where
  "admissible time s sm \<longleftrightarrow> addable time s sm \<and>
     (map_of (sm_sessions sm) (the (ps_sessionNonce s)) \<noteq> None \<or> \<not> full sm \<or>
      list_ex (\<lambda>(n, t). isExpired sm t time \<or> \<not> ps_isAuthenticated t) (sm_sessions sm))"

lemma admission:
  assumes "sessions_ok sm"
  shows "fst (addSession time s sm) = Inr () \<longleftrightarrow> admissible time s sm"
proof (cases "addable time s sm")
  case False
  with addSession_refused[OF False] show ?thesis by (auto simp: admissible_def)
next
  case add: True
  then obtain n where n: "ps_sessionNonce s = Some n" by (auto simp: addable_def)
  note eq = addSession_addable[OF add n]
  show ?thesis
  proof (cases "map_of (sm_sessions sm) n = None \<and> full sm")
    case False
    with add n show ?thesis by (auto simp: eq admit_def admissible_def split: option.splits)
  next
    case True
    let ?sm = "snd (pruneExpiredSessions time sm)"
    note pr = pruned_pruneExpired[OF assms, of time]
    have ev: "evictLeastRecentlyUsedSession ?sm = (r, sm2) \<Longrightarrow> (\<exists>u. r = Inr u) \<longleftrightarrow> foldl older None (sm_sessions ?sm) \<noteq> None" for r sm2
      by (auto simp: evictLeastRecentlyUsedSession_def split: option.splits)
    obtain r sm2 where e: "evictLeastRecentlyUsedSession ?sm = (r, sm2)" by (cases "evictLeastRecentlyUsedSession ?sm")
    have "fst (addSession time s sm) = Inr () \<longleftrightarrow> \<not> full ?sm \<or> foldl older None (sm_sessions ?sm) \<noteq> None"
      using True ev[OF e] e by (auto simp: eq admit_def Let_def split: sum.splits)
    also have "\<dots> \<longleftrightarrow> list_ex (\<lambda>(n, t). isExpired sm t time \<or> \<not> ps_isAuthenticated t) (sm_sessions sm)"
    proof
      assume "\<not> full ?sm \<or> foldl older None (sm_sessions ?sm) \<noteq> None"
      then show "list_ex (\<lambda>(n, t). isExpired sm t time \<or> \<not> ps_isAuthenticated t) (sm_sessions sm)"
      proof
        assume nf: "\<not> full ?sm"
        have "\<exists>m. map_of (sm_sessions sm) m \<noteq> None \<and> map_of (sm_sessions ?sm) m = None"
        proof (rule ccontr)
          assume none: "\<not> ?thesis"
          have "dom (map_of (sm_sessions sm)) \<subseteq> dom (map_of (sm_sessions ?sm))"
          proof
            fix m
            assume "m \<in> dom (map_of (sm_sessions sm))"
            with none show "m \<in> dom (map_of (sm_sessions ?sm))" unfolding domIff by metis
          qed
          from card_mono[OF finite_dom_map_of this] have "length (sm_sessions sm) \<le> length (sm_sessions ?sm)"
            by (simp add: sessions_card assms pruneExpired_ok)
          with nf True prunedD(4)[OF pr] show False by (simp add: full_def same_config_def)
        qed
        then obtain m t where "map_of (sm_sessions sm) m = Some t" "isExpired sm t time"
          using prunedD(2)[OF pr] by (metis option.exhaust)
        then show ?thesis by (auto simp: list_ex_iff dest!: map_of_SomeD)
      next
        assume "foldl older None (sm_sessions ?sm) \<noteq> None"
        with older_props obtain t m where t: "(m, t) \<in> set (sm_sessions ?sm)" "\<not> ps_isAuthenticated t" by blast
        then have "map_of (sm_sessions ?sm) m = Some t"
          using sessions_okD(1)[OF pruneExpired_ok[OF assms]] by simp
        from prunedD(1)[OF pr this] t(2) show ?thesis by (auto simp: list_ex_iff dest!: map_of_SomeD)
      qed
    next
      assume "list_ex (\<lambda>(n, t). isExpired sm t time \<or> \<not> ps_isAuthenticated t) (sm_sessions sm)"
      then obtain m t where "(m, t) \<in> set (sm_sessions sm)" and t: "isExpired sm t time \<or> \<not> ps_isAuthenticated t"
        by (auto simp: list_ex_iff)
      then have m: "map_of (sm_sessions sm) m = Some t" using sessions_okD(1)[OF assms] by simp
      show "\<not> full ?sm \<or> foldl older None (sm_sessions ?sm) \<noteq> None"
      proof (cases "isExpired sm t time")
        case True
        from pruneExpired_full[OF assms m True] show ?thesis ..
      next
        case False
        from map_of_SomeD[OF prunedD(2)[OF pr m False]] older_none[of "sm_sessions ?sm" m t] t False
        show ?thesis by auto
      qed
    qed
    finally show ?thesis using True add n by (simp add: admissible_def)
  qed
qed

subsection \<open>What the steps keep\<close>

lemma addSession_keeps:
  assumes "sessions_ok sm" "addSession time t sm = (r, sm')" "map_of (sm_sessions sm) n = Some s"
    and "ps_isAuthenticated s" "\<not> isExpired sm s time" "ps_sessionNonce t \<noteq> Some n"
  shows "map_of (sm_sessions sm') n = Some s"
  using assms(2)
proof (cases rule: addSession_cases)
  case no_room
  with prunedD(2)[OF pruned_pruneExpired[OF assms(1)] assms(3), of time] assms(5) show ?thesis by simp
next
  case (replaced m e)
  with assms(3,6) show ?thesis by (auto simp: update_conv')
next
  case (inserted m sm1 sm2)
  have one: "map_of (sm_sessions sm1) n = Some s \<and> sessions_ok sm1"
    using inserted(4) prunedD(2)[OF pruned_pruneExpired[OF assms(1)] assms(3), of time] assms(1,3,5) pruneExpired_ok by simp
  have "map_of (sm_sessions sm2) n = Some s"
  proof (cases "full sm1")
    case True
    with inserted(5) have sm2: "sm2 = snd (evictLeastRecentlyUsedSession sm1)" by simp
    from prunedD(2)[OF pruned_evict[OF conjunct2[OF one]] conjunct1[OF one]] assms(4) show ?thesis by (simp add: sm2)
  qed (use inserted(5) one in simp)
  with inserted(2,6) assms(6) show ?thesis by (auto simp: update_conv')
qed (use assms(3) in simp)

text \<open>A message nonce stays claimed as long as its session is stored.\<close>

definition keeps_claims :: "session_manager \<Rightarrow> session_manager \<Rightarrow> bool" where
  "keeps_claims a b \<longleftrightarrow> (\<forall>n m. claimed a n m \<longrightarrow> map_of (sm_sessions b) n \<noteq> None \<longrightarrow> claimed b n m)"

lemma keeps_claims_pruned: "pruned P a b \<Longrightarrow> keeps_claims a b"
  using prunedD(3)[of P a b] by (simp add: keeps_claims_def claimed_def)

lemma claimed_stored: "sessions_ok sm \<Longrightarrow> claimed sm n m \<Longrightarrow> map_of (sm_sessions sm) n \<noteq> None"
  using sessions_okD(5)[of sm] by (auto simp: claimed_def)

lemma keeps_claims_addSession:
  assumes "sessions_ok sm" "addSession time t sm = (r, sm')"
  shows "keeps_claims sm sm'"
  using assms(2)
proof (cases rule: addSession_cases)
  case no_room
  with keeps_claims_pruned[OF pruned_pruneExpired[OF assms(1)]] show ?thesis by simp
next
  case (inserted m sm1 sm2)
  have one: "keeps_claims sm sm1 \<and> sessions_ok sm1 \<and> dom (map_of (sm_sessions sm1)) \<subseteq> dom (map_of (sm_sessions sm))"
    using inserted(4) keeps_claims_pruned[OF pruned_pruneExpired[OF assms(1)], of time] pruneExpired_ok[OF assms(1)] assms(1)
      prunedD(1)[OF pruned_pruneExpired[OF assms(1), of time]]
    by (cases "full sm") (auto simp: keeps_claims_def simp del: map_of_eq_Some_iff)
  have two: "keeps_claims sm1 sm2 \<and> dom (map_of (sm_sessions sm2)) \<subseteq> dom (map_of (sm_sessions sm1))"
  proof (cases "full sm1")
    case True
    with inserted(5) have sm2: "sm2 = snd (evictLeastRecentlyUsedSession sm1)" by simp
    from pruned_evict[of sm1] one have p: "pruned (\<lambda>s. \<not> ps_isAuthenticated s) sm1 sm2" by (simp add: sm2)
    from keeps_claims_pruned[OF p] prunedD(1)[OF p] show ?thesis by (auto simp del: map_of_eq_Some_iff)
  qed (use inserted(5) in \<open>simp add: keeps_claims_def\<close>)
  show ?thesis
    unfolding keeps_claims_def
  proof (intro allI impI)
    fix n x
    assume c: "claimed sm n x" "map_of (sm_sessions sm') n \<noteq> None"
    from claimed_stored[OF assms(1) c(1)] inserted(3) have "n \<noteq> m" by auto
    with c(2) inserted(6) have st2: "map_of (sm_sessions sm2) n \<noteq> None" by (simp add: update_conv')
    with two have "map_of (sm_sessions sm1) n \<noteq> None" by auto
    with one two c(1) st2 have "claimed sm2 n x" unfolding keeps_claims_def by blast
    with inserted(6) show "claimed sm' n x" by (simp add: claimed_def)
  qed
qed (simp_all add: keeps_claims_def claimed_def)

lemma keeps_claims_step:
  assumes "sessions_ok sm"
  shows "keeps_claims sm (apply_op time op sm)"
proof (cases op)
  case (Add_session s)
  with keeps_claims_addSession[OF assms] show ?thesis by (cases "addSession time s sm") simp
next
  case (Update_session s)
  have re: "keeps_claims sm (snd (addSession time s (removeSessionIndexes e sm)))" for e
    using keeps_claims_addSession[OF removeSessionIndexes_ok[OF assms], of time s e]
    by (cases "addSession time s (removeSessionIndexes e sm)") (simp add: keeps_claims_def claimed_def)
  moreover have "keeps_claims sm (snd (addSession time s sm))"
    using keeps_claims_addSession[OF assms] by (cases "addSession time s sm") simp
  moreover have "keeps_claims sm sm" by (simp add: keeps_claims_def)
  ultimately show ?thesis using Update_session by (simp add: updateSession_def split: option.splits)
next
  case (Remove_session s)
  then show ?thesis
    by (cases "ps_sessionNonce s")
      (auto simp: keeps_claims_def claimed_def removeSession_effect[OF assms], auto simp: removeSession_def)
next
  case (Get_session x)
  with keeps_claims_pruned[OF pruned_getSession[OF assms]] show ?thesis by simp
next
  case (Claim_message n m)
  obtain r sm' where c: "claimMessageNonce time n m sm = (r, sm')" by (cases "claimMessageNonce time n m sm")
  from assms c have "keeps_claims sm sm'"
  proof (cases rule: claimMessageNonce_cases)
    case absent
    with keeps_claims_pruned[OF pruned_getSession[OF assms]] show ?thesis by simp
  qed (auto simp: keeps_claims_def claimed_def split: option.splits)
  with c Claim_message show ?thesis by simp
next
  case (Claim_initial k n)
  with claimInitial_part[of time k n sm] show ?thesis by (simp add: keeps_claims_def claimed_def session_part_def)
next
  case Prune_expired
  with keeps_claims_pruned[OF pruned_pruneExpired[OF assms]] show ?thesis by simp
next
  case (In_place n s)
  then show ?thesis by (simp add: keeps_claims_def claimed_def in_place_def)
qed

text \<open>Steps during which the session of the nonce \<open>n\<close> stays stored.\<close>

inductive during_session :: "string \<Rightarrow> session_manager \<Rightarrow> session_manager \<Rightarrow> bool" for n where
  now: "during_session n sm sm"
| step: "during_session n a b \<Longrightarrow> map_of (sm_sessions (apply_op time op b)) n \<noteq> None \<Longrightarrow>
    during_session n a (apply_op time op b)"

lemma during_session_claimed:
  "during_session n a b \<Longrightarrow> sessions_ok a \<Longrightarrow> claimed a n m \<Longrightarrow> sessions_ok b \<and> claimed b n m"
  by (induction rule: during_session.induct) (use keeps_claims_step sessions_step in \<open>auto simp: keeps_claims_def\<close>)

lemma claimed_refused:
  assumes "sessions_ok sm" "claimed sm n m"
  shows "fst (claimMessageNonce time n m sm) \<noteq> Inr True"
proof -
  obtain r sm' where c: "claimMessageNonce time n m sm = (r, sm')" by (cases "claimMessageNonce time n m sm")
  from assms(1) c have "r \<noteq> Inr True"
    by (cases rule: claimMessageNonce_cases) (use assms(2) in \<open>auto simp: claimed_def\<close>)
  with c show ?thesis by simp
qed

subsection \<open>Properties\<close>



text \<open>C24: A message nonce is accepted at most once in the life of a session. After a claim of the
  nonce for the session, no later claim of it returns true while the session stays stored,
  whatever operations and changes to session objects come in between.\<close>

theorem message_nonce_once:
  assumes "reachable_store sm" "claimMessageNonce time n m sm = (Inr True, sm1)" "during_session n sm1 sm2"
  shows "fst (claimMessageNonce time' n m sm2) \<noteq> Inr True"
proof -
  have ok: "sessions_ok sm" using reachable_ok[OF assms(1)] ..
  have "claimed sm1 n m"
    using ok assms(2) by (cases rule: claimMessageNonce_cases) (auto simp: claimed_def)
  moreover have "sessions_ok sm1" using claimMessageNonce_ok[OF ok, of time n m] assms(2) by simp
  ultimately show ?thesis using during_session_claimed[OF assms(3)] claimed_refused by blast
qed



text \<open>An update that is refused takes the session out of the indexes: afterwards the stored session
  is no longer found by its identity key.\<close>

lemma refused_update_unindexes:
  assumes "sessions_ok sm" "map_of (sm_sessions sm) n = Some e" "sm_nonce_identity sm n = Some k"
    and "ps_sessionNonce s = Some n" "n \<noteq> []" "fst (updateSession time s sm) = Inl err"
  shows "map_of (sm_sessions (snd (updateSession time s sm))) n = Some e \<and>
    sm_nonce_identity (snd (updateSession time s sm)) n = None"
proof -
  let ?sm = "removeSessionIndexes e sm"
  have u: "updateSession time s sm = addSession time s ?sm" using assms(2,4,5) by (simp add: updateSession_def)
  have "\<not> addable time s ?sm"
  proof
    assume "addable time s ?sm"
    from addSession_addable[OF this assms(4)] u assms(2,6) show False by (simp add: admit_def)
  qed
  from addSession_refused[OF this] u have "snd (updateSession time s sm) = ?sm" by auto
  with assms(2) removeSessionIndexes_nonce[OF sessions_okD(2)[OF assms(1,2)], of sm] show ?thesis by simp
qed

subsection \<open>A small store\<close>

definition sample_session :: "string \<Rightarrow> bool \<Rightarrow> int \<Rightarrow> peer_session" where
  "sample_session n auth time = \<lparr>ps_isAuthenticated = auth, ps_sessionNonce = Some n, ps_peerNonce = None,
     ps_peerIdentityKey = Some ''key'', ps_lastUpdate = time, ps_certificatesRequired = None,
     ps_certificatesValidated = None\<rparr>"

definition sample_store :: session_manager where
  "sample_store = \<lparr>sm_sessions = [], sm_identities = Map.empty, sm_nonce_identity = Map.empty,
     sm_consumed = Map.empty, sm_initial = [], sm_initial_keys = Map.empty, sm_maxSessions = 1,
     sm_maxSessionIdleMs = 100, sm_maxMessageNonces = 5, sm_maxInitialNonces = 1, sm_maxInitialPerIdentity = 1\<rparr>"

definition one_session :: session_manager where
  "one_session = snd (addSession 50 (sample_session ''a'' True 40) sample_store)"

lemma sample_reachable: "reachable_store sample_store" "reachable_store one_session"
proof -
  show "reachable_store sample_store"
    by (rule reachable_store.created[of "Some 1" "Some 100" "Some 5" "Some 1" "Some 1"])
      (simp add: new_SessionManager_def positiveSafeInteger_def or_default_def is_safe_integer_def sample_store_def)
  from reachable_store.stepped[OF this, of "Add_session (sample_session ''a'' True 40)" 50] show "reachable_store one_session"
    by (simp add: one_session_def plain_op_def)
qed

lemma one_session_eq: "one_session = sample_store\<lparr>sm_sessions := [(''a'', sample_session ''a'' True 40)],
    sm_identities := [''key'' \<mapsto> [''a'']], sm_nonce_identity := [''a'' \<mapsto> ''key'']\<rparr>"
  by (simp add: one_session_def addSession_def sample_session_def sample_store_def currentTime_def is_safe_integer_def
      full_def store_session_def add_key_def)



lemma message_nonce_once_witness:
  "fst (claimMessageNonce 60 ''a'' ''x'' one_session) = Inr True \<and>
   fst (claimMessageNonce 61 ''a'' ''x'' (snd (claimMessageNonce 60 ''a'' ''x'' one_session))) \<noteq> Inr True"
proof -
  let ?c = "claimMessageNonce 60 ''a'' ''x'' one_session"
  have c: "fst ?c = Inr True"
    by (simp add: claimMessageNonce_def getSession_def currentTime_def is_safe_integer_def one_session_eq
        sample_store_def sample_session_def isExpired_def)
  then have "?c = (Inr True, snd ?c)" by (metis prod.collapse)
  from message_nonce_once[OF sample_reachable(2) this during_session.now] c show ?thesis by simp
qed



end
