(* ===== verification/Spec2Isabelle.thy ===== *)
theory Spec2Isabelle
  imports Big_Number Reader_Writer Writer_Uint8 Utils_Encoding Opcodes Script Transaction_Codec
    Transaction_Fees Signature_DER Signature_Hash Spend_State Spend_Checks Spend_Ops Spend_Run
    Spend_Numbers Spend_Programs Spend_Transaction Merkle_Path Merkle_Root Merkle_Proofs Beef Beef_Sort Beef_Verify Beef_Codec
    Session_Manager Session_Invariants
begin

text \<open>
  The core of the BSV TypeScript stack, as a library of theories. The repository is a set of
  packages around one kit, \<open>packages/sdk\<close>; this development models the parts of the kit that all
  the others rest on: numbers and byte codecs, scripts and their interpreter, transactions and
  their fees, signature hashes, Merkle paths and BEEF containers, and the session store of the
  authentication protocol. Paths below are relative to \<open>packages/sdk/src\<close>.

  How the parts interact. A transaction is written with a \<open>Writer\<close> or \<open>WriterUint8Array\<close> and read
  with a \<open>Reader\<close>; its scripts are lists of chunks with lazily parsed bytes. The interpreter runs
  an unlocking and a locking script over two stacks of byte vectors; the signature opcodes build
  a signature hash of the transaction, check the encodings and ask the ECDSA verification. A
  Merkle path computes a block's root from a transaction identifier and asks a chain tracker for
  it; a BEEF container holds transactions with their paths, sorts them by dependency and verifies
  that all of them rest on paths. The wallets and overlay servers of the other packages accept a
  transaction when this verification does. The session store keeps the state of the handshakes
  that the HTTP middleware and the overlay servers run.

  Theories, the code they model, and what their lemmas show.
  \<^item> \<open>TS_Prelude\<close>: bytes, the errors a method throws, computations as state in, error or value and
    state out (a JavaScript exception keeps the assignments made before it), an invariant calculus,
    little-endian bytes.
  \<^item> \<open>Big_Number\<close> (\<open>primitives/BigNumber.ts\<close>): sign-magnitude arithmetic, shifts, gcd and inverses,
    script numbers, compact bits. Each operation agrees with the integers; script numbers are
    read back; where compact bits are and are not.
  \<^item> \<open>Reader_Writer\<close>, \<open>Writer_Uint8\<close> (\<open>primitives/utils.ts\<close>, \<open>readVarIntNumStrict.ts\<close>,
    \<open>WriterUint8Array.ts\<close>): every method; the strict compact sizes accept exactly the canonical
    forms; the growable writer refines the list writer. The locales \<open>field_codec\<close>, \<open>stream_codec\<close>
    and \<open>canonical_codec\<close> state what a reader and a writer of a field promise; every field, script,
    leaf, level and entry interprets one of them, and the round trips rest on their facts.
  \<^item> \<open>Utils_Encoding\<close> (\<open>primitives/utils.ts\<close>, \<open>hex.ts\<close>): hexadecimal, base 64, base 58 with checksum.
  \<^item> \<open>Opcodes\<close>, \<open>Script\<close> (\<open>script/OP.ts\<close>, \<open>Script.ts\<close>, \<open>ScriptChunk.ts\<close>): chunks, parsing and
    serialisation with the three caches, editing, assembly. Caches are fresh after every method,
    parsing inverts serialisation and conversely, \<open>findAndDelete\<close> is a filter.
  \<^item> \<open>Transaction_Codec\<close>, \<open>Transaction_Fees\<close> (\<open>transaction/Transaction.ts\<close>): binary and extended
    formats, script offsets; fee and change. The parsers accept exactly what the writers write;
    a fee run spends what it may and loses nothing.
  \<^item> \<open>Signature_DER\<close>, \<open>Signature_Hash\<close> (\<open>primitives/Signature.ts\<close>, \<open>TransactionSignature.ts\<close>): DER
    and compact signatures; the two digest algorithms with their cache. The cache changes no
    result; the preimage determines what it commits to.
  \<^item> \<open>Spend_State\<close>, \<open>Spend_Checks\<close>, \<open>Spend_Ops\<close>, \<open>Spend_Run\<close>, \<open>Spend_Transaction\<close>
    (\<open>script/Spend.ts\<close>): the interpreter's state with its memory accounting, the rules of the
    flags, each opcode, the step and the loops, both validations. \<open>Spend_Numbers\<close> and
    \<open>Spend_Programs\<close> hold what the number opcodes compute, the memory invariant, the bound on the
    number of steps, and what a pay-to-public-key-hash pair of scripts proves.
  \<^item> \<open>Merkle_Path\<close> (\<open>transaction/MerklePath.ts\<close>, \<open>ChainTracker.ts\<close>), \<open>Merkle_Root\<close>,
    \<open>Merkle_Proofs\<close>: paths and their operations; the root against the tree of a block, the caches
    of the constructor, soundness of a proof up to a collision, the binary format, verification,
    combining and extracting.
  \<^item> \<open>Beef\<close> (\<open>transaction/Beef.ts\<close>, \<open>BeefTx.ts\<close>, \<open>BeefConstants.ts\<close>), \<open>Beef_Sort\<close>, \<open>Beef_Verify\<close>,
    \<open>Beef_Codec\<close>: containers; the linear sort equals the repeated scan it replaces and orders by
    dependency; what an accepted container rests on, and the containers it wrongly accepts; the
    atomic form is the dependency closure; the binary formats.
  \<^item> \<open>Session_Manager\<close> (\<open>auth/SessionManager.ts\<close>), \<open>Session_Invariants\<close>: the session store; its
    invariant over all reachable states, admission, one-time nonces, lookup, initial requests.

  State and errors. A class is a record of its fields; a method takes the record and returns it,
  with an error or a value. JavaScript numbers are integers where the code keeps them safe, with
  the checks for safe integers written out, and words where it works on bits. A \<open>Map\<close> whose order
  matters is an association list in insertion order, any other a partial function. Arrays that
  the code shares and changes in place are modelled in the interpreter, where a property depends
  on it, by the positions they are shared from.

  Parameters. Hash functions, public-key decoding and the ECDSA verification are arguments of the
  definitions that use them, the chain tracker is a record of two functions, the random
  draws of the change distribution are a function of their position, the clock is a number. Theorems that need something of a hash function say so:
  its output has 32 bytes, or is not empty, or two given strings do not collide.

  Termination and bounds. No definition uses fuel. The interpreter's loop is a total function
  with a measure on the position in the two scripts, and the number of steps is bounded by the
  number of chunks. The worklists of the BEEF sort and of the atomic closure end because each
  step uses up edges or positions. Parsers recurse on counts read from the bytes and stop at the
  end of the input.

  Not modelled. Curve arithmetic, hash functions and encryption, which the modelled code calls and
  does not contain. Parsed \<open>Transaction\<close> objects inside a BEEF, the merging of containers and the
  caches keyed by object identity: they need a store of shared mutable objects that none of the
  stated properties is about. The signing and verification loops of \<open>Transaction\<close>, the
  authentication peer, wallets, overlay servers, broadcasters and clients: they are asynchronous
  programs over networks, databases and user callbacks, most of whose behaviour is that of those
  services. The manifest lists every part with its reason.
\<close>

end
